(* ===== verification/Prelude.thy ===== *)
theory Prelude
  imports Main "HOL-Library.Word"
begin

text \<open>
  Shared vocabulary of the development: the machine integers of the C sources, little-endian
  loads and stores in byte buffers, and the state-and-error programs in which the stateful
  code is written, with a small weakest-precondition calculus for them.

  A C function that returns an error code and mutates memory on every path is a program
  \<open>'s \<Rightarrow> (('e + 'a) \<times> 's) option\<close>: \<open>None\<close> is a run that never returns (or, where a
  theory says so, a run that traps), \<open>Inl e\<close> an error return and \<open>Inr x\<close> a normal return,
  both with the state the C code leaves behind.  \<open>wp m Q E s\<close> says that \<open>m\<close> started in
  \<open>s\<close> returns and that the outcome satisfies \<open>Q\<close> (normal) or \<open>E\<close> (error): it is a total
  correctness statement.
\<close>

unbundle bit_operations_syntax

type_synonym u8 = "8 word"
type_synonym u16 = "16 word"
type_synonym u32 = "32 word"
type_synonym u64 = "64 word"

named_theorems wp_rules "weakest preconditions of the program constructors"
named_theorems le_simps "little-endian loads of stores"

subsection \<open>Little-endian access to byte buffers\<close>

definition rd16 :: "u8 list \<Rightarrow> nat \<Rightarrow> u16" where
  "rd16 b i = ucast (b ! i) OR push_bit 8 (ucast (b ! (i + 1)))"

definition rd32 :: "u8 list \<Rightarrow> nat \<Rightarrow> u32" where
  "rd32 b i = ucast (b ! i) OR push_bit 8 (ucast (b ! (i + 1)))
     OR push_bit 16 (ucast (b ! (i + 2))) OR push_bit 24 (ucast (b ! (i + 3)))"

definition rd64 :: "u8 list \<Rightarrow> nat \<Rightarrow> u64" where
  "rd64 b i = ucast (rd32 b i) OR push_bit 32 (ucast (rd32 b (i + 4)))"

definition wr16 :: "u8 list \<Rightarrow> nat \<Rightarrow> u16 \<Rightarrow> u8 list" where
  "wr16 b i v = b[i := ucast v, i + 1 := ucast (drop_bit 8 v)]"

definition wr32 :: "u8 list \<Rightarrow> nat \<Rightarrow> u32 \<Rightarrow> u8 list" where
  "wr32 b i v = b[i := ucast v, i + 1 := ucast (drop_bit 8 v),
     i + 2 := ucast (drop_bit 16 v), i + 3 := ucast (drop_bit 24 v)]"

text \<open>\<open>memcpy\<close> of a block into a buffer at an offset, and the block at an offset.\<close>

definition put_slice :: "'a list \<Rightarrow> nat \<Rightarrow> 'a list \<Rightarrow> 'a list" where
  "put_slice b i xs = take i b @ take (length b - i) xs @ drop (i + length xs) b"

definition slice :: "'a list \<Rightarrow> nat \<Rightarrow> nat \<Rightarrow> 'a list" where
  "slice b i n = take n (drop i b)"

lemma length_wr16 [simp]: "length (wr16 b i v) = length b"
  by (simp add: wr16_def)

lemma length_wr32 [simp]: "length (wr32 b i v) = length b"
  by (simp add: wr32_def)

lemma length_put_slice [simp]: "length (put_slice b i xs) = length b"
  by (auto simp: put_slice_def)

lemma length_slice [simp]: "length (slice b i n) = min n (length b - i)"
  by (simp add: slice_def)

lemma nth_put_slice:
  "j < length b \<Longrightarrow>
   put_slice b i xs ! j = (if i \<le> j \<and> j < i + length xs then xs ! (j - i) else b ! j)"
  by (auto simp: put_slice_def nth_append min_def)

lemma nth_slice: "j < n \<Longrightarrow> i + j < length b \<Longrightarrow> slice b i n ! j = b ! (i + j)"
  by (simp add: slice_def)

lemma slice_put_slice:
  "i + length xs \<le> length b \<Longrightarrow> slice (put_slice b i xs) i (length xs) = xs"
  by (rule nth_equalityI) (auto simp: nth_slice nth_put_slice)

lemma nth_wr16:
  "i + 1 < length b \<Longrightarrow> wr16 b i v ! j =
     (if j = i then ucast v else if j = i + 1 then ucast (drop_bit 8 v) else b ! j)"
  by (simp add: wr16_def nth_list_update)

lemma nth_wr32:
  "i + 3 < length b \<Longrightarrow> wr32 b i v ! j =
     (if j = i then ucast v else if j = i + 1 then ucast (drop_bit 8 v)
      else if j = i + 2 then ucast (drop_bit 16 v)
      else if j = i + 3 then ucast (drop_bit 24 v) else b ! j)"
  by (simp add: wr32_def nth_list_update)

lemma join16:
  fixes v :: u16
  shows "ucast (ucast v :: u8) OR push_bit 8 (ucast (ucast (drop_bit 8 v) :: u8)) = v"
  by (rule bit_word_eqI) (auto simp: bit_simps)

lemma join32:
  fixes v :: u32
  shows "ucast (ucast v :: u8) OR push_bit 8 (ucast (ucast (drop_bit 8 v) :: u8))
     OR push_bit 16 (ucast (ucast (drop_bit 16 v) :: u8))
     OR push_bit 24 (ucast (ucast (drop_bit 24 v) :: u8)) = v"
proof (rule bit_word_eqI)
  fix n assume n: "n < LENGTH(32)"
  then consider "n < 8" | "8 \<le> n" "n < 16" | "16 \<le> n" "n < 24" | "24 \<le> n" "n < 32"
    by fastforce
  then show "bit (ucast (ucast v :: u8) OR push_bit 8 (ucast (ucast (drop_bit 8 v) :: u8))
     OR push_bit 16 (ucast (ucast (drop_bit 16 v) :: u8))
     OR push_bit 24 (ucast (ucast (drop_bit 24 v) :: u8)) :: u32) n = bit v n"
    by cases (auto simp: bit_simps)
qed

lemma rd16_wr16 [le_simps]: "i + 1 < length b \<Longrightarrow> rd16 (wr16 b i v) i = v"
  by (simp add: rd16_def nth_wr16 join16)

lemma rd32_wr32 [le_simps]: "i + 3 < length b \<Longrightarrow> rd32 (wr32 b i v) i = v"
  by (simp add: rd32_def nth_wr32 join32)

lemma rd32_wr32_other [le_simps]:
  "i + 3 < length b \<Longrightarrow> j + 3 < i \<or> i + 3 < j \<Longrightarrow> rd32 (wr32 b i v) j = rd32 b j"
  by (auto simp: rd32_def nth_wr32)

lemma rd16_cong: "b ! i = c ! i \<Longrightarrow> b ! (i + 1) = c ! (i + 1) \<Longrightarrow> rd16 b i = rd16 c i"
  by (simp add: rd16_def)

lemma rd32_cong:
  "b ! i = c ! i \<Longrightarrow> b ! (i + 1) = c ! (i + 1) \<Longrightarrow> b ! (i + 2) = c ! (i + 2) \<Longrightarrow>
   b ! (i + 3) = c ! (i + 3) \<Longrightarrow> rd32 b i = rd32 c i"
  by (simp add: rd32_def)

text \<open>A fact about one byte can be checked on its 256 values.\<close>

lemma byte_cases: "list_all P (map word_of_nat [0..<256]) \<Longrightarrow> P (c :: u8)"
proof -
  assume "list_all P (map word_of_nat [0..<256])"
  moreover have "c = word_of_nat (unat c)" by simp
  moreover have "unat c < 256" using unsigned_less[of c, where ?'a = nat] by simp
  ultimately show "P c"
    by (metis (mono_tags, lifting) atLeastLessThan_iff imageI less_eq_nat.simps(1) list.pred_set
        list.set_map set_upt)
qed

lemma unat_ucast_u64: "unat (ucast (c :: u32) :: u64) = unat c"
proof -
  have "unat c < 2 ^ 64" using unsigned_less[of c, where ?'a = nat] by simp
  then show ?thesis by (simp add: unsigned_ucast_eq take_bit_nat_eq_self)
qed

lemma unat_u32: "n < 2 ^ 32 \<Longrightarrow> unat (word_of_nat n :: u32) = n"
  by (simp add: unat_of_nat take_bit_eq_mod)

lemma bit_0xff: "bit (0xff :: u8) n \<longleftrightarrow> n < 8"
proof -
  have "(0xff :: u8) = - 1" by simp
  then show ?thesis by (simp only: bit_minus_1_iff possible_bit_word) simp
qed

subsection \<open>Programs over a state, with error returns\<close>

type_synonym ('s, 'e, 'a) prog = "'s \<Rightarrow> (('e + 'a) \<times> 's) option"

definition ret :: "'a \<Rightarrow> ('s, 'e, 'a) prog" where
  "ret x = (\<lambda>s. Some (Inr x, s))"

definition throw :: "'e \<Rightarrow> ('s, 'e, 'a) prog" where
  "throw e = (\<lambda>s. Some (Inl e, s))"

definition diverge :: "('s, 'e, 'a) prog" where
  "diverge = (\<lambda>s. None)"

definition gets :: "('s \<Rightarrow> 'a) \<Rightarrow> ('s, 'e, 'a) prog" where
  "gets f = (\<lambda>s. Some (Inr (f s), s))"

definition modify :: "('s \<Rightarrow> 's) \<Rightarrow> ('s, 'e, unit) prog" where
  "modify f = (\<lambda>s. Some (Inr (), f s))"

text \<open>\<open>err = m(); if (err) return err;\<close> and then the rest.\<close>

definition bnd :: "('s, 'e, 'a) prog \<Rightarrow> ('a \<Rightarrow> ('s, 'e, 'b) prog) \<Rightarrow> ('s, 'e, 'b) prog" where
  "bnd m f = (\<lambda>s. case m s of None \<Rightarrow> None
     | Some (Inl e, s') \<Rightarrow> Some (Inl e, s')
     | Some (Inr x, s') \<Rightarrow> f x s')"

text \<open>\<open>err = m();\<close> and then code that looks at \<open>err\<close> itself.\<close>

definition attempt :: "('s, 'e, 'a) prog \<Rightarrow> ('e + 'a \<Rightarrow> ('s, 'f, 'b) prog) \<Rightarrow> ('s, 'f, 'b) prog" where
  "attempt m f = (\<lambda>s. case m s of None \<Rightarrow> None | Some (r, s') \<Rightarrow> f r s')"

definition wp :: "('s, 'e, 'a) prog \<Rightarrow> ('a \<Rightarrow> 's \<Rightarrow> bool) \<Rightarrow> ('e \<Rightarrow> 's \<Rightarrow> bool) \<Rightarrow> 's \<Rightarrow> bool" where
  "wp m Q E s = (case m s of None \<Rightarrow> False
     | Some (Inl e, s') \<Rightarrow> E e s'
     | Some (Inr x, s') \<Rightarrow> Q x s')"

lemma wp_ret [wp_rules]: "wp (ret x) Q E s = Q x s"
  by (simp add: wp_def ret_def)

lemma wp_throw [wp_rules]: "wp (throw e) Q E s = E e s"
  by (simp add: wp_def throw_def)

lemma wp_gets [wp_rules]: "wp (gets f) Q E s = Q (f s) s"
  by (simp add: wp_def gets_def)

lemma wp_modify [wp_rules]: "wp (modify f) Q E s = Q () (f s)"
  by (simp add: wp_def modify_def)

lemma wp_bnd [wp_rules]: "wp (bnd m f) Q E s = wp m (\<lambda>x. wp (f x) Q E) E s"
  by (auto simp: wp_def bnd_def split: option.splits sum.splits prod.splits)

lemma wp_attempt [wp_rules]:
  "wp (attempt m f) Q E s = wp m (\<lambda>x. wp (f (Inr x)) Q E) (\<lambda>e. wp (f (Inl e)) Q E) s"
  by (auto simp: wp_def attempt_def split: option.splits sum.splits prod.splits)

lemma wp_if [wp_rules]:
  "wp (if c then m else n) Q E s = (if c then wp m Q E s else wp n Q E s)"
  by simp

lemma wp_conseq:
  assumes "wp m Q' E' s"
    and "\<And>x s'. Q' x s' \<Longrightarrow> Q x s'"
    and "\<And>e s'. E' e s' \<Longrightarrow> E e s'"
  shows "wp m Q E s"
  using assms by (auto simp: wp_def split: option.splits sum.splits prod.splits)

text \<open>The specification of a call, used where the call happens.\<close>

lemma wp_bndI:
  assumes "wp m Q' E' s"
    and "\<And>x t. Q' x t \<Longrightarrow> wp (f x) Q E t"
    and "\<And>e t. E' e t \<Longrightarrow> E e t"
  shows "wp (bnd m f) Q E s"
  unfolding wp_bnd using assms by (rule wp_conseq)

lemma wp_attemptI:
  assumes "wp m Q' E' s"
    and "\<And>x t. Q' x t \<Longrightarrow> wp (f (Inr x)) Q E t"
    and "\<And>e t. E' e t \<Longrightarrow> wp (f (Inl e)) Q E t"
  shows "wp (attempt m f) Q E s"
  unfolding wp_attempt using assms by (rule wp_conseq)

lemma wp_conj:
  "wp m Q E s \<Longrightarrow> wp m Q' E' s \<Longrightarrow> wp m (\<lambda>x t. Q x t \<and> Q' x t) (\<lambda>e t. E e t \<and> E' e t) s"
  by (auto simp: wp_def split: option.splits sum.splits prod.splits)

lemma wp_InrD: "wp m Q E s \<Longrightarrow> m s = Some (Inr x, t) \<Longrightarrow> Q x t"
  by (simp add: wp_def)

lemma wp_InlD: "wp m Q E s \<Longrightarrow> m s = Some (Inl e, t) \<Longrightarrow> E e t"
  by (simp add: wp_def)

lemma wp_returns: "wp m Q E s \<Longrightarrow> \<exists>r t. m s = Some (r, t)"
  by (auto simp: wp_def split: option.splits)

lemma wpI:
  assumes "\<exists>r t. m s = Some (r, t)"
    and "\<And>x t. m s = Some (Inr x, t) \<Longrightarrow> Q x t"
    and "\<And>e t. m s = Some (Inl e, t) \<Longrightarrow> E e t"
  shows "wp m Q E s"
  using assms by (auto simp: wp_def split: option.splits sum.splits)

text \<open>Reading a specification off a run that is known to have returned.\<close>

lemma attempt_SomeE:
  assumes "attempt m f s = Some y" and "wp m Q E s"
  obtains x t where "Q x t" "f (Inr x) t = Some y" | e t where "E e t" "f (Inl e) t = Some y"
proof -
  from assms(1) obtain r t where m: "m s = Some (r, t)" "f r t = Some y"
    by (auto simp: attempt_def split: option.splits)
  from m assms(2) that show thesis by (cases r) (auto simp: wp_def)
qed

lemma bnd_SomeE:
  assumes "bnd m f s = Some y" and "wp m Q E s"
  obtains x t where "Q x t" "f x t = Some y" | e t where "E e t" "y = (Inl e, t)"
proof -
  from assms(2) obtain r t where m: "m s = Some (r, t)" by (auto simp: wp_def split: option.splits)
  from m assms that show thesis by (cases r) (auto simp: bnd_def wp_def)
qed

lemma bnd_Inr: "m s = Some (Inr x, t) \<Longrightarrow> bnd m f s = f x t"
  by (simp add: bnd_def)

lemma bnd_Inl: "m s = Some (Inl e, t) \<Longrightarrow> bnd m f s = Some (Inl e, t)"
  by (simp add: bnd_def)

lemma bnd_ret [simp]: "bnd (ret x) f = f x"
  by (simp add: bnd_def ret_def)

lemma bnd_throw [simp]: "bnd (throw e) f = throw e"
  by (simp add: bnd_def throw_def fun_eq_iff)

lemma bnd_assoc: "bnd (bnd m f) g = bnd m (\<lambda>x. bnd (f x) g)"
  by (auto simp: bnd_def fun_eq_iff split: option.splits sum.splits)

text \<open>Loops are \<open>partial_function (option)\<close>; these make the combinators usable in them.\<close>

lemma bnd_mono [partial_function_mono]:
  fixes m :: "('x \<Rightarrow> 'y option) \<Rightarrow> ('s, 'e, 'a) prog"
  assumes "\<And>s. mono_option (\<lambda>h. m h s)"
    and "\<And>x s. mono_option (\<lambda>h. f h x s)"
  shows "mono_option (\<lambda>h. bnd (m h) (f h) s)"
proof (rule monotoneI)
  fix h k :: "'x \<Rightarrow> 'y option"
  assume le: "fun_ord option_ord h k"
  have m: "option_ord (m h s) (m k s)"
    using assms(1)[of s] le by (simp add: monotone_def)
  have f: "option_ord (f h x t) (f k x t)" for x t
    using assms(2)[of x t] le by (simp add: monotone_def)
  show "option_ord (bnd (m h) (f h) s) (bnd (m k) (f k) s)"
  proof (cases "m h s")
    case None
    then show ?thesis by (simp add: bnd_def flat_ord_def)
  next
    case (Some p)
    with m have "m k s = Some p" by (auto simp: flat_ord_def)
    with Some show ?thesis
      using f by (auto simp: bnd_def flat_ord_def split: prod.split sum.split)
  qed
qed

lemma attempt_mono [partial_function_mono]:
  fixes m :: "('x \<Rightarrow> 'y option) \<Rightarrow> ('s, 'e, 'a) prog"
  assumes "\<And>s. mono_option (\<lambda>h. m h s)"
    and "\<And>x s. mono_option (\<lambda>h. f h x s)"
  shows "mono_option (\<lambda>h. attempt (m h) (f h) s)"
proof (rule monotoneI)
  fix h k :: "'x \<Rightarrow> 'y option"
  assume le: "fun_ord option_ord h k"
  have m: "option_ord (m h s) (m k s)"
    using assms(1)[of s] le by (simp add: monotone_def)
  have f: "option_ord (f h x t) (f k x t)" for x t
    using assms(2)[of x t] le by (simp add: monotone_def)
  show "option_ord (attempt (m h) (f h) s) (attempt (m k) (f k) s)"
  proof (cases "m h s")
    case None
    then show ?thesis by (simp add: attempt_def flat_ord_def)
  next
    case (Some p)
    with m have "m k s = Some p" by (auto simp: flat_ord_def)
    with Some show ?thesis
      using f by (auto simp: attempt_def flat_ord_def split: prod.split)
  qed
qed

lemma prog_if_mono [partial_function_mono]:
  "mono_option (\<lambda>h. m h s) \<Longrightarrow> mono_option (\<lambda>h. n h s) \<Longrightarrow>
   mono_option (\<lambda>h. (if b then m h else n h) s)"
  by (cases b) simp_all

lemma prog_let_mono [partial_function_mono]:
  "mono_option (\<lambda>h. m h a s) \<Longrightarrow> mono_option (\<lambda>h. (let x = a in m h x) s)"
  by (simp add: Let_def)

lemma prog_prod_mono [partial_function_mono]:
  "(\<And>x y. mono_option (\<lambda>h. m h x y s)) \<Longrightarrow> mono_option (\<lambda>h. (case p of (x, y) \<Rightarrow> m h x y) s)"
  by (cases p) simp

lemma prog_sum_mono [partial_function_mono]:
  "(\<And>x. mono_option (\<lambda>h. m h x s)) \<Longrightarrow> (\<And>y. mono_option (\<lambda>h. n h y s)) \<Longrightarrow>
   mono_option (\<lambda>h. (case r of Inl x \<Rightarrow> m h x | Inr y \<Rightarrow> n h y) s)"
  by (cases r) simp_all

lemma prog_option_mono [partial_function_mono]:
  "mono_option (\<lambda>h. m h s) \<Longrightarrow> (\<And>y. mono_option (\<lambda>h. n h y s)) \<Longrightarrow>
   mono_option (\<lambda>h. (case r of None \<Rightarrow> m h | Some y \<Rightarrow> n h y) s)"
  by (cases r) simp_all

subsection \<open>What every run of a program keeps\<close>

text \<open>Partial correctness: \<open>P\<close> holds after every run that returns, and an error satisfies \<open>E\<close>.\<close>

definition keeps :: "('s \<Rightarrow> bool) \<Rightarrow> ('e \<Rightarrow> bool) \<Rightarrow> ('s, 'e, 'a) prog \<Rightarrow> bool" where
  "keeps P E m \<longleftrightarrow> (\<forall>s r t. P s \<longrightarrow> m s = Some (r, t) \<longrightarrow> P t \<and> (\<forall>e. r = Inl e \<longrightarrow> E e))"

abbreviation (input) any_err :: "'e \<Rightarrow> bool" where "any_err \<equiv> \<lambda>_. True"

named_theorems keeps_rules "programs that keep a predicate"

lemma keepsD: "keeps P E m \<Longrightarrow> P s \<Longrightarrow> m s = Some (r, t) \<Longrightarrow> P t \<and> (\<forall>e. r = Inl e \<longrightarrow> E e)"
  unfolding keeps_def by blast

lemma keepsI: "(\<And>s r t. P s \<Longrightarrow> m s = Some (r, t) \<Longrightarrow> P t \<and> (\<forall>e. r = Inl e \<longrightarrow> E e)) \<Longrightarrow> keeps P E m"
  unfolding keeps_def by blast

lemma keeps_ret [keeps_rules]: "keeps P E (ret x)"
  by (simp add: keeps_def ret_def)

lemma keeps_throw [keeps_rules]: "E e \<Longrightarrow> keeps P E (throw e)"
  by (simp add: keeps_def throw_def)

lemma keeps_gets [keeps_rules]: "keeps P E (gets f)"
  by (simp add: keeps_def gets_def)

lemma keeps_modify: "(\<And>s. P s \<Longrightarrow> P (f s)) \<Longrightarrow> keeps P E (modify f)"
  by (rule keepsI) (auto simp: modify_def)

lemma keeps_bnd:
  assumes m: "keeps P E m" and f: "\<And>x. keeps P E (f x)"
  shows "keeps P E (bnd m f)"
proof (rule keepsI)
  fix s r t assume P: "P s" and b: "bnd m f s = Some (r, t)"
  then obtain r1 s1 where 1: "m s = Some (r1, s1)" by (auto simp: bnd_def split: option.splits)
  note k = keepsD[OF m P 1]
  show "P t \<and> (\<forall>e. r = Inl e \<longrightarrow> E e)"
  proof (cases r1)
    case (Inl e)
    then show ?thesis using b 1 k by (auto simp: bnd_def)
  next
    case (Inr x)
    then have "f x s1 = Some (r, t)" using b 1 by (simp add: bnd_def)
    then show ?thesis using keepsD[OF f] k by blast
  qed
qed

lemma keeps_bnd_gets:
  assumes "\<And>s. P s \<Longrightarrow> keeps P E (g (f s))"
  shows "keeps P E (bnd (gets f) g)"
proof (rule keepsI)
  fix s r t assume P: "P s" and b: "bnd (gets f) g s = Some (r, t)"
  from b have "g (f s) s = Some (r, t)" by (simp add: bnd_def gets_def)
  then show "P t \<and> (\<forall>e. r = Inl e \<longrightarrow> E e)" using keepsD[OF assms[OF P] P] by blast
qed

lemma keeps_attempt:
  assumes m: "keeps P E m" and f: "\<And>x. keeps P F (f (Inr x))" "\<And>e. E e \<Longrightarrow> keeps P F (f (Inl e))"
  shows "keeps P F (attempt m f)"
proof (rule keepsI)
  fix s r t assume P: "P s" and b: "attempt m f s = Some (r, t)"
  then obtain r1 s1 where 1: "m s = Some (r1, s1)" by (auto simp: attempt_def split: option.splits)
  note k = keepsD[OF m P 1]
  have t: "f r1 s1 = Some (r, t)" using b 1 by (simp add: attempt_def)
  show "P t \<and> (\<forall>e. r = Inl e \<longrightarrow> F e)"
  proof (cases r1)
    case (Inl e)
    then show ?thesis using t k keepsD[OF f(2), of e s1 r t] by blast
  next
    case (Inr x)
    then show ?thesis using t k keepsD[OF f(1), of s1 x r t] by blast
  qed
qed

lemma keeps_if: "(c \<Longrightarrow> keeps P E m) \<Longrightarrow> (\<not> c \<Longrightarrow> keeps P E n) \<Longrightarrow> keeps P E (if c then m else n)"
  by simp

text \<open>A program that satisfies a total specification without errors keeps what that says.\<close>

lemma keeps_wp: "(\<And>s. P s \<Longrightarrow> wp m (\<lambda>_. P) (\<lambda>e t. P t \<and> E e) s) \<Longrightarrow> keeps P E m"
proof (rule keepsI)
  fix s r t assume a: "\<And>s. P s \<Longrightarrow> wp m (\<lambda>_. P) (\<lambda>e t. P t \<and> E e) s" "P s" "m s = Some (r, t)"
  from a(1)[OF a(2)] a(3) show "P t \<and> (\<forall>e. r = Inl e \<longrightarrow> E e)" by (cases r) (auto simp: wp_def split: option.splits)
qed

lemma wp_keeps:
  assumes "wp m Q E s" and "keeps P F m" and "P s"
  shows "wp m (\<lambda>x t. Q x t \<and> P t) (\<lambda>e t. E e t \<and> P t \<and> F e) s"
  using assms keepsD[OF assms(2,3)] by (auto simp: wp_def split: option.splits sum.splits)

end
