(* ===== verification/Fat_Types.thy ===== *)
theory Fat_Types
  imports Prelude
begin

text \<open>
  The data of the FAT32 driver, \<open>trfs/fat32/fat.h\<close> and the declarations of \<open>fat.c\<close>: error
  codes, attribute and flag bits, the \<open>DiskOps\<close> interface, and the structs \<open>Fat\<close>, \<open>Dir\<close>,
  \<open>File\<close> and \<open>Timestamp\<close>.

  The driver's functions work on one volume at a time.  The records extend one another:
  \<open>fat\<close> is the struct \<open>Fat\<close>; \<open>vol\<close> adds the device behind its \<open>DiskOps\<close>; \<open>dctx\<close> adds
  the globals \<open>g_buf\<close>, \<open>g_len\<close>, \<open>g_crc\<close> and the \<open>Dir\<close> a function walks with; \<open>fctx\<close>
  adds the \<open>File\<close>.  An operation is written over the smallest of them and its scheme type
  makes it apply to all the larger ones, so that a \<open>Fat*\<close>, \<open>Dir*\<close> or \<open>File*\<close> argument is
  the part of the state it points to.  \<open>dir_fat\<close> and \<open>file_fat\<close> say that the \<open>fat\<close>
  pointer of the \<open>Dir\<close> and of the \<open>File\<close> is not null; it then points to the volume.
\<close>

subsection \<open>Constants\<close>

text \<open>\<open>FAT_ERR_NONE\<close> is the normal return.  \<open>FAT_RET_FLAGS\<close> is the value the scan loop of
  \<open>stretch_chain\<close> returns where it returns its local \<open>flags\<close> in place of the error code:
  \<open>Some f\<close> when an earlier \<open>get_fat\<close> stored \<open>f\<close> there, \<open>None\<close> when the local is still
  uninitialised.\<close>

datatype fat_err =
    FAT_ERR_NOFAT | FAT_ERR_BROKEN | FAT_ERR_IO | FAT_ERR_PARAM | FAT_ERR_PATH
  | FAT_ERR_EOF | FAT_ERR_DENIED | FAT_ERR_FULL
  | FAT_RET_FLAGS "u8 option"

fun err_code :: "fat_err \<Rightarrow> int option" where
  "err_code FAT_ERR_NOFAT = Some (- 1)"
| "err_code FAT_ERR_BROKEN = Some (- 2)"
| "err_code FAT_ERR_IO = Some (- 3)"
| "err_code FAT_ERR_PARAM = Some (- 4)"
| "err_code FAT_ERR_PATH = Some (- 5)"
| "err_code FAT_ERR_EOF = Some (- 6)"
| "err_code FAT_ERR_DENIED = Some (- 7)"
| "err_code FAT_ERR_FULL = Some (- 8)"
| "err_code (FAT_RET_FLAGS f) = map_option uint f"

abbreviation (input) FAT_ATTR_RO :: u8 where "FAT_ATTR_RO \<equiv> 0x01"
abbreviation (input) FAT_ATTR_HIDDEN :: u8 where "FAT_ATTR_HIDDEN \<equiv> 0x02"
abbreviation (input) FAT_ATTR_SYS :: u8 where "FAT_ATTR_SYS \<equiv> 0x04"
abbreviation (input) FAT_ATTR_LABEL :: u8 where "FAT_ATTR_LABEL \<equiv> 0x08"
abbreviation (input) FAT_ATTR_DIR :: u8 where "FAT_ATTR_DIR \<equiv> 0x10"
abbreviation (input) FAT_ATTR_ARCHIVE :: u8 where "FAT_ATTR_ARCHIVE \<equiv> 0x20"
abbreviation (input) FAT_ATTR_LFN :: u8 where "FAT_ATTR_LFN \<equiv> 0x0f"

abbreviation (input) FAT_WRITE :: u8 where "FAT_WRITE \<equiv> 0x01"
abbreviation (input) FAT_READ :: u8 where "FAT_READ \<equiv> 0x02"
abbreviation (input) FAT_APPEND :: u8 where "FAT_APPEND \<equiv> 0x04"
abbreviation (input) FAT_TRUNC :: u8 where "FAT_TRUNC \<equiv> 0x08"
abbreviation (input) FAT_CREATE :: u8 where "FAT_CREATE \<equiv> 0x10"
abbreviation (input) FAT_ACCESSED :: u8 where "FAT_ACCESSED \<equiv> 0x20"
abbreviation (input) FAT_MODIFIED :: u8 where "FAT_MODIFIED \<equiv> 0x40"
abbreviation (input) FAT_FILE_DIRTY :: u8 where "FAT_FILE_DIRTY \<equiv> 0x80"

datatype whence = FAT_SEEK_START | FAT_SEEK_CURR | FAT_SEEK_END

abbreviation (input) FAT_BUF_DIRTY :: u8 where "FAT_BUF_DIRTY \<equiv> 0x01"
abbreviation (input) FAT_INFO_DIRTY :: u8 where "FAT_INFO_DIRTY \<equiv> 0x02"

abbreviation (input) CLUST_FREE :: u8 where "CLUST_FREE \<equiv> 0x01"
abbreviation (input) CLUST_USED :: u8 where "CLUST_USED \<equiv> 0x02"
abbreviation (input) CLUST_LAST :: u8 where "CLUST_LAST \<equiv> 0x04"
abbreviation (input) CLUST_BAD :: u8 where "CLUST_BAD \<equiv> 0x08"

abbreviation (input) LFN_HEAD_MSK :: u8 where "LFN_HEAD_MSK \<equiv> 0x40"
abbreviation (input) LFN_SEQ_MSK :: u8 where "LFN_SEQ_MSK \<equiv> 0x1f"
abbreviation (input) SFN_FREE :: u8 where "SFN_FREE \<equiv> 0xe5"
abbreviation (input) SFN_LAST :: u8 where "SFN_LAST \<equiv> 0x00"
abbreviation (input) SFN_PAD :: u8 where "SFN_PAD \<equiv> 0x20"

subsection \<open>Structs\<close>

record timestamp =
  ts_hour :: u8
  ts_min :: u8
  ts_sec :: u8
  ts_day :: u8
  ts_month :: u8
  ts_year :: u16

text \<open>\<open>DiskOps\<close>.  \<open>op_read\<close> gets the 512-byte buffer it reads into and returns what it left
  there: on a failed read the C caller's buffer holds whatever the callback wrote.\<close>

record 'd disk_ops =
  op_read :: "u8 list \<Rightarrow> u32 \<Rightarrow> 'd \<Rightarrow> bool \<times> u8 list \<times> 'd"
  op_write :: "u8 list \<Rightarrow> u32 \<Rightarrow> 'd \<Rightarrow> bool \<times> 'd"

text \<open>The struct \<open>Fat\<close>; \<open>fat_next\<close> is the address of the next mounted volume.\<close>

record 'd fat =
  fat_next :: "nat option"
  fat_ops :: "'d disk_ops"
  clust_msk :: u32
  clust_cnt :: u32
  info_sect :: u32
  fat_sect0 :: u32
  fat_sect1 :: u32
  data_sect :: u32
  root_clust :: u32
  last_used :: u32
  free_cnt :: u32
  buf_sect :: u32
  fat_buf :: "u8 list"
  fat_flags :: u8
  clust_shift :: u8
  fat_name_len :: u8
  fat_name :: "u8 list"

record 'd vol = "'d fat" +
  dev :: 'd

record 'd dctx = "'d vol" +
  g_buf :: "u8 list"
  g_len :: u16
  g_crc :: u8
  dir_fat :: bool
  dir_sclust :: u32
  dir_clust :: u32
  dir_sect :: u32
  dir_idx :: u16

record loc =
  loc_sect :: u32
  loc_idx :: u16

record 'd fctx = "'d dctx" +
  file_fat :: bool
  file_dir_sect :: u32
  file_sclust :: u32
  file_clust :: u32
  file_sect :: u32
  file_size :: u32
  file_offset :: u32
  file_dir_idx :: u16
  file_attr :: u8
  file_flags :: u8
  file_buf :: "u8 list"

record dir_info =
  di_created :: timestamp
  di_modified :: timestamp
  di_size :: u32
  di_attr :: u8
  di_name :: "u8 list"

subsection \<open>Fields of the packed directory entries\<close>

text \<open>\<open>Sfn\<close> and \<open>Lfn\<close> are read and written inside the sector buffer, at the byte offset the
  \<open>Dir\<close> stands at.\<close>

definition sfn_name :: "u8 list \<Rightarrow> nat \<Rightarrow> u8 list" where
  "sfn_name b i = slice b i 11"

abbreviation (input) sfn_attr :: "u8 list \<Rightarrow> nat \<Rightarrow> u8" where
  "sfn_attr b i \<equiv> b ! (i + 11)"

abbreviation (input) sfn_cre_time :: "u8 list \<Rightarrow> nat \<Rightarrow> u16" where
  "sfn_cre_time b i \<equiv> rd16 b (i + 14)"

abbreviation (input) sfn_cre_date :: "u8 list \<Rightarrow> nat \<Rightarrow> u16" where
  "sfn_cre_date b i \<equiv> rd16 b (i + 16)"

abbreviation (input) sfn_clust_hi :: "u8 list \<Rightarrow> nat \<Rightarrow> u16" where
  "sfn_clust_hi b i \<equiv> rd16 b (i + 20)"

abbreviation (input) sfn_mod_time :: "u8 list \<Rightarrow> nat \<Rightarrow> u16" where
  "sfn_mod_time b i \<equiv> rd16 b (i + 22)"

abbreviation (input) sfn_mod_date :: "u8 list \<Rightarrow> nat \<Rightarrow> u16" where
  "sfn_mod_date b i \<equiv> rd16 b (i + 24)"

abbreviation (input) sfn_clust_lo :: "u8 list \<Rightarrow> nat \<Rightarrow> u16" where
  "sfn_clust_lo b i \<equiv> rd16 b (i + 26)"

abbreviation (input) sfn_size :: "u8 list \<Rightarrow> nat \<Rightarrow> u32" where
  "sfn_size b i \<equiv> rd32 b (i + 28)"

definition sfn_is_last :: "u8 list \<Rightarrow> nat \<Rightarrow> bool" where
  "sfn_is_last b i = (b ! i = SFN_LAST)"

definition sfn_is_free :: "u8 list \<Rightarrow> nat \<Rightarrow> bool" where
  "sfn_is_free b i = (b ! i = SFN_LAST \<or> b ! i = SFN_FREE)"

definition sfn_is_lfn :: "u8 list \<Rightarrow> nat \<Rightarrow> bool" where
  "sfn_is_lfn b i = (sfn_attr b i = FAT_ATTR_LFN)"

definition sfn_cluster :: "u8 list \<Rightarrow> nat \<Rightarrow> u32" where
  "sfn_cluster b i = push_bit 16 (ucast (sfn_clust_hi b i)) OR ucast (sfn_clust_lo b i)"

lemma sfn_last_free: "sfn_is_last b i \<Longrightarrow> sfn_is_free b i"
  by (simp add: sfn_is_last_def sfn_is_free_def)

subsection \<open>Error strings\<close>

definition fat_err_strings :: "string list" where
  "fat_err_strings = [''FAT_ERR_NONE'', ''FAT_ERR_NOFAT'', ''FAT_ERR_BROKEN'', ''FAT_ERR_IO'',
     ''FAT_ERR_PARAM'', ''FAT_ERR_PATH'', ''FAT_ERR_EOF'', ''FAT_ERR_DENIED'', ''FAT_ERR_FULL'']"

text \<open>\<open>err\<close> is a C \<open>int\<close>: \<open>-err\<close> is computed at 32 bits, and its comparison with the
  \<open>size_t\<close> number of strings comes after the test for a negative value.\<close>

definition fat_get_error :: "32 word \<Rightarrow> string" where
  "fat_get_error err =
     (let e = sint (- err)
      in if e < 0 \<or> e \<ge> 9 then ''NULL'' else fat_err_strings ! nat e)"

end
