(* ===== verification/Fat_Names.thy ===== *)
theory Fat_Names
  imports Fat_Types
begin

text \<open>
  The pure helpers of \<open>trfs/fat32/fat.c\<close>: path components, the 8.3 name and its checksum,
  the fragments of long names, and the packed timestamps.  A C string is the list of its bytes
  without the terminating NUL; \<open>path[i]\<close> at the end of the list is the terminator.
\<close>

subsection \<open>Paths\<close>

abbreviation (input) SLASH :: u8 where "SLASH \<equiv> 0x2f"
abbreviation (input) DOT :: u8 where "DOT \<equiv> 0x2e"

definition to_upper :: "u8 \<Rightarrow> u8" where
  "to_upper c = (if c \<ge> 0x61 \<and> c \<le> 0x7a then c AND NOT 0x20 else c)"

fun subpath_len :: "u8 list \<Rightarrow> nat" where
  "subpath_len [] = 0"
| "subpath_len (c # cs) = (if c \<noteq> 0 \<and> c \<noteq> SLASH then Suc (subpath_len cs) else 0)"

fun skip_slashes :: "u8 list \<Rightarrow> u8 list" where
  "skip_slashes [] = []"
| "skip_slashes (c # cs) = (if c = SLASH then skip_slashes cs else c # cs)"

definition at_nul :: "u8 list \<Rightarrow> bool" where
  "at_nul s = (s = [] \<or> hd s = 0)"

definition last_subpath_len :: "u8 list \<Rightarrow> nat" where
  "last_subpath_len path =
     (let len = subpath_len path
      in if len = 0 then 0
         else if at_nul (skip_slashes (drop len path)) then len else 0)"

subsection \<open>8.3 names\<close>

definition crc_step :: "u8 \<Rightarrow> u8 \<Rightarrow> u8" where
  "crc_step s c = push_bit 7 (s AND 1) + drop_bit 1 s + c"

definition get_crc :: "u8 list \<Rightarrow> u8" where
  "get_crc name = foldl crc_step 0 (take 11 name)"

definition sfn_specials :: "u8 list" where
  "sfn_specials = [0x21, 0x23, 0x24, 0x25, 0x26, 0x27, 0x28, 0x29, 0x2d, 0x40, 0x5e, 0x5f,
     0x60, 0x7b, 0x7d, 0x7e, 0x20]"

definition sfn_char :: "u8 \<Rightarrow> u8" where
  "sfn_char c =
     (let c = to_upper c
      in if c \<ge> 0x41 \<and> c \<le> 0x5a then c
         else if c \<in> set sfn_specials then c else 0x5f)"

definition pad_to :: "nat \<Rightarrow> u8 list \<Rightarrow> u8 list" where
  "pad_to n xs = xs @ replicate (n - length xs) SFN_PAD"

definition put_sfn_name :: "u8 list \<Rightarrow> nat \<Rightarrow> u8 list" where
  "put_sfn_name name len =
     (let nm = take len name;
          base = takeWhile (\<lambda>c. c \<noteq> DOT) (take 8 nm);
          rest = tl (dropWhile (\<lambda>c. c \<noteq> DOT) (drop (length base) nm))
      in pad_to 8 (map sfn_char base) @ pad_to 3 (map sfn_char (take 3 rest)))"

text \<open>The bytes \<open>parse_sfn_name\<close> stores at the front of \<open>g_buf\<close>; \<open>g_len\<close> is their number.\<close>

definition parse_sfn_name :: "u8 list \<Rightarrow> u8 list" where
  "parse_sfn_name n =
     takeWhile (\<lambda>c. c \<noteq> SFN_PAD) (take 8 n)
     @ (if n ! 8 \<noteq> SFN_PAD then [DOT] else [])
     @ takeWhile (\<lambda>c. c \<noteq> SFN_PAD) (take 3 (drop 8 n))"

subsection \<open>Long-name fragments\<close>

definition lfn_indices :: "nat list" where
  "lfn_indices = [1, 3, 5, 7, 9, 14, 16, 18, 20, 22, 24, 28, 30]"

definition lfn_put :: "nat \<Rightarrow> u8 \<Rightarrow> u8 \<Rightarrow> u8 list \<Rightarrow> u8 list" where
  "lfn_put i lo hi raw = raw[lfn_indices ! i := lo, lfn_indices ! i + 1 := hi]"

fun lfn_put_chars :: "nat \<Rightarrow> u8 list \<Rightarrow> u8 list \<Rightarrow> u8 list" where
  "lfn_put_chars i [] raw = raw"
| "lfn_put_chars i (c # cs) raw = lfn_put_chars (Suc i) cs (lfn_put i c 0x00 raw)"

fun lfn_put_fill :: "nat list \<Rightarrow> u8 list \<Rightarrow> u8 list" where
  "lfn_put_fill [] raw = raw"
| "lfn_put_fill (i # js) raw = lfn_put_fill js (lfn_put i 0xff 0xff raw)"

definition put_lfn_name_frag :: "u8 list \<Rightarrow> u8 list \<Rightarrow> nat \<Rightarrow> u8 list" where
  "put_lfn_name_frag raw name len =
     (let r = lfn_put_chars 0 (take len name) raw
      in if len < 13 then lfn_put_fill [Suc len..<13] (lfn_put len 0x00 0x00 r) else r)"

text \<open>The inner loop of \<open>parse_lfn_name\<close>: the bytes it stores from one entry, \<open>None\<close> when it
  returns \<open>FAT_ERR_BROKEN\<close>.  The local \<open>c\<close> is a plain \<open>char\<close>, signed on this target, and is
  compared as an \<open>int\<close>.\<close>

fun parse_lfn_frag :: "u8 list \<Rightarrow> nat list \<Rightarrow> u8 list option" where
  "parse_lfn_frag raw [] = Some []"
| "parse_lfn_frag raw (j # js) =
     (let c = raw ! j
      in if sint c = 0xff then None
         else if c = 0x00 then Some []
         else map_option ((#) c) (parse_lfn_frag raw js))"

subsection \<open>Timestamps\<close>

definition decode_timestamp :: "u16 \<Rightarrow> u16 \<Rightarrow> timestamp" where
  "decode_timestamp date time =
     \<lparr>ts_hour = ucast (drop_bit 11 time AND 0x1f),
      ts_min = ucast (drop_bit 5 time AND 0x3f),
      ts_sec = ucast (2 * (time AND 0x1f)),
      ts_day = ucast (date AND 0x1f),
      ts_month = ucast (drop_bit 5 date AND 0xf),
      ts_year = (drop_bit 9 date AND 0x3f) + 1980\<rparr>"

text \<open>\<open>encode_timestamp\<close> asks \<open>fat_get_timestamp\<close>, a weak symbol: the clock's answer is an
  argument, and the default of the library is \<open>fat_get_timestamp\<close>.\<close>

definition fat_get_timestamp :: timestamp where
  "fat_get_timestamp = \<lparr>ts_hour = 0, ts_min = 0, ts_sec = 0, ts_day = 1, ts_month = 1,
     ts_year = 1980\<rparr>"

definition encode_timestamp :: "timestamp \<Rightarrow> u16 \<times> u16" where
  "encode_timestamp ts =
     (push_bit 9 ((ts_year ts - 1980) AND 0x3f) OR push_bit 5 (ucast (ts_month ts) AND 0xf)
        OR (ucast (ts_day ts) AND 0x1f),
      (ucast (ts_sec ts div 2) AND 0x1f) OR push_bit 5 (ucast (ts_min ts) AND 0x3f)
        OR push_bit 11 (ucast (ts_hour ts) AND 0x1f))"

subsection \<open>Paths: the first component\<close>

lemma subpath_len_takeWhile:
  "subpath_len s = length (takeWhile (\<lambda>c. c \<noteq> 0 \<and> c \<noteq> SLASH) s)"
  by (induction s) auto

lemma subpath_len_le: "subpath_len s \<le> length s"
  by (simp add: subpath_len_takeWhile length_takeWhile_le)

lemma length_skip_slashes: "length (skip_slashes s) \<le> length s"
  by (induction s) auto

lemma skip_slashes_hd: "skip_slashes s \<noteq> [] \<Longrightarrow> hd (skip_slashes s) \<noteq> SLASH"
  by (induction s) auto

lemma skip_slashes_suffix: "\<exists>n. skip_slashes s = drop n s"
proof (induction s)
  case Nil
  then show ?case by simp
next
  case (Cons c s)
  then obtain n where "skip_slashes s = drop n s" by blast
  then show ?case
    by (cases "c = SLASH") (auto intro: exI[of _ "Suc n"] exI[of _ 0])
qed

subsection \<open>8.3 names: the alphabet and the markers\<close>

lemma to_upper_idem: "to_upper (to_upper c) = to_upper c"
  by (simp add: to_upper_def)

lemma sfn_char_upper: "sfn_char (to_upper c) = sfn_char c"
  by (simp add: sfn_char_def to_upper_idem)

lemma to_upper_low: "c \<le> 0x60 \<Longrightarrow> to_upper c = c"
proof -
  assume "c \<le> 0x60"
  moreover have "(0x60 :: u8) < 0x61" by simp
  ultimately have "\<not> 0x61 \<le> c" by (metis leD order.trans)
  then show "to_upper c = c" by (simp add: to_upper_def)
qed

text \<open>The digits are missing from the allowed characters.\<close>

lemma sfn_char_digit:
  assumes "0x30 \<le> c" and "c \<le> 0x39"
  shows "sfn_char c = 0x5f"
proof -
  have "to_upper c = c"
    using assms(2) order.trans[of c "0x39" "0x60"] by (intro to_upper_low) simp
  moreover have "\<not> 0x41 \<le> c"
    using assms(2) order.trans[of "0x41" c "0x39"] by auto
  moreover have "c \<notin> set sfn_specials"
    using assms by (auto simp: sfn_specials_def)
  ultimately show ?thesis by (simp add: sfn_char_def)
qed

definition sfn_legal :: "u8 \<Rightarrow> bool" where
  "sfn_legal c = ((c \<ge> 0x41 \<and> c \<le> 0x5a) \<or> c \<in> set sfn_specials)"

lemma sfn_char_legal: "sfn_legal (sfn_char c)"
  by (simp add: sfn_legal_def sfn_char_def sfn_specials_def Let_def)

lemma sfn_char_id:
  assumes "sfn_legal c"
  shows "sfn_char c = c"
proof (cases "c \<ge> 0x41 \<and> c \<le> 0x5a")
  case True
  then have "to_upper c = c"
    using order.trans[of c "0x5a" "0x60"] by (intro to_upper_low) simp
  with True show ?thesis by (simp add: sfn_char_def)
next
  case False
  with assms have "c \<in> set sfn_specials" by (auto simp: sfn_legal_def)
  moreover then have "to_upper c = c"
    by (auto simp: sfn_specials_def to_upper_def)
  ultimately show ?thesis by (simp add: sfn_char_def)
qed

lemma sfn_legal_markers:
  assumes "sfn_legal c"
  shows "c \<noteq> SFN_LAST" "c \<noteq> SFN_FREE" "c \<noteq> DOT"
  using assms by (auto simp: sfn_legal_def sfn_specials_def)

lemma length_pad_to [simp]: "length xs \<le> n \<Longrightarrow> length (pad_to n xs) = n"
  by (simp add: pad_to_def)

lemma takeWhile_pad_to:
  "\<forall>c \<in> set xs. c \<noteq> SFN_PAD \<Longrightarrow> takeWhile (\<lambda>c. c \<noteq> SFN_PAD) (pad_to n xs) = xs"
  by (simp add: pad_to_def takeWhile_append2 takeWhile_append takeWhile_replicate)

lemma length_put_sfn_name: "length (put_sfn_name name len) = 11"
proof -
  have "length (takeWhile (\<lambda>c. c \<noteq> DOT) (take 8 (take len name))) \<le> 8"
    by (rule order_trans[OF length_takeWhile_le]) simp
  then show ?thesis by (simp add: put_sfn_name_def Let_def)
qed

lemma set_put_sfn_name: "c \<in> set (put_sfn_name name len) \<Longrightarrow> sfn_legal c"
  by (auto simp: put_sfn_name_def Let_def pad_to_def sfn_char_legal split: if_splits)
     (auto simp: sfn_legal_def sfn_specials_def)

lemma put_sfn_name_first:
  "put_sfn_name name len ! 0 \<noteq> SFN_LAST \<and> put_sfn_name name len ! 0 \<noteq> SFN_FREE"
proof -
  have "put_sfn_name name len ! 0 \<in> set (put_sfn_name name len)"
    by (simp add: length_put_sfn_name)
  then have "sfn_legal (put_sfn_name name len ! 0)" by (rule set_put_sfn_name)
  then show ?thesis by (simp add: sfn_legal_markers)
qed

subsection \<open>8.3 names: storing and reading back\<close>

text \<open>Upper-casing clears bit 5.\<close>

lemma to_upper_bit5:
  assumes "bit v 5" and "\<not> (v \<ge> 0x61 \<and> v \<le> 0x7a)"
  shows "(to_upper c = v) = (c = v)"
proof -
  have "\<not> bit (c AND NOT 0x20) 5" by (simp add: bit_simps)
  with assms show ?thesis by (auto simp: to_upper_def)
qed

lemma sfn_char_dot: "c = DOT \<Longrightarrow> sfn_char c = 0x5f"
  by (simp add: sfn_char_def to_upper_def sfn_specials_def)

lemma sfn_char_pad: "(sfn_char c = SFN_PAD) = (c = SFN_PAD)"
proof
  assume "sfn_char c = SFN_PAD"
  then have "to_upper c = SFN_PAD"
    by (auto simp: sfn_char_def Let_def split: if_splits)
  then show "c = SFN_PAD" by (simp add: to_upper_bit5)
qed (simp add: sfn_char_def to_upper_def sfn_specials_def)

lemma to_upper_dot: "(to_upper c = DOT) = (c = DOT)"
  by (simp add: to_upper_bit5)

text \<open>The stored name of \<open>base\<close> or \<open>base.ext\<close>.\<close>

definition name83 :: "u8 list \<Rightarrow> u8 list \<Rightarrow> u8 list" where
  "name83 base ext = (if ext = [] then base else base @ DOT # ext)"

lemma put_sfn_name83:
  assumes "DOT \<notin> set base" and "length base \<le> 8" and "length ext \<le> 3"
  shows "put_sfn_name (name83 base ext) (length (name83 base ext))
    = pad_to 8 (map sfn_char base) @ pad_to 3 (map sfn_char ext)"
proof -
  have tk: "takeWhile (\<lambda>c. c \<noteq> DOT) (take n (base @ DOT # ext)) = base" if "length base \<le> n" for n
  proof -
    have "takeWhile (\<lambda>c. c \<noteq> DOT) (base @ ys) = base @ takeWhile (\<lambda>c. c \<noteq> DOT) ys" for ys
      using assms(1) by (intro takeWhile_append2) auto
    with that assms(1) show ?thesis
      by (cases "n - length base") (auto simp: takeWhile_eq_all_conv)
  qed
  have tb: "takeWhile (\<lambda>c. c \<noteq> DOT) base = base"
    using assms(1) by (auto simp: takeWhile_eq_all_conv)
  show ?thesis
    using tk[of 8] assms
    by (simp add: put_sfn_name_def name83_def Let_def tb del: takeWhile_eq_all_conv)
qed

lemma takeWhile_pad_map:
  "SFN_PAD \<notin> set xs \<Longrightarrow>
   takeWhile (\<lambda>c. c \<noteq> SFN_PAD) (pad_to n (map sfn_char xs)) = map sfn_char xs"
  by (rule takeWhile_pad_to) (auto simp: sfn_char_pad)

lemma parse_put_sfn_name:
  assumes "DOT \<notin> set base" and "SFN_PAD \<notin> set base" and "length base \<le> 8"
    and "SFN_PAD \<notin> set ext" and "length ext \<le> 3"
  shows "parse_sfn_name (put_sfn_name (name83 base ext) (length (name83 base ext)))
    = name83 (map sfn_char base) (map sfn_char ext)"
proof -
  have "(pad_to 8 (map sfn_char base) @ pad_to 3 (map sfn_char ext)) ! 8
      = pad_to 3 (map sfn_char ext) ! 0"
    using assms(3) by (simp add: nth_append)
  moreover have "(pad_to 3 (map sfn_char ext) ! 0 = SFN_PAD) = (ext = [])"
    using assms(4) by (cases ext) (auto simp: pad_to_def sfn_char_pad)
  ultimately show ?thesis
    using assms by (simp add: parse_sfn_name_def put_sfn_name83 takeWhile_pad_map)
       (auto simp: name83_def)
qed

lemma put_sfn_name_upper: "put_sfn_name (map to_upper name) len = put_sfn_name name len"
proof -
  have c: "sfn_char \<circ> to_upper = sfn_char" by (simp add: fun_eq_iff sfn_char_upper)
  have w: "(\<lambda>c. c \<noteq> DOT) \<circ> to_upper = (\<lambda>c. c \<noteq> DOT)" by (simp add: fun_eq_iff to_upper_dot)
  show ?thesis
    by (simp add: put_sfn_name_def Let_def take_map drop_map takeWhile_map dropWhile_map w c
        flip: map_tl)
qed

subsection \<open>Long-name fragments: storing and reading back\<close>

lemma lfn_indices_table:
  "list_all (\<lambda>i. lfn_indices ! i + 1 < 32 \<and> list_all (\<lambda>k. lfn_indices ! i + 1 \<noteq> lfn_indices ! k
     \<and> (lfn_indices ! i = lfn_indices ! k) = (i = k)) [0..<13]) [0..<13]"
  by code_simp

lemma lfn_indices_nth:
  assumes "i < 13" and "k < 13"
  shows "lfn_indices ! i + 1 < 32" "lfn_indices ! i + 1 \<noteq> lfn_indices ! k"
    "(lfn_indices ! i = lfn_indices ! k) = (i = k)"
  using lfn_indices_table assms by (auto simp: list_all_iff)

lemma length_lfn_put [simp]: "length (lfn_put i lo hi raw) = length raw"
  by (simp add: lfn_put_def)

lemma length_lfn_put_chars [simp]: "length (lfn_put_chars i cs raw) = length raw"
  by (induction i cs raw rule: lfn_put_chars.induct) auto

lemma length_lfn_put_fill [simp]: "length (lfn_put_fill js raw) = length raw"
  by (induction js raw rule: lfn_put_fill.induct) auto

lemma length_put_lfn_name_frag [simp]: "length (put_lfn_name_frag raw name len) = length raw"
  by (simp add: put_lfn_name_frag_def Let_def)

lemma lfn_put_at:
  assumes "length raw = 32" and "i < 13" and "k < 13"
  shows "lfn_put i lo hi raw ! (lfn_indices ! k) = (if k = i then lo else raw ! (lfn_indices ! k))"
  using assms lfn_indices_nth[of i k] by (auto simp: lfn_put_def nth_list_update)

lemma lfn_put_chars_at:
  "length raw = 32 \<Longrightarrow> i + length cs \<le> 13 \<Longrightarrow> k < 13 \<Longrightarrow>
   lfn_put_chars i cs raw ! (lfn_indices ! k) =
     (if i \<le> k \<and> k < i + length cs then cs ! (k - i) else raw ! (lfn_indices ! k))"
proof (induction i cs raw rule: lfn_put_chars.induct)
  case (1 i raw)
  then show ?case by auto
next
  case (2 i c cs raw)
  then show ?case
    by (cases "k = i") (auto simp: lfn_put_at nth_Cons' not_less_eq_eq Suc_le_eq)
qed

lemma lfn_put_fill_at:
  "length raw = 32 \<Longrightarrow> \<forall>j \<in> set js. j < 13 \<Longrightarrow> k < 13 \<Longrightarrow>
   lfn_put_fill js raw ! (lfn_indices ! k) =
     (if k \<in> set js then 0xff else raw ! (lfn_indices ! k))"
  by (induction js raw rule: lfn_put_fill.induct) (auto simp: lfn_put_at)

lemma put_lfn_name_frag_at:
  assumes "length raw = 32" and "len \<le> length name" and "len \<le> 13" and "k < 13"
  shows "put_lfn_name_frag raw name len ! (lfn_indices ! k) =
    (if k < len then name ! k else if k = len then 0 else 0xff)"
  using assms by (auto simp: put_lfn_name_frag_def Let_def lfn_put_fill_at lfn_put_at
      lfn_put_chars_at min_def)

text \<open>A signed \<open>char\<close> is never 255, so the check for the filler can not fire.\<close>

lemma parse_lfn_frag_takeWhile:
  "parse_lfn_frag raw js = Some (takeWhile (\<lambda>c. c \<noteq> 0) (map ((!) raw) js))"
proof (induction raw js rule: parse_lfn_frag.induct)
  case (1 raw)
  then show ?case by simp
next
  case (2 raw j js)
  have "sint (raw ! j) \<noteq> 0xff" using sint_lt[of "raw ! j"] by simp
  with 2 show ?case by (simp add: Let_def)
qed

lemma map_nth_upt: "map ((!) raw) js = map (\<lambda>k. raw ! (js ! k)) [0..<length js]"
  by (rule nth_equalityI) simp_all

lemma parse_put_lfn_frag:
  assumes "length raw = 32" and "len \<le> length name" and "len \<le> 13"
    and "0 \<notin> set (take len name)"
  shows "parse_lfn_frag (put_lfn_name_frag raw name len) lfn_indices = Some (take len name)"
proof -
  let ?r = "put_lfn_name_frag raw name len"
  have l13: "length lfn_indices = 13" by (simp add: lfn_indices_def)
  have "map (\<lambda>k. ?r ! (lfn_indices ! k)) [0..<13] =
    take len name @ (if len < 13 then 0 # replicate (12 - len) 0xff else [])"
    using assms(1-3)
    by (intro nth_equalityI) (auto simp: put_lfn_name_frag_at nth_append nth_Cons')
  then have m: "map ((!) ?r) lfn_indices =
    take len name @ (if len < 13 then 0 # replicate (12 - len) 0xff else [])"
    by (simp add: map_nth_upt[of ?r] l13)
  have "takeWhile (\<lambda>c. c \<noteq> 0) (take len name @ ys) = take len name @ takeWhile (\<lambda>c. c \<noteq> 0) ys" for ys
    using assms(4) by (intro takeWhile_append2) metis
  then show ?thesis
    by (simp add: parse_lfn_frag_takeWhile m)
qed

subsection \<open>Timestamps: packing and unpacking\<close>

lemma ts_masks: "(0x1f :: u16) = mask 5" "(0x3f :: u16) = mask 6" "(0xf :: u16) = mask 4"
  by (simp_all add: mask_eq_exp_minus_1)

lemma encode_timestamp_fields:
  "drop_bit 9 (fst (encode_timestamp ts)) AND 0x3f = (ts_year ts - 1980) AND 0x3f"
  "drop_bit 5 (fst (encode_timestamp ts)) AND 0xf = ucast (ts_month ts) AND 0xf"
  "fst (encode_timestamp ts) AND 0x1f = ucast (ts_day ts) AND 0x1f"
  "drop_bit 11 (snd (encode_timestamp ts)) AND 0x1f = ucast (ts_hour ts) AND 0x1f"
  "drop_bit 5 (snd (encode_timestamp ts)) AND 0x3f = ucast (ts_min ts) AND 0x3f"
  "snd (encode_timestamp ts) AND 0x1f = ucast (ts_sec ts div 2) AND 0x1f"
  unfolding encode_timestamp_def fst_conv snd_conv
  by (rule bit_word_eqI; auto simp: bit_simps ts_masks)+

lemma ts_byte_field:
  "unat (x :: u8) < 2 ^ n \<Longrightarrow> n \<le> 8 \<Longrightarrow> ucast ((ucast x :: u16) AND mask n) = x"
  by (rule word_unat_eq_iff[THEN iffD2])
     (simp add: unsigned_ucast_eq unsigned_take_bit_eq take_bit_nat_eq_self_iff
        less_trans[OF unsigned_less[of x, where ?'a = nat, simplified]]
        flip: take_bit_eq_mask)

lemma ts_seconds_field:
  "even (unat (x :: u8)) \<Longrightarrow> unat x < 64 \<Longrightarrow>
   ucast (2 * ((ucast (x div 2) :: u16) AND mask 5)) = x"
  by (rule word_unat_eq_iff[THEN iffD2])
     (simp add: unsigned_ucast_eq unsigned_take_bit_eq unat_word_ariths unat_div
        flip: take_bit_eq_mask, simp add: take_bit_eq_mod)

lemma ts_year_field:
  "1980 \<le> unat (x :: u16) \<Longrightarrow> unat x < 2044 \<Longrightarrow> ((x - 1980) AND mask 6) + 1980 = x"
  by (rule word_unat_eq_iff[THEN iffD2])
     (simp add: unsigned_ucast_eq unsigned_take_bit_eq unat_word_ariths unat_sub_if_size word_size
        flip: take_bit_eq_mask, simp add: take_bit_eq_mod)

lemma decode_encode_timestamp:
  assumes "1980 \<le> unat (ts_year ts)" and "unat (ts_year ts) < 2044"
    and "unat (ts_month ts) \<le> 12" and "unat (ts_day ts) \<le> 31" and "unat (ts_hour ts) < 24"
    and "unat (ts_min ts) < 60" and "unat (ts_sec ts) < 60" and "even (unat (ts_sec ts))"
  shows "decode_timestamp (fst (encode_timestamp ts)) (snd (encode_timestamp ts)) = ts"
  using assms
  by (simp add: decode_timestamp_def encode_timestamp_fields, simp add: ts_masks ts_byte_field
      ts_seconds_field ts_year_field)

subsection \<open>The properties of names and timestamps\<close>

text \<open>A short name survives being stored and read back: for a base of at most eight characters
  and an extension of at most three, \<open>parse_sfn_name\<close> of what \<open>put_sfn_name\<close> stores is the same
  name with every character passed through \<open>sfn_char\<close>.\<close>

theorem sfn_name_roundtrip:
  assumes "DOT \<notin> set base" and "SFN_PAD \<notin> set base" and "length base \<le> 8"
    and "SFN_PAD \<notin> set ext" and "length ext \<le> 3"
  shows "parse_sfn_name (put_sfn_name (name83 base ext) (length (name83 base ext)))
    = name83 (map sfn_char base) (map sfn_char ext)"
  using assms by (rule parse_put_sfn_name)

theorem sfn_name_roundtrip_witness:
  "parse_sfn_name (put_sfn_name (name83 [0x61, 0x62] [0x63]) (length [0x61 :: u8, 0x62, 0x2e, 0x63])) = [0x41, 0x42, 0x2e, 0x43]"
  using sfn_name_roundtrip[of "[0x61, 0x62]" "[0x63]"]
  by (simp add: name83_def sfn_char_def to_upper_def Let_def)

text \<open>Digits are not distinguished: replacing every digit of a name by an underscore does not
  change the short name stored for it, so \<open>FILE1.TXT\<close> and \<open>FILE2.TXT\<close> get the same entry.\<close>

theorem sfn_digits_collide:
  "put_sfn_name (map (\<lambda>c. if 0x30 \<le> c \<and> c \<le> 0x39 then 0x5f else c) name) len = put_sfn_name name len"
proof -
  let ?u = "\<lambda>c :: u8. if 0x30 \<le> c \<and> c \<le> 0x39 then 0x5f else c"
  have "sfn_char 0x5f = 0x5f" by (rule sfn_char_id) (simp add: sfn_legal_def sfn_specials_def)
  then have c: "sfn_char \<circ> ?u = sfn_char" by (auto simp: fun_eq_iff sfn_char_digit)
  have w: "(\<lambda>c. c \<noteq> DOT) \<circ> ?u = (\<lambda>c. c \<noteq> DOT)" by (auto simp: fun_eq_iff)
  show ?thesis
    by (simp add: put_sfn_name_def Let_def take_map drop_map takeWhile_map dropWhile_map w c
        flip: map_tl)
qed

text \<open>A fragment of a long name survives being stored and read back: \<open>put_lfn_name_frag\<close> spreads
  up to thirteen characters over an entry and \<open>parse_lfn_name\<close> collects exactly these, whatever
  the entry held before.\<close>

theorem lfn_frag_roundtrip:
  assumes "length raw = 32" and "len \<le> length name" and "len \<le> 13" and "0 \<notin> set (take len name)"
  shows "parse_lfn_frag (put_lfn_name_frag raw name len) lfn_indices = Some (take len name)"
  using assms by (rule parse_put_lfn_frag)

theorem lfn_frag_roundtrip_witness:
  "parse_lfn_frag (put_lfn_name_frag (replicate 32 0xe5) [0x31, 0x32, 0x33] 2) lfn_indices = Some [0x31, 0x32]"
  using lfn_frag_roundtrip[of "replicate 32 0xe5" 2 "[0x31, 0x32, 0x33]"] by (simp add: take_Cons')

text \<open>A clock reading from 1980 to 2043 with an even second survives being packed into the
  date and time fields of an entry and unpacked.\<close>

theorem timestamp_roundtrip:
  assumes "1980 \<le> unat (ts_year ts)" and "unat (ts_year ts) < 2044"
    and "unat (ts_month ts) \<le> 12" and "unat (ts_day ts) \<le> 31" and "unat (ts_hour ts) < 24"
    and "unat (ts_min ts) < 60" and "unat (ts_sec ts) < 60" and "even (unat (ts_sec ts))"
  shows "decode_timestamp (fst (encode_timestamp ts)) (snd (encode_timestamp ts)) = ts"
  using assms by (rule decode_encode_timestamp)

theorem timestamp_roundtrip_witness:
  "decode_timestamp (fst (encode_timestamp fat_get_timestamp)) (snd (encode_timestamp fat_get_timestamp))
     = fat_get_timestamp"
  by (rule timestamp_roundtrip) (simp_all add: fat_get_timestamp_def)

text \<open>The year wraps: a date field has seven bits for the year and the driver packs six, so a
  clock reading of any year reads back as the year modulo 64 from 1980, and never as one after 2043.\<close>

theorem timestamp_year_wraps:
  "ts_year (decode_timestamp (fst (encode_timestamp ts)) t) = take_bit 6 (ts_year ts - 1980) + 1980
   \<and> unat (ts_year (decode_timestamp d t)) < 2044"
proof
  show "ts_year (decode_timestamp (fst (encode_timestamp ts)) t) = take_bit 6 (ts_year ts - 1980) + 1980"
    by (simp add: decode_timestamp_def encode_timestamp_fields) (simp add: ts_masks take_bit_eq_mask)
  have "unat (take_bit 6 (drop_bit 9 d)) < 64"
    using take_bit_nat_less_exp[of 6 "unat (drop_bit 9 d)"] by (simp only: unsigned_take_bit_eq) simp
  then have "unat (take_bit 6 (drop_bit 9 d) + 1980) < 2044" by (simp add: unat_word_ariths)
  then show "unat (ts_year (decode_timestamp d t)) < 2044"
    by (simp add: decode_timestamp_def ts_masks take_bit_eq_mask)
qed

end
