(* ===== verification/Fat_Cache.thy ===== *)
theory Fat_Cache
  imports Fat_Types
begin

text \<open>
  The one-sector write-back cache of \<open>fat.c\<close> (\<open>sync_buf\<close>, \<open>update_buf\<close>, \<open>sync_fs\<close>) over the
  \<open>DiskOps\<close> interface.

  The interface is the locale \<open>block_dev\<close>: what the driver needs of the callbacks it is given.
  The abstraction of a volume is \<open>lview\<close>, the contents of the disk as the driver sees them:
  the cached sector where there is one, the sector on the device elsewhere.  The invariant
  \<open>cache_ok\<close> says that a clean buffer agrees with the device.  Every operation keeps the
  invariant and the view; a successful \<open>sync_buf\<close> makes the device equal to the view.
  Sector 0 is the value \<open>fat_mount\<close> leaves in \<open>sect\<close> to mark an empty buffer.
\<close>

subsection \<open>The device callbacks\<close>

definition disk_write :: "u8 list \<Rightarrow> u32 \<Rightarrow> (('d, 'z) vol_scheme, fat_err, bool) prog" where
  "disk_write b n = (\<lambda>v. case op_write (fat_ops v) b n (dev v) of
     (ok, d) \<Rightarrow> Some (Inr ok, v\<lparr>dev := d\<rparr>))"

definition disk_read :: "u8 list \<Rightarrow> u32 \<Rightarrow> (('d, 'z) vol_scheme, fat_err, bool \<times> u8 list) prog" where
  "disk_read b n = (\<lambda>v. case op_read (fat_ops v) b n (dev v) of
     (ok, b', d) \<Rightarrow> Some (Inr (ok, b'), v\<lparr>dev := d\<rparr>))"

subsection \<open>The cache\<close>

definition sync_buf :: "(('d, 'z) vol_scheme, fat_err, unit) prog" where
  "sync_buf =
     bnd (gets (\<lambda>v. (fat_flags v, fat_buf v, buf_sect v))) (\<lambda>(fl, b, n).
     if fl AND FAT_BUF_DIRTY \<noteq> 0 then
       bnd (disk_write b n) (\<lambda>ok.
       if \<not> ok then throw FAT_ERR_IO
       else modify (\<lambda>v. v\<lparr>fat_flags := fat_flags v AND NOT FAT_BUF_DIRTY\<rparr>))
     else ret ())"

definition update_buf :: "u32 \<Rightarrow> (('d, 'z) vol_scheme, fat_err, unit) prog" where
  "update_buf n =
     bnd (gets buf_sect) (\<lambda>cur.
     if cur \<noteq> n then
       bnd sync_buf (\<lambda>_.
       bnd (gets fat_buf) (\<lambda>b.
       bnd (disk_read b n) (\<lambda>(ok, b').
       bnd (modify (\<lambda>v. v\<lparr>fat_buf := b'\<rparr>)) (\<lambda>_.
       if \<not> ok then throw FAT_ERR_IO
       else modify (\<lambda>v. v\<lparr>buf_sect := n\<rparr>)))))
     else ret ())"

text \<open>\<open>FsInfo\<close>: \<open>free_cnt\<close> at byte 488, \<open>next_free\<close> at byte 492.\<close>

definition set_fsinfo :: "('d, 'z) vol_scheme \<Rightarrow> ('d, 'z) vol_scheme" where
  "set_fsinfo v = v\<lparr>fat_buf := wr32 (wr32 (fat_buf v) 492 (last_used v)) 488 (free_cnt v),
     fat_flags := fat_flags v OR FAT_BUF_DIRTY\<rparr>"

definition sync_fs :: "(('d, 'z) vol_scheme, fat_err, unit) prog" where
  "sync_fs =
     bnd sync_buf (\<lambda>_.
     bnd (gets (\<lambda>v. (fat_flags v, info_sect v))) (\<lambda>(fl, n).
     if fl AND FAT_INFO_DIRTY \<noteq> 0 then
       bnd (update_buf n) (\<lambda>_.
       bnd (modify set_fsinfo) (\<lambda>_.
       bnd sync_buf (\<lambda>_.
       modify (\<lambda>v. v\<lparr>fat_flags := fat_flags v AND NOT FAT_INFO_DIRTY\<rparr>))))
     else ret ()))"

subsection \<open>What the driver sees of the disk\<close>

definition buf_dirty :: "('d, 'z) fat_scheme \<Rightarrow> bool" where
  "buf_dirty v = bit (fat_flags v) 0"

definition info_dirty :: "('d, 'z) fat_scheme \<Rightarrow> bool" where
  "info_dirty v = bit (fat_flags v) 1"

definition lview :: "('d \<Rightarrow> u32 \<Rightarrow> u8 list) \<Rightarrow> ('d, 'z) vol_scheme \<Rightarrow> u32 \<Rightarrow> u8 list" where
  "lview content v n = (if n = buf_sect v \<and> n \<noteq> 0 then fat_buf v else content (dev v) n)"

definition cache_ok ::
  "'d disk_ops \<Rightarrow> ('d \<Rightarrow> u32 \<Rightarrow> u8 list) \<Rightarrow> ('d \<Rightarrow> bool) \<Rightarrow> ('d, 'z) vol_scheme \<Rightarrow> bool" where
  "cache_ok ops content dinv v \<longleftrightarrow>
     fat_ops v = ops \<and> dinv (dev v) \<and> length (fat_buf v) = 512
     \<and> (buf_dirty v \<longrightarrow> buf_sect v \<noteq> 0)
     \<and> (\<not> buf_dirty v \<and> buf_sect v \<noteq> 0 \<longrightarrow> content (dev v) (buf_sect v) = fat_buf v)"

text \<open>Two volumes that differ in the device and in the cache only.\<close>

definition cacheless :: "('d, 'z) vol_scheme \<Rightarrow> ('d, 'z) vol_scheme" where
  "cacheless v = v\<lparr>fat_buf := [], buf_sect := 0, fat_flags := 0, dev := undefined\<rparr>"

definition only_cache :: "('d, 'z) vol_scheme \<Rightarrow> ('d, 'z) vol_scheme \<Rightarrow> bool" where
  "only_cache v v' \<longleftrightarrow> cacheless v' = cacheless v"

lemma only_cache_refl [simp]: "only_cache v v"
  by (simp add: only_cache_def)

lemma only_cache_trans [trans]: "only_cache u v \<Longrightarrow> only_cache v w \<Longrightarrow> only_cache u w"
  by (simp add: only_cache_def)

lemma only_cacheI [simp]:
  "only_cache v (v'\<lparr>dev := d\<rparr>) = only_cache v v'"
  "only_cache v (v'\<lparr>fat_buf := b\<rparr>) = only_cache v v'"
  "only_cache v (v'\<lparr>buf_sect := n\<rparr>) = only_cache v v'"
  "only_cache v (v'\<lparr>fat_flags := f\<rparr>) = only_cache v v'"
  by (simp_all add: only_cache_def cacheless_def)

lemma cacheless_fields:
  "fat_next (cacheless v) = fat_next v" "fat_ops (cacheless v) = fat_ops v"
  "clust_msk (cacheless v) = clust_msk v" "clust_cnt (cacheless v) = clust_cnt v"
  "info_sect (cacheless v) = info_sect v" "fat_sect0 (cacheless v) = fat_sect0 v"
  "fat_sect1 (cacheless v) = fat_sect1 v" "data_sect (cacheless v) = data_sect v"
  "root_clust (cacheless v) = root_clust v" "last_used (cacheless v) = last_used v"
  "free_cnt (cacheless v) = free_cnt v" "clust_shift (cacheless v) = clust_shift v"
  "fat_name_len (cacheless v) = fat_name_len v" "fat_name (cacheless v) = fat_name v"
  "vol.more (cacheless v) = vol.more v"
  by (simp_all add: cacheless_def)

lemma only_cache_fields:
  assumes "only_cache v v'"
  shows "fat_next v' = fat_next v" "fat_ops v' = fat_ops v" "clust_msk v' = clust_msk v"
    "clust_cnt v' = clust_cnt v" "info_sect v' = info_sect v" "fat_sect0 v' = fat_sect0 v"
    "fat_sect1 v' = fat_sect1 v" "data_sect v' = data_sect v" "root_clust v' = root_clust v"
    "last_used v' = last_used v" "free_cnt v' = free_cnt v" "clust_shift v' = clust_shift v"
    "fat_name_len v' = fat_name_len v" "fat_name v' = fat_name v" "vol.more v' = vol.more v"
  using assms unfolding only_cache_def by (metis cacheless_fields)+

subsection \<open>Flag bits\<close>

lemma flag_bit0: "((f :: u8) AND 0x01 \<noteq> 0) = bit f 0"
  by (simp add: and_exp_eq_0_iff_not_bit[of f 0, simplified])

lemma flag_bit1: "((f :: u8) AND 0x02 \<noteq> 0) = bit f 1"
  using and_exp_eq_0_iff_not_bit[of f 1] by simp

lemma flag_ops:
  "bit ((f :: u8) AND - 2) 0 = False" "bit (f AND - 2) (Suc 0) = bit f (Suc 0)"
  "bit ((f :: u8) AND - 3) 0 = bit f 0" "bit (f AND - 3) (Suc 0) = False"
  "bit ((f :: u8) OR 1) 0 = True" "bit (f OR 1) (Suc 0) = bit f (Suc 0)"
  "bit ((f :: u8) OR 2) 0 = bit f 0" "bit (f OR 2) (Suc 0) = True"
  using bit_and_iff[of f "NOT 1"] bit_and_iff[of f "NOT 2"] by (simp_all add: bit_simps)

subsection \<open>The contract of a block device\<close>

text \<open>\<open>content d n\<close> is what the device \<open>d\<close> stores in sector \<open>n\<close>; \<open>dinv\<close> is the device's own
  invariant.  A failed read leaves the caller's buffer alone; a failed write may have damaged
  the sector it was writing and no other.\<close>

locale block_dev =
  fixes ops :: "'d disk_ops"
    and content :: "'d \<Rightarrow> u32 \<Rightarrow> u8 list"
    and dinv :: "'d \<Rightarrow> bool"
  assumes content_len: "dinv d \<Longrightarrow> length (content d n) = 512"
    and read_ok: "dinv d \<Longrightarrow> length b = 512 \<Longrightarrow> op_read ops b n d = (True, b', d') \<Longrightarrow>
      b' = content d n \<and> content d' = content d \<and> dinv d'"
    and read_fail: "dinv d \<Longrightarrow> length b = 512 \<Longrightarrow> op_read ops b n d = (False, b', d') \<Longrightarrow>
      b' = b \<and> content d' = content d \<and> dinv d'"
    and write_ok: "dinv d \<Longrightarrow> length b = 512 \<Longrightarrow> op_write ops b n d = (True, d') \<Longrightarrow>
      content d' = (content d)(n := b) \<and> dinv d'"
    and write_fail: "dinv d \<Longrightarrow> length b = 512 \<Longrightarrow> op_write ops b n d = (False, d') \<Longrightarrow>
      (\<forall>m. m \<noteq> n \<longrightarrow> content d' m = content d m) \<and> dinv d'"
begin

lemma lview_len: "cache_ok ops content dinv v \<Longrightarrow> length (lview content v n) = 512"
  by (simp add: lview_def cache_ok_def content_len)

text \<open>What an operation of the cache leaves alone: the view, everything outside the cache,
  and the mark that the \<open>FsInfo\<close> counters are to be written.\<close>

definition kept :: "('d, 'z) vol_scheme \<Rightarrow> ('d, 'z) vol_scheme \<Rightarrow> bool" where
  "kept v v' \<longleftrightarrow> cache_ok ops content dinv v' \<and> lview content v' = lview content v
     \<and> only_cache v v' \<and> info_dirty v' = info_dirty v"

lemma kept_trans [trans]: "kept u v \<Longrightarrow> kept v w \<Longrightarrow> kept u w"
  by (auto simp: kept_def intro: only_cache_trans)

lemma kept_refl: "cache_ok ops content dinv v \<Longrightarrow> kept v v"
  by (simp add: kept_def)

lemma sync_buf_wp:
  assumes "cache_ok ops content dinv v"
  shows "wp sync_buf
    (\<lambda>_ v'. kept v v' \<and> \<not> buf_dirty v' \<and> buf_sect v' = buf_sect v \<and> fat_buf v' = fat_buf v
       \<and> (\<forall>n. n \<noteq> 0 \<longrightarrow> content (dev v') n = lview content v n))
    (\<lambda>e v'. e = FAT_ERR_IO \<and> kept v v') v"
proof (cases "buf_dirty v")
  case False
  with assms show ?thesis
    by (auto simp: sync_buf_def wp_rules flag_bit0 buf_dirty_def kept_refl cache_ok_def lview_def)
next
  case True
  obtain ok d where w: "op_write ops (fat_buf v) (buf_sect v) (dev v) = (ok, d)"
    by (metis surj_pair)
  have v: "fat_ops v = ops" "dinv (dev v)" "length (fat_buf v) = 512" "buf_sect v \<noteq> 0"
    using assms True by (auto simp: cache_ok_def)
  show ?thesis
  proof (cases ok)
    case True
    then have "content d = (content (dev v))(buf_sect v := fat_buf v)" "dinv d"
      using write_ok[OF v(2,3), of "buf_sect v" d] w by auto
    with True \<open>buf_dirty v\<close> v w show ?thesis
      by (auto simp: sync_buf_def wp_def bnd_def gets_def modify_def disk_write_def flag_bit0
          buf_dirty_def info_dirty_def kept_def cache_ok_def lview_def fun_eq_iff flag_ops)
  next
    case False
    then have "\<forall>m. m \<noteq> buf_sect v \<longrightarrow> content d m = content (dev v) m" "dinv d"
      using write_fail[OF v(2,3), of "buf_sect v" d] w by auto
    with False \<open>buf_dirty v\<close> v w show ?thesis
      by (auto simp: sync_buf_def wp_def bnd_def gets_def throw_def disk_write_def flag_bit0
          buf_dirty_def info_dirty_def kept_def cache_ok_def lview_def fun_eq_iff)
  qed
qed

text \<open>Loading a sector into a clean buffer.\<close>

lemma load_wp:
  assumes c: "cache_ok ops content dinv v" and "\<not> buf_dirty v" and n: "n \<noteq> 0" "buf_sect v \<noteq> n"
  shows "wp (bnd (gets fat_buf) (\<lambda>b. bnd (disk_read b n) (\<lambda>(ok, b').
       bnd (modify (\<lambda>v. v\<lparr>fat_buf := b'\<rparr>)) (\<lambda>_.
       if \<not> ok then throw FAT_ERR_IO else modify (\<lambda>v. v\<lparr>buf_sect := n\<rparr>)))))
    (\<lambda>_ v'. kept v v' \<and> buf_sect v' = n \<and> fat_buf v' = lview content v n)
    (\<lambda>e v'. e = FAT_ERR_IO \<and> kept v v') v"
proof -
  obtain ok b d where r: "op_read ops (fat_buf v) n (dev v) = (ok, b, d)"
    by (metis surj_pair)
  have v: "fat_ops v = ops" "dinv (dev v)" "length (fat_buf v) = 512"
    using c by (auto simp: cache_ok_def)
  show ?thesis
  proof (cases ok)
    case True
    then have "b = content (dev v) n" "content d = content (dev v)" "dinv d"
      using read_ok[OF v(2,3), of n b d] r by auto
    with True assms v r show ?thesis
      by (auto simp: wp_def bnd_def gets_def modify_def disk_read_def buf_dirty_def
          info_dirty_def kept_def cache_ok_def lview_def fun_eq_iff content_len)
  next
    case False
    then have "b = fat_buf v" "content d = content (dev v)" "dinv d"
      using read_fail[OF v(2,3), of n b d] r by auto
    with False assms v r show ?thesis
      by (auto simp: wp_def bnd_def gets_def modify_def throw_def disk_read_def buf_dirty_def
          info_dirty_def kept_def cache_ok_def lview_def fun_eq_iff)
  qed
qed

lemma update_buf_wp:
  assumes c: "cache_ok ops content dinv v" and n: "n \<noteq> 0"
  shows "wp (update_buf n)
    (\<lambda>_ v'. kept v v' \<and> buf_sect v' = n \<and> fat_buf v' = lview content v n)
    (\<lambda>e v'. e = FAT_ERR_IO \<and> kept v v') v"
proof (cases "buf_sect v = n")
  case True
  with c n show ?thesis
    by (simp add: update_buf_def wp_rules kept_refl lview_def)
next
  case False
  have "wp (bnd sync_buf (\<lambda>_. bnd (gets fat_buf) (\<lambda>b. bnd (disk_read b n) (\<lambda>(ok, b').
       bnd (modify (\<lambda>v. v\<lparr>fat_buf := b'\<rparr>)) (\<lambda>_.
       if \<not> ok then throw FAT_ERR_IO else modify (\<lambda>v. v\<lparr>buf_sect := n\<rparr>))))))
    (\<lambda>_ v'. kept v v' \<and> buf_sect v' = n \<and> fat_buf v' = lview content v n)
    (\<lambda>e v'. e = FAT_ERR_IO \<and> kept v v') v"
  proof (rule wp_bndI[OF sync_buf_wp[OF c]], goal_cases)
    case (1 x v1)
    then have "cache_ok ops content dinv v1" "\<not> buf_dirty v1" "buf_sect v1 \<noteq> n"
      using False by (auto simp: kept_def)
    note load_wp[OF this(1,2) n this(3)]
    then show ?case
      by (rule wp_conseq) (use 1 in \<open>auto simp: kept_def intro: only_cache_trans\<close>)
  qed simp
  with False show ?thesis
    by (simp add: update_buf_def wp_bnd[of "gets buf_sect"] wp_gets)
qed

text \<open>Changing bytes of the cached sector and marking it dirty.\<close>

lemma store_props:
  assumes "cache_ok ops content dinv v" and "buf_sect v \<noteq> 0" and "length b = 512"
  shows "cache_ok ops content dinv (v\<lparr>fat_buf := b, fat_flags := fat_flags v OR 1\<rparr>)"
    and "lview content (v\<lparr>fat_buf := b, fat_flags := fat_flags v OR 1\<rparr>)
      = (lview content v)(buf_sect v := b)"
    and "only_cache v (v\<lparr>fat_buf := b, fat_flags := fat_flags v OR 1\<rparr>)"
    and "info_dirty (v\<lparr>fat_buf := b, fat_flags := fat_flags v OR 1\<rparr>) = info_dirty v"
  using assms
  by (auto simp: cache_ok_def lview_def buf_dirty_def info_dirty_def flag_ops fun_eq_iff)

text \<open>The view after the \<open>FsInfo\<close> sector has been brought up to date.\<close>

definition fsinfo_view :: "('d, 'z) vol_scheme \<Rightarrow> u32 \<Rightarrow> u8 list" where
  "fsinfo_view v =
     (if info_dirty v
      then (lview content v)(info_sect v :=
        wr32 (wr32 (lview content v (info_sect v)) 492 (last_used v)) 488 (free_cnt v))
      else lview content v)"

lemma set_fsinfo_props:
  assumes "cache_ok ops content dinv v" and "buf_sect v \<noteq> 0"
  shows "cache_ok ops content dinv (set_fsinfo v)"
    and "lview content (set_fsinfo v) = (lview content v)(buf_sect v :=
      wr32 (wr32 (lview content v (buf_sect v)) 492 (last_used v)) 488 (free_cnt v))"
    and "only_cache v (set_fsinfo v)" and "info_dirty (set_fsinfo v) = info_dirty v"
proof -
  have "length (wr32 (wr32 (fat_buf v) 492 (last_used v)) 488 (free_cnt v)) = 512"
    and "lview content v (buf_sect v) = fat_buf v"
    using assms by (simp_all add: cache_ok_def lview_def)
  note store_props[OF assms this(1)] this(2)
  then show "cache_ok ops content dinv (set_fsinfo v)"
    "lview content (set_fsinfo v) = (lview content v)(buf_sect v :=
      wr32 (wr32 (lview content v (buf_sect v)) 492 (last_used v)) 488 (free_cnt v))"
    "only_cache v (set_fsinfo v)" "info_dirty (set_fsinfo v) = info_dirty v"
    unfolding set_fsinfo_def by simp_all
qed

lemma info_flag_props:
  assumes "fs = fat_flags v AND NOT FAT_INFO_DIRTY \<and> \<not> on \<or> fs = fat_flags v OR FAT_INFO_DIRTY \<and> on"
  shows "cache_ok ops content dinv (v\<lparr>fat_flags := fs\<rparr>) = cache_ok ops content dinv v"
    and "lview content (v\<lparr>fat_flags := fs\<rparr>) = lview content v"
    and "buf_dirty (v\<lparr>fat_flags := fs\<rparr>) = buf_dirty v"
    and "info_dirty (v\<lparr>fat_flags := fs\<rparr>) = on"
  using assms
  by (auto simp: cache_ok_def lview_def buf_dirty_def info_dirty_def flag_ops fun_eq_iff)

lemma sync_fs_wp:
  assumes c: "cache_ok ops content dinv v" and i: "info_sect v \<noteq> 0"
  shows "wp sync_fs
    (\<lambda>_ v'. cache_ok ops content dinv v' \<and> only_cache v v' \<and> \<not> buf_dirty v' \<and> \<not> info_dirty v'
       \<and> lview content v' = fsinfo_view v
       \<and> (\<forall>n. n \<noteq> 0 \<longrightarrow> content (dev v') n = fsinfo_view v n))
    (\<lambda>e v'. e = FAT_ERR_IO \<and> cache_ok ops content dinv v' \<and> only_cache v v'
       \<and> (\<forall>n. n \<noteq> info_sect v \<longrightarrow> lview content v' n = lview content v n)) v"
  unfolding sync_fs_def
proof (rule wp_bndI[OF sync_buf_wp[OF c]], goal_cases)
  case (1 x v1)
  then have c1: "cache_ok ops content dinv v1" and o1: "only_cache v v1"
    and l1: "lview content v1 = lview content v" and d1: "info_dirty v1 = info_dirty v"
    by (auto simp: kept_def)
  note f1 = only_cache_fields[OF o1]
  show ?case
  proof (cases "info_dirty v")
    case False
    with 1 f1 show ?thesis
      by (auto simp: wp_rules flag_bit1 d1[symmetric] info_dirty_def fsinfo_view_def kept_def)
  next
    case True
    have "wp (bnd (update_buf (info_sect v)) (\<lambda>_. bnd (modify set_fsinfo) (\<lambda>_. bnd sync_buf (\<lambda>_.
       modify (\<lambda>v. v\<lparr>fat_flags := fat_flags v AND NOT FAT_INFO_DIRTY\<rparr>)))))
      (\<lambda>_ v'. cache_ok ops content dinv v' \<and> only_cache v v' \<and> \<not> buf_dirty v' \<and> \<not> info_dirty v'
         \<and> lview content v' = fsinfo_view v
         \<and> (\<forall>n. n \<noteq> 0 \<longrightarrow> content (dev v') n = fsinfo_view v n))
      (\<lambda>e v'. e = FAT_ERR_IO \<and> cache_ok ops content dinv v' \<and> only_cache v v'
         \<and> (\<forall>n. n \<noteq> info_sect v \<longrightarrow> lview content v' n = lview content v n)) v1"
    proof (rule wp_bndI[OF update_buf_wp[OF c1 i]], goal_cases)
      case (1 y v2)
      then have k2: "kept v1 v2" and b2: "buf_sect v2 = info_sect v" by auto
      then have c2: "cache_ok ops content dinv v2" and o2: "only_cache v v2"
        and l2: "lview content v2 = lview content v"
        using o1 l1 by (auto simp: kept_def intro: only_cache_trans)
      let ?v3 = "set_fsinfo v2"
      have p3: "cache_ok ops content dinv ?v3" "only_cache v ?v3"
        "lview content ?v3 = fsinfo_view v"
        using set_fsinfo_props[OF c2] b2 i True o2 only_cache_fields[OF o2]
        by (auto simp: fsinfo_view_def l2 intro: only_cache_trans)
      then show ?case
      proof (simp only: wp_bnd[of "modify set_fsinfo"] wp_modify, intro wp_bndI[OF sync_buf_wp],
          goal_cases)
        case (2 z v4)
        then have "cache_ok ops content dinv v4" "lview content v4 = fsinfo_view v"
          "only_cache v v4" "\<not> buf_dirty v4"
          "\<forall>n. n \<noteq> 0 \<longrightarrow> content (dev v4) n = fsinfo_view v n"
          by (auto simp: kept_def intro: only_cache_trans)
        with info_flag_props[of "fat_flags v4 AND NOT FAT_INFO_DIRTY" v4 False] show ?case
          by (simp add: wp_modify)
      next
        case (3 e v4)
        then have "lview content v4 = fsinfo_view v" "only_cache v v4"
          "cache_ok ops content dinv v4" "e = FAT_ERR_IO"
          by (auto simp: kept_def intro: only_cache_trans)
        then show ?case by (simp add: fsinfo_view_def)
      qed simp
    next
      case (2 e v2)
      with o1 l1 show ?case by (auto simp: kept_def intro: only_cache_trans)
    qed
    moreover have "bit (fat_flags v1) 1"
      using True d1 by (simp add: info_dirty_def)
    ultimately show ?thesis
      by (subst wp_bnd) (simp only: wp_gets prod.case flag_bit1 if_True f1)
  qed
next
  case (2 e v1)
  then show ?case by (auto simp: kept_def)
qed

end

end
