(* ===== verification/Ram_Disk.thy ===== *)
theory Ram_Disk
  imports Fat_Cache
begin

text \<open>
  A device held in memory, some of whose sectors fail, and a small volume on it.  It is the
  executable instance of the \<open>block_dev\<close> interface on which the witnesses run the driver; the
  ATA disk the kernel mounts is another instance of the same interface.
\<close>

record ram =
  ram_data :: "u32 \<Rightarrow> u8 list"
  ram_bad :: "u32 \<Rightarrow> bool"

definition ram_read :: "u8 list \<Rightarrow> u32 \<Rightarrow> ram \<Rightarrow> bool \<times> u8 list \<times> ram" where
  "ram_read b n d = (if ram_bad d n then (False, b, d) else (True, ram_data d n, d))"

definition ram_write :: "u8 list \<Rightarrow> u32 \<Rightarrow> ram \<Rightarrow> bool \<times> ram" where
  "ram_write b n d =
     (if ram_bad d n then (False, d) else (True, d\<lparr>ram_data := (ram_data d)(n := b)\<rparr>))"

definition ram_ops :: "ram disk_ops" where
  "ram_ops = \<lparr>op_read = ram_read, op_write = ram_write\<rparr>"

definition ram_inv :: "ram \<Rightarrow> bool" where
  "ram_inv d \<longleftrightarrow> (\<forall>n. length (ram_data d n) = 512)"

interpretation ram: block_dev ram_ops ram_data ram_inv
  by unfold_locales
     (auto simp: ram_ops_def ram_inv_def ram_read_def ram_write_def split: if_splits)

text \<open>The small volume: 128 clusters of one sector, the table at sector 32 and mirrored at 48,
  \<open>FsInfo\<close> in sector 1, data from sector 64.  The root directory is the chain [2], a file
  occupies [3, 4, 5], the other clusters are free.\<close>

definition demo_table :: "u8 list" where
  "demo_table = wr32 (wr32 (wr32 (wr32 (replicate 512 0) 8 0x0fffffff) 12 4) 16 5) 20 0x0fffffff"

definition demo_disk :: ram where
  "demo_disk = \<lparr>ram_data = (\<lambda>n. if n = 32 \<or> n = 48 then demo_table else replicate 512 0),
     ram_bad = (\<lambda>n. False)\<rparr>"

definition demo_vol :: "ram \<Rightarrow> ram vol" where
  "demo_vol d = \<lparr>fat_next = None, fat_ops = ram_ops, clust_msk = 0, clust_cnt = 128,
     info_sect = 1, fat_sect0 = 32, fat_sect1 = 48, data_sect = 64, root_clust = 2,
     last_used = 5, free_cnt = 122, buf_sect = 0, fat_buf = replicate 512 0, fat_flags = 0,
     clust_shift = 0, fat_name_len = 0, fat_name = [], dev = d\<rparr>"

lemma demo_fields [simp]:
  "fat_ops (demo_vol d) = ram_ops" "clust_cnt (demo_vol d) = 128" "info_sect (demo_vol d) = 1"
  "fat_sect0 (demo_vol d) = 32" "fat_sect1 (demo_vol d) = 48" "data_sect (demo_vol d) = 64"
  "root_clust (demo_vol d) = 2" "last_used (demo_vol d) = 5" "free_cnt (demo_vol d) = 122"
  "buf_sect (demo_vol d) = 0" "fat_buf (demo_vol d) = replicate 512 0" "fat_flags (demo_vol d) = 0"
  "clust_shift (demo_vol d) = 0" "clust_msk (demo_vol d) = 0" "dev (demo_vol d) = d"
  by (simp_all add: demo_vol_def)

lemma rd32_replicate: "i + 3 < n \<Longrightarrow> rd32 (replicate n 0) i = 0"
  by (simp add: rd32_def)

lemma length_demo_table [simp]: "length demo_table = 512"
  by (simp add: demo_table_def)

lemma demo_inv: "ram_inv demo_disk"
  by (simp add: ram_inv_def demo_disk_def)

lemma demo_view: "lview ram_data (demo_vol d) = ram_data d"
  by (simp add: lview_def fun_eq_iff)

lemma demo_cache_ok: "cache_ok ram_ops ram_data ram_inv (demo_vol demo_disk)"
  by (simp add: cache_ok_def demo_inv buf_dirty_def)

end
