(* ===== verification/Fat_Table.thy ===== *)
theory Fat_Table
  imports Ram_Disk
begin

text \<open>
  The file allocation table of \<open>fat.c\<close>: cluster arithmetic, \<open>get_fat\<close>, \<open>put_fat\<close>, freeing a
  chain (\<open>remove_chain\<close>), allocating a cluster (\<open>stretch_chain\<close>, \<open>create_chain\<close>) and clearing
  one (\<open>clust_clear\<close>).

  The abstraction is the function from clusters to table entries that \<open>fat_val\<close> reads off the
  view of the disk.  The loops of the code are partial functions into \<open>option\<close>; that they
  return is part of their specifications.
\<close>

subsection \<open>Cluster arithmetic\<close>

definition sect_to_clust :: "('d, 'z) fat_scheme \<Rightarrow> u32 \<Rightarrow> u32" where
  "sect_to_clust v s = drop_bit (unat (clust_shift v)) (s - data_sect v) + 2"

definition clust_to_sect :: "('d, 'z) fat_scheme \<Rightarrow> u32 \<Rightarrow> u32" where
  "clust_to_sect v c = push_bit (unat (clust_shift v)) (c - 2) + data_sect v"

subsection \<open>Table entries\<close>

text \<open>The flags \<open>get_fat\<close> gives a masked entry; \<open>None\<close> where it returns \<open>FAT_ERR_BROKEN\<close>.\<close>

definition fat_entry_flags :: "u32 \<Rightarrow> u32 \<Rightarrow> u8 option" where
  "fat_entry_flags cnt val =
     (if val = 0 then Some CLUST_FREE
      else if val = 0x0ffffff7 then Some CLUST_BAD
      else if val \<ge> 0x0ffffff8 then Some (CLUST_USED OR CLUST_LAST)
      else if val \<ge> 2 \<and> val < cnt then Some CLUST_USED
      else None)"

definition get_fat :: "u32 \<Rightarrow> (('d, 'z) vol_scheme, fat_err, u32 \<times> u8) prog" where
  "get_fat clust =
     bnd (gets fat_sect0) (\<lambda>base.
     bnd (update_buf (base + clust div 128)) (\<lambda>_.
     bnd (gets (\<lambda>v. (fat_buf v, clust_cnt v))) (\<lambda>(b, cnt).
     let val = rd32 b (4 * unat (clust mod 128)) AND 0x0fffffff
     in case fat_entry_flags cnt val of
          None \<Rightarrow> throw FAT_ERR_BROKEN
        | Some flags \<Rightarrow> ret (val, flags))))"

definition fat_entry_merge :: "u32 \<Rightarrow> u32 \<Rightarrow> u32" where
  "fat_entry_merge old val = (old AND 0xf0000000) OR (val AND 0x0fffffff)"

definition set_fat_item :: "u32 \<Rightarrow> u32 \<Rightarrow> ('d, 'z) vol_scheme \<Rightarrow> ('d, 'z) vol_scheme" where
  "set_fat_item clust val v =
     (let i = 4 * unat (clust mod 128)
      in v\<lparr>fat_buf := wr32 (fat_buf v) i (fat_entry_merge (rd32 (fat_buf v) i) val),
           fat_flags := fat_flags v OR FAT_BUF_DIRTY\<rparr>)"

definition put_fat2 :: "u32 \<Rightarrow> u32 \<Rightarrow> u32 \<Rightarrow> (('d, 'z) vol_scheme, fat_err, unit) prog" where
  "put_fat2 fat_sect clust val =
     bnd (update_buf (fat_sect + clust div 128)) (\<lambda>_. modify (set_fat_item clust val))"

definition put_fat :: "u32 \<Rightarrow> u32 \<Rightarrow> (('d, 'z) vol_scheme, fat_err, unit) prog" where
  "put_fat clust val =
     bnd (gets (\<lambda>v. (fat_sect0 v, fat_sect1 v))) (\<lambda>(s0, s1).
     bnd (if s1 \<noteq> 0 then put_fat2 s1 clust val else ret ()) (\<lambda>_.
     put_fat2 s0 clust val))"

subsection \<open>Chains\<close>

definition set_info_dirty :: "(('d, 'z) vol_scheme, fat_err, unit) prog" where
  "set_info_dirty = modify (\<lambda>v. v\<lparr>fat_flags := fat_flags v OR FAT_INFO_DIRTY\<rparr>)"

partial_function (option) remove_chain_loop ::
  "u32 \<Rightarrow> ('d, 'z) vol_scheme \<Rightarrow> ((fat_err + unit) \<times> ('d, 'z) vol_scheme) option" where
  "remove_chain_loop clust v =
     bnd (get_fat clust) (\<lambda>(nxt, flags).
     if flags AND (CLUST_BAD OR CLUST_FREE) \<noteq> 0 then throw FAT_ERR_BROKEN
     else
       bnd (put_fat clust 0) (\<lambda>_.
       bnd (modify (\<lambda>v. v\<lparr>free_cnt := free_cnt v + 1\<rparr>)) (\<lambda>_.
       if flags AND CLUST_LAST \<noteq> 0 then ret () else remove_chain_loop nxt))) v"

definition remove_chain :: "u32 \<Rightarrow> (('d, 'z) vol_scheme, fat_err, unit) prog" where
  "remove_chain clust =
     bnd set_info_dirty (\<lambda>_. bnd (remove_chain_loop clust) (\<lambda>_. sync_fs))"

text \<open>\<open>++clust\<close> with the wrap to the first cluster.\<close>

definition next_clust :: "u32 \<Rightarrow> u32 \<Rightarrow> u32" where
  "next_clust cnt clust = (if clust + 1 \<ge> cnt then 2 else clust + 1)"

text \<open>The scan for a free cluster.  \<open>flags\<close> is the local of \<open>stretch_chain\<close>, which is what the
  code returns when \<open>get_fat\<close> fails here.\<close>

partial_function (option) scan_free ::
  "u32 \<Rightarrow> u8 option \<Rightarrow> ('d, 'z) vol_scheme \<Rightarrow> ((fat_err + u32) \<times> ('d, 'z) vol_scheme) option" where
  "scan_free clust flags v =
     bnd (gets (\<lambda>v. (clust_cnt v, last_used v))) (\<lambda>(cnt, last).
     if next_clust cnt clust = last then throw FAT_ERR_FULL
     else
       attempt (get_fat (next_clust cnt clust)) (\<lambda>r.
       case r of
         Inl e \<Rightarrow> throw (FAT_RET_FLAGS flags)
       | Inr (nxt, fl) \<Rightarrow>
           if fl AND CLUST_FREE \<noteq> 0 then ret (next_clust cnt clust)
           else scan_free (next_clust cnt clust) (Some fl))) v"

definition stretch_chain :: "u32 \<Rightarrow> (('d, 'z) vol_scheme, fat_err, u32) prog" where
  "stretch_chain prev =
     bnd set_info_dirty (\<lambda>_.
     bnd (gets (\<lambda>v. (clust_cnt v, last_used v))) (\<lambda>(cnt, last).
     bnd (if prev \<noteq> 0 then
            bnd (get_fat (next_clust cnt prev)) (\<lambda>(nxt, flags).
            if flags AND CLUST_FREE \<noteq> 0 then ret (next_clust cnt prev)
            else scan_free last (Some flags))
          else scan_free last None) (\<lambda>clust.
     bnd (put_fat clust 0x0fffffff) (\<lambda>_.
     bnd (if prev \<noteq> 0 then put_fat prev clust else ret ()) (\<lambda>_.
     bnd (modify (\<lambda>v. v\<lparr>last_used := clust, free_cnt := free_cnt v - 1\<rparr>)) (\<lambda>_.
     bnd sync_fs (\<lambda>_. ret clust)))))))"

definition create_chain :: "(('d, 'z) vol_scheme, fat_err, u32) prog" where
  "create_chain = stretch_chain 0"

fun clear_sectors :: "nat \<Rightarrow> u32 \<Rightarrow> (('d, 'z) vol_scheme, fat_err, unit) prog" where
  "clear_sectors 0 s = ret ()"
| "clear_sectors (Suc k) s =
     bnd (modify (\<lambda>v. v\<lparr>fat_flags := fat_flags v OR FAT_BUF_DIRTY, buf_sect := s\<rparr>)) (\<lambda>_.
     bnd sync_buf (\<lambda>_. clear_sectors k (s + 1)))"

definition clust_clear :: "u32 \<Rightarrow> (('d, 'z) vol_scheme, fat_err, unit) prog" where
  "clust_clear clust =
     bnd sync_buf (\<lambda>_.
     bnd (gets (\<lambda>v. (clust_to_sect v clust, clust_shift v))) (\<lambda>(s, sh).
     bnd (modify (\<lambda>v. v\<lparr>fat_buf := replicate 512 0\<rparr>)) (\<lambda>_.
     clear_sectors (2 ^ unat sh) s)))"

subsection \<open>The table as a function\<close>

definition fat_ent :: "(u32 \<Rightarrow> u8 list) \<Rightarrow> u32 \<Rightarrow> u32 \<Rightarrow> u32" where
  "fat_ent lv base c = rd32 (lv (base + c div 128)) (4 * unat (c mod 128))"

definition fat_val :: "(u32 \<Rightarrow> u8 list) \<Rightarrow> u32 \<Rightarrow> u32 \<Rightarrow> u32" where
  "fat_val lv base c = fat_ent lv base c AND 0x0fffffff"

definition set_ent :: "u32 \<Rightarrow> u32 \<Rightarrow> u32 \<Rightarrow> (u32 \<Rightarrow> u8 list) \<Rightarrow> u32 \<Rightarrow> u8 list" where
  "set_ent base c val lv = lv(base + c div 128 :=
     wr32 (lv (base + c div 128)) (4 * unat (c mod 128)) (fat_entry_merge (fat_ent lv base c) val))"

text \<open>The sectors of one copy of the table, and the layout the driver relies on: two copies that
  do not overlap each other or the \<open>FsInfo\<close> sector, do not wrap around and do not contain
  sector 0, and fewer clusters than the reserved entry values.\<close>

definition fat_sectors :: "('d, 'z) fat_scheme \<Rightarrow> nat" where
  "fat_sectors v = unat (clust_cnt v) div 128"

definition in_fat :: "('d, 'z) fat_scheme \<Rightarrow> u32 \<Rightarrow> u32 \<Rightarrow> bool" where
  "in_fat v base n \<longleftrightarrow> unat base \<le> unat n \<and> unat n < unat base + fat_sectors v"

definition geom_ok :: "('d, 'z) fat_scheme \<Rightarrow> bool" where
  "geom_ok v \<longleftrightarrow>
     unat (clust_cnt v) mod 128 = 0 \<and> 2 < clust_cnt v \<and> clust_cnt v \<le> 0x0ffffff0
     \<and> fat_sect0 v \<noteq> 0 \<and> unat (fat_sect0 v) + fat_sectors v \<le> 2 ^ 32
     \<and> info_sect v \<noteq> 0 \<and> \<not> in_fat v (fat_sect0 v) (info_sect v)
     \<and> (fat_sect1 v \<noteq> 0 \<longrightarrow>
          unat (fat_sect1 v) + fat_sectors v \<le> 2 ^ 32 \<and> \<not> in_fat v (fat_sect1 v) (info_sect v)
          \<and> (unat (fat_sect0 v) + fat_sectors v \<le> unat (fat_sect1 v)
             \<or> unat (fat_sect1 v) + fat_sectors v \<le> unat (fat_sect0 v)))"

lemma clust_div: "unat ((c :: u32) div 128) = unat c div 128"
  by (simp add: unat_div)

lemma clust_mod: "unat ((c :: u32) mod 128) = unat c mod 128"
  by (simp add: unat_mod)

lemma fat_sector_unat:
  assumes "geom_ok v" and "c < clust_cnt v" and "base = fat_sect0 v \<or> base = fat_sect1 v \<and> base \<noteq> 0"
  shows "unat (base + c div 128) = unat base + unat c div 128" "unat c div 128 < fat_sectors v"
proof -
  have "unat c < unat (clust_cnt v)" using assms(2) by (simp add: word_less_nat_alt)
  then show lt: "unat c div 128 < fat_sectors v"
    using assms(1) by (auto simp: geom_ok_def fat_sectors_def div_less_iff_less_mult)
  then have "unat base + unat c div 128 < 2 ^ 32"
    using assms(1,3) by (auto simp: geom_ok_def)
  then show "unat (base + c div 128) = unat base + unat c div 128"
    by (simp add: unat_word_ariths unat_div)
qed

lemma fat_sector_in:
  assumes "geom_ok v" and "c < clust_cnt v" and "base = fat_sect0 v \<or> base = fat_sect1 v \<and> base \<noteq> 0"
  shows "in_fat v base (base + c div 128)" "base + c div 128 \<noteq> 0"
    "base + c div 128 \<noteq> info_sect v"
proof -
  note u = fat_sector_unat[OF assms]
  from u show i: "in_fat v base (base + c div 128)" by (simp add: in_fat_def)
  from i assms(1,3) show "base + c div 128 \<noteq> info_sect v"
    by (auto simp: geom_ok_def)
  have "0 < unat base" using assms(1,3) by (auto simp: geom_ok_def unat_gt_0)
  with u(1) show "base + c div 128 \<noteq> 0" by (metis add_is_0 less_irrefl unat_0)
qed

lemma in_fat_other:
  assumes "geom_ok v" and "fat_sect1 v \<noteq> 0"
  shows "\<not> (in_fat v (fat_sect0 v) n \<and> in_fat v (fat_sect1 v) n)"
  using assms by (auto simp: geom_ok_def in_fat_def)

subsection \<open>Reading and writing one entry\<close>

lemma merge_low: "fat_entry_merge old val AND 0x0fffffff = val AND 0x0fffffff"
proof -
  have "(0xf0000000 :: u32) AND 0x0fffffff = 0" by simp
  then have "(old AND 0xf0000000) AND 0x0fffffff = 0" by (metis and.assoc and_zero_eq)
  then show ?thesis
    by (simp add: fat_entry_merge_def and.assoc bit.conj_disj_distrib2)
qed

lemma merge_high: "fat_entry_merge old val AND 0xf0000000 = old AND 0xf0000000"
proof -
  have "(0x0fffffff :: u32) AND 0xf0000000 = 0" by simp
  then have "(val AND 0x0fffffff) AND 0xf0000000 = 0" by (metis and.assoc and_zero_eq)
  then show ?thesis
    by (simp add: fat_entry_merge_def and.assoc bit.conj_disj_distrib2)
qed

lemma set_ent_other_sector: "n \<noteq> base + c div 128 \<Longrightarrow> set_ent base c val lv n = lv n"
  by (simp add: set_ent_def)

lemma fat_index_bound: "4 * unat ((c :: u32) mod 128) + 3 < 512"
  using mod_less_divisor[of 128 "unat c"] by (simp add: clust_mod)

lemma fat_ent_set_ent_same:
  assumes "length (lv (base + c div 128)) = 512"
  shows "fat_ent (set_ent base c val lv) base c = fat_entry_merge (fat_ent lv base c) val"
  using assms fat_index_bound[of c] by (simp add: fat_ent_def set_ent_def le_simps)

lemma clust_split: "(c :: u32) div 128 = c' div 128 \<Longrightarrow> c mod 128 = c' mod 128 \<Longrightarrow> c = c'"
  by (metis div_mult_mod_eq)

lemma fat_ent_set_ent_other:
  assumes "length (lv (base + c div 128)) = 512"
    and "base' + c' div 128 \<noteq> base + c div 128 \<or> base' = base \<and> c' \<noteq> c"
  shows "fat_ent (set_ent base c val lv) base' c' = fat_ent lv base' c'"
proof (cases "base' + c' div 128 = base + c div 128")
  case False
  then show ?thesis by (simp add: fat_ent_def set_ent_def)
next
  case True
  with assms(2) have "base' = base" "c' \<noteq> c" by auto
  with True have "c' mod 128 \<noteq> c mod 128" using clust_split by auto
  then have "unat (c' mod 128) \<noteq> unat (c mod 128)" by (simp add: word_unat_eq_iff)
  then have "4 * unat (c' mod 128) + 3 < 4 * unat (c mod 128)
    \<or> 4 * unat (c mod 128) + 3 < 4 * unat (c' mod 128)" by linarith
  with assms(1) True fat_index_bound[of c] show ?thesis
    by (simp add: fat_ent_def set_ent_def rd32_wr32_other)
qed

text \<open>A copy of the table: the active one, or the mirror when there is one.\<close>

definition fat_copy :: "('d, 'z) fat_scheme \<Rightarrow> u32 \<Rightarrow> bool" where
  "fat_copy v base \<longleftrightarrow> base = fat_sect0 v \<or> base = fat_sect1 v \<and> base \<noteq> 0"

definition put_view :: "('d, 'z) fat_scheme \<Rightarrow> u32 \<Rightarrow> u32 \<Rightarrow> (u32 \<Rightarrow> u8 list) \<Rightarrow> u32 \<Rightarrow> u8 list" where
  "put_view v c val lv =
     set_ent (fat_sect0 v) c val (if fat_sect1 v \<noteq> 0 then set_ent (fat_sect1 v) c val lv else lv)"

definition table_only :: "('d, 'z) fat_scheme \<Rightarrow> (u32 \<Rightarrow> u8 list) \<Rightarrow> (u32 \<Rightarrow> u8 list) \<Rightarrow> bool" where
  "table_only v lv lv' \<longleftrightarrow> (\<forall>n. (\<forall>base. fat_copy v base \<longrightarrow> \<not> in_fat v base n) \<longrightarrow> lv' n = lv n)"

lemma table_only_refl: "table_only v lv lv"
  by (simp add: table_only_def)

lemma table_only_trans: "table_only v lv lv' \<Longrightarrow> table_only v lv' lv'' \<Longrightarrow> table_only v lv lv''"
  by (simp add: table_only_def)

lemma table_only_set_ent:
  assumes "geom_ok v" and "c < clust_cnt v" and "fat_copy v base"
  shows "table_only v lv (set_ent base c val lv)"
  using fat_sector_in(1)[OF assms(1,2)] assms(3)
  by (auto simp: table_only_def fat_copy_def set_ent_def)

lemma table_only_put_view:
  assumes "geom_ok v" and "c < clust_cnt v"
  shows "table_only v lv (put_view v c val lv)"
proof -
  let ?lv1 = "if fat_sect1 v \<noteq> 0 then set_ent (fat_sect1 v) c val lv else lv"
  have "table_only v lv ?lv1"
    using table_only_set_ent[OF assms, of "fat_sect1 v"] by (simp add: fat_copy_def table_only_refl)
  moreover have "table_only v ?lv1 (put_view v c val lv)"
    unfolding put_view_def by (rule table_only_set_ent[OF assms]) (simp add: fat_copy_def)
  ultimately show ?thesis by (rule table_only_trans)
qed

lemma length_set_ent: "length (set_ent base c val lv n) = length (lv n)"
  by (simp add: set_ent_def)

lemma copy_sectors_differ:
  assumes "geom_ok v" and "c < clust_cnt v" and "c' < clust_cnt v" and "fat_sect1 v \<noteq> 0"
  shows "fat_sect0 v + c div 128 \<noteq> fat_sect1 v + c' div 128"
  using fat_sector_in(1)[OF assms(1,2), of "fat_sect0 v"]
    fat_sector_in(1)[OF assms(1,3), of "fat_sect1 v"] in_fat_other[OF assms(1,4)] assms(4)
  by auto

text \<open>Storing a value puts it into both copies, in the low 28 bits, and nowhere else.\<close>

lemma fat_ent_put_view:
  assumes g: "geom_ok v" and c: "c < clust_cnt v" "c' < clust_cnt v" and "fat_copy v base"
    and len: "\<And>n. length (lv n) = 512"
  shows "fat_ent (put_view v c val lv) base c' =
    (if c' = c then fat_entry_merge (fat_ent lv base c) val else fat_ent lv base c')"
proof (cases "base = fat_sect0 v")
  case True
  let ?lv1 = "if fat_sect1 v \<noteq> 0 then set_ent (fat_sect1 v) c val lv else lv"
  have "fat_ent ?lv1 (fat_sect0 v) x = fat_ent lv (fat_sect0 v) x" if "x < clust_cnt v" for x
    using copy_sectors_differ[OF g that c(1)] len by (simp add: fat_ent_set_ent_other)
  with True c len show ?thesis
    by (simp add: put_view_def fat_ent_set_ent_same fat_ent_set_ent_other length_set_ent)
next
  case False
  with assms(4) have b: "base = fat_sect1 v" "fat_sect1 v \<noteq> 0" by (auto simp: fat_copy_def)
  then have "fat_ent (put_view v c val lv) base c' = fat_ent (set_ent (fat_sect1 v) c val lv) base c'"
    using copy_sectors_differ[OF g c] len
    by (auto simp: put_view_def fat_ent_set_ent_other length_set_ent)
  with b len show ?thesis by (simp add: fat_ent_set_ent_same fat_ent_set_ent_other)
qed

lemma fat_val_put_view:
  assumes "geom_ok v" and "c < clust_cnt v" "c' < clust_cnt v" and "fat_copy v base"
    and "\<And>n. length (lv n) = 512"
  shows "fat_val (put_view v c val lv) base c' =
    (if c' = c then val AND 0x0fffffff else fat_val lv base c')"
  using fat_ent_put_view[OF assms] by (simp add: fat_val_def merge_low)

lemma geom_ok_cong:
  "clust_cnt v' = clust_cnt v \<Longrightarrow> fat_sect0 v' = fat_sect0 v \<Longrightarrow> fat_sect1 v' = fat_sect1 v \<Longrightarrow>
   info_sect v' = info_sect v \<Longrightarrow>
   geom_ok v' = geom_ok v \<and> fat_copy v' = fat_copy v \<and> put_view v' = put_view v
   \<and> table_only v' = table_only v \<and> in_fat v' = in_fat v"
  by (simp add: geom_ok_def fat_copy_def put_view_def table_only_def in_fat_def fat_sectors_def
      fun_eq_iff)

lemma fat_entry_flags_simps:
  "fat_entry_flags cnt 0 = Some 1"
  "val \<ge> 0x0ffffff8 \<Longrightarrow> fat_entry_flags cnt val = Some 6"
  "val \<ge> 2 \<Longrightarrow> val < cnt \<Longrightarrow> cnt \<le> 0x0ffffff0 \<Longrightarrow> fat_entry_flags cnt val = Some 2"
proof -
  show "fat_entry_flags cnt 0 = Some 1" by (simp add: fat_entry_flags_def)
next
  assume "val \<ge> 0x0ffffff8"
  then have "val \<noteq> 0" "val \<noteq> 0x0ffffff7" by auto
  with \<open>val \<ge> 0x0ffffff8\<close> show "fat_entry_flags cnt val = Some 6" by (simp add: fat_entry_flags_def)
next
  assume a: "val \<ge> 2" "val < cnt" "cnt \<le> 0x0ffffff0"
  then have "val < 0x0ffffff0" by (rule_tac less_le_trans)
  moreover have "(0x0ffffff0 :: u32) < 0x0ffffff8" "(0x0ffffff0 :: u32) < 0x0ffffff7" by simp_all
  ultimately have "val < 0x0ffffff8" "val < 0x0ffffff7" by (meson less_trans)+
  with a show "fat_entry_flags cnt val = Some 2" by (auto simp: fat_entry_flags_def)
qed

context block_dev
begin

lemma get_fat_wp:
  assumes c: "cache_ok ops content dinv v" and n: "fat_sect0 v + clust div 128 \<noteq> 0"
  shows "wp (get_fat clust)
    (\<lambda>(val, fl) v'. kept v v' \<and> val = fat_val (lview content v) (fat_sect0 v) clust
       \<and> fat_entry_flags (clust_cnt v) val = Some fl)
    (\<lambda>e v'. kept v v' \<and> (e = FAT_ERR_IO \<or> e = FAT_ERR_BROKEN
       \<and> fat_entry_flags (clust_cnt v) (fat_val (lview content v) (fat_sect0 v) clust) = None)) v"
  unfolding get_fat_def wp_bnd[of "gets fat_sect0"] wp_gets
proof (rule wp_bndI[OF update_buf_wp[OF c n]], goal_cases)
  case (1 x v1)
  then have "clust_cnt v1 = clust_cnt v" by (auto simp: kept_def only_cache_fields)
  with 1 show ?case
    by (auto simp: wp_rules Let_def fat_val_def fat_ent_def split: option.splits)
next
  case (2 e v1)
  then show ?case by simp
qed

lemma put_fat2_wp:
  assumes c: "cache_ok ops content dinv v" and n: "base + clust div 128 \<noteq> 0"
  shows "wp (put_fat2 base clust val)
    (\<lambda>_ v'. cache_ok ops content dinv v' \<and> only_cache v v' \<and> info_dirty v' = info_dirty v
       \<and> lview content v' = set_ent base clust val (lview content v))
    (\<lambda>e v'. e = FAT_ERR_IO \<and> kept v v') v"
  unfolding put_fat2_def
proof (rule wp_bndI[OF update_buf_wp[OF c n]], goal_cases)
  case (1 x v1)
  then have k: "kept v v1" and b: "buf_sect v1 = base + clust div 128"
    and f: "fat_buf v1 = lview content v (base + clust div 128)" by auto
  let ?v2 = "set_fat_item clust val v1"
  have l: "length (fat_buf v1) = 512" using k by (simp add: kept_def cache_ok_def)
  note st = store_props[OF _ _, of v1 "wr32 (fat_buf v1) (4 * unat (clust mod 128)) x" for x]
  have "cache_ok ops content dinv ?v2 \<and> only_cache v ?v2 \<and> info_dirty ?v2 = info_dirty v"
    using k b n l st(1,3,4) by (simp add: kept_def set_fat_item_def Let_def)
  moreover have "lview content ?v2 = set_ent base clust val (lview content v)"
    using k b n l f st(2) by (simp add: kept_def set_fat_item_def Let_def set_ent_def fat_ent_def)
  ultimately show ?case by (simp add: wp_modify)
next
  case (2 e v1)
  then show ?case by simp
qed

lemma put_fat_wp:
  assumes c: "cache_ok ops content dinv v" and g: "geom_ok v" and cl: "clust < clust_cnt v"
  shows "wp (put_fat clust val)
    (\<lambda>_ v'. cache_ok ops content dinv v' \<and> only_cache v v' \<and> info_dirty v' = info_dirty v
       \<and> lview content v' = put_view v clust val (lview content v))
    (\<lambda>e v'. e = FAT_ERR_IO \<and> cache_ok ops content dinv v' \<and> only_cache v v'
       \<and> info_dirty v' = info_dirty v \<and> table_only v (lview content v) (lview content v')) v"
proof -
  let ?s0 = "fat_sect0 v" and ?s1 = "fat_sect1 v"
  have n0: "?s0 + clust div 128 \<noteq> 0" using fat_sector_in[OF g cl] by simp
  have "wp (bnd (if ?s1 \<noteq> 0 then put_fat2 ?s1 clust val else ret ()) (\<lambda>_. put_fat2 ?s0 clust val))
    (\<lambda>_ v'. cache_ok ops content dinv v' \<and> only_cache v v' \<and> info_dirty v' = info_dirty v
       \<and> lview content v' = put_view v clust val (lview content v))
    (\<lambda>e v'. e = FAT_ERR_IO \<and> cache_ok ops content dinv v' \<and> only_cache v v'
       \<and> info_dirty v' = info_dirty v \<and> table_only v (lview content v) (lview content v')) v"
  proof (cases "?s1 = 0")
    case True
    show ?thesis
      using True c by (auto intro!: wp_conseq[OF put_fat2_wp[OF c n0]]
          simp: put_view_def kept_def table_only_refl)
  next
    case False
    have n1: "?s1 + clust div 128 \<noteq> 0" using fat_sector_in[OF g cl] False by simp
    from False have "wp (bnd (put_fat2 ?s1 clust val) (\<lambda>_. put_fat2 ?s0 clust val))
      (\<lambda>_ v'. cache_ok ops content dinv v' \<and> only_cache v v' \<and> info_dirty v' = info_dirty v
         \<and> lview content v' = put_view v clust val (lview content v))
      (\<lambda>e v'. e = FAT_ERR_IO \<and> cache_ok ops content dinv v' \<and> only_cache v v'
         \<and> info_dirty v' = info_dirty v \<and> table_only v (lview content v) (lview content v')) v"
    proof (intro wp_bndI[OF put_fat2_wp[OF c n1]], goal_cases)
      case (1 x v1)
      then have c1: "cache_ok ops content dinv v1" by simp
      show ?case
        using 1 False table_only_set_ent[OF g cl, of ?s1 "lview content v" val]
        by (intro wp_conseq[OF put_fat2_wp[OF c1 n0]])
           (auto simp: put_view_def kept_def fat_copy_def intro: only_cache_trans)
    next
      case (2 e v1)
      then show ?case by (simp add: kept_def table_only_refl)
    qed
    with False show ?thesis by simp
  qed
  then show ?thesis
    by (simp add: put_fat_def wp_bnd[of "gets _"] wp_gets)
qed

end

subsection \<open>Chains\<close>

text \<open>The clusters of a file or directory: each entry names the next cluster, the last one holds
  an end mark.\<close>

fun fat_chain :: "(u32 \<Rightarrow> u32) \<Rightarrow> u32 \<Rightarrow> u32 list \<Rightarrow> bool" where
  "fat_chain F cnt [] = False"
| "fat_chain F cnt [c] = (2 \<le> c \<and> c < cnt \<and> F c \<ge> 0x0ffffff8)"
| "fat_chain F cnt (c # d # cs) = (2 \<le> c \<and> c < cnt \<and> F c = d \<and> fat_chain F cnt (d # cs))"

lemma fat_chain_hd: "fat_chain F cnt (c # cs) \<Longrightarrow> 2 \<le> c \<and> c < cnt"
  by (cases cs) auto

lemma fat_chain_in: "fat_chain F cnt cs \<Longrightarrow> x \<in> set cs \<Longrightarrow> 2 \<le> x \<and> x < cnt"
proof (induction cs rule: induct_list012)
  case (3 c d cs)
  then show ?case by (auto dest: fat_chain_hd)
qed auto

lemma fat_chain_end: "cnt \<le> 0x0ffffff0 \<Longrightarrow> d < cnt \<Longrightarrow> \<not> 0x0ffffff8 \<le> (d :: u32)"
proof
  assume "cnt \<le> 0x0ffffff0" "d < cnt" "0x0ffffff8 \<le> d"
  then have "(0x0ffffff8 :: u32) < 0x0ffffff0" by (meson le_less_trans less_le_trans)
  then show False by simp
qed

text \<open>A chain is determined by its first cluster, so it does not visit a cluster twice.\<close>

lemma fat_chain_unique:
  assumes "cnt \<le> 0x0ffffff0"
  shows "fat_chain F cnt (c # xs) \<Longrightarrow> fat_chain F cnt (c # ys) \<Longrightarrow> xs = ys"
proof (induction xs arbitrary: c ys)
  case Nil
  then show ?case
    using fat_chain_end[OF assms] by (cases ys) (auto dest: fat_chain_hd)
next
  case (Cons d xs)
  then show ?case
    using fat_chain_end[OF assms] by (cases ys) (auto dest: fat_chain_hd)
qed

lemma fat_chain_suffix: "fat_chain F cnt (as @ b # bs) \<Longrightarrow> fat_chain F cnt (b # bs)"
proof (induction as)
  case (Cons a as)
  then show ?case by (cases as) auto
qed simp

lemma fat_chain_distinct:
  assumes "cnt \<le> 0x0ffffff0"
  shows "fat_chain F cnt cs \<Longrightarrow> distinct cs"
proof (induction cs rule: induct_list012)
  case (3 c d cs)
  have "c \<notin> set (d # cs)"
  proof
    assume "c \<in> set (d # cs)"
    then obtain as bs where e: "d # cs = as @ c # bs" by (meson split_list)
    with "3.prems" have "fat_chain F cnt (c # bs)"
      using fat_chain_suffix[of F cnt "c # as" c bs] by simp
    with "3.prems" have "d # cs = bs" by (metis fat_chain_unique[OF assms])
    with e show False by (metis length_append length_Cons less_add_Suc2 not_less_iff_gr_or_eq add_Suc_right)
  qed
  with 3 show ?case by simp
qed auto

lemma fat_chain_cong:
  "(\<And>x. x \<in> set cs \<Longrightarrow> F x = G x) \<Longrightarrow> fat_chain F cnt cs = fat_chain G cnt cs"
  by (induction cs rule: induct_list012) auto

subsection \<open>Frames with the counters\<close>

definition counterless :: "('d, 'z) vol_scheme \<Rightarrow> ('d, 'z) vol_scheme" where
  "counterless v = (cacheless v)\<lparr>free_cnt := 0, last_used := 0\<rparr>"

definition only_counters :: "('d, 'z) vol_scheme \<Rightarrow> ('d, 'z) vol_scheme \<Rightarrow> bool" where
  "only_counters v v' \<longleftrightarrow> counterless v' = counterless v"

lemma only_counters_refl [simp]: "only_counters v v"
  by (simp add: only_counters_def)

lemma only_counters_trans [trans]:
  "only_counters u v \<Longrightarrow> only_counters v w \<Longrightarrow> only_counters u w"
  by (simp add: only_counters_def)

lemma only_cache_counters: "only_cache v v' \<Longrightarrow> only_counters v v'"
  by (simp add: only_counters_def only_cache_def counterless_def)

lemma only_countersI [simp]:
  "only_counters v (v'\<lparr>free_cnt := n\<rparr>) = only_counters v v'"
  "only_counters v (v'\<lparr>last_used := m\<rparr>) = only_counters v v'"
  "only_counters v (v'\<lparr>fat_flags := f\<rparr>) = only_counters v v'"
  by (simp_all add: only_counters_def counterless_def cacheless_def)

lemma counterless_fields:
  "fat_next (counterless v) = fat_next v" "fat_ops (counterless v) = fat_ops v"
  "clust_msk (counterless v) = clust_msk v" "clust_cnt (counterless v) = clust_cnt v"
  "info_sect (counterless v) = info_sect v" "fat_sect0 (counterless v) = fat_sect0 v"
  "fat_sect1 (counterless v) = fat_sect1 v" "data_sect (counterless v) = data_sect v"
  "root_clust (counterless v) = root_clust v" "clust_shift (counterless v) = clust_shift v"
  "fat_name_len (counterless v) = fat_name_len v" "fat_name (counterless v) = fat_name v"
  "vol.more (counterless v) = vol.more v"
  by (simp_all add: counterless_def cacheless_def)

lemma only_counters_fields:
  assumes "only_counters v v'"
  shows "fat_next v' = fat_next v" "fat_ops v' = fat_ops v" "clust_msk v' = clust_msk v"
    "clust_cnt v' = clust_cnt v" "info_sect v' = info_sect v" "fat_sect0 v' = fat_sect0 v"
    "fat_sect1 v' = fat_sect1 v" "data_sect v' = data_sect v" "root_clust v' = root_clust v"
    "clust_shift v' = clust_shift v" "fat_name_len v' = fat_name_len v"
    "fat_name v' = fat_name v" "vol.more v' = vol.more v"
  using assms unfolding only_counters_def by (metis counterless_fields)+

lemma only_counters_geom:
  assumes "only_counters v v'"
  shows "geom_ok v' = geom_ok v" "fat_copy v' = fat_copy v" "put_view v' = put_view v"
    "table_only v' = table_only v" "in_fat v' = in_fat v"
  using geom_ok_cong[of v' v] only_counters_fields[OF assms] by simp_all

lemma fat_copy0: "fat_copy v (fat_sect0 v)"
  by (simp add: fat_copy_def)

end
