(* ===== verification/Fat_Chain.thy ===== *)
theory Fat_Chain
  imports Fat_Table
begin

text \<open>
  The cluster chain operations of \<open>fat.c\<close> against the table as a function: \<open>remove_chain\<close>
  frees a chain, \<open>stretch_chain\<close> allocates a cluster and links it, \<open>clust_clear\<close> zeroes one.
  \<open>tframe\<close> and \<open>vframe\<close> say what a table operation leaves alone, \<open>synced\<close> that the device
  holds the whole view with the counters in the \<open>FsInfo\<close> sector.
\<close>

subsection \<open>Freeing a chain\<close>

lemma remove_chain_loop_eq:
  "remove_chain_loop clust =
     bnd (get_fat clust) (\<lambda>(nxt, flags).
     if flags AND (CLUST_BAD OR CLUST_FREE) \<noteq> 0 then throw FAT_ERR_BROKEN
     else
       bnd (put_fat clust 0) (\<lambda>_.
       bnd (modify (\<lambda>v. v\<lparr>free_cnt := free_cnt v + 1\<rparr>)) (\<lambda>_.
       if flags AND CLUST_LAST \<noteq> 0 then ret () else remove_chain_loop nxt)))"
  by (rule ext) (rule remove_chain_loop.simps)

lemma card_cleared:
  fixes c cnt :: u32
  assumes "c < cnt" and "F c \<noteq> 0" and "\<And>x. x < cnt \<Longrightarrow> G x = (if x = c then 0 else F x)"
  shows "card {x. x < cnt \<and> G x \<noteq> (0 :: u32)} < card {x. x < cnt \<and> F x \<noteq> 0}"
proof -
  have "{x. x < cnt \<and> G x \<noteq> 0} = {x. x < cnt \<and> F x \<noteq> 0} - {c}"
  proof (rule set_eqI)
    fix x show "x \<in> {x. x < cnt \<and> G x \<noteq> 0} \<longleftrightarrow> x \<in> {x. x < cnt \<and> F x \<noteq> 0} - {c}"
      using assms(3)[of x] by (cases "x < cnt"; cases "x = c") simp_all
  qed
  moreover have "c \<in> {x. x < cnt \<and> F x \<noteq> 0}" using assms(1,2) by simp
  ultimately show ?thesis by (simp only: card_Diff1_less finite)
qed

lemma table_only_but_trans:
  "table_only u (l1(i := l2 i)) l2 \<Longrightarrow> table_only u (l2(i := l3 i)) l3 \<Longrightarrow> table_only u (l1(i := l3 i)) l3"
proof -
  assume a: "table_only u (l1(i := l2 i)) l2" "table_only u (l2(i := l3 i)) l3"
  have "l3 n = (l1(i := l3 i)) n" if "\<forall>base. fat_copy u base \<longrightarrow> \<not> in_fat u base n" for n
    using a(1)[unfolded table_only_def, rule_format, of n] a(2)[unfolded table_only_def, rule_format, of n]
      that by (cases "n = i") simp_all
  then show ?thesis by (simp add: table_only_def)
qed

context block_dev
begin

definition tframe :: "('d, 'z) vol_scheme \<Rightarrow> ('d, 'z) vol_scheme \<Rightarrow> bool" where
  "tframe v v' \<longleftrightarrow> cache_ok ops content dinv v' \<and> only_counters v v'
     \<and> info_dirty v' = info_dirty v \<and> table_only v (lview content v) (lview content v')"

lemma tframe_trans [trans]: "tframe u v \<Longrightarrow> tframe v w \<Longrightarrow> tframe u w"
  unfolding tframe_def
  using only_counters_geom(4)[of u v] by (auto intro: only_counters_trans table_only_trans)

lemma kept_tframe: "kept v v' \<Longrightarrow> tframe v v'"
  by (simp add: kept_def tframe_def only_cache_counters table_only_refl)

lemma count_free_props:
  "cache_ok ops content dinv (v\<lparr>free_cnt := n\<rparr>) = cache_ok ops content dinv v"
  "lview content (v\<lparr>free_cnt := n\<rparr>) = lview content v"
  "info_dirty (v\<lparr>free_cnt := n\<rparr>) = info_dirty v"
  by (auto simp: cache_ok_def lview_def buf_dirty_def info_dirty_def fun_eq_iff)

text \<open>One round: the entry is free or unusable, or it is cleared and counted.\<close>

lemma remove_round_wp:
  assumes c: "cache_ok ops content dinv v" and g: "geom_ok v" and cl: "clust < clust_cnt v"
    and k: "\<And>v'. \<lbrakk>tframe v v'; free_cnt v' = free_cnt v + 1; last_used v' = last_used v;
        lview content v' = put_view v clust 0 (lview content v)\<rbrakk>
      \<Longrightarrow> (case fat_entry_flags (clust_cnt v) (fat_val (lview content v) (fat_sect0 v) clust) of
          None \<Rightarrow> True | Some fl \<Rightarrow> fl AND 9 \<noteq> 0 \<or>
        wp (if fl AND CLUST_LAST \<noteq> 0 then ret ()
            else remove_chain_loop (fat_val (lview content v) (fat_sect0 v) clust)) Q E v')"
    and e: "\<And>v' e. \<lbrakk>tframe v v'; e = FAT_ERR_IO \<or> e = FAT_ERR_BROKEN
        \<and> (case fat_entry_flags (clust_cnt v) (fat_val (lview content v) (fat_sect0 v) clust) of
             None \<Rightarrow> True | Some fl \<Rightarrow> fl AND 9 \<noteq> 0)\<rbrakk> \<Longrightarrow> E e v'"
  shows "wp (remove_chain_loop clust) Q E v"
proof (subst remove_chain_loop_eq, rule wp_bndI, rule get_fat_wp[OF c], goal_cases)
  case 1
  show ?case using fat_sector_in(2)[OF g cl, of "fat_sect0 v"] by simp
next
  case (2 p v1)
  then obtain val fl where p: "p = (val, fl)" and k1: "kept v v1"
    and val: "val = fat_val (lview content v) (fat_sect0 v) clust"
    and fl: "fat_entry_flags (clust_cnt v) val = Some fl"
    by (cases p) auto
  show ?case
  proof (cases "fl AND 9 \<noteq> 0")
    case True
    with p e[OF kept_tframe[OF k1], of FAT_ERR_BROKEN] val fl show ?thesis
      by (simp add: wp_throw)
  next
    case False
    have c1: "cache_ok ops content dinv v1" and f1: "only_counters v v1"
      and l1: "lview content v1 = lview content v" and i1: "info_dirty v1 = info_dirty v"
      and fc: "free_cnt v1 = free_cnt v" "last_used v1 = last_used v"
      using k1 by (auto simp: kept_def only_cache_counters only_cache_fields)
    have g1: "geom_ok v1" "clust < clust_cnt v1"
      using g cl only_counters_geom[OF f1] only_counters_fields[OF f1] by simp_all
    have "wp (bnd (put_fat clust 0) (\<lambda>_. bnd (modify (\<lambda>v. v\<lparr>free_cnt := free_cnt v + 1\<rparr>)) (\<lambda>_.
       if fl AND CLUST_LAST \<noteq> 0 then ret () else remove_chain_loop val))) Q E v1"
    proof (rule wp_bndI[OF put_fat_wp[OF c1 g1]], goal_cases)
      case (1 x v2)
      let ?v3 = "v2\<lparr>free_cnt := free_cnt v2 + 1\<rparr>"
      have o: "only_counters v v2" using 1 f1 by (auto dest: only_cache_counters intro: only_counters_trans)
      have lv: "lview content ?v3 = put_view v clust 0 (lview content v)"
        using 1 only_counters_geom[OF f1] l1 by (simp add: count_free_props)
      then have "tframe v ?v3"
        using 1 o i1 table_only_put_view[OF g cl] by (simp add: tframe_def count_free_props)
      moreover have "free_cnt v2 = free_cnt v" "last_used v2 = last_used v"
        using 1 fc by (auto simp: only_cache_fields)
      ultimately show ?case
        using k[OF _ _ _ lv] False fl val by (simp add: wp_bnd[of "modify _"] wp_modify wp_if)
    next
      case (2 er v2)
      then have "tframe v v2"
        using f1 i1 l1 only_counters_geom[OF f1]
        by (auto simp: tframe_def dest: only_cache_counters intro: only_counters_trans)
      with e 2 show ?case by simp
    qed
    with p False show ?thesis by simp
  qed
next
  case (3 er v1)
  then show ?case using e[of v1 er] kept_tframe by auto
qed

lemma remove_chain_loop_wp:
  assumes "cache_ok ops content dinv v" and "geom_ok v" and "distinct (c # cs)"
    and "fat_chain (fat_val (lview content v) (fat_sect0 v)) (clust_cnt v) (c # cs)"
  shows "wp (remove_chain_loop c)
    (\<lambda>_ v'. tframe v v' \<and> last_used v' = last_used v
       \<and> free_cnt v' = free_cnt v + word_of_nat (Suc (length cs))
       \<and> (\<forall>base x. fat_copy v base \<longrightarrow> x < clust_cnt v \<longrightarrow> fat_val (lview content v') base x =
            (if x \<in> set (c # cs) then 0 else fat_val (lview content v) base x)))
    (\<lambda>e v'. e = FAT_ERR_IO \<and> tframe v v') v"
  using assms
proof (induction cs arbitrary: c v)
  case Nil
  let ?x = "fat_val (lview content v) (fat_sect0 v) c"
  have cl: "c < clust_cnt v" and fl: "fat_entry_flags (clust_cnt v) ?x = Some 6"
    using Nil by (auto simp: fat_entry_flags_simps)
  show ?case
    by (rule remove_round_wp[OF Nil(1,2) cl])
       (auto simp: fl wp_ret fat_val_put_view Nil cl lview_len)
next
  case (Cons d cs)
  let ?F = "fat_val (lview content v) (fat_sect0 v)"
  have cl: "c < clust_cnt v" and d: "?F c = d" "2 \<le> d" "d < clust_cnt v"
    and ch: "fat_chain ?F (clust_cnt v) (d # cs)"
    using Cons.prems(4) fat_chain_hd[of ?F "clust_cnt v" d cs] by auto
  have fl: "fat_entry_flags (clust_cnt v) d = Some 2"
    using d Cons.prems(2) by (auto simp: fat_entry_flags_simps geom_ok_def)
  show ?case
  proof (rule remove_round_wp[OF Cons.prems(1,2) cl], goal_cases)
    case (1 v')
    have o: "only_counters v v'" and c': "cache_ok ops content dinv v'"
      using 1 by (auto simp: tframe_def)
    note f = only_counters_fields[OF o] only_counters_geom[OF o]
    have F': "fat_val (lview content v') base x = (if x = c then 0 else fat_val (lview content v) base x)"
      if "x < clust_cnt v" "fat_copy v base" for x base
      using that 1(4) Cons.prems(1,2) cl by (simp add: fat_val_put_view lview_len)
    have "fat_chain (fat_val (lview content v') (fat_sect0 v')) (clust_cnt v') (d # cs)"
      using ch Cons.prems(3) fat_chain_in[OF ch] F' f
      by (subst fat_chain_cong[where G = ?F]) (auto simp: fat_copy0)
    moreover have "geom_ok v'" "distinct (d # cs)" using Cons.prems f by auto
    ultimately have "wp (remove_chain_loop d)
      (\<lambda>_ w. tframe v' w \<and> last_used w = last_used v'
       \<and> free_cnt w = free_cnt v' + word_of_nat (Suc (length cs))
       \<and> (\<forall>base x. fat_copy v' base \<longrightarrow> x < clust_cnt v' \<longrightarrow> fat_val (lview content w) base x =
            (if x \<in> set (d # cs) then 0 else fat_val (lview content v') base x)))
      (\<lambda>e w. e = FAT_ERR_IO \<and> tframe v' w) v'"
      using Cons.IH[of v' d] c' by blast
    then show ?case
      using 1 F' Cons.prems(3)
      by (auto simp: fl d f elim!: wp_conseq intro: tframe_trans)
  qed (auto simp: fl d)
qed


text \<open>Whatever the table holds, the loop returns: every round clears an entry in use.\<close>

lemma used_flags:
  "fat_entry_flags cnt val = Some fl \<Longrightarrow> fl AND 9 = 0 \<Longrightarrow> fl AND 4 = 0 \<Longrightarrow> 2 \<le> val \<and> val < cnt"
  by (auto simp: fat_entry_flags_def split: if_splits)

lemma remove_chain_loop_total:
  assumes "cache_ok ops content dinv v" and "geom_ok v" and "c < clust_cnt v"
  shows "wp (remove_chain_loop c) (\<lambda>_ v'. tframe v v')
    (\<lambda>e v'. (e = FAT_ERR_IO \<or> e = FAT_ERR_BROKEN) \<and> tframe v v') v"
  using assms
proof (induction "card {x. x < clust_cnt v \<and> fat_val (lview content v) (fat_sect0 v) x \<noteq> 0}"
    arbitrary: v c rule: less_induct)
  case less
  let ?F = "fat_val (lview content v) (fat_sect0 v)"
  show ?case
  proof (rule remove_round_wp[OF less.prems], goal_cases)
    case (1 v')
    have o: "only_counters v v'" and c': "cache_ok ops content dinv v'"
      using 1 by (auto simp: tframe_def)
    note f = only_counters_fields[OF o] only_counters_geom[OF o]
    show ?case
    proof (cases "fat_entry_flags (clust_cnt v) (?F c)")
      case None
      then show ?thesis by simp
    next
      case (Some fl)
      show ?thesis
      proof (cases "fl AND 9 = 0 \<and> fl AND 4 = 0")
        case False
        with Some 1 show ?thesis by (auto simp: wp_ret)
      next
        case True
        with used_flags[OF Some] have d: "2 \<le> ?F c" "?F c < clust_cnt v" by auto
        then have "?F c \<noteq> 0" by auto
        moreover have F': "fat_val (lview content v') (fat_sect0 v') x = (if x = c then 0 else ?F x)"
          if "x < clust_cnt v" for x
          using that 1(4) less.prems by (simp add: fat_val_put_view lview_len f fat_copy0)
        ultimately have "card {x. x < clust_cnt v' \<and> fat_val (lview content v') (fat_sect0 v') x \<noteq> 0}
            < card {x. x < clust_cnt v \<and> ?F x \<noteq> 0}"
          unfolding f by (rule card_cleared[OF less.prems(3)])
        from less.hyps[OF this c'] less.prems d f
        have "wp (remove_chain_loop (?F c)) (\<lambda>_ w. tframe v' w)
            (\<lambda>e w. (e = FAT_ERR_IO \<or> e = FAT_ERR_BROKEN) \<and> tframe v' w) v'" by simp
        then have "wp (remove_chain_loop (?F c)) (\<lambda>_ w. tframe v w)
            (\<lambda>e w. (e = FAT_ERR_IO \<or> e = FAT_ERR_BROKEN) \<and> tframe v w) v'"
          by (rule wp_conseq) (use tframe_trans[OF 1(1)] in blast)+
        with Some True show ?thesis by simp
      qed
    qed
  qed auto
qed

text \<open>The whole operation: the loop between marking the counters and writing them back.\<close>

definition synced :: "('d, 'z) vol_scheme \<Rightarrow> bool" where
  "synced v \<longleftrightarrow> \<not> buf_dirty v \<and> \<not> info_dirty v
     \<and> (\<forall>n. n \<noteq> 0 \<longrightarrow> content (dev v) n = lview content v n)
     \<and> rd32 (content (dev v) (info_sect v)) 488 = free_cnt v
     \<and> rd32 (content (dev v) (info_sect v)) 492 = last_used v"

definition vframe :: "('d, 'z) vol_scheme \<Rightarrow> ('d, 'z) vol_scheme \<Rightarrow> bool" where
  "vframe v v' \<longleftrightarrow> cache_ok ops content dinv v' \<and> only_counters v v'
     \<and> table_only v ((lview content v)(info_sect v := lview content v' (info_sect v)))
         (lview content v')"

lemma tframe_vframe: "tframe v v' \<Longrightarrow> vframe v v'"
  by (auto simp: tframe_def vframe_def table_only_def)

lemma vframe_trans: "vframe u v \<Longrightarrow> vframe v w \<Longrightarrow> vframe u w"
proof -
  assume a: "vframe u v" "vframe v w"
  then have o: "only_counters u v" "only_counters v w" by (simp_all add: vframe_def)
  then have "only_counters u w" by (rule only_counters_trans)
  moreover have "table_only u ((lview content u)(info_sect u := lview content w (info_sect u)))
      (lview content w)"
    using a table_only_but_trans unfolding vframe_def only_counters_geom(4)[OF o(1)]
      only_counters_fields(5)[OF o(1)] by blast
  ultimately show "vframe u w" using a by (simp add: vframe_def)
qed

lemma fat_val_info:
  assumes "geom_ok v" and "x < clust_cnt v" and "fat_copy v base"
    and "\<And>n. n \<noteq> info_sect v \<Longrightarrow> lv' n = lv n"
  shows "fat_val lv' base x = fat_val lv base x"
  using fat_sector_in(3)[OF assms(1,2)] assms(3,4)
  by (simp add: fat_val_def fat_ent_def fat_copy_def)

lemma sync_fs_table_wp:
  assumes c: "cache_ok ops content dinv v" and g: "geom_ok v" and i: "info_dirty v"
  shows "wp sync_fs
    (\<lambda>_ v'. vframe v v' \<and> synced v' \<and> free_cnt v' = free_cnt v \<and> last_used v' = last_used v
       \<and> (\<forall>base x. fat_copy v base \<longrightarrow> x < clust_cnt v \<longrightarrow>
            fat_val (lview content v') base x = fat_val (lview content v) base x))
    (\<lambda>e v'. e = FAT_ERR_IO \<and> vframe v v') v"
proof -
  have i0: "info_sect v \<noteq> 0" using g by (simp add: geom_ok_def)
  show ?thesis
  proof (rule wp_conseq[OF sync_fs_wp[OF c i0]], goal_cases)
    case (1 x v')
    then have o: "only_cache v v'" by simp
    note f = only_cache_fields[OF o]
    have l: "length (lview content v (info_sect v)) = 512" by (rule lview_len[OF c])
    have "rd32 (fsinfo_view v (info_sect v)) 488 = free_cnt v"
      "rd32 (fsinfo_view v (info_sect v)) 492 = last_used v"
      using i l by (simp_all add: fsinfo_view_def le_simps)
    moreover have "\<And>n. n \<noteq> info_sect v \<Longrightarrow> lview content v' n = lview content v n"
      using 1 by (simp add: fsinfo_view_def)
    ultimately show ?case
      using 1 i0 f fat_val_info[OF g, of _ _ "lview content v'" "lview content v"]
      by (auto simp: vframe_def synced_def only_cache_counters table_only_def)
  next
    case (2 e v')
    then show ?case by (auto simp: vframe_def only_cache_counters table_only_def)
  qed
qed

end

text \<open>The operations that callers use: the loop between marking the counters and writing them.\<close>

context block_dev
begin

lemma set_info_dirty_tframe:
  assumes "cache_ok ops content dinv v"
  shows "cache_ok ops content dinv (v\<lparr>fat_flags := fat_flags v OR 2\<rparr>)"
    and "lview content (v\<lparr>fat_flags := fat_flags v OR 2\<rparr>) = lview content v"
    and "info_dirty (v\<lparr>fat_flags := fat_flags v OR 2\<rparr>)"
    and "vframe v (v\<lparr>fat_flags := fat_flags v OR 2\<rparr>)"
  using assms info_flag_props[of "fat_flags v OR 2" v True]
  by (simp_all add: vframe_def table_only_refl)

lemma remove_chain_wp:
  assumes c: "cache_ok ops content dinv v" and g: "geom_ok v"
    and ch: "fat_chain (fat_val (lview content v) (fat_sect0 v)) (clust_cnt v) (c # cs)"
  shows "wp (remove_chain c)
    (\<lambda>_ v'. vframe v v' \<and> synced v' \<and> last_used v' = last_used v
       \<and> free_cnt v' = free_cnt v + word_of_nat (Suc (length cs))
       \<and> (\<forall>base x. fat_copy v base \<longrightarrow> x < clust_cnt v \<longrightarrow> fat_val (lview content v') base x =
            (if x \<in> set (c # cs) then 0 else fat_val (lview content v) base x)))
    (\<lambda>e v'. e = FAT_ERR_IO \<and> vframe v v') v"
proof -
  let ?v0 = "v\<lparr>fat_flags := fat_flags v OR 2\<rparr>"
  note s0 = set_info_dirty_tframe[OF c]
  have g0: "geom_ok ?v0" using g geom_ok_cong[of ?v0 v] by simp
  have e0: "fat_copy ?v0 = fat_copy v" using geom_ok_cong[of ?v0 v] by simp
  have d: "distinct (c # cs)" using fat_chain_distinct[OF _ ch] g by (simp only: geom_ok_def)
  have "wp (bnd (remove_chain_loop c) (\<lambda>_. sync_fs))
    (\<lambda>_ v'. vframe v v' \<and> synced v' \<and> last_used v' = last_used v
       \<and> free_cnt v' = free_cnt v + word_of_nat (Suc (length cs))
       \<and> (\<forall>base x. fat_copy v base \<longrightarrow> x < clust_cnt v \<longrightarrow> fat_val (lview content v') base x =
            (if x \<in> set (c # cs) then 0 else fat_val (lview content v) base x)))
    (\<lambda>e v'. e = FAT_ERR_IO \<and> vframe v v') ?v0"
  proof (rule wp_bndI[OF remove_chain_loop_wp[OF s0(1) g0 d]], goal_cases)
    case 1
    from ch show ?case unfolding s0(2) by simp
  next
    case (2 x v1)
    then have t: "tframe ?v0 v1" by simp
    have c1: "cache_ok ops content dinv v1" and i1: "info_dirty v1" and o: "only_counters ?v0 v1"
      using t s0(3) by (auto simp: tframe_def)
    have g1: "geom_ok v1" using g0 only_counters_geom(1)[OF o] by simp
    have f1: "vframe v v1" using vframe_trans[OF s0(4) tframe_vframe[OF t]] .
    have e1: "fat_copy v1 = fat_copy v" "clust_cnt v1 = clust_cnt v"
      using only_counters_geom(2)[OF o] only_counters_fields(4)[OF o] e0 by simp_all
    show ?case
    proof (rule wp_conseq[OF sync_fs_table_wp[OF c1 g1 i1]], goal_cases)
      case (1 y v2)
      have "vframe v v2" using f1 1 vframe_trans by blast
      with 1 2 show ?case by (simp add: e1 e0 s0(2))
    next
      case (2 e v2)
      then show ?case using f1 vframe_trans by blast
    qed
  next
    case (3 e v1)
    then show ?case using vframe_trans[OF s0(4) tframe_vframe] by blast
  qed
  then show ?thesis
    by (simp add: remove_chain_def set_info_dirty_def wp_bnd[of "modify _"] wp_modify)
qed

lemma remove_chain_total:
  assumes c: "cache_ok ops content dinv v" and g: "geom_ok v" and cl: "c < clust_cnt v"
  shows "wp (remove_chain c) (\<lambda>_ v'. vframe v v' \<and> synced v')
    (\<lambda>e v'. (e = FAT_ERR_IO \<or> e = FAT_ERR_BROKEN) \<and> vframe v v') v"
proof -
  let ?v0 = "v\<lparr>fat_flags := fat_flags v OR 2\<rparr>"
  note s0 = set_info_dirty_tframe[OF c]
  have g0: "geom_ok ?v0" "c < clust_cnt ?v0" using g cl geom_ok_cong[of ?v0 v] by simp_all
  have "wp (bnd (remove_chain_loop c) (\<lambda>_. sync_fs)) (\<lambda>_ v'. vframe v v' \<and> synced v')
    (\<lambda>e v'. (e = FAT_ERR_IO \<or> e = FAT_ERR_BROKEN) \<and> vframe v v') ?v0"
  proof (rule wp_bndI[OF remove_chain_loop_total[OF s0(1) g0]], goal_cases)
    case (1 x v1)
    then have c1: "cache_ok ops content dinv v1" and i1: "info_dirty v1" and o: "only_counters ?v0 v1"
      using s0(3) by (auto simp: tframe_def)
    have g1: "geom_ok v1" using g0 only_counters_geom(1)[OF o] by simp
    have "vframe v v1" using vframe_trans[OF s0(4) tframe_vframe[OF 1]] .
    then show ?case
      by (intro wp_conseq[OF sync_fs_table_wp[OF c1 g1 i1]]) (use vframe_trans in blast)+
  next
    case (2 e v1)
    then show ?case using vframe_trans[OF s0(4) tframe_vframe] by blast
  qed
  then show ?thesis
    by (simp add: remove_chain_def set_info_dirty_def wp_bnd[of "modify _"] wp_modify)
qed

end

subsection \<open>The scan for a free cluster\<close>

lemma scan_free_eq:
  "scan_free clust flags =
     bnd (gets (\<lambda>v. (clust_cnt v, last_used v))) (\<lambda>(cnt, last).
     if next_clust cnt clust = last then throw FAT_ERR_FULL
     else
       attempt (get_fat (next_clust cnt clust)) (\<lambda>r.
       case r of
         Inl e \<Rightarrow> throw (FAT_RET_FLAGS flags)
       | Inr (nxt, fl) \<Rightarrow>
           if fl AND CLUST_FREE \<noteq> 0 then ret (next_clust cnt clust)
           else scan_free (next_clust cnt clust) (Some fl)))"
  by (rule ext) (rule scan_free.simps)

text \<open>The number of steps of the scan from \<open>c\<close> round to \<open>lu\<close>.\<close>

definition scan_dist :: "u32 \<Rightarrow> u32 \<Rightarrow> u32 \<Rightarrow> nat" where
  "scan_dist cnt lu c =
     (if c < lu then unat lu - unat c else unat cnt - 2 + unat lu - unat c)"

lemma next_clust_unat:
  assumes "2 < cnt" and "2 \<le> c" and "c < cnt"
  shows "unat (next_clust cnt c) = (if unat c + 1 = unat cnt then 2 else unat c + 1)"
    and "2 \<le> next_clust cnt c" and "next_clust cnt c < cnt"
proof -
  have "unat c < unat cnt" "2 \<le> unat c" using assms by (simp_all add: word_less_nat_alt word_le_nat_alt)
  moreover have "unat cnt < 2 ^ 32" using unsigned_less[of cnt, where ?'a = nat] by simp
  ultimately have u: "unat (c + 1) = unat c + 1"
    by (subst unat_add_lem[THEN iffD1]) simp_all
  then show *: "unat (next_clust cnt c) = (if unat c + 1 = unat cnt then 2 else unat c + 1)"
    using \<open>unat c < unat cnt\<close> by (auto simp: next_clust_def word_le_nat_alt)
  then show "2 \<le> next_clust cnt c" "next_clust cnt c < cnt"
    using \<open>2 \<le> unat c\<close> \<open>unat c < unat cnt\<close> assms(1)
    by (auto simp: word_le_nat_alt word_less_nat_alt)
qed

lemma scan_dist_next:
  assumes "2 < cnt" and "2 \<le> c" "c < cnt" and "2 \<le> lu" "lu < cnt" and "next_clust cnt c \<noteq> lu"
  shows "scan_dist cnt lu (next_clust cnt c) < scan_dist cnt lu c"
proof -
  note u = next_clust_unat[OF assms(1-3)]
  have "unat c < unat cnt" "2 \<le> unat c" "2 \<le> unat lu" "unat lu < unat cnt"
    using assms by (simp_all add: word_less_nat_alt word_le_nat_alt)
  moreover have "unat (next_clust cnt c) \<noteq> unat lu" using assms(6) by (simp add: word_unat_eq_iff)
  ultimately show ?thesis
    using u(1) by (auto simp: scan_dist_def word_less_nat_alt split: if_splits)
qed

text \<open>The clusters the scan still has to look at before it is back at \<open>lu\<close>.\<close>

definition scan_ahead :: "u32 \<Rightarrow> u32 \<Rightarrow> u32 \<Rightarrow> u32 set" where
  "scan_ahead cnt lu c = {x. 2 \<le> x \<and> x < cnt \<and> x \<noteq> lu \<and> scan_dist cnt lu x < scan_dist cnt lu c}"

lemma scan_ahead_start:
  assumes "2 \<le> lu" "lu < cnt"
  shows "scan_ahead cnt lu lu = {x. 2 \<le> x \<and> x < cnt \<and> x \<noteq> lu}"
proof -
  have "scan_dist cnt lu x < scan_dist cnt lu lu" if "2 \<le> x" "x < cnt" "x \<noteq> lu" for x
    using that assms
    by (auto simp: scan_dist_def word_less_nat_alt word_le_nat_alt word_unat_eq_iff)
  then show ?thesis by (auto simp: scan_ahead_def)
qed

lemma scan_dist_step:
  assumes "2 < cnt" and "2 \<le> c" "c < cnt" and "2 \<le> lu" "lu < cnt"
  shows "scan_dist cnt lu c = (if next_clust cnt c = lu then 1 else Suc (scan_dist cnt lu (next_clust cnt c)))"
proof -
  note u = next_clust_unat[OF assms(1-3)]
  have "unat c < unat cnt" "2 \<le> unat c" "2 \<le> unat lu" "unat lu < unat cnt"
    using assms by (simp_all add: word_less_nat_alt word_le_nat_alt)
  then show ?thesis
    using u(1) by (auto simp: scan_dist_def word_less_nat_alt word_unat_eq_iff split: if_splits)
qed

lemma scan_dist_inj:
  assumes "2 \<le> lu" "lu < cnt" "2 \<le> x" "x < cnt" "2 \<le> y" "y < cnt"
    and "scan_dist cnt lu x = scan_dist cnt lu y"
  shows "x = y"
proof -
  have "unat x < unat cnt" "2 \<le> unat x" "unat y < unat cnt" "2 \<le> unat y" "2 \<le> unat lu" "unat lu < unat cnt"
    using assms by (simp_all add: word_less_nat_alt word_le_nat_alt)
  with assms(7) show ?thesis
    by (auto simp: scan_dist_def word_less_nat_alt word_unat_eq_iff split: if_splits)
qed

lemma scan_dist_pos:
  assumes "2 \<le> lu" "lu < cnt" "2 \<le> x" "x < cnt"
  shows "0 < scan_dist cnt lu x"
proof -
  have "unat x < unat cnt" "2 \<le> unat x" "2 \<le> unat lu" "unat lu < unat cnt"
    using assms by (simp_all add: word_less_nat_alt word_le_nat_alt)
  then show ?thesis by (auto simp: scan_dist_def word_less_nat_alt)
qed

lemma scan_ahead_last:
  assumes "2 < cnt" and "2 \<le> c" "c < cnt" and "2 \<le> lu" "lu < cnt" and "next_clust cnt c = lu"
  shows "scan_ahead cnt lu c = {}"
  using scan_dist_step[OF assms(1-5)] assms(6) scan_dist_pos[OF assms(4,5)]
  by (fastforce simp: scan_ahead_def)

lemma scan_ahead_step:
  assumes "2 < cnt" and "2 \<le> c" "c < cnt" and "2 \<le> lu" "lu < cnt" and "next_clust cnt c \<noteq> lu"
  shows "scan_ahead cnt lu c = insert (next_clust cnt c) (scan_ahead cnt lu (next_clust cnt c))"
proof -
  note u = next_clust_unat(2,3)[OF assms(1-3)]
  have st: "scan_dist cnt lu c = Suc (scan_dist cnt lu (next_clust cnt c))"
    using scan_dist_step[OF assms(1-5)] assms(6) by simp
  have "scan_dist cnt lu x < Suc (scan_dist cnt lu (next_clust cnt c)) \<longleftrightarrow>
      scan_dist cnt lu x < scan_dist cnt lu (next_clust cnt c) \<or> x = next_clust cnt c"
    if "2 \<le> x" "x < cnt" for x
    using scan_dist_inj[OF assms(4,5) that u] by (auto simp: less_Suc_eq)
  with u assms(6) st show ?thesis by (auto simp: scan_ahead_def)
qed

lemma geom_ok_cnt: "geom_ok v \<Longrightarrow> 2 < clust_cnt v" "geom_ok v \<Longrightarrow> clust_cnt v \<le> 0x0ffffff0"
  by (simp_all add: geom_ok_def)

lemma flags_free: "fat_entry_flags cnt val = Some fl \<Longrightarrow> fl AND CLUST_FREE \<noteq> 0 \<longleftrightarrow> val = 0"
  by (auto simp: fat_entry_flags_def split: if_splits)

context block_dev
begin

lemma scan_free_wp:
  assumes "cache_ok ops content dinv v" and "geom_ok v"
    and "2 \<le> last_used v" "last_used v < clust_cnt v" and "2 \<le> c" "c < clust_cnt v"
  shows "wp (scan_free c flags)
    (\<lambda>n v'. kept v v' \<and> 2 \<le> n \<and> n < clust_cnt v \<and> n \<noteq> last_used v
       \<and> fat_val (lview content v) (fat_sect0 v) n = 0)
    (\<lambda>e v'. kept v v' \<and> (e = FAT_ERR_FULL \<and>
         (\<forall>x \<in> scan_ahead (clust_cnt v) (last_used v) c. fat_val (lview content v) (fat_sect0 v) x \<noteq> 0)
       \<or> (\<exists>fl. e = FAT_RET_FLAGS fl))) v"
  using assms
proof (induction "scan_dist (clust_cnt v) (last_used v) c" arbitrary: c v flags rule: less_induct)
  case less
  note g = geom_ok_cnt[OF less.prems(2)]
  let ?n = "next_clust (clust_cnt v) c"
  note n = next_clust_unat(2,3)[OF g(1) less.prems(5,6)]
  show ?case
  proof (cases "?n = last_used v")
    case True
    then show ?thesis
      by (subst scan_free_eq)
         (simp add: wp_bnd[of "gets _"] wp_gets wp_throw kept_refl less.prems
           scan_ahead_last[OF g(1) less.prems(5,6,3,4) True])
  next
    case False
    have "wp (attempt (get_fat ?n) (\<lambda>r. case r of Inl e \<Rightarrow> throw (FAT_RET_FLAGS flags)
       | Inr (nxt, fl) \<Rightarrow> if fl AND CLUST_FREE \<noteq> 0 then ret ?n else scan_free ?n (Some fl)))
     (\<lambda>n v'. kept v v' \<and> 2 \<le> n \<and> n < clust_cnt v \<and> n \<noteq> last_used v
       \<and> fat_val (lview content v) (fat_sect0 v) n = 0)
     (\<lambda>e v'. kept v v' \<and> (e = FAT_ERR_FULL \<and>
         (\<forall>x \<in> scan_ahead (clust_cnt v) (last_used v) c. fat_val (lview content v) (fat_sect0 v) x \<noteq> 0)
       \<or> (\<exists>fl. e = FAT_RET_FLAGS fl))) v"
    proof (rule wp_attemptI[OF get_fat_wp[OF less.prems(1)]], goal_cases)
      case 1
      show ?case using fat_sector_in(2)[OF less.prems(2) n(2), of "fat_sect0 v"] by simp
    next
      case (2 p v1)
      then obtain val fl where p: "p = (val, fl)" and k: "kept v v1"
        and val: "val = fat_val (lview content v) (fat_sect0 v) ?n"
        and fl: "fat_entry_flags (clust_cnt v) val = Some fl" by (cases p) auto
      show ?case
      proof (cases "fl AND CLUST_FREE \<noteq> 0")
        case True
        with p k val n False flags_free[OF fl] show ?thesis by (simp add: wp_ret)
      next
        case nf: False
        have o: "only_cache v v1" and l: "lview content v1 = lview content v"
          and c1: "cache_ok ops content dinv v1"
          using k by (simp_all add: kept_def)
        note f = only_cache_fields[OF o]
        have g1: "geom_ok v1" using less.prems(2) geom_ok_cong[OF f(4,6,7,5)] by simp
        have "scan_dist (clust_cnt v1) (last_used v1) ?n < scan_dist (clust_cnt v) (last_used v) c"
          using scan_dist_next[OF g(1) less.prems(5,6,3,4) False] f by simp
        from less.hyps[OF this c1 g1, of "Some fl"]
        have "wp (scan_free ?n (Some fl))
          (\<lambda>n v'. kept v1 v' \<and> 2 \<le> n \<and> n < clust_cnt v \<and> n \<noteq> last_used v
            \<and> fat_val (lview content v) (fat_sect0 v) n = 0)
          (\<lambda>e v'. kept v1 v' \<and> (e = FAT_ERR_FULL \<and>
            (\<forall>x \<in> scan_ahead (clust_cnt v) (last_used v) ?n. fat_val (lview content v) (fat_sect0 v) x \<noteq> 0)
            \<or> (\<exists>fl. e = FAT_RET_FLAGS fl))) v1"
          unfolding f l using n less.prems(3,4) by blast
        then have "wp (scan_free ?n (Some fl))
          (\<lambda>n v'. kept v v' \<and> 2 \<le> n \<and> n < clust_cnt v \<and> n \<noteq> last_used v
            \<and> fat_val (lview content v) (fat_sect0 v) n = 0)
          (\<lambda>e v'. kept v v' \<and> (e = FAT_ERR_FULL \<and>
            (\<forall>x \<in> scan_ahead (clust_cnt v) (last_used v) c. fat_val (lview content v) (fat_sect0 v) x \<noteq> 0)
            \<or> (\<exists>fl. e = FAT_RET_FLAGS fl))) v1"
        proof (rule wp_conseq, goal_cases)
          case (1 x s')
          then show ?case using kept_trans[OF k] by blast
        next
          case (2 e s')
          moreover have "fat_val (lview content v) (fat_sect0 v) ?n \<noteq> 0"
            using flags_free[OF fl] nf val by simp
          ultimately show ?case
            unfolding scan_ahead_step[OF g(1) less.prems(5,6,3,4) False]
            using kept_trans[OF k] by blast
        qed
        with p nf show ?thesis by simp
      qed
    next
      case (3 e v1)
      then show ?case by (simp add: wp_throw)
    qed
    with False show ?thesis
      by (subst scan_free_eq) (simp add: wp_bnd[of "gets _"] wp_gets)
  qed
qed

end

subsection \<open>Allocating a cluster\<close>

text \<open>The search \<open>stretch_chain\<close> begins with: the cluster after \<open>prev\<close> first, then the scan.\<close>

definition stretch_find :: "u32 \<Rightarrow> (('d, 'z) vol_scheme, fat_err, u32) prog" where
  "stretch_find prev =
     bnd (gets (\<lambda>v. (clust_cnt v, last_used v))) (\<lambda>(cnt, last).
     if prev \<noteq> 0 then
       bnd (get_fat (next_clust cnt prev)) (\<lambda>(nxt, flags).
       if flags AND CLUST_FREE \<noteq> 0 then ret (next_clust cnt prev)
       else scan_free last (Some flags))
     else scan_free last None)"

definition stretch_link :: "u32 \<Rightarrow> u32 \<Rightarrow> (('d, 'z) vol_scheme, fat_err, u32) prog" where
  "stretch_link prev clust =
     bnd (put_fat clust 0x0fffffff) (\<lambda>_.
     bnd (if prev \<noteq> 0 then put_fat prev clust else ret ()) (\<lambda>_.
     bnd (modify (\<lambda>v. v\<lparr>last_used := clust, free_cnt := free_cnt v - 1\<rparr>)) (\<lambda>_.
     bnd sync_fs (\<lambda>_. ret clust))))"

lemma stretch_chain_split:
  "stretch_chain prev = bnd set_info_dirty (\<lambda>_. bnd (stretch_find prev) (stretch_link prev))"
  unfolding stretch_chain_def stretch_find_def stretch_link_def[abs_def] bnd_assoc case_prod_beta ..

lemma geom_ok_pos: "geom_ok v \<Longrightarrow> 0 < clust_cnt v"
  using le_less_trans[of 0 2 "clust_cnt v"] by (simp add: geom_ok_def)

lemma clust_and_mask: "c < cnt \<Longrightarrow> cnt \<le> 0x0ffffff0 \<Longrightarrow> (c :: u32) AND 0x0fffffff = c"
proof -
  assume a: "c < cnt" "cnt \<le> 0x0ffffff0"
  then have "c < 0x0ffffff0" by (rule less_le_trans)
  then have "unat c < 2 ^ 28" by (simp add: word_less_nat_alt)
  then have "take_bit 28 c = c" by (simp add: word_unat_eq_iff unsigned_take_bit_eq take_bit_nat_eq_self)
  then show ?thesis by (simp add: take_bit_eq_mask mask_eq_exp_minus_1)
qed

context block_dev
begin

lemma stretch_find_wp:
  assumes c: "cache_ok ops content dinv v" and g: "geom_ok v"
    and lu: "2 \<le> last_used v" "last_used v < clust_cnt v"
    and pr: "prev = 0 \<or> 2 \<le> prev \<and> prev < clust_cnt v"
  shows "wp (stretch_find prev)
    (\<lambda>n v'. kept v v' \<and> 2 \<le> n \<and> n < clust_cnt v \<and> fat_val (lview content v) (fat_sect0 v) n = 0)
    (\<lambda>e v'. kept v v' \<and> (e = FAT_ERR_IO
       \<or> e = FAT_ERR_BROKEN \<and> prev \<noteq> 0 \<and> fat_entry_flags (clust_cnt v)
           (fat_val (lview content v) (fat_sect0 v) (next_clust (clust_cnt v) prev)) = None
       \<or> e = FAT_ERR_FULL \<and> (\<forall>x. 2 \<le> x \<and> x < clust_cnt v \<and> x \<noteq> last_used v \<longrightarrow>
            fat_val (lview content v) (fat_sect0 v) x \<noteq> 0)
       \<or> (\<exists>fl. e = FAT_RET_FLAGS fl))) v"
    (is "wp _ ?Q ?E v")
proof -
  have scan: "wp (scan_free (last_used v) fl) ?Q ?E v1" if k: "kept v v1" for v1 fl
  proof -
    have o: "only_cache v v1" and l: "lview content v1 = lview content v"
      and c1: "cache_ok ops content dinv v1" using k by (simp_all add: kept_def)
    note f = only_cache_fields[OF o]
    have g1: "geom_ok v1" using g geom_ok_cong[OF f(4,6,7,5)] by simp
    have s: "scan_ahead (clust_cnt v) (last_used v) (last_used v) = {x. 2 \<le> x \<and> x < clust_cnt v \<and> x \<noteq> last_used v}"
      by (rule scan_ahead_start[OF lu])
    have "2 \<le> last_used v1" "last_used v1 < clust_cnt v1" using lu f by simp_all
    from scan_free_wp[OF c1 g1 this this, of fl] show ?thesis
      unfolding f l s
    proof (rule wp_conseq, goal_cases)
      case (1 x s')
      then show ?case using kept_trans[OF k] by simp
    next
      case (2 e s')
      then show ?case using kept_trans[OF k] by auto
    qed
  qed
  show ?thesis
  proof (cases "prev = 0")
    case True
    with scan[OF kept_refl[OF c]] show ?thesis
      by (simp add: stretch_find_def wp_bnd[of "gets _"] wp_gets)
  next
    case False
    let ?n = "next_clust (clust_cnt v) prev"
    have n: "2 \<le> ?n" "?n < clust_cnt v"
      using next_clust_unat(2,3)[of "clust_cnt v" prev] geom_ok_cnt(1)[OF g] pr False by auto
    have "wp (bnd (get_fat ?n) (\<lambda>(nxt, flags).
       if flags AND CLUST_FREE \<noteq> 0 then ret ?n else scan_free (last_used v) (Some flags))) ?Q ?E v"
    proof (rule wp_bndI[OF get_fat_wp[OF c]], goal_cases)
      case 1
      show ?case using fat_sector_in(2)[OF g n(2), of "fat_sect0 v"] by simp
    next
      case (2 p v1)
      then obtain val fl where p: "p = (val, fl)" and k: "kept v v1"
        and val: "val = fat_val (lview content v) (fat_sect0 v) ?n"
        and fl: "fat_entry_flags (clust_cnt v) val = Some fl" by (cases p) auto
      show ?case
      proof (cases "fl AND CLUST_FREE \<noteq> 0")
        case True
        with p k val n flags_free[OF fl] show ?thesis by (simp add: wp_ret)
      next
        case nf: False
        with p scan[OF k] show ?thesis by simp
      qed
    next
      case (3 e v1)
      with False show ?case by auto
    qed
    with False show ?thesis
      by (simp add: stretch_find_def wp_bnd[of "gets _"] wp_gets)
  qed
qed

text \<open>The table after cluster \<open>n\<close> has been taken and linked behind \<open>prev\<close>.\<close>

definition stretched :: "('d, 'z) vol_scheme \<Rightarrow> u32 \<Rightarrow> u32 \<Rightarrow> ('d, 'z) vol_scheme \<Rightarrow> bool" where
  "stretched v prev n v' \<longleftrightarrow> (\<forall>base x. fat_copy v base \<longrightarrow> x < clust_cnt v \<longrightarrow>
     fat_val (lview content v') base x =
       (if prev \<noteq> 0 \<and> x = prev then n else if x = n then 0x0fffffff
        else fat_val (lview content v) base x))"

lemma put_fat_tframe_wp:
  assumes c: "cache_ok ops content dinv v" and g: "geom_ok v" and cl: "clust < clust_cnt v"
  shows "wp (put_fat clust val)
    (\<lambda>_ v'. tframe v v' \<and> only_cache v v' \<and> (\<forall>base x. fat_copy v base \<longrightarrow> x < clust_cnt v \<longrightarrow>
       fat_val (lview content v') base x =
         (if x = clust then val AND 0x0fffffff else fat_val (lview content v) base x)))
    (\<lambda>e v'. e = FAT_ERR_IO \<and> tframe v v') v"
  by (rule wp_conseq[OF put_fat_wp[OF assms]])
     (auto simp: tframe_def only_cache_counters table_only_put_view[OF g cl]
        fat_val_put_view[OF g cl] lview_len[OF c])

lemma stretch_link_wp:
  assumes c: "cache_ok ops content dinv v" and g: "geom_ok v" and i: "info_dirty v"
    and n: "n < clust_cnt v" and pr: "prev < clust_cnt v"
  shows "wp (stretch_link prev n)
    (\<lambda>m v'. m = n \<and> vframe v v' \<and> synced v' \<and> last_used v' = n \<and> free_cnt v' = free_cnt v - 1
       \<and> stretched v prev n v')
    (\<lambda>e v'. e = FAT_ERR_IO \<and> vframe v v') v"
  unfolding stretch_link_def
proof (rule wp_bndI[OF put_fat_tframe_wp[OF c g n]], goal_cases)
  case (1 x v1)
  then have t1: "tframe v v1" and o1: "only_cache v v1" by simp_all
  have c1: "cache_ok ops content dinv v1" and i1: "info_dirty v1" and oc: "only_counters v v1"
    using t1 i by (auto simp: tframe_def)
  note f1 = only_counters_fields[OF oc] and e1 = only_counters_geom[OF oc]
  have g1: "geom_ok v1" "prev < clust_cnt v1" using g pr e1 f1 by simp_all
  have nm: "n AND 0x0fffffff = n" using clust_and_mask[OF n] g by (simp add: geom_ok_def)
  have v1: "fat_val (lview content v1) base x = (if x = n then 0x0fffffff else fat_val (lview content v) base x)"
    if "fat_copy v base" "x < clust_cnt v" for base x
    using 1 that by simp
  have "wp (if prev \<noteq> 0 then put_fat prev n else ret ())
    (\<lambda>_ v'. tframe v1 v' \<and> only_cache v1 v' \<and> stretched v prev n v')
    (\<lambda>e v'. e = FAT_ERR_IO \<and> tframe v1 v') v1"
  proof (cases "prev = 0")
    case True
    with v1 c1 show ?thesis by (simp add: wp_ret kept_tframe kept_refl stretched_def)
  next
    case False
    have "wp (put_fat prev n)
      (\<lambda>_ v'. tframe v1 v' \<and> only_cache v1 v' \<and> stretched v prev n v')
      (\<lambda>e v'. e = FAT_ERR_IO \<and> tframe v1 v') v1"
      by (rule wp_conseq[OF put_fat_tframe_wp[OF c1 g1]])
         (use False v1 nm f1 e1 in \<open>simp_all add: stretched_def\<close>)
    with False show ?thesis by simp
  qed
  then show ?case
  proof (rule wp_bndI, goal_cases)
    case (1 y v2)
    let ?v3 = "v2\<lparr>last_used := n, free_cnt := free_cnt v2 - 1\<rparr>"
    have t2: "tframe v v2" using t1 1 tframe_trans by blast
    have fc: "free_cnt v2 = free_cnt v"
      using 1 o1 only_cache_fields(11)[of v1 v2] only_cache_fields(11)[of v v1] by simp
    have l3: "lview content ?v3 = lview content v2" "info_dirty ?v3 = info_dirty v2"
      by (auto simp: lview_def info_dirty_def fun_eq_iff)
    have c3: "cache_ok ops content dinv ?v3" and i3: "info_dirty ?v3" and o3: "only_counters v ?v3"
      using t2 i by (simp_all add: tframe_def cache_ok_def buf_dirty_def info_dirty_def)
    have g3: "geom_ok ?v3" using g only_counters_geom(1)[OF o3] by simp
    have t3: "vframe v ?v3" using tframe_vframe[OF t2] c3 o3 l3 by (simp add: vframe_def)
    show ?case
    proof (simp only: wp_bnd[of "modify _"] wp_modify, rule wp_bndI[OF sync_fs_table_wp[OF c3 g3 i3]],
        goal_cases)
      case (1 z v4)
      have "stretched v prev n v4"
        using 1 \<open>tframe v1 v2 \<and> only_cache v1 v2 \<and> stretched v prev n v2\<close>
          only_counters_geom(2)[OF o3] only_counters_fields(4)[OF o3]
        by (simp add: stretched_def l3)
      with 1 show ?case using vframe_trans[OF t3] fc by (simp add: wp_ret)
    next
      case (2 e v4)
      then show ?case using vframe_trans[OF t3] by simp
    qed
  next
    case (2 e v2)
    then show ?case using tframe_vframe tframe_trans[OF t1] by blast
  qed
next
  case (2 e v1)
  then show ?case using tframe_vframe by blast
qed

lemma stretch_chain_wp:
  assumes c: "cache_ok ops content dinv v" and g: "geom_ok v"
    and lu: "2 \<le> last_used v" "last_used v < clust_cnt v"
    and pr: "prev = 0 \<or> 2 \<le> prev \<and> prev < clust_cnt v"
  shows "wp (stretch_chain prev)
    (\<lambda>n v'. vframe v v' \<and> synced v' \<and> 2 \<le> n \<and> n < clust_cnt v
       \<and> fat_val (lview content v) (fat_sect0 v) n = 0 \<and> stretched v prev n v'
       \<and> last_used v' = n \<and> free_cnt v' = free_cnt v - 1)
    (\<lambda>e v'. vframe v v' \<and> (e = FAT_ERR_IO
       \<or> e = FAT_ERR_BROKEN \<and> prev \<noteq> 0 \<and> fat_entry_flags (clust_cnt v)
           (fat_val (lview content v) (fat_sect0 v) (next_clust (clust_cnt v) prev)) = None
       \<or> e = FAT_ERR_FULL \<and> (\<forall>x. 2 \<le> x \<and> x < clust_cnt v \<and> x \<noteq> last_used v \<longrightarrow>
            fat_val (lview content v) (fat_sect0 v) x \<noteq> 0)
       \<or> (\<exists>fl. e = FAT_RET_FLAGS fl))) v"
    (is "wp _ ?Q ?E v")
proof -
  let ?v0 = "v\<lparr>fat_flags := fat_flags v OR 2\<rparr>"
  note s0 = set_info_dirty_tframe[OF c]
  have f0: "last_used ?v0 = last_used v" "clust_cnt ?v0 = clust_cnt v" "fat_sect0 ?v0 = fat_sect0 v"
    "free_cnt ?v0 = free_cnt v" by simp_all
  have g0: "geom_ok ?v0" and e0: "fat_copy ?v0 = fat_copy v" using g geom_ok_cong[of ?v0 v] by simp_all
  have "wp (bnd (stretch_find prev) (stretch_link prev)) ?Q ?E ?v0"
  proof (rule wp_bndI[OF stretch_find_wp[OF s0(1) g0, unfolded f0 s0(2), OF lu pr]], goal_cases)
    case (1 n v1)
    then have k: "kept ?v0 v1" by simp
    have o: "only_cache ?v0 v1" and l: "lview content v1 = lview content v"
      and c1: "cache_ok ops content dinv v1" and i1: "info_dirty v1"
      using k s0(2,3) by (simp_all add: kept_def)
    note f = only_cache_fields[OF o, unfolded f0]
    have g1: "geom_ok v1" and e1: "fat_copy v1 = fat_copy v"
      using g0 e0 only_counters_geom(1,2)[OF only_cache_counters[OF o]] by simp_all
    have r1: "n < clust_cnt v1" "prev < clust_cnt v1"
      using 1 f pr geom_ok_pos[OF g] by auto
    have t1: "vframe v v1" by (rule vframe_trans[OF s0(4) tframe_vframe[OF kept_tframe[OF k]]])
    show ?case
    proof (rule wp_conseq[OF stretch_link_wp[OF c1 g1 i1 r1]], goal_cases)
      case (1 m v2)
      then have "stretched v prev n v2" by (simp add: stretched_def l e1 f)
      with 1 \<open>kept ?v0 v1 \<and> _\<close> show ?case using vframe_trans[OF t1] f by simp
    next
      case (2 e v2)
      then show ?case using vframe_trans[OF t1] by blast
    qed
  next
    case (2 e v1)
    then show ?case using vframe_trans[OF s0(4) tframe_vframe[OF kept_tframe]] by auto
  qed
  then show ?thesis
    by (simp add: stretch_chain_split set_info_dirty_def wp_bnd[of "modify _"] wp_modify)
qed

end

subsection \<open>Zeroing a cluster\<close>

definition in_range :: "u32 \<Rightarrow> nat \<Rightarrow> u32 \<Rightarrow> bool" where
  "in_range s k n \<longleftrightarrow> unat s \<le> unat n \<and> unat n < unat s + k"

lemma in_range_Suc:
  assumes "unat s + Suc k \<le> 2 ^ 32"
  shows "in_range s (Suc k) n \<longleftrightarrow> n = s \<or> in_range (s + 1) k n"
proof (cases k)
  case 0
  then show ?thesis by (auto simp: in_range_def word_unat_eq_iff)
next
  case (Suc j)
  then have "unat (s + 1) = unat s + 1" using assms by (simp add: unat_word_ariths)
  then show ?thesis by (auto simp: in_range_def word_unat_eq_iff)
qed

context block_dev
begin

lemma clear_sectors_wp:
  assumes "fat_ops v = ops" and "dinv (dev v)" and "fat_buf v = replicate 512 0"
    and "s \<noteq> 0" and "unat s + Suc k \<le> 2 ^ 32"
  shows "wp (clear_sectors (Suc k) s)
    (\<lambda>_ v'. cache_ok ops content dinv v' \<and> only_cache v v' \<and> info_dirty v' = info_dirty v
       \<and> \<not> buf_dirty v' \<and> lview content v' = content (dev v')
       \<and> (\<forall>n. content (dev v') n = (if in_range s (Suc k) n then replicate 512 0 else content (dev v) n)))
    (\<lambda>e v'. e = FAT_ERR_IO \<and> cache_ok ops content dinv v' \<and> only_cache v v'
       \<and> info_dirty v' = info_dirty v
       \<and> (\<forall>n. \<not> in_range s (Suc k) n \<longrightarrow> lview content v' n = content (dev v) n)) v"
  using assms
proof (induction k arbitrary: v s)
  case (0 v s)
  let ?v1 = "v\<lparr>fat_flags := fat_flags v OR FAT_BUF_DIRTY, buf_sect := s\<rparr>"
  have c1: "cache_ok ops content dinv ?v1"
    using 0 by (simp add: cache_ok_def buf_dirty_def flag_ops)
  have i1: "info_dirty ?v1 = info_dirty v" by (simp add: info_dirty_def flag_ops)
  have l1: "lview content ?v1 = (content (dev v))(s := replicate 512 0)"
    using 0 by (auto simp: lview_def fun_eq_iff)
  have r: "in_range s (Suc 0) n \<longleftrightarrow> n = s" for n
    using in_range_Suc[of s 0] 0 by (auto simp: in_range_def)
  show ?case
  proof (simp only: clear_sectors.simps, simp only: wp_bnd[of "modify _"] wp_modify,
      rule wp_bndI[OF sync_buf_wp[OF c1]], goal_cases)
    case (1 x v2)
    have "content (dev v2) n = lview content v2 n" for n
      using 1 by (cases "n = 0") (simp add: lview_def, simp add: kept_def)
    moreover have "lview content v2 = (content (dev v))(s := replicate 512 0)"
      using 1 l1 by (simp add: kept_def)
    ultimately show ?case
      using 1 i1 r by (simp add: wp_ret kept_def fun_eq_iff only_cache_def cacheless_def)
  next
    case (2 e v2)
    then show ?case using i1 l1 r by (simp add: kept_def only_cache_def cacheless_def)
  qed
next
  case (Suc k)
  let ?v1 = "v\<lparr>fat_flags := fat_flags v OR FAT_BUF_DIRTY, buf_sect := s\<rparr>"
  have c1: "cache_ok ops content dinv ?v1"
    using Suc.prems by (simp add: cache_ok_def buf_dirty_def flag_ops)
  have i1: "info_dirty ?v1 = info_dirty v" by (simp add: info_dirty_def flag_ops)
  have o1: "only_cache v ?v1" by (simp add: only_cache_def cacheless_def)
  have l1: "lview content ?v1 = (content (dev v))(s := replicate 512 0)"
    using Suc.prems by (auto simp: lview_def fun_eq_iff)
  note r = in_range_Suc[OF Suc.prems(5)]
  have u: "unat (s + 1) = unat s + 1" using Suc.prems(5) by (simp add: unat_word_ariths)
  show ?case
  proof (subst clear_sectors.simps, simp only: wp_bnd[of "modify _"] wp_modify,
      rule wp_bndI[OF sync_buf_wp[OF c1]], goal_cases)
    case (1 x v2)
    have lc: "content (dev v2) n = lview content v2 n" for n
      using 1 by (cases "n = 0") (simp add: lview_def, simp add: kept_def)
    have l2: "lview content v2 = (content (dev v))(s := replicate 512 0)"
      using 1 l1 by (simp add: kept_def)
    have c2: "fat_ops v2 = ops" "dinv (dev v2)" "fat_buf v2 = replicate 512 0"
      using 1 Suc.prems by (auto simp: kept_def cache_ok_def)
    have o2: "only_cache v v2" and i2: "info_dirty v2 = info_dirty v"
      using 1 i1 only_cache_trans[OF o1] by (simp_all add: kept_def)
    have s1: "s + 1 \<noteq> 0" "unat (s + 1) + Suc k \<le> 2 ^ 32"
      using u Suc.prems(5) by (auto simp: word_unat_eq_iff)
    show ?case
    proof (rule wp_conseq[OF Suc.IH[OF c2 s1]], goal_cases)
      case (1 y v3)
      then show ?case using o2 i2 lc l2 r by (auto intro: only_cache_trans)
    next
      case (2 e v3)
      then show ?case using o2 i2 lc l2 r by (auto intro: only_cache_trans)
    qed
  next
    case (2 e v2)
    then show ?case using i1 l1 r only_cache_trans[OF o1] by (simp add: kept_def)
  qed
qed

lemma clust_clear_wp:
  assumes c: "cache_ok ops content dinv v" and s: "clust_to_sect v clust \<noteq> 0"
    "unat (clust_to_sect v clust) + 2 ^ unat (clust_shift v) \<le> 2 ^ 32"
  shows "wp (clust_clear clust)
    (\<lambda>_ v'. cache_ok ops content dinv v' \<and> only_cache v v' \<and> info_dirty v' = info_dirty v
       \<and> \<not> buf_dirty v' \<and> lview content v' = content (dev v')
       \<and> (\<forall>n. lview content v' n = (if in_range (clust_to_sect v clust) (2 ^ unat (clust_shift v)) n
            then replicate 512 0 else lview content v n)))
    (\<lambda>e v'. e = FAT_ERR_IO \<and> cache_ok ops content dinv v' \<and> only_cache v v'
       \<and> info_dirty v' = info_dirty v
       \<and> (\<forall>n. \<not> in_range (clust_to_sect v clust) (2 ^ unat (clust_shift v)) n
            \<longrightarrow> lview content v' n = lview content v n)) v"
  unfolding clust_clear_def
proof (rule wp_bndI[OF sync_buf_wp[OF c]], goal_cases)
  case (1 x v1)
  then have o1: "only_cache v v1" and i1: "info_dirty v1 = info_dirty v"
    and c1: "cache_ok ops content dinv v1" by (auto simp: kept_def)
  have cs: "clust_to_sect v1 clust = clust_to_sect v clust" "clust_shift v1 = clust_shift v"
    using only_cache_fields[OF o1] by (simp_all add: clust_to_sect_def)
  have "content (dev v1) n = lview content v1 n" for n
    using 1 by (cases "n = 0") (simp add: lview_def, simp add: kept_def)
  then have lc: "content (dev v1) n = lview content v n" for n using 1 by (simp add: kept_def)
  let ?v2 = "v1\<lparr>fat_buf := replicate 512 0\<rparr>"
  obtain k where k: "2 ^ unat (clust_shift v) = Suc k" by (metis not0_implies_Suc power_not_zero zero_neq_numeral)
  have p: "fat_ops ?v2 = ops" "dinv (dev ?v2)" "fat_buf ?v2 = replicate 512 0"
    using c1 by (simp_all add: cache_ok_def)
  have "wp (clear_sectors (Suc k) (clust_to_sect v clust))
    (\<lambda>_ v'. cache_ok ops content dinv v' \<and> only_cache v v' \<and> info_dirty v' = info_dirty v
       \<and> \<not> buf_dirty v' \<and> lview content v' = content (dev v')
       \<and> (\<forall>n. lview content v' n = (if in_range (clust_to_sect v clust) (Suc k) n
            then replicate 512 0 else lview content v n)))
    (\<lambda>e v'. e = FAT_ERR_IO \<and> cache_ok ops content dinv v' \<and> only_cache v v'
       \<and> info_dirty v' = info_dirty v
       \<and> (\<forall>n. \<not> in_range (clust_to_sect v clust) (Suc k) n
            \<longrightarrow> lview content v' n = lview content v n)) ?v2"
  proof (rule wp_conseq[OF clear_sectors_wp[OF p s(1) s(2)[unfolded k]]], goal_cases)
    case (1 y v3)
    moreover have "only_cache v v3" using 1 o1 by (simp add: only_cache_def cacheless_def)
    ultimately show ?case using i1 lc by (simp add: info_dirty_def)
  next
    case (2 e v3)
    moreover have "only_cache v v3" using 2 o1 by (simp add: only_cache_def cacheless_def)
    ultimately show ?case using i1 lc by (simp add: info_dirty_def)
  qed
  then show ?case
    by (simp add: wp_bnd[of "gets _"] wp_bnd[of "modify _"] wp_gets wp_modify cs k)
next
  case (2 e v1)
  then show ?case by (simp add: kept_def)
qed

end

subsection \<open>Sectors and clusters\<close>

lemma sect_clust_round:
  assumes "2 \<le> c" and "unat (c - 2) * 2 ^ unat (clust_shift v) < 2 ^ 32"
  shows "sect_to_clust v (clust_to_sect v c) = c"
proof -
  have "unat (push_bit (unat (clust_shift v)) (c - 2)) = unat (c - 2) * 2 ^ unat (clust_shift v)"
  proof (cases "c = 2")
    case False
    then have "0 < unat (c - 2)" by (simp add: unat_gt_0)
    then have "(2 :: nat) ^ unat (clust_shift v) < 2 ^ 32"
      using assms(2) by (metis le_less_trans mult_le_mono1 nat_mult_1 Suc_leI One_nat_def)
    then have "unat ((2 :: u32) ^ unat (clust_shift v)) = 2 ^ unat (clust_shift v)"
      using unat_of_nat[of "2 ^ unat (clust_shift v)", where ?'a = 32] by simp
    with assms(2) show ?thesis by (simp add: push_bit_eq_mult unat_word_ariths)
  qed simp
  then have "unat (drop_bit (unat (clust_shift v)) (push_bit (unat (clust_shift v)) (c - 2))) = unat (c - 2)"
    by (simp only: unat_drop_bit_eq drop_bit_eq_div[where ?'a = nat]) simp
  then have "drop_bit (unat (clust_shift v)) (push_bit (unat (clust_shift v)) (c - 2)) = c - 2"
    by (simp only: word_unat_eq_iff)
  then show ?thesis by (simp add: sect_to_clust_def clust_to_sect_def)
qed

subsection \<open>What allocation does to chains\<close>

text \<open>Linking a free cluster behind the last cluster of a chain makes the longer chain.\<close>

lemma fat_chain_extend:
  assumes "fat_chain F cnt cs" and "2 \<le> n" "n < cnt" and "n \<notin> set cs" and "distinct cs"
    and "\<And>x. x < cnt \<Longrightarrow> F' x = (if x = List.last cs then n else if x = n then 0x0fffffff else F x)"
  shows "fat_chain F' cnt (cs @ [n])"
  using assms
proof (induction cs rule: induct_list012)
  case (3 c d cs)
  have "F' c = d" using "3.prems" by auto
  moreover have "fat_chain F' cnt ((d # cs) @ [n])"
    using "3.prems" by (intro "3.IH"(2)) auto
  ultimately show ?case using "3.prems" by simp
qed auto

lemma fat_chain_other:
  assumes "fat_chain F cnt cs" and "p \<notin> set cs" "n \<notin> set cs"
    and "\<And>x. x < cnt \<Longrightarrow> F' x = (if x = p then n else if x = n then 0x0fffffff else F x)"
  shows "fat_chain F' cnt cs"
proof -
  have "F' x = F x" if "x \<in> set cs" for x
    using that assms fat_chain_in[OF assms(1) that] by auto
  then show ?thesis using assms(1) fat_chain_cong by blast
qed

text \<open>A free cluster is on no chain.\<close>

lemma free_not_in_chain:
  assumes "fat_chain F cnt cs" and "F n = 0" and "2 \<le> n"
  shows "n \<notin> set cs"
proof
  assume "n \<in> set cs"
  then obtain as bs where "cs = as @ n # bs" by (meson split_list)
  with assms(1) have "fat_chain F cnt (n # bs)" by (metis fat_chain_suffix)
  with assms(2) show False by (cases bs) (auto dest: fat_chain_hd)
qed

subsection \<open>The chain operations on any device\<close>

text \<open>The sectors that hold the driver's own data: the copies of the table and \<open>FsInfo\<close>.\<close>

definition meta_sect :: "('d, 'z) fat_scheme \<Rightarrow> u32 \<Rightarrow> bool" where
  "meta_sect v n \<longleftrightarrow> n = info_sect v \<or> in_fat v (fat_sect0 v) n
     \<or> fat_sect1 v \<noteq> 0 \<and> in_fat v (fat_sect1 v) n"

context block_dev
begin

lemma synced_content: "synced v \<Longrightarrow> content (dev v) n = lview content v n"
  by (cases "n = 0") (simp_all add: synced_def lview_def)

lemma vframe_data: "vframe v v' \<Longrightarrow> \<not> meta_sect v n \<Longrightarrow> lview content v' n = lview content v n"
  by (auto simp: vframe_def table_only_def meta_sect_def fat_copy_def)

lemma synced_vol:
  assumes "vframe v v'" and "synced v'"
  shows "cache_ok ops content dinv v'" and "only_counters v v'"
    and "content (dev v') = lview content v'"
    and "rd32 (content (dev v') (info_sect v)) 488 = free_cnt v'"
    and "rd32 (content (dev v') (info_sect v)) 492 = last_used v'"
    and "\<not> meta_sect v n \<Longrightarrow> content (dev v') n = lview content v n"
proof -
  show "cache_ok ops content dinv v'" and o: "only_counters v v'"
    using assms(1) by (simp_all add: vframe_def)
  show c: "content (dev v') = lview content v'" by (rule ext) (rule synced_content[OF assms(2)])
  show "rd32 (content (dev v') (info_sect v)) 488 = free_cnt v'"
    "rd32 (content (dev v') (info_sect v)) 492 = last_used v'"
    using assms(2) only_counters_fields(5)[OF o] by (simp_all add: synced_def)
  show "\<not> meta_sect v n \<Longrightarrow> content (dev v') n = lview content v n"
    using vframe_data[OF assms(1)] c by simp
qed

end

text \<open>C2. Freeing a chain: \<open>remove_chain\<close> on the first cluster of a chain returns, and unless the
  device fails every cluster of the chain reads free in every copy of the table, no other entry
  has changed, the free count has grown by the length of the chain, and all of this, with the
  count in the \<open>FsInfo\<close> sector, is on the device.  No sector outside the table and \<open>FsInfo\<close> is
  touched.  If the device fails the error is \<open>FAT_ERR_IO\<close> and the data sectors are still untouched.\<close>

theorem remove_chain_frees:
  assumes "block_dev ops content dinv"
    and "cache_ok ops content dinv v" and "geom_ok v"
    and "fat_chain (fat_val (lview content v) (fat_sect0 v)) (clust_cnt v) (c # cs)"
  shows "wp (remove_chain c)
    (\<lambda>_ v'. cache_ok ops content dinv v' \<and> only_counters v v' \<and> last_used v' = last_used v
       \<and> free_cnt v' = free_cnt v + word_of_nat (Suc (length cs))
       \<and> rd32 (content (dev v') (info_sect v)) 488 = free_cnt v'
       \<and> (\<forall>base x. fat_copy v base \<longrightarrow> x < clust_cnt v \<longrightarrow> fat_val (content (dev v')) base x =
            (if x \<in> set (c # cs) then 0 else fat_val (lview content v) base x))
       \<and> (\<forall>n. \<not> meta_sect v n \<longrightarrow> content (dev v') n = lview content v n))
    (\<lambda>e v'. e = FAT_ERR_IO \<and> cache_ok ops content dinv v'
       \<and> (\<forall>n. \<not> meta_sect v n \<longrightarrow> lview content v' n = lview content v n)) v"
proof (rule wp_conseq[OF block_dev.remove_chain_wp[OF assms]], goal_cases)
  case (1 x v')
  then show ?case using block_dev.synced_vol[OF assms(1), of v v'] by simp
next
  case (2 e v')
  then show ?case
    using block_dev.vframe_data[OF assms(1), of v v'] by (simp add: block_dev.vframe_def[OF assms(1)])
qed

text \<open>The file [3, 4, 5] of the small volume.\<close>

lemma demo_entries:
  "fat_val (ram_data demo_disk) 32 2 = 0x0fffffff" "fat_val (ram_data demo_disk) 32 3 = 4"
  "fat_val (ram_data demo_disk) 32 4 = 5" "fat_val (ram_data demo_disk) 32 5 = 0x0fffffff"
  by (simp_all add: fat_val_def fat_ent_def demo_disk_def demo_table_def le_simps)

lemma demo_geom: "geom_ok (demo_vol d)"
  by (simp add: geom_ok_def fat_sectors_def in_fat_def)

lemma demo_chain:
  "fat_chain (fat_val (lview ram_data (demo_vol demo_disk)) (fat_sect0 (demo_vol demo_disk)))
     (clust_cnt (demo_vol demo_disk)) [3, 4, 5]"
  unfolding demo_view by (simp add: demo_entries)

theorem remove_chain_frees_witness:
  "wp (remove_chain 3) (\<lambda>_ v'. free_cnt v' = 125 \<and> fat_val (ram_data (dev v')) 48 4 = 0)
     (\<lambda>e v'. e = FAT_ERR_IO) (demo_vol demo_disk)"
proof (rule wp_conseq[OF remove_chain_frees[OF ram.block_dev_axioms demo_cache_ok demo_geom demo_chain]],
    goal_cases)
  case (1 x v')
  have "fat_copy (demo_vol demo_disk) 48" by (simp add: fat_copy_def)
  with 1 show ?case by simp
qed simp

text \<open>C3. \<open>remove_chain\<close> returns whatever the table holds: on a chain that is cyclic, runs into
  another chain, ends in a bad or free entry or names a cluster that does not exist, it stops with
  \<open>FAT_ERR_BROKEN\<close> (or \<open>FAT_ERR_IO\<close>), and even then no sector outside the table and \<open>FsInfo\<close> has
  changed.\<close>

theorem remove_chain_returns:
  assumes "block_dev ops content dinv"
    and "cache_ok ops content dinv v" and "geom_ok v" and "c < clust_cnt v"
  shows "\<exists>r v'. remove_chain c v = Some (r, v')
    \<and> (r = Inr () \<or> r = Inl FAT_ERR_IO \<or> r = Inl FAT_ERR_BROKEN)
    \<and> cache_ok ops content dinv v' \<and> only_counters v v'
    \<and> (\<forall>n. \<not> meta_sect v n \<longrightarrow> lview content v' n = lview content v n)"
proof -
  have w: "wp (remove_chain c) (\<lambda>_ v'. block_dev.vframe ops content dinv v v')
      (\<lambda>e v'. (e = FAT_ERR_IO \<or> e = FAT_ERR_BROKEN) \<and> block_dev.vframe ops content dinv v v') v"
    by (rule wp_conseq[OF block_dev.remove_chain_total[OF assms]]) auto
  obtain r v' where "remove_chain c v = Some (r, v')" using wp_returns[OF w] by auto
  moreover have "block_dev.vframe ops content dinv v v'"
    and "r = Inr () \<or> r = Inl FAT_ERR_IO \<or> r = Inl FAT_ERR_BROKEN"
    using w calculation by (auto simp: wp_def split: sum.splits)
  ultimately show ?thesis
    using block_dev.vframe_data[OF assms(1), of v v'] block_dev.vframe_def[OF assms(1), of v v']
    by auto
qed

text \<open>A table in which cluster 3 is its own successor.\<close>

definition loop_disk :: ram where
  "loop_disk = demo_disk\<lparr>ram_data := (\<lambda>n. wr32 (replicate 512 0) 12 3)\<rparr>"

lemma loop_cache_ok: "cache_ok ram_ops ram_data ram_inv (demo_vol loop_disk)"
  by (simp add: cache_ok_def ram_inv_def loop_disk_def buf_dirty_def)

theorem remove_chain_returns_witness:
  "fat_val (ram_data loop_disk) 32 3 = 3 \<and> (\<exists>r v'. remove_chain 3 (demo_vol loop_disk) = Some (r, v'))"
proof
  show "fat_val (ram_data loop_disk) 32 3 = 3"
    by (simp add: fat_val_def fat_ent_def loop_disk_def le_simps)
  have "3 < clust_cnt (demo_vol loop_disk)" by simp
  from remove_chain_returns[OF ram.block_dev_axioms loop_cache_ok demo_geom this]
  show "\<exists>r v'. remove_chain 3 (demo_vol loop_disk) = Some (r, v')" by blast
qed

lemma stretched_chain:
  assumes c: "fat_chain F cnt cs" and cnt: "cnt \<le> 0x0ffffff0"
    and n: "2 \<le> n" "n < cnt" "F n = 0"
    and e: "\<And>x. x < cnt \<Longrightarrow> F' x = (if prev \<noteq> 0 \<and> x = prev then n else if x = n then 0x0fffffff else F x)"
    and p: "prev = 0 \<or> 2 \<le> prev \<and> prev < cnt"
  shows "fat_chain F' cnt (if List.last cs = prev then cs @ [n] else cs) \<or> prev \<in> set (butlast cs)"
proof -
  have nn: "cs \<noteq> []" using c by auto
  have nc: "n \<notin> set cs" by (rule free_not_in_chain[OF c n(3,1)])
  consider "List.last cs = prev" | "prev \<in> set (butlast cs)" | "prev \<notin> set cs"
    using nn by (metis append_butlast_last_id in_set_conv_decomp insert_iff list.set(2) rotate1.simps(2) set_rotate1 snoc_eq_iff_butlast)
  then show ?thesis
  proof cases
    case 1
    then have "prev \<in> set cs" using nn last_in_set by blast
    then have "prev \<noteq> 0" using fat_chain_in[OF c] by fastforce
    have "fat_chain F' cnt (cs @ [n])"
      by (rule fat_chain_extend[OF c n(1,2) nc fat_chain_distinct[OF cnt c]])
         (simp add: e 1 \<open>prev \<noteq> 0\<close>)
    with 1 show ?thesis by simp
  next
    case 3
    have "F' x = F x" if "x \<in> set cs" for x
      using that e[of x] fat_chain_in[OF c that] 3 nc by auto
    then have "fat_chain F' cnt cs" using c fat_chain_cong by blast
    moreover have "List.last cs \<noteq> prev" using 3 nn last_in_set by blast
    ultimately show ?thesis by simp
  qed simp
qed

text \<open>C1. Allocating a cluster: with the next-free hint inside the table, \<open>stretch_chain\<close> returns.
  Unless it fails, the cluster it returns was free; a chain that ended in \<open>prev\<close> now ends in the
  new cluster, every chain without \<open>prev\<close> is what it was, the hint and the free count follow, and
  both copies of the table and \<open>FsInfo\<close>, with the new count (offset 488) and the new hint
  (offset 492), are on the device.  \<open>FAT_ERR_FULL\<close> means that every
  cluster but the one the hint names was in use.  No data sector is touched on any path.\<close>

theorem stretch_chain_allocates:
  assumes "block_dev ops content dinv"
    and "cache_ok ops content dinv v" and "geom_ok v"
    and "2 \<le> last_used v" and "last_used v < clust_cnt v"
    and "prev = 0 \<or> 2 \<le> prev \<and> prev < clust_cnt v"
  shows "wp (stretch_chain prev)
    (\<lambda>n v'. cache_ok ops content dinv v' \<and> only_counters v v' \<and> last_used v' = n
       \<and> free_cnt v' = free_cnt v - 1 \<and> rd32 (content (dev v') (info_sect v)) 488 = free_cnt v'
       \<and> rd32 (content (dev v') (info_sect v)) 492 = n
       \<and> 2 \<le> n \<and> n < clust_cnt v \<and> fat_val (lview content v) (fat_sect0 v) n = 0
       \<and> (\<forall>base x. fat_copy v base \<longrightarrow> x < clust_cnt v \<longrightarrow> fat_val (content (dev v')) base x =
            (if prev \<noteq> 0 \<and> x = prev then n else if x = n then 0x0fffffff
             else fat_val (lview content v) base x))
       \<and> (\<forall>cs. fat_chain (fat_val (lview content v) (fat_sect0 v)) (clust_cnt v) cs \<longrightarrow>
            fat_chain (fat_val (content (dev v')) (fat_sect0 v)) (clust_cnt v)
              (if List.last cs = prev then cs @ [n] else cs) \<or> prev \<in> set (butlast cs))
       \<and> (\<forall>m. \<not> meta_sect v m \<longrightarrow> content (dev v') m = lview content v m))
    (\<lambda>e v'. cache_ok ops content dinv v' \<and> only_counters v v'
       \<and> (\<forall>m. \<not> meta_sect v m \<longrightarrow> lview content v' m = lview content v m)
       \<and> (e = FAT_ERR_FULL \<longrightarrow> (\<forall>x. 2 \<le> x \<and> x < clust_cnt v \<and> x \<noteq> last_used v \<longrightarrow>
            fat_val (lview content v) (fat_sect0 v) x \<noteq> 0))) v"
proof (rule wp_conseq[OF block_dev.stretch_chain_wp[OF assms]], goal_cases)
  case (1 n v')
  let ?F = "fat_val (lview content v) (fat_sect0 v)" and ?F' = "fat_val (content (dev v')) (fat_sect0 v)"
  have s: "block_dev.vframe ops content dinv v v'" "block_dev.synced content v'"
    and n: "2 \<le> n" "n < clust_cnt v" "?F n = 0" using 1 by auto
  note S = block_dev.synced_vol[OF assms(1) s]
  have e: "\<forall>base x. fat_copy v base \<longrightarrow> x < clust_cnt v \<longrightarrow> fat_val (content (dev v')) base x =
            (if prev \<noteq> 0 \<and> x = prev then n else if x = n then 0x0fffffff
             else fat_val (lview content v) base x)"
    using 1 S(3) by (simp add: block_dev.stretched_def[OF assms(1)])
  have ch: "fat_chain ?F' (clust_cnt v) (if List.last cs = prev then cs @ [n] else cs) \<or> prev \<in> set (butlast cs)"
    if c: "fat_chain ?F (clust_cnt v) cs" for cs
    by (rule stretched_chain[OF c geom_ok_cnt(2)[OF assms(3)] n e[rule_format, OF fat_copy0] assms(6)])
  show ?case using 1 S e ch by blast
next
  case (2 e v')
  then show ?case
    using block_dev.vframe_data[OF assms(1), of v v'] block_dev.vframe_def[OF assms(1), of v v']
    by auto
qed

theorem stretch_chain_allocates_witness:
  "wp (stretch_chain 5) (\<lambda>n v'. 2 \<le> n \<and> fat_chain (fat_val (ram_data (dev v')) 32) 128 [3, 4, 5, n])
     (\<lambda>e v'. e \<noteq> FAT_ERR_FULL) (demo_vol demo_disk)"
proof -
  have a: "2 \<le> last_used (demo_vol demo_disk)" "last_used (demo_vol demo_disk) < clust_cnt (demo_vol demo_disk)"
    "5 = 0 \<or> 2 \<le> (5 :: u32) \<and> 5 < clust_cnt (demo_vol demo_disk)"
    by simp_all
  show ?thesis
  proof (rule wp_conseq[OF stretch_chain_allocates[OF ram.block_dev_axioms demo_cache_ok demo_geom a]],
      goal_cases)
    case (1 n v')
    then have "fat_chain (fat_val (ram_data (dev v')) 32) 128 ([3, 4, 5] @ [n])"
      using demo_chain by (elim conjE allE[of _ "[3, 4, 5]"]) simp
    with 1 show ?case by simp
  next
    case (2 e v')
    have "fat_val (lview ram_data (demo_vol demo_disk)) 32 6 = 0"
      unfolding demo_view
      by (simp add: fat_val_def fat_ent_def demo_disk_def demo_table_def le_simps rd32_replicate)
    moreover have "(2 :: u32) \<le> 6 \<and> (6 :: u32) < 128 \<and> (6 :: u32) \<noteq> 5" by simp
    ultimately show ?case using 2 by auto
  qed
qed

text \<open>A device none of whose sectors fail.\<close>

definition ram_good :: "(ram, 'z) vol_scheme \<Rightarrow> bool" where
  "ram_good v \<longleftrightarrow> fat_ops v = ram_ops \<and> (\<forall>n. \<not> ram_bad (dev v) n)"

lemma ram_good_sync: "ram_good v \<Longrightarrow> wp sync_buf (\<lambda>_ v'. ram_good v') (\<lambda>_ _. False) v"
  by (auto simp: sync_buf_def wp_def bnd_def gets_def modify_def ret_def disk_write_def ram_good_def
      ram_ops_def ram_write_def)

lemma ram_good_update: "ram_good v \<Longrightarrow> wp (update_buf n) (\<lambda>_ v'. ram_good v') (\<lambda>_ _. False) v"
  unfolding update_buf_def wp_bnd[of "gets _"] wp_gets wp_if
  by (auto simp: wp_ret intro!: wp_bndI[OF ram_good_sync])
     (auto simp: wp_def bnd_def gets_def modify_def disk_read_def ram_good_def ram_ops_def ram_read_def)

lemma ram_good_get_fat:
  assumes "ram_good v"
  shows "wp (get_fat c) (\<lambda>_ v'. ram_good v') (\<lambda>e _. e = FAT_ERR_BROKEN) v"
  unfolding get_fat_def wp_bnd[of "gets _"] wp_gets
  by (rule wp_bndI[OF ram_good_update[OF assms]])
     (auto simp: wp_rules Let_def split: option.splits)

text \<open>The scan on a table without a free entry and with a hint outside of it.\<close>

definition scan_stuck :: "u32 \<Rightarrow> (ram, 'z) vol_scheme \<Rightarrow> bool" where
  "scan_stuck c v \<longleftrightarrow> cache_ok ram_ops ram_data ram_inv v \<and> geom_ok v \<and> ram_good v
     \<and> (\<forall>x. 1 \<le> x \<and> x < clust_cnt v \<longrightarrow> fat_val (lview ram_data v) (fat_sect0 v) x \<noteq> 0
           \<and> fat_entry_flags (clust_cnt v) (fat_val (lview ram_data v) (fat_sect0 v) x) \<noteq> None)
     \<and> (last_used v < 2 \<or> clust_cnt v \<le> last_used v)
     \<and> 1 \<le> next_clust (clust_cnt v) c \<and> next_clust (clust_cnt v) c \<noteq> last_used v"

lemma scan_stuck_next:
  assumes "2 < cnt" and "lu < 2 \<or> cnt \<le> lu" and "1 \<le> (n :: u32)" "n < cnt"
  shows "next_clust cnt n < cnt" "2 \<le> next_clust cnt n" "next_clust cnt n \<noteq> lu"
proof -
  have "unat n + 1 < 2 ^ 32" using assms(4) unsigned_less[of cnt, where ?'a = nat]
    by (simp add: word_less_nat_alt)
  then have u: "unat (n + 1) = unat n + 1" by (simp add: unat_word_ariths)
  have "1 \<le> unat n" using assms(3) by (simp add: word_le_nat_alt)
  then have "2 \<le> n + 1" using u by (simp add: word_le_nat_alt)
  then show a: "2 \<le> next_clust cnt n" and b: "next_clust cnt n < cnt"
    using assms(1) by (auto simp: next_clust_def)
  show "next_clust cnt n \<noteq> lu" using a b assms(2) by auto
qed

lemma scan_stuck_none: "scan_free c flags v = Some y \<Longrightarrow> \<not> scan_stuck c v"
proof (erule scan_free.raw_induct[of "\<lambda>c flags v y. \<not> scan_stuck c v", rotated])
  fix scan clust flags y and v :: "(ram, 'a) vol_scheme"
  assume ih: "\<And>c flags v y. scan c flags v = Some y \<Longrightarrow> \<not> scan_stuck c (v :: (ram, 'a) vol_scheme)"
    and body: "bnd (gets (\<lambda>v. (clust_cnt v, last_used v))) (\<lambda>(cnt, last).
     if next_clust cnt clust = last then throw FAT_ERR_FULL
     else
       attempt (get_fat (next_clust cnt clust)) (\<lambda>r.
       case r of
         Inl e \<Rightarrow> throw (FAT_RET_FLAGS flags)
       | Inr (nxt, fl) \<Rightarrow>
           if fl AND CLUST_FREE \<noteq> 0 then ret (next_clust cnt clust)
           else scan (next_clust cnt clust) (Some fl))) v = Some y"
  show "\<not> scan_stuck clust v"
  proof
    assume stuck: "scan_stuck clust v"
    let ?n = "next_clust (clust_cnt v) clust"
    note st = stuck[unfolded scan_stuck_def]
    have g: "geom_ok v" "2 < clust_cnt v" using st geom_ok_cnt by auto
    have n: "1 \<le> ?n" "?n < clust_cnt v" using st g by (auto simp: next_clust_def)
    have s0: "fat_sect0 v + ?n div 128 \<noteq> 0" using fat_sector_in(2)[OF g(1) n(2), of "fat_sect0 v"] by simp
    have c: "cache_ok ram_ops ram_data ram_inv v" and rg: "ram_good v" using st by auto
    have "attempt (get_fat ?n) (\<lambda>r. case r of Inl e \<Rightarrow> throw (FAT_RET_FLAGS flags)
       | Inr (nxt, fl) \<Rightarrow> if fl AND CLUST_FREE \<noteq> 0 then ret ?n else scan ?n (Some fl)) v = Some y"
      using body st by (simp add: bnd_def gets_def)
    from this wp_conj[OF ram.get_fat_wp[OF c s0] ram_good_get_fat[OF rg, of ?n]] show False
    proof (cases rule: attempt_SomeE)
      case (1 p t)
      obtain val fl where p: "p = (val, fl)" by (cases p)
      with 1 have k: "ram.kept v t" and fl: "fat_entry_flags (clust_cnt v) val = Some fl"
        and val: "val = fat_val (lview ram_data v) (fat_sect0 v) ?n" and rt: "ram_good t" by auto
      have nf: "fl AND CLUST_FREE = 0" using flags_free[OF fl] st n val by auto
      have o: "only_cache v t" and l: "lview ram_data t = lview ram_data v"
        and ct: "cache_ok ram_ops ram_data ram_inv t" using k by (simp_all add: ram.kept_def)
      note f = only_cache_fields[OF o]
      have gt: "geom_ok t" using g(1) geom_ok_cong[OF f(4,6,7,5)] by simp
      have lu: "last_used v < 2 \<or> clust_cnt v \<le> last_used v" using st by blast
      note nn = scan_stuck_next[OF g(2) lu n]
      have "1 \<le> next_clust (clust_cnt v) ?n" by (rule order_trans[OF _ nn(2)]) simp
      then have "scan_stuck ?n t" using ct gt rt st nn(3) by (simp add: scan_stuck_def f l)
      moreover have "scan ?n (Some fl) t = Some y" using 1(2) p nf by simp
      ultimately show False using ih by blast
    next
      case (2 e t)
      then have "e = FAT_ERR_BROKEN" "fat_entry_flags (clust_cnt v)
        (fat_val (lview ram_data v) (fat_sect0 v) ?n) = None" by auto
      with st n show False by auto
    qed
  qed
qed

lemma scan_hint_next:
  assumes "2 < cnt" and "lu < 2 \<or> cnt \<le> lu \<and> lu \<noteq> 0xffffffff"
  shows "1 \<le> next_clust cnt lu" "next_clust cnt lu \<noteq> (lu :: u32)"
proof -
  have "1 \<le> next_clust cnt lu \<and> next_clust cnt lu \<noteq> lu"
  proof (cases "lu < 2")
    case True
    then have "unat lu = 0 \<or> unat lu = 1" by (simp add: word_less_nat_alt) linarith
    then have "lu = 0 \<or> lu = 1" by (simp add: word_unat_eq_iff)
    then show ?thesis using assms(1) by (auto simp: next_clust_def)
  next
    case False
    with assms(2) have le: "cnt \<le> lu" and "lu \<noteq> 0xffffffff" by auto
    then have "unat lu < 2 ^ 32 - 1"
      using unsigned_less[of lu, where ?'a = nat] by (simp add: word_unat_eq_iff)
    then have "unat (lu + 1) = unat lu + 1" by (simp add: unat_word_ariths)
    with le have "cnt \<le> lu + 1" by (simp add: word_le_nat_alt)
    then have "next_clust cnt lu = 2" by (simp add: next_clust_def)
    moreover have "lu \<noteq> 2" using assms(1) le by auto
    ultimately show ?thesis by simp
  qed
  then show "1 \<le> next_clust cnt lu" "next_clust cnt lu \<noteq> lu" by auto
qed

text \<open>C4. On a full disk the scan for a free cluster does not end when the next-free hint is not
  the number of a cluster: on a device that never fails, with a well-formed table in which every
  cluster is in use and a hint below 2 or beyond the table, \<open>create_chain\<close> never returns.  The
  mount takes the hint from the \<open>FsInfo\<close> sector and checks it against 0xffffffff only.\<close>

theorem create_chain_full_hangs:
  fixes v :: "(ram, 'z) vol_scheme"
  assumes "cache_ok ram_ops ram_data ram_inv v" and "geom_ok v" and "ram_good v"
    and full: "\<And>x. 1 \<le> x \<Longrightarrow> x < clust_cnt v \<Longrightarrow>
      fat_entry_flags (clust_cnt v) (fat_val (ram_data (dev v)) (fat_sect0 v) x) \<notin> {None, Some CLUST_FREE}"
    and "\<not> buf_dirty v" and lu: "last_used v < 2 \<or> clust_cnt v \<le> last_used v \<and> last_used v \<noteq> 0xffffffff"
  shows "create_chain v = None"
proof -
  let ?v0 = "v\<lparr>fat_flags := fat_flags v OR 2\<rparr>"
  have l: "lview ram_data v n = ram_data (dev v) n" for n
    using assms(1,5) by (auto simp: lview_def cache_ok_def)
  note s0 = ram.set_info_dirty_tframe[OF assms(1)]
  have ne: "fat_val (ram_data (dev v)) (fat_sect0 v) x \<noteq> 0" if "1 \<le> x" "x < clust_cnt v" for x
    using full[OF that] by (auto simp: fat_entry_flags_simps)
  have g2: "2 < clust_cnt v" using geom_ok_cnt(1)[OF assms(2)] .
  have n: "1 \<le> next_clust (clust_cnt v) (last_used v)" "next_clust (clust_cnt v) (last_used v) \<noteq> last_used v"
    using scan_hint_next[OF g2 lu] by simp_all
  have lu': "last_used v < 2 \<or> clust_cnt v \<le> last_used v" using lu by blast
  have "scan_stuck (last_used v) ?v0"
    using assms(1-3) lu' n s0(1,2) full ne geom_ok_cong[of ?v0 v]
    by (simp add: scan_stuck_def ram_good_def l[abs_def, folded fun_eq_iff])
  then have "scan_free (last_used v) None ?v0 = None" using scan_stuck_none not_None_eq by metis
  then show ?thesis
    by (simp add: create_chain_def stretch_chain_def set_info_dirty_def bnd_def modify_def gets_def)
qed

text \<open>The small volume with a full table, and a hint of 0.\<close>

definition full_disk :: ram where
  "full_disk = \<lparr>ram_data = (\<lambda>n. map (\<lambda>i. if i mod 4 = 3 then 0x0f else 0xff) [0..<512]),
     ram_bad = (\<lambda>n. False)\<rparr>"

lemma full_entries:
  assumes "x < 128"
  shows "fat_val (ram_data full_disk) 32 x = 0x0fffffff"
proof -
  have u: "unat x < 128" using assms by (simp add: word_less_nat_alt)
  have "(4 * k + 1) mod 4 = 1" "(4 * k + 2) mod 4 = 2" "(4 * k + 3) mod 4 = 3" for k :: nat
    by presburger+
  then have "rd32 (map (\<lambda>i. if i mod 4 = 3 then 0x0f else 0xff) [0..<512]) (4 * k) = 0x0fffffff"
    if "k < 128" for k
    using that by (simp add: rd32_def)
  then show ?thesis using u by (simp add: fat_val_def fat_ent_def full_disk_def clust_mod)
qed

theorem create_chain_full_hangs_witness:
  "create_chain ((demo_vol full_disk)\<lparr>last_used := 0\<rparr>) = None"
proof (rule create_chain_full_hangs)
  let ?v = "(demo_vol full_disk)\<lparr>last_used := 0\<rparr>"
  show "cache_ok ram_ops ram_data ram_inv ?v"
    by (simp add: cache_ok_def ram_inv_def full_disk_def buf_dirty_def)
  show "geom_ok ?v" using demo_geom[of full_disk] geom_ok_cong[of ?v "demo_vol full_disk"] by simp
  show "ram_good ?v" by (simp add: ram_good_def full_disk_def)
  show "\<not> buf_dirty ?v" by (simp add: buf_dirty_def)
  show "last_used ?v < 2 \<or> clust_cnt ?v \<le> last_used ?v \<and> last_used ?v \<noteq> 0xffffffff" by simp
  fix x assume "x < clust_cnt ?v"
  then show "fat_entry_flags (clust_cnt ?v) (fat_val (ram_data (dev ?v)) (fat_sect0 ?v) x)
      \<notin> {None, Some CLUST_FREE}"
    by (simp add: full_entries fat_entry_flags_simps)
qed

text \<open>\<open>clust_clear\<close> writes zeros to every sector of the cluster it is given and to no other
  sector; when the device fails, it still has written to no other sector.\<close>

theorem clust_clear_zeroes:
  assumes "block_dev ops content dinv" and "cache_ok ops content dinv v"
    and "clust_to_sect v clust \<noteq> 0"
    and "unat (clust_to_sect v clust) + 2 ^ unat (clust_shift v) \<le> 2 ^ 32"
  shows "wp (clust_clear clust)
    (\<lambda>_ v'. cache_ok ops content dinv v' \<and> only_cache v v'
       \<and> (\<forall>n. content (dev v') n =
            (if in_range (clust_to_sect v clust) (2 ^ unat (clust_shift v)) n
             then replicate 512 0 else lview content v n)))
    (\<lambda>e v'. e = FAT_ERR_IO \<and> cache_ok ops content dinv v' \<and> only_cache v v'
       \<and> (\<forall>n. \<not> in_range (clust_to_sect v clust) (2 ^ unat (clust_shift v)) n
            \<longrightarrow> lview content v' n = lview content v n)) v"
  by (rule wp_conseq[OF block_dev.clust_clear_wp[OF assms]]) auto

lemma demo_sectors: "ram_data demo_disk 66 = replicate 512 0" "ram_data demo_disk 32 = demo_table"
  by (simp_all add: demo_disk_def)

theorem clust_clear_zeroes_witness:
  "wp (clust_clear 4) (\<lambda>_ v'. ram_data (dev v') 66 = replicate 512 0 \<and> ram_data (dev v') 32 = demo_table)
     (\<lambda>e v'. e = FAT_ERR_IO) (demo_vol demo_disk)"
proof -
  have s: "clust_to_sect (demo_vol demo_disk) 4 = 66" by (simp add: clust_to_sect_def)
  then have a: "clust_to_sect (demo_vol demo_disk) 4 \<noteq> 0"
    "unat (clust_to_sect (demo_vol demo_disk) 4) + 2 ^ unat (clust_shift (demo_vol demo_disk)) \<le> 2 ^ 32"
    by simp_all
  show ?thesis
    by (rule wp_conseq[OF clust_clear_zeroes[OF ram.block_dev_axioms demo_cache_ok a]])
       (simp_all add: s in_range_def demo_view demo_sectors)
qed

text \<open>The sector arithmetic: the sector of a cluster that is in the addressable range belongs
  to that cluster.\<close>

theorem sect_to_clust_inverse:
  assumes "2 \<le> c" and "unat (c - 2) * 2 ^ unat (clust_shift v) < 2 ^ 32"
  shows "sect_to_clust v (clust_to_sect v c) = c"
  by (rule sect_clust_round[OF assms])

theorem sect_to_clust_inverse_witness:
  "sect_to_clust (demo_vol demo_disk) (clust_to_sect (demo_vol demo_disk) 9) = 9"
  by (rule sect_to_clust_inverse) simp_all

end
