(* ===== verification/Fat_Dir.thy ===== *)
theory Fat_Dir
  imports Fat_Names Fat_Chain
begin

text \<open>
  Directories and paths of \<open>fat.c\<close>: walking over the 32-byte entries of a directory
  (\<open>dir_next\<close> and its relatives), collecting long names (\<open>parse_lfn_name\<close>), looking a name up
  (\<open>dir_search\<close>), resolving a path (\<open>follow_path\<close>), and removing and adding entries
  (\<open>remove_entries\<close>, \<open>dir_add\<close>).

  The \<open>Dir\<close> a function works on is the directory part of the state.  A \<open>Loc\<close> that a function
  fills in is part of its result.  The volume of the state is the one on the driver's list: the
  kernel mounts a single one.
\<close>

subsection \<open>Walking over a directory\<close>

definition dir_at_clust :: "u32 \<Rightarrow> (('d, 'z) dctx_scheme, fat_err, unit) prog" where
  "dir_at_clust c = modify (\<lambda>v. v\<lparr>dir_clust := c, dir_sect := clust_to_sect v c, dir_idx := 0\<rparr>)"

definition dir_enter :: "u32 \<Rightarrow> (('d, 'z) dctx_scheme, fat_err, unit) prog" where
  "dir_enter c =
     bnd (gets root_clust) (\<lambda>root.
     let c = (if c = 0 then root else c)
     in bnd (modify (\<lambda>v. v\<lparr>dir_sclust := c\<rparr>)) (\<lambda>_. dir_at_clust c))"

definition dir_next :: "(('d, 'z) dctx_scheme, fat_err, unit) prog" where
  "dir_next =
     bnd (modify (\<lambda>v. v\<lparr>dir_idx := dir_idx v + 32\<rparr>)) (\<lambda>_.
     bnd (gets dir_idx) (\<lambda>i.
     if i < 512 then ret ()
     else
       bnd (modify (\<lambda>v. v\<lparr>dir_idx := 0, dir_sect := dir_sect v + 1\<rparr>)) (\<lambda>_.
       bnd (gets (\<lambda>v. (dir_sect v AND clust_msk v, dir_clust v))) (\<lambda>(m, c).
       if m \<noteq> 0 then ret ()
       else
         bnd (get_fat c) (\<lambda>(nxt, flags).
         if flags AND (CLUST_BAD OR CLUST_FREE) \<noteq> 0 then throw FAT_ERR_BROKEN
         else if flags AND CLUST_LAST \<noteq> 0 then throw FAT_ERR_EOF
         else dir_at_clust nxt)))))"

fun dir_advance :: "nat \<Rightarrow> (('d, 'z) dctx_scheme, fat_err, unit) prog" where
  "dir_advance 0 = ret ()"
| "dir_advance (Suc n) = bnd dir_next (\<lambda>_. dir_advance n)"

definition dir_next_stretch :: "(('d, 'z) dctx_scheme, fat_err, unit) prog" where
  "dir_next_stretch =
     attempt dir_next (\<lambda>r.
     case r of
       Inr _ \<Rightarrow> ret ()
     | Inl e \<Rightarrow>
         if e \<noteq> FAT_ERR_EOF then throw e
         else
           bnd (gets dir_clust) (\<lambda>c.
           bnd (stretch_chain c) (\<lambda>nxt.
           bnd (dir_at_clust nxt) (\<lambda>_. clust_clear nxt))))"

subsection \<open>Long names\<close>

text \<open>One round of the loop: the entry in the buffer holds fragment \<open>n\<close> of the name.  The error
  branch of \<open>parse_lfn_frag\<close> is dead code in C, so the bytes stored before it do not matter.\<close>

fun parse_lfn_loop :: "nat \<Rightarrow> (('d, 'z) dctx_scheme, fat_err, unit) prog" where
  "parse_lfn_loop 0 = ret ()"
| "parse_lfn_loop (Suc n) =
     bnd (gets (\<lambda>v. (slice (fat_buf v) (unat (dir_idx v)) 32, g_crc v))) (\<lambda>(raw, crc).
     if raw ! 11 \<noteq> FAT_ATTR_LFN \<or> raw ! 13 \<noteq> crc then throw FAT_ERR_BROKEN
     else
       case parse_lfn_frag raw lfn_indices of
         None \<Rightarrow> throw FAT_ERR_BROKEN
       | Some cs \<Rightarrow>
           bnd (modify (\<lambda>v. v\<lparr>g_buf := put_slice (g_buf v) (13 * n) cs,
                              g_len := g_len v + word_of_nat (length cs)\<rparr>)) (\<lambda>_.
           bnd dir_next (\<lambda>_.
           bnd (gets dir_sect) (\<lambda>s.
           bnd (update_buf s) (\<lambda>_. parse_lfn_loop n)))))"

definition parse_lfn_name :: "(('d, 'z) dctx_scheme, fat_err, unit) prog" where
  "parse_lfn_name =
     bnd (gets dir_sect) (\<lambda>s.
     bnd (update_buf s) (\<lambda>_.
     bnd (gets (\<lambda>v. slice (fat_buf v) (unat (dir_idx v)) 32)) (\<lambda>raw.
     bnd (modify (\<lambda>v. v\<lparr>g_crc := raw ! 13, g_len := 0\<rparr>)) (\<lambda>_.
     if raw ! 0 AND LFN_HEAD_MSK = 0 then throw FAT_ERR_BROKEN
     else
       let cnt = unat (raw ! 0 AND LFN_SEQ_MSK)
       in if cnt > 20 then throw FAT_ERR_BROKEN
          else
            bnd (parse_lfn_loop cnt) (\<lambda>_.
            bnd (gets g_len) (\<lambda>n. if n \<le> 255 then ret () else throw FAT_ERR_BROKEN))))))"

subsection \<open>Looking up a name\<close>

text \<open>The result is the place of the first entry of the name, what the code stores in \<open>*loc\<close>.\<close>

partial_function (option) dir_search_loop ::
  "u8 list \<Rightarrow> nat \<Rightarrow> u8 list \<Rightarrow> ('d, 'z) dctx_scheme \<Rightarrow> ((fat_err + loc) \<times> ('d, 'z) dctx_scheme) option" where
  "dir_search_loop name len sfn v =
     bnd (gets dir_sect) (\<lambda>s.
     bnd (update_buf s) (\<lambda>_.
     bnd (gets (\<lambda>v. (fat_buf v, dir_sect v, dir_idx v))) (\<lambda>(b, ds, di).
     if sfn_is_last b (unat di) then throw FAT_ERR_EOF
     else if sfn_is_free b (unat di) then bnd dir_next (\<lambda>_. dir_search_loop name len sfn)
     else if sfn_is_lfn b (unat di) then
       bnd parse_lfn_name (\<lambda>_.
       bnd (gets (\<lambda>v. (fat_buf v, unat (dir_idx v), g_crc v))) (\<lambda>(b, i, crc).
       if sfn_is_free b i \<or> sfn_is_lfn b i \<or> crc \<noteq> get_crc (sfn_name b i) then throw FAT_ERR_BROKEN
       else
         bnd (gets (\<lambda>v. (unat (g_len v), g_buf v))) (\<lambda>(n, gb).
         if n = len \<and> take len gb = take len name then ret \<lparr>loc_sect = ds, loc_idx = di\<rparr>
         else bnd dir_next (\<lambda>_. dir_search_loop name len sfn))))
     else if sfn = sfn_name b (unat di) then ret \<lparr>loc_sect = ds, loc_idx = di\<rparr>
     else bnd dir_next (\<lambda>_. dir_search_loop name len sfn)))) v"

definition dir_search :: "u8 list \<Rightarrow> nat \<Rightarrow> (('d, 'z) dctx_scheme, fat_err, loc) prog" where
  "dir_search name len =
     bnd (gets dir_sclust) (\<lambda>c.
     bnd (dir_at_clust c) (\<lambda>_. dir_search_loop name len (put_sfn_name name len)))"

subsection \<open>Paths\<close>

definition dir_at_root :: "('d, 'z) dctx_scheme \<Rightarrow> bool" where
  "dir_at_root v \<longleftrightarrow>
     dir_clust v = root_clust v \<and> dir_sect v = clust_to_sect v (root_clust v) \<and> dir_idx v = 0"

text \<open>The list of mounted volumes from its head on; the result is the place in the list.\<close>

fun find_fat_volume :: "u8 list \<Rightarrow> nat \<Rightarrow> ('d, 'z) fat_scheme list \<Rightarrow> nat option" where
  "find_fat_volume name len [] = None"
| "find_fat_volume name len (it # its) =
     (if len = unat (fat_name_len it) \<and> take len name = take len (fat_name it) then Some 0
      else map_option Suc (find_fat_volume name len its))"

text \<open>The loop of \<open>follow_path\<close>.  The code leaves the unread part of the path in \<open>*path\<close>, also
  when it fails: it is part of the result and of the error.  \<open>l\<close> is the \<open>Loc\<close>, \<open>None\<close> before
  the code has stored it.\<close>

partial_function (option) follow_loop ::
  "u8 list \<Rightarrow> bool \<Rightarrow> u32 \<Rightarrow> loc option \<Rightarrow> ('d, 'z) dctx_scheme \<Rightarrow>
   (((fat_err \<times> u8 list) + (u8 list \<times> loc option)) \<times> ('d, 'z) dctx_scheme) option" where
  "follow_loop path enterable clust l v =
     (let str = skip_slashes path; len = subpath_len str
      in if len = 0 then ret (str, l)
         else if \<not> enterable then throw (FAT_ERR_PATH, str)
         else
           attempt (bnd (dir_enter clust) (\<lambda>_. dir_search str len)) (\<lambda>r.
           case r of
             Inl e \<Rightarrow> throw (e, str)
           | Inr l' \<Rightarrow>
               bnd (gets (\<lambda>v. (fat_buf v, unat (dir_idx v)))) (\<lambda>(b, i).
               follow_loop (drop len str) (sfn_attr b i AND FAT_ATTR_DIR \<noteq> 0) (sfn_cluster b i)
                 (Some l')))) v"

definition follow_path ::
  "u8 list \<Rightarrow> (('d, 'z) dctx_scheme, fat_err \<times> u8 list, u8 list \<times> loc option) prog" where
  "follow_path path =
     (if path = [] \<or> hd path \<noteq> SLASH then throw (FAT_ERR_PATH, path)
      else
        let str = tl path; len = subpath_len str
        in if len = 0 then throw (FAT_ERR_PATH, path)
           else
             bnd (gets (\<lambda>v. find_fat_volume str len [v])) (\<lambda>f.
             bnd (modify (\<lambda>v. v\<lparr>dir_fat := (f \<noteq> None)\<rparr>)) (\<lambda>_.
             if f = None then throw (FAT_ERR_PATH, path)
             else
               bnd (gets root_clust) (\<lambda>root.
               attempt (dir_enter root) (\<lambda>_.
               bnd (gets dir_clust) (\<lambda>c. follow_loop (drop len str) True c None))))))"

subsection \<open>Removing entries\<close>

definition mark_buf_dirty :: "(('d, 'z) vol_scheme, fat_err, unit) prog" where
  "mark_buf_dirty = modify (\<lambda>v. v\<lparr>fat_flags := fat_flags v OR FAT_BUF_DIRTY\<rparr>)"

text \<open>Storing into the entry the \<open>Dir\<close> stands at.\<close>

definition dir_put :: "u8 list \<Rightarrow> (('d, 'z) dctx_scheme, fat_err, unit) prog" where
  "dir_put e = modify (\<lambda>v. v\<lparr>fat_buf := put_slice (fat_buf v) (unat (dir_idx v)) e\<rparr>)"

definition dir_seek :: "loc \<Rightarrow> (('d, 'z) dctx_scheme, fat_err, unit) prog" where
  "dir_seek l = modify (\<lambda>v. v\<lparr>dir_clust := sect_to_clust v (loc_sect l),
     dir_sect := loc_sect l, dir_idx := loc_idx l\<rparr>)"

partial_function (option) remove_entries_loop ::
  "u32 \<Rightarrow> u16 \<Rightarrow> ('d, 'z) dctx_scheme \<Rightarrow> ((fat_err + unit) \<times> ('d, 'z) dctx_scheme) option" where
  "remove_entries_loop sect idx v =
     bnd (gets dir_sect) (\<lambda>s.
     bnd (update_buf s) (\<lambda>_.
     bnd (dir_put [SFN_FREE]) (\<lambda>_.
     bnd mark_buf_dirty (\<lambda>_.
     bnd (gets (\<lambda>v. (dir_sect v, dir_idx v))) (\<lambda>(s, i).
     if s = sect \<and> i = idx then ret ()
     else bnd dir_next (\<lambda>_. remove_entries_loop sect idx)))))) v"

definition remove_entries :: "loc \<Rightarrow> (('d, 'z) dctx_scheme, fat_err, unit) prog" where
  "remove_entries l =
     bnd (gets (\<lambda>v. (dir_sect v, dir_idx v))) (\<lambda>(sect, idx).
     bnd (dir_seek l) (\<lambda>_. remove_entries_loop sect idx))"

subsection \<open>Adding entries\<close>

text \<open>The search for \<open>need\<close> free entries in a row: \<open>cnt\<close> of them have been seen, from
  \<open>(sect, idx)\<close> on; \<open>eod\<close> says that the end mark has been passed.\<close>

partial_function (option) dir_find_free ::
  "nat \<Rightarrow> nat \<Rightarrow> bool \<Rightarrow> loc \<Rightarrow> ('d, 'z) dctx_scheme \<Rightarrow>
   ((fat_err + (bool \<times> loc)) \<times> ('d, 'z) dctx_scheme) option" where
  "dir_find_free need cnt eod l v =
     (if \<not> cnt < need then ret (eod, l)
      else
        bnd (gets dir_sect) (\<lambda>s.
        bnd (update_buf s) (\<lambda>_.
        bnd (gets (\<lambda>v. (fat_buf v, dir_sect v, dir_idx v))) (\<lambda>(b, ds, di).
        let free = (eod \<or> sfn_is_free b (unat di));
            l' = (if free \<and> cnt = 0 then \<lparr>loc_sect = ds, loc_idx = di\<rparr> else l);
            cnt' = (if free then cnt + 1 else 0);
            eod' = (sfn_is_last b (unat di) \<or> eod)
        in bnd dir_next_stretch (\<lambda>_. dir_find_free need cnt' eod' l'))))) v"

text \<open>The bytes of one \<open>Lfn\<close>, over those the entry had before.\<close>

definition make_lfn :: "u8 list \<Rightarrow> nat \<Rightarrow> nat \<Rightarrow> u8 \<Rightarrow> u8 \<Rightarrow> u8 list \<Rightarrow> u8 list" where
  "make_lfn name len i head_bit crc raw =
     (let pos = 13 * (i - 1)
      in (put_lfn_name_frag raw (drop pos name) (min (len - pos) 13))
           [11 := FAT_ATTR_LFN, 0 := head_bit OR word_of_nat i, 13 := crc, 12 := 0, 26 := 0, 27 := 0])"

fun dir_put_lfns :: "u8 list \<Rightarrow> nat \<Rightarrow> u8 \<Rightarrow> nat \<Rightarrow> u8 \<Rightarrow> (('d, 'z) dctx_scheme, fat_err, unit) prog" where
  "dir_put_lfns name len crc 0 head_bit = ret ()"
| "dir_put_lfns name len crc (Suc i) head_bit =
     bnd (gets dir_sect) (\<lambda>s.
     bnd (update_buf s) (\<lambda>_.
     bnd mark_buf_dirty (\<lambda>_.
     bnd (gets (\<lambda>v. slice (fat_buf v) (unat (dir_idx v)) 32)) (\<lambda>raw.
     bnd (dir_put (make_lfn name len (Suc i) head_bit crc raw)) (\<lambda>_.
     bnd dir_next (\<lambda>_. dir_put_lfns name len crc i 0))))))"

text \<open>The bytes of the new \<open>Sfn\<close>; \<open>now\<close> is what the clock callback \<open>fat_get_timestamp\<close> returned.\<close>

definition make_sfn :: "u8 list \<Rightarrow> u8 \<Rightarrow> u32 \<Rightarrow> timestamp \<Rightarrow> u8 list" where
  "make_sfn sfn attr clust now =
     (let (date, time) = encode_timestamp now; z = replicate 32 (0 :: u8);
          b0 = put_slice z 0 sfn;
          b1 = b0[11 := attr, 12 := 0, 13 := 0];
          b2 = wr16 (wr16 (wr16 b1 14 time) 16 date) 18 date;
          b3 = wr16 (wr16 (wr16 b2 20 (ucast (drop_bit 16 clust))) 22 time) 24 date
      in wr32 (wr16 b3 26 (ucast (clust AND 0xffff))) 28 0)"

definition dir_add ::
  "timestamp \<Rightarrow> u8 list \<Rightarrow> nat \<Rightarrow> u8 \<Rightarrow> u32 \<Rightarrow> (('d, 'z) dctx_scheme, fat_err, unit) prog" where
  "dir_add now name len attr clust =
     (if len = 0 \<or> len > 255 then throw FAT_ERR_PARAM
      else
        let lfns = (len + 12) div 13; sfn = put_sfn_name name len
        in bnd (gets dir_sclust) (\<lambda>c.
           bnd (dir_enter c) (\<lambda>_.
           bnd (dir_find_free (lfns + 1) 0 False \<lparr>loc_sect = 0, loc_idx = 0\<rparr>) (\<lambda>(eod, l).
           bnd (if eod then
                  bnd (gets dir_sect) (\<lambda>s.
                  bnd (update_buf s) (\<lambda>_.
                  bnd (dir_put [0]) (\<lambda>_. mark_buf_dirty)))
                else ret ()) (\<lambda>_.
           bnd (dir_seek l) (\<lambda>_.
           bnd (dir_put_lfns name len (get_crc sfn) lfns LFN_HEAD_MSK) (\<lambda>_.
           bnd (gets dir_sect) (\<lambda>s.
           bnd (update_buf s) (\<lambda>_.
           bnd mark_buf_dirty (\<lambda>_. dir_put (make_sfn sfn attr clust now)))))))))))"

end
