(* ===== verification/Fat_Walk.thy ===== *)
theory Fat_Walk
  imports Fat_Dir
begin

text \<open>
  Walking over a directory.  A directory is the list of its 32-byte entries along its cluster
  chain; \<open>dir_at v cs k\<close> says that the \<open>Dir\<close> of the state stands at entry \<open>k\<close>.  On a volume
  whose data area starts at a multiple of the cluster size, \<open>dir_next\<close> goes to the next entry
  and reports the end of the chain (\<open>dir_next_wp\<close>).
\<close>


subsection \<open>Places in a directory\<close>

text \<open>Entry number \<open>k\<close> of the directory on the clusters \<open>cs\<close>: 16 entries to a sector, \<open>2 ^ shift\<close>
  sectors to a cluster.\<close>

definition spc :: "('d, 'z) fat_scheme \<Rightarrow> nat" where
  "spc v = 2 ^ unat (clust_shift v)"

definition ent_clust :: "('d, 'z) fat_scheme \<Rightarrow> u32 list \<Rightarrow> nat \<Rightarrow> u32" where
  "ent_clust v cs k = cs ! (k div 16 div spc v)"

definition ent_sect :: "('d, 'z) fat_scheme \<Rightarrow> u32 list \<Rightarrow> nat \<Rightarrow> u32" where
  "ent_sect v cs k = clust_to_sect v (ent_clust v cs k) + word_of_nat (k div 16 mod spc v)"

definition ent_idx :: "nat \<Rightarrow> u16" where
  "ent_idx k = word_of_nat (32 * (k mod 16))"

definition dir_cap :: "('d, 'z) fat_scheme \<Rightarrow> u32 list \<Rightarrow> nat" where
  "dir_cap v cs = length cs * spc v * 16"

definition dir_at :: "('d, 'z) dctx_scheme \<Rightarrow> u32 list \<Rightarrow> nat \<Rightarrow> bool" where
  "dir_at v cs k \<longleftrightarrow> k < dir_cap v cs \<and> dir_clust v = ent_clust v cs k
     \<and> dir_sect v = ent_sect v cs k \<and> dir_idx v = ent_idx k"

text \<open>The layout of the data area: cluster sizes of at most 64 KB, and an area that does not wrap
  around.  The walk over directories also needs it to start at a multiple of the cluster size.\<close>

definition data_geom :: "('d, 'z) fat_scheme \<Rightarrow> bool" where
  "data_geom v \<longleftrightarrow> unat (clust_shift v) \<le> 7 \<and> clust_msk v = word_of_nat (spc v - 1)
     \<and> 0 < unat (data_sect v)
     \<and> unat (data_sect v) + spc v * unat (clust_cnt v) \<le> 2 ^ 32"

definition dir_geom :: "('d, 'z) fat_scheme \<Rightarrow> bool" where
  "dir_geom v \<longleftrightarrow> data_geom v \<and> spc v dvd unat (data_sect v)"

lemma dir_data_geom: "dir_geom v \<Longrightarrow> data_geom v"
  by (simp add: dir_geom_def)

lemma spc_pos [simp]: "0 < spc v"
  by (simp add: spc_def)

lemma clust_sect_unat:
  assumes g: "data_geom v" and c: "2 \<le> c" "c < clust_cnt v" and j: "j < spc v"
  shows "unat (clust_to_sect v c + word_of_nat j) = unat (data_sect v) + spc v * (unat c - 2) + j"
proof -
  have cn: "2 \<le> unat c" "unat c < unat (clust_cnt v)" using c by (simp_all add: word_le_nat_alt word_less_nat_alt)
  have "spc v * (unat c - 2) + j < spc v * unat (clust_cnt v)"
  proof -
    have "spc v * (unat c - 2) + j < spc v * Suc (unat c - 2)" using j by simp
    also have "\<dots> \<le> spc v * unat (clust_cnt v)" using cn by (intro mult_le_mono2) linarith
    finally show ?thesis .
  qed
  then have lt: "unat (data_sect v) + spc v * (unat c - 2) + j < 2 ^ 32"
    using g unfolding data_geom_def by linarith
  have s: "spc v < 2 ^ 32" using g unfolding data_geom_def spc_def
    by (intro power_strict_increasing) linarith+
  have u: "unat (c - 2) = unat c - 2" using c(1) by (simp add: unat_sub word_le_nat_alt)
  have "push_bit (unat (clust_shift v)) (c - 2) = word_of_nat (spc v * (unat c - 2))"
    unfolding u[symmetric] by (simp add: push_bit_eq_mult spc_def mult.commute)
  then have "clust_to_sect v c + word_of_nat j = word_of_nat (unat (data_sect v) + spc v * (unat c - 2) + j)"
    by (simp add: clust_to_sect_def)
  then show ?thesis using lt by (simp only: unat_of_nat) simp
qed

text \<open>The test of \<open>dir_next\<close> for the end of a cluster, on a volume laid out this way.\<close>

lemma clust_end_test:
  assumes g: "dir_geom v" and c: "2 \<le> c" "c < clust_cnt v" and j: "j < spc v"
  shows "(clust_to_sect v c + word_of_nat j + 1) AND clust_msk v \<noteq> 0 \<longleftrightarrow> Suc j < spc v"
proof -
  let ?n = "unat (clust_shift v)"
  have m: "clust_msk v = Bit_Operations.mask ?n"
    using g by (simp add: dir_geom_def data_geom_def spc_def mask_eq_exp_minus_1 of_nat_diff)
  have x: "x AND clust_msk v = 0 \<longleftrightarrow> unat x mod spc v = 0" for x :: u32
    unfolding m spc_def
    by (metis take_bit_eq_mask unsigned_take_bit_eq take_bit_eq_mod unat_eq_0)
  obtain d where d: "unat (data_sect v) = spc v * d" using g unfolding dir_geom_def data_geom_def by (meson dvdE)
  let ?s = "clust_to_sect v c + word_of_nat j"
  have u: "unat ?s = spc v * (d + (unat c - 2)) + j"
    using clust_sect_unat[OF dir_data_geom[OF g] c j] d by (simp add: distrib_left)
  have "unat (?s + 1) mod spc v = Suc (unat ?s) mod spc v"
  proof -
    have "?n \<le> 32" using g by (simp add: dir_geom_def data_geom_def)
    then have "spc v dvd 2 ^ 32" unfolding spc_def by (rule le_imp_power_dvd)
    then show ?thesis by (simp add: unat_word_ariths mod_mod_cancel)
  qed
  also have "\<dots> = Suc j mod spc v" using u by (metis mod_mult_self4 add_Suc_right)
  finally show ?thesis using x[of "?s + 1"] j by (cases "Suc j = spc v") auto
qed

lemma unat_u16: "n < 65536 \<Longrightarrow> unat (word_of_nat n :: u16) = n"
  by (simp add: unat_of_nat take_bit_eq_mod)

lemma unat_numeral_512: "unat (512 :: u16) = 512"
  by simp

lemma ent_idx_next: "ent_idx k + 32 = word_of_nat (32 * Suc (k mod 16))"
  by (simp add: ent_idx_def)

lemma ent_idx_less: "ent_idx k + 32 < 512 \<longleftrightarrow> k mod 16 \<noteq> 15"
proof -
  have b: "k mod 16 < 16" by simp
  moreover have "i < 16 \<Longrightarrow> 32 * Suc i < 65536" for i :: nat by simp
  ultimately have "32 * Suc (k mod 16) < 65536" by blast
  then have "unat (ent_idx k + 32) = 32 * Suc (k mod 16)"
    unfolding ent_idx_next by (rule unat_u16)
  then have "ent_idx k + 32 < 512 \<longleftrightarrow> 32 * Suc (k mod 16) < 512"
    by (simp only: word_less_nat_alt) (simp only: unat_numeral_512)
  moreover have "i < 16 \<Longrightarrow> 32 * Suc i < 512 \<longleftrightarrow> i \<noteq> 15" for i :: nat by auto
  ultimately show ?thesis using b by blast
qed

lemma ent_next_same:
  assumes "k mod 16 \<noteq> 15"
  shows "ent_clust v cs (Suc k) = ent_clust v cs k" "ent_sect v cs (Suc k) = ent_sect v cs k"
    "ent_idx (Suc k) = ent_idx k + 32" "k < dir_cap v cs \<Longrightarrow> Suc k < dir_cap v cs"
proof -
  have d: "Suc k div 16 = k div 16" "Suc k mod 16 = Suc (k mod 16)" using assms
    by (simp_all add: div_Suc mod_Suc)
  then show "ent_clust v cs (Suc k) = ent_clust v cs k" "ent_sect v cs (Suc k) = ent_sect v cs k"
    "ent_idx (Suc k) = ent_idx k + 32"
    by (simp_all add: ent_clust_def ent_sect_def ent_idx_def)
  show "k < dir_cap v cs \<Longrightarrow> Suc k < dir_cap v cs"
  proof -
    assume "k < dir_cap v cs"
    then have "k div 16 < length cs * spc v" by (simp add: dir_cap_def div_less_iff_less_mult)
    then have "Suc k div 16 < length cs * spc v" by (simp only: d)
    then show "Suc k < dir_cap v cs" by (simp only: dir_cap_def div_less_iff_less_mult[of 16, simplified])
  qed
qed

lemma ent_next_sector:
  assumes "k mod 16 = 15"
  shows "ent_idx (Suc k) = 0"
    and "Suc (k div 16 mod spc v) < spc v \<Longrightarrow> ent_clust v cs (Suc k) = ent_clust v cs k"
    and "Suc (k div 16 mod spc v) < spc v \<Longrightarrow> ent_sect v cs (Suc k) = ent_sect v cs k + 1"
    and "Suc (k div 16 mod spc v) < spc v \<Longrightarrow> k < dir_cap v cs \<Longrightarrow> Suc k < dir_cap v cs"
    and "\<not> Suc (k div 16 mod spc v) < spc v \<Longrightarrow> ent_clust v cs (Suc k) = cs ! Suc (k div 16 div spc v)"
    and "\<not> Suc (k div 16 mod spc v) < spc v \<Longrightarrow>
      ent_sect v cs (Suc k) = clust_to_sect v (cs ! Suc (k div 16 div spc v))"
    and "\<not> Suc (k div 16 mod spc v) < spc v \<Longrightarrow> Suc k = Suc (k div 16 div spc v) * spc v * 16"
proof -
  let ?m = "k div 16"
  have d: "Suc k div 16 = Suc ?m" "Suc k mod 16 = 0" using assms by (simp_all add: div_Suc mod_Suc)
  have k: "Suc k = Suc ?m * 16" using d by (metis add_0_right div_mult_mod_eq)
  show "ent_idx (Suc k) = 0" using d by (simp add: ent_idx_def)
  have lt: "?m mod spc v < spc v" by simp
  show "ent_clust v cs (Suc k) = ent_clust v cs k" "ent_sect v cs (Suc k) = ent_sect v cs k + 1"
    if "Suc (?m mod spc v) < spc v"
    using that d by (simp_all add: ent_clust_def ent_sect_def div_Suc mod_Suc)
  show "Suc k < dir_cap v cs" if s: "Suc (?m mod spc v) < spc v" and c: "k < dir_cap v cs"
  proof -
    have "?m < length cs * spc v" using c by (simp add: dir_cap_def div_less_iff_less_mult)
    then have "?m div spc v < length cs" by (simp add: div_less_iff_less_mult)
    moreover have "Suc ?m mod spc v \<noteq> 0" using s by (simp add: mod_Suc)
    then have "Suc ?m div spc v = ?m div spc v" by (simp only: div_Suc if_False)
    ultimately have "Suc ?m < length cs * spc v" by (metis div_less_iff_less_mult spc_pos)
    then show ?thesis using k by (simp add: dir_cap_def)
  qed
  show "ent_clust v cs (Suc k) = cs ! Suc (?m div spc v)"
    "ent_sect v cs (Suc k) = clust_to_sect v (cs ! Suc (?m div spc v))"
    "Suc k = Suc (?m div spc v) * spc v * 16" if "\<not> Suc (?m mod spc v) < spc v"
  proof -
    have e: "Suc (?m mod spc v) = spc v" using that lt by linarith
    then have s: "Suc ?m div spc v = Suc (?m div spc v)" "Suc ?m mod spc v = 0"
      by (simp_all add: div_Suc mod_Suc)
    then show "ent_clust v cs (Suc k) = cs ! Suc (?m div spc v)"
      "ent_sect v cs (Suc k) = clust_to_sect v (cs ! Suc (?m div spc v))"
      using d by (simp_all add: ent_clust_def ent_sect_def)
    have "Suc ?m = Suc (?m div spc v) * spc v" using s by (metis add_0_right div_mult_mod_eq)
    then show "Suc k = Suc (?m div spc v) * spc v * 16" using k by simp
  qed
qed

lemma fat_chain_link: "fat_chain F cnt cs \<Longrightarrow> Suc i < length cs \<Longrightarrow> F (cs ! i) = cs ! Suc i"
proof (induction cs arbitrary: i rule: induct_list012)
  case (3 c d cs)
  then show ?case by (cases i) auto
qed auto

lemma fat_chain_last: "fat_chain F cnt cs \<Longrightarrow> F (List.last cs) \<ge> 0x0ffffff8"
  by (induction cs rule: induct_list012) auto

subsection \<open>Frames of the walk\<close>

text \<open>The state without the globals and the position that walking over a directory changes.\<close>

definition dwipe :: "('d, 'z) dctx_scheme \<Rightarrow> ('d, 'z) dctx_scheme" where
  "dwipe v = v\<lparr>g_buf := [], g_len := 0, g_crc := 0, dir_clust := 0, dir_sect := 0, dir_idx := 0\<rparr>"

definition names_same :: "('d, 'z) dctx_scheme \<Rightarrow> ('d, 'z) dctx_scheme \<Rightarrow> bool" where
  "names_same v v' \<longleftrightarrow> g_buf v' = g_buf v \<and> g_len v' = g_len v \<and> g_crc v' = g_crc v"

lemma names_same_refl [simp]: "names_same v v"
  by (simp add: names_same_def)

lemma names_same_trans: "names_same u v \<Longrightarrow> names_same v w \<Longrightarrow> names_same u w"
  by (simp add: names_same_def)

lemma dir_fields:
  assumes "vol.more (v' :: ('d, 'z) dctx_scheme) = vol.more v"
  shows "g_buf v' = g_buf v" "g_len v' = g_len v" "g_crc v' = g_crc v" "dir_fat v' = dir_fat v"
    "dir_sclust v' = dir_sclust v" "dir_clust v' = dir_clust v" "dir_sect v' = dir_sect v"
    "dir_idx v' = dir_idx v" "dctx.more v' = dctx.more v"
  using assms by (cases v; cases v'; simp)+

lemma only_cache_dwipe: "only_cache v v' \<Longrightarrow> only_cache (dwipe v) (dwipe v')"
proof -
  have "cacheless (dwipe w) = dwipe (cacheless w)" for w :: "('d, 'z) dctx_scheme"
    by (simp add: cacheless_def dwipe_def)
  then show "only_cache v v' \<Longrightarrow> only_cache (dwipe v) (dwipe v')" unfolding only_cache_def by metis
qed

lemma dwipe_fields:
  "fat_next (dwipe v) = fat_next v" "fat_ops (dwipe v) = fat_ops v" "clust_msk (dwipe v) = clust_msk v"
  "clust_cnt (dwipe v) = clust_cnt v" "info_sect (dwipe v) = info_sect v" "fat_sect0 (dwipe v) = fat_sect0 v"
  "fat_sect1 (dwipe v) = fat_sect1 v" "data_sect (dwipe v) = data_sect v" "root_clust (dwipe v) = root_clust v"
  "last_used (dwipe v) = last_used v" "free_cnt (dwipe v) = free_cnt v" "clust_shift (dwipe v) = clust_shift v"
  "fat_name_len (dwipe v) = fat_name_len v" "fat_name (dwipe v) = fat_name v" "dir_fat (dwipe v) = dir_fat v"
  "dir_sclust (dwipe v) = dir_sclust v" "dctx.more (dwipe v) = dctx.more v"
  by (simp_all add: dwipe_def)

context block_dev
begin

text \<open>What walking keeps: the view of the disk and everything but the cache, the place and the
  name buffers.\<close>

definition walked :: "('d, 'z) dctx_scheme \<Rightarrow> ('d, 'z) dctx_scheme \<Rightarrow> bool" where
  "walked v v' \<longleftrightarrow> cache_ok ops content dinv v' \<and> lview content v' = lview content v
     \<and> only_cache (dwipe v) (dwipe v') \<and> info_dirty v' = info_dirty v"

lemma walked_trans [trans]: "walked u v \<Longrightarrow> walked v w \<Longrightarrow> walked u w"
  by (auto simp: walked_def intro: only_cache_trans)

lemma walked_refl: "cache_ok ops content dinv v \<Longrightarrow> walked v v"
  by (simp add: walked_def)

lemma kept_walked: "kept v v' \<Longrightarrow> walked v v'"
  by (simp add: walked_def kept_def only_cache_dwipe)

lemma walked_fields:
  assumes "walked v v'"
  shows "clust_msk v' = clust_msk v" "clust_cnt v' = clust_cnt v" "info_sect v' = info_sect v"
    "fat_sect0 v' = fat_sect0 v" "fat_sect1 v' = fat_sect1 v" "data_sect v' = data_sect v"
    "root_clust v' = root_clust v" "last_used v' = last_used v" "free_cnt v' = free_cnt v"
    "clust_shift v' = clust_shift v" "dir_fat v' = dir_fat v" "dir_sclust v' = dir_sclust v"
    "dctx.more v' = dctx.more v" "fat_name_len v' = fat_name_len v" "fat_name v' = fat_name v"
    "lview content v' = lview content v" "cache_ok ops content dinv v'"
proof -
  have o: "only_cache (dwipe v) (dwipe v')" using assms by (simp add: walked_def)
  note only_cache_fields[OF o, unfolded dwipe_fields] dir_fields[OF only_cache_fields(15)[OF o], unfolded dwipe_fields]
  then show "clust_msk v' = clust_msk v" "clust_cnt v' = clust_cnt v" "info_sect v' = info_sect v"
    "fat_sect0 v' = fat_sect0 v" "fat_sect1 v' = fat_sect1 v" "data_sect v' = data_sect v"
    "root_clust v' = root_clust v" "last_used v' = last_used v" "free_cnt v' = free_cnt v"
    "clust_shift v' = clust_shift v" "dir_fat v' = dir_fat v" "dir_sclust v' = dir_sclust v"
    "dctx.more v' = dctx.more v" "fat_name_len v' = fat_name_len v" "fat_name v' = fat_name v" by simp_all
  show "lview content v' = lview content v" "cache_ok ops content dinv v'" using assms by (simp_all add: walked_def)
qed

text \<open>Moving the \<open>Dir\<close> or storing a name is part of the walk.\<close>

lemma walked_upd [simp]:
  "walked v (v'\<lparr>dir_clust := c\<rparr>) = walked v v'" "walked v (v'\<lparr>dir_sect := s\<rparr>) = walked v v'"
  "walked v (v'\<lparr>dir_idx := i\<rparr>) = walked v v'" "walked v (v'\<lparr>g_buf := b\<rparr>) = walked v v'"
  "walked v (v'\<lparr>g_len := n\<rparr>) = walked v v'" "walked v (v'\<lparr>g_crc := x\<rparr>) = walked v v'"
  by (auto simp: walked_def cache_ok_def lview_def buf_dirty_def info_dirty_def dwipe_def fun_eq_iff)

lemma lview_upd [simp]:
  "lview content (v\<lparr>dir_clust := c\<rparr>) = lview content v" "lview content (v\<lparr>dir_sect := s\<rparr>) = lview content v"
  "lview content (v\<lparr>dir_idx := i\<rparr>) = lview content v" "lview content (v\<lparr>g_buf := b\<rparr>) = lview content v"
  "lview content (v\<lparr>g_len := n\<rparr>) = lview content v" "lview content (v\<lparr>g_crc := x\<rparr>) = lview content v"
  by (auto simp: lview_def fun_eq_iff)

lemma cache_ok_upd [simp]:
  "cache_ok ops content dinv (v\<lparr>dir_clust := c\<rparr>) = cache_ok ops content dinv v"
  "cache_ok ops content dinv (v\<lparr>dir_sect := s\<rparr>) = cache_ok ops content dinv v"
  "cache_ok ops content dinv (v\<lparr>dir_idx := i\<rparr>) = cache_ok ops content dinv v"
  "cache_ok ops content dinv (v\<lparr>g_buf := b\<rparr>) = cache_ok ops content dinv v"
  "cache_ok ops content dinv (v\<lparr>g_len := n\<rparr>) = cache_ok ops content dinv v"
  "cache_ok ops content dinv (v\<lparr>g_crc := x\<rparr>) = cache_ok ops content dinv v"
  by (auto simp: cache_ok_def buf_dirty_def)

text \<open>A directory: a chain on a volume with the layout of the walk.\<close>

definition dir_on :: "('d, 'z) vol_scheme \<Rightarrow> u32 list \<Rightarrow> bool" where
  "dir_on v cs \<longleftrightarrow> cache_ok ops content dinv v \<and> geom_ok v \<and> dir_geom v
     \<and> fat_chain (fat_val (lview content v) (fat_sect0 v)) (clust_cnt v) cs"

lemma dir_on_clust: "dir_on v cs \<Longrightarrow> k < dir_cap v cs \<Longrightarrow> 2 \<le> ent_clust v cs k \<and> ent_clust v cs k < clust_cnt v"
proof -
  assume d: "dir_on v cs" "k < dir_cap v cs"
  then have "k div 16 div spc v < length cs"
    by (simp add: dir_cap_def div_less_iff_less_mult mult.commute mult.left_commute)
  then show ?thesis using d fat_chain_in[of _ _ cs] by (auto simp: dir_on_def ent_clust_def)
qed

lemma dir_on_sect: "dir_on v cs \<Longrightarrow> k < dir_cap v cs \<Longrightarrow> ent_sect v cs k \<noteq> 0"
proof -
  assume d: "dir_on v cs" "k < dir_cap v cs"
  then have g: "dir_geom v" by (simp add: dir_on_def)
  have "unat (ent_sect v cs k) \<noteq> 0"
    using clust_sect_unat[OF dir_data_geom[OF g], of "ent_clust v cs k" "k div 16 mod spc v"] dir_on_clust[OF d] g
    by (simp add: ent_sect_def dir_geom_def data_geom_def)
  then show ?thesis by auto
qed

lemma dir_on_walked:
  assumes "walked v v'" and "cache_ok ops content dinv v"
  shows "dir_on v' cs = dir_on v cs" "dir_cap v' cs = dir_cap v cs" "ent_sect v' cs = ent_sect v cs"
    "ent_clust v' cs = ent_clust v cs" "spc v' = spc v"
proof -
  note f = walked_fields[OF assms(1)]
  show sp: "spc v' = spc v" using f by (simp add: spc_def)
  show "dir_cap v' cs = dir_cap v cs" "ent_clust v' cs = ent_clust v cs"
    using sp by (simp_all add: dir_cap_def ent_clust_def fun_eq_iff)
  then show "ent_sect v' cs = ent_sect v cs"
    using sp f by (simp add: ent_sect_def clust_to_sect_def fun_eq_iff)
  have "geom_ok v' = geom_ok v" using geom_ok_cong[of v' v] f by simp
  moreover have "dir_geom v' = dir_geom v" using f sp by (simp add: dir_geom_def data_geom_def)
  ultimately show "dir_on v' cs = dir_on v cs" using f assms(2) by (simp add: dir_on_def)
qed

lemma kept_dir:
  assumes "kept v v'"
  shows "g_buf v' = g_buf v" "g_len v' = g_len v" "g_crc v' = g_crc v" "dir_fat v' = dir_fat v"
    "dir_sclust v' = dir_sclust v" "dir_clust v' = dir_clust v" "dir_sect v' = dir_sect v"
    "dir_idx v' = dir_idx v" "dctx.more v' = dctx.more v"
proof -
  have "vol.more v' = vol.more v" using assms only_cache_fields(15)[of v v'] by (simp add: kept_def)
  from dir_fields[OF this]
  show "g_buf v' = g_buf v" "g_len v' = g_len v" "g_crc v' = g_crc v" "dir_fat v' = dir_fat v"
    "dir_sclust v' = dir_sclust v" "dir_clust v' = dir_clust v" "dir_sect v' = dir_sect v"
    "dir_idx v' = dir_idx v" "dctx.more v' = dctx.more v" .
qed

lemma dir_at_walked:
  assumes "walked v v'" and "cache_ok ops content dinv v"
  shows "dir_at v' cs k \<longleftrightarrow> k < dir_cap v cs \<and> dir_clust v' = ent_clust v cs k
     \<and> dir_sect v' = ent_sect v cs k \<and> dir_idx v' = ent_idx k"
  by (simp add: dir_at_def dir_on_walked[OF assms])

text \<open>The step behind the last entry of a cluster: to the next cluster, or to the end of the chain.\<close>

lemma dir_next_cluster_wp:
  assumes d: "dir_on v cs" and p: "dir_at v cs k" and True: "k mod 16 = 15" and False: "\<not> Suc (k div 16 mod spc v) < spc v"
  shows "wp (bnd (get_fat (dir_clust (v\<lparr>dir_idx := dir_idx v + 32, dir_idx := 0, dir_sect := dir_sect v + 1\<rparr>))) (\<lambda>(nxt, flags).
      if flags AND (CLUST_BAD OR CLUST_FREE) \<noteq> 0 then throw FAT_ERR_BROKEN
      else if flags AND CLUST_LAST \<noteq> 0 then throw FAT_ERR_EOF
      else dir_at_clust nxt))
    (\<lambda>_ v'. walked v v' \<and> names_same v v' \<and> dir_at v' cs (Suc k))
    (\<lambda>e v'. walked v v' \<and> names_same v v' \<and> (e = FAT_ERR_IO
       \<or> e = FAT_ERR_EOF \<and> Suc k = dir_cap v cs \<and> dir_clust v' = List.last cs))
    (v\<lparr>dir_idx := dir_idx v + 32, dir_idx := 0, dir_sect := dir_sect v + 1\<rparr>)" (is "wp _ _ _ ?v2")
proof -
  have c: "cache_ok ops content dinv v" and g: "geom_ok v" and dg: "dir_geom v"
    and ch: "fat_chain (fat_val (lview content v) (fat_sect0 v)) (clust_cnt v) cs"
    using d by (simp_all add: dir_on_def)
  have pk: "k < dir_cap v cs" "dir_clust v = ent_clust v cs k" using p by (simp_all add: dir_at_def)
  note cl = dir_on_clust[OF d pk(1)]
  note nx = ent_next_sector(1)[OF True] ent_next_sector(2-6)[OF True, of v cs] ent_next_sector(7)[OF True, of v]
  have w2: "walked v ?v2" and n2: "names_same v ?v2" using c by (simp_all add: walked_refl names_same_def)
  have c2: "cache_ok ops content dinv ?v2" using c by simp
  let ?q = "k div 16 div spc v"
  have q: "?q < length cs" using pk(1) by (simp add: dir_cap_def div_less_iff_less_mult mult.commute mult.left_commute)
  have cq: "dir_clust ?v2 = cs ! ?q" using pk(2) by (simp add: ent_clust_def)
  have n0: "fat_sect0 ?v2 + dir_clust ?v2 div 128 \<noteq> 0"
    using fat_sector_in(2)[OF g, of "ent_clust v cs k" "fat_sect0 v"] cl pk(2) by simp
  let ?F = "fat_val (lview content v) (fat_sect0 v)"
  show ?thesis
  proof (rule wp_bndI[OF get_fat_wp[OF c2 n0]], goal_cases)
    case (1 r v3)
    obtain val fl where r: "r = (val, fl)" by fastforce
    have k3: "kept ?v2 v3" and val: "val = ?F (cs ! ?q)"
      and fl: "fat_entry_flags (clust_cnt v) val = Some fl" using 1 cq unfolding r by auto
    have w3: "walked v v3" using walked_trans[OF w2 kept_walked[OF k3]] .
    note df = kept_dir[OF k3]
    have n3: "names_same v v3" using df by (simp add: names_same_def)
    show ?case
    proof (cases "Suc ?q < length cs")
      case True
      have v: "val = cs ! Suc ?q" using fat_chain_link[OF ch True] val by simp
      have r2: "2 \<le> val" "val < clust_cnt v" using fat_chain_in[OF ch, of val] v True by simp_all
      then have fl2: "fl = 2" using fat_entry_flags_simps(3)[OF r2 geom_ok_cnt(2)[OF g]] fl by simp
      let ?v4 = "v3\<lparr>dir_clust := val, dir_sect := clust_to_sect v3 val, dir_idx := 0\<rparr>"
      have w4: "walked v ?v4" using w3 by simp
      have "clust_to_sect v3 val = clust_to_sect v val" using walked_fields[OF w3] by (simp add: clust_to_sect_def)
      moreover have "Suc k < dir_cap v cs"
        unfolding nx(7)[OF False] dir_cap_def by (intro mult_strict_right_mono True) simp_all
      ultimately have "dir_at ?v4 cs (Suc k)"
        unfolding dir_at_walked[OF w4 c] using nx(1,5,6) False v by simp
      then show ?thesis using r fl2 w4 n3 by (simp add: dir_at_clust_def wp_modify names_same_def)
    next
      case False2: False
      then have qe: "Suc ?q = length cs" using q by simp
      then have l: "cs ! ?q = List.last cs" using q by (metis last_conv_nth diff_Suc_1 length_0_conv nat.simps(3))
      then have "0x0ffffff8 \<le> val" using fat_chain_last[OF ch] val by simp
      then have "fl = 6" using fat_entry_flags_simps(2) fl by simp
      moreover have "Suc k = dir_cap v cs" using nx(7)[OF False] qe by (simp add: dir_cap_def)
      ultimately show ?thesis using r w3 n3 df cq l by (simp add: wp_throw)
    qed
  next
    case (2 e v3)
    then have k3: "kept ?v2 v3" by simp
    note df = kept_dir[OF k3]
    then have n3: "names_same v v3" by (simp add: names_same_def)
    have "fat_entry_flags (clust_cnt v) (?F (cs ! ?q)) \<noteq> None"
    proof (cases "Suc ?q < length cs")
      case True
      then show ?thesis using fat_chain_link[OF ch True] fat_chain_in[OF ch, of "cs ! Suc ?q"]
        fat_entry_flags_simps(3)[OF _ _ geom_ok_cnt(2)[OF g]] by simp
    next
      case False2: False
      then have qe: "Suc ?q = length cs" using q by simp
      then have l: "cs ! ?q = List.last cs" using q by (metis last_conv_nth diff_Suc_1 length_0_conv nat.simps(3))
      then show ?thesis using fat_chain_last[OF ch] fat_entry_flags_simps(2) by simp
    qed
    then show ?case using 2 n3 walked_trans[OF w2 kept_walked[OF k3]] cq df by auto
  qed
qed

lemma dir_next_wp:
  assumes d: "dir_on v cs" and p: "dir_at v cs k"
  shows "wp dir_next
    (\<lambda>_ v'. walked v v' \<and> names_same v v' \<and> dir_at v' cs (Suc k))
    (\<lambda>e v'. walked v v' \<and> names_same v v' \<and> (e = FAT_ERR_IO
       \<or> e = FAT_ERR_EOF \<and> Suc k = dir_cap v cs \<and> dir_clust v' = List.last cs)) v"
    (is "wp _ ?Q ?E v")
proof -
  have c: "cache_ok ops content dinv v" and g: "geom_ok v" and dg: "dir_geom v"
    and ch: "fat_chain (fat_val (lview content v) (fat_sect0 v)) (clust_cnt v) cs"
    using d by (simp_all add: dir_on_def)
  have pk: "k < dir_cap v cs" "dir_clust v = ent_clust v cs k" "dir_sect v = ent_sect v cs k"
    "dir_idx v = ent_idx k" using p by (simp_all add: dir_at_def)
  note cl = dir_on_clust[OF d pk(1)]
  let ?v1 = "v\<lparr>dir_idx := dir_idx v + 32\<rparr>"
  show ?thesis
  proof (cases "k mod 16 = 15")
    case False
    have "walked v ?v1" using c by (simp add: walked_refl)
    moreover have "dir_at ?v1 cs (Suc k)"
      unfolding dir_at_walked[OF \<open>walked v ?v1\<close> c] using ent_next_same(1,2,4)[OF False, of v cs] ent_next_same(3)[OF False] pk by simp
    ultimately show ?thesis
      using ent_idx_less[of k] False pk(4) by (simp add: dir_next_def wp_rules names_same_def)
  next
    case True
    note nx = ent_next_sector(1)[OF True] ent_next_sector(2-6)[OF True, of v cs] ent_next_sector(7)[OF True, of v]
    let ?v2 = "?v1\<lparr>dir_idx := 0, dir_sect := dir_sect v + 1\<rparr>"
    have w2: "walked v ?v2" and n2: "names_same v ?v2" using c by (simp_all add: walked_refl names_same_def)
    have c2: "cache_ok ops content dinv ?v2" using c by simp
    let ?j = "k div 16 mod spc v"
    have test: "dir_sect ?v2 AND clust_msk ?v2 \<noteq> 0 \<longleftrightarrow> Suc ?j < spc v"
      using clust_end_test[OF dg, of "ent_clust v cs k" ?j] cl pk(3) by (simp add: ent_sect_def)
    have i: "\<not> dir_idx ?v1 < 512" using ent_idx_less[of k] True pk(4) by simp
    let ?rest = "bnd (get_fat (dir_clust ?v2)) (\<lambda>(nxt, flags).
         if flags AND (CLUST_BAD OR CLUST_FREE) \<noteq> 0 then throw FAT_ERR_BROKEN
         else if flags AND CLUST_LAST \<noteq> 0 then throw FAT_ERR_EOF
         else dir_at_clust nxt)"
    have unfold: "wp dir_next ?Q ?E v = (if Suc ?j < spc v then ?Q () ?v2 else wp ?rest ?Q ?E ?v2)"
      using i test by (simp add: dir_next_def wp_bnd[of "modify _"] wp_bnd[of "gets _"] wp_modify wp_gets wp_ret)
    show ?thesis
    proof (cases "Suc ?j < spc v")
      case True
      have "dir_at ?v2 cs (Suc k)" unfolding dir_at_walked[OF w2 c] using nx(1-4) True pk by simp
      with True w2 n2 unfold show ?thesis by simp
    next
      case False
      have "wp ?rest ?Q ?E ?v2"
        by (rule dir_next_cluster_wp[OF d p \<open>k mod 16 = 15\<close> False])
      then show ?thesis using unfold False by simp
    qed
  qed
qed

end
end
