(* ===== verification/Fat_Search.thy ===== *)
theory Fat_Search
  imports Fat_Walk
begin

text \<open>
  Looking up a name in a directory.  \<open>dir_find\<close> is the search over the list of the directory's
  entries; \<open>dir_search\<close> computes it over the cluster chain, the sector cache and the device
  (\<open>dir_search_wp\<close>), and it finds exactly the entries that \<open>dir_add\<close> makes for the name
  (\<open>dir_find_block\<close>).
\<close>


subsection \<open>A directory as the list of its entries\<close>

definition dir_entry :: "('d, 'z) fat_scheme \<Rightarrow> (u32 \<Rightarrow> u8 list) \<Rightarrow> u32 list \<Rightarrow> nat \<Rightarrow> u8 list" where
  "dir_entry v lv cs k = slice (lv (ent_sect v cs k)) (32 * (k mod 16)) 32"

definition dir_entries :: "('d, 'z) fat_scheme \<Rightarrow> (u32 \<Rightarrow> u8 list) \<Rightarrow> u32 list \<Rightarrow> u8 list list" where
  "dir_entries v lv cs = map (dir_entry v lv cs) [0..<dir_cap v cs]"

lemma dir_entries_length [simp]: "length (dir_entries v lv cs) = dir_cap v cs"
  by (simp add: dir_entries_def)

lemma dir_entries_nth: "k < dir_cap v cs \<Longrightarrow> dir_entries v lv cs ! k = dir_entry v lv cs k"
  by (simp add: dir_entries_def)

text \<open>Searching the list: what \<open>parse_lfn_name\<close> and \<open>dir_search\<close> compute, without the disk, the
  cluster chain and the cache.  \<open>gb\<close> is the name buffer, whose old contents show through a
  malformed long name.\<close>

fun lfn_collect :: "u8 list list \<Rightarrow> nat \<Rightarrow> nat \<Rightarrow> u8 \<Rightarrow> u8 list \<Rightarrow> u16 \<Rightarrow> fat_err + (nat \<times> u8 list \<times> u16)" where
  "lfn_collect es 0 k crc gb n = Inr (k, gb, n)"
| "lfn_collect es (Suc m) k crc gb n =
     (let e = es ! k
      in if e ! 11 \<noteq> FAT_ATTR_LFN \<or> e ! 13 \<noteq> crc then Inl FAT_ERR_BROKEN
         else case parse_lfn_frag e lfn_indices of
             None \<Rightarrow> Inl FAT_ERR_BROKEN
           | Some cs \<Rightarrow>
               if Suc k < length es
               then lfn_collect es m (Suc k) crc (put_slice gb (13 * m) cs) (n + word_of_nat (length cs))
               else Inl FAT_ERR_EOF)"

definition lfn_name :: "u8 list list \<Rightarrow> nat \<Rightarrow> u8 list \<Rightarrow> fat_err + (nat \<times> u8 list \<times> u16)" where
  "lfn_name es k gb =
     (let e = es ! k; cnt = unat (e ! 0 AND LFN_SEQ_MSK)
      in if e ! 0 AND LFN_HEAD_MSK = 0 \<or> cnt > 20 then Inl FAT_ERR_BROKEN
         else case lfn_collect es cnt k (e ! 13) gb 0 of
             Inl err \<Rightarrow> Inl err
           | Inr (k', gb', n) \<Rightarrow> if n \<le> 255 then Inr (k', gb', n) else Inl FAT_ERR_BROKEN)"

lemma lfn_collect_le: "lfn_collect es m k crc gb n = Inr (k', gb', n') \<Longrightarrow> k \<le> k'"
  by (induction es m k crc gb n rule: lfn_collect.induct)
    (auto simp: Let_def intro: Suc_leD split: if_splits option.splits)

lemma lfn_name_le: "lfn_name es k gb = Inr (k', gb', n') \<Longrightarrow> k \<le> k'"
  by (auto simp: lfn_name_def Let_def split: if_splits sum.splits dest: lfn_collect_le)

definition ent_free :: "u8 list \<Rightarrow> bool" where
  "ent_free e \<longleftrightarrow> e ! 0 = SFN_LAST \<or> e ! 0 = SFN_FREE"

text \<open>The numbers of the first entry and of the \<open>Sfn\<close> of the name, or the error.\<close>

function dir_find :: "u8 list list \<Rightarrow> u8 list \<Rightarrow> nat \<Rightarrow> u8 list \<Rightarrow> u8 list \<Rightarrow> nat \<Rightarrow> fat_err + (nat \<times> nat)" where
  "dir_find es name len sfn gb k =
     (if \<not> k < length es \<or> es ! k ! 0 = SFN_LAST then Inl FAT_ERR_EOF
      else if ent_free (es ! k) then dir_find es name len sfn gb (Suc k)
      else if es ! k ! 11 = FAT_ATTR_LFN then
        (case lfn_name es k gb of
           Inl err \<Rightarrow> Inl err
         | Inr (k', gb', n) \<Rightarrow>
             if ent_free (es ! k') \<or> es ! k' ! 11 = FAT_ATTR_LFN \<or> es ! k ! 13 \<noteq> get_crc (take 11 (es ! k'))
             then Inl FAT_ERR_BROKEN
             else if unat n = len \<and> take len gb' = take len name then Inr (k, k')
             else dir_find es name len sfn gb' (Suc k'))
      else if sfn = take 11 (es ! k) then Inr (k, k)
      else dir_find es name len sfn gb (Suc k))"
  by pat_completeness auto
termination
  by (relation "measure (\<lambda>(es, name, len, sfn, gb, k). length es - k)") (auto dest: lfn_name_le)

declare dir_find.simps [simp del]

subsection \<open>The buffered entry\<close>

lemma ent_idx_unat: "unat (ent_idx k) = 32 * (k mod 16)"
proof -
  have "k mod 16 < 16" by simp
  moreover have "i < 16 \<Longrightarrow> 32 * i < 65536" for i :: nat by simp
  ultimately show ?thesis unfolding ent_idx_def by (intro unat_u16) blast
qed

lemma entry_reads:
  assumes l: "length (lv (ent_sect v cs k)) = 512"
  defines "b \<equiv> lv (ent_sect v cs k)" and "i \<equiv> unat (ent_idx k)" and "e \<equiv> dir_entry v lv cs k"
  shows "sfn_is_last b i \<longleftrightarrow> e ! 0 = SFN_LAST" "sfn_is_free b i \<longleftrightarrow> ent_free e"
    "sfn_is_lfn b i \<longleftrightarrow> e ! 11 = FAT_ATTR_LFN" "sfn_name b i = take 11 e" "slice b i 32 = e"
    "length e = 32" "j < 32 \<Longrightarrow> b ! (i + j) = e ! j"
proof -
  have i: "i = 32 * (k mod 16)" by (simp add: i_def ent_idx_unat)
  have "k mod 16 < 16" by simp
  moreover have "x < 16 \<Longrightarrow> 32 * x + 32 \<le> 512" for x :: nat by simp
  ultimately have b: "i + 32 \<le> length b" unfolding i b_def l by blast
  show s: "slice b i 32 = e" by (simp add: e_def dir_entry_def b_def i)
  show "length e = 32" using b unfolding s[symmetric] by simp
  show n: "b ! (i + j) = e ! j" if "j < 32" for j
    unfolding s[symmetric] using b that by (subst nth_slice) simp_all
  show "sfn_name b i = take 11 e" unfolding s[symmetric] by (simp add: sfn_name_def slice_def)
  show "sfn_is_last b i \<longleftrightarrow> e ! 0 = SFN_LAST" "sfn_is_free b i \<longleftrightarrow> ent_free e"
    "sfn_is_lfn b i \<longleftrightarrow> e ! 11 = FAT_ATTR_LFN"
    using n[of 0] n[of 11] by (simp_all add: sfn_is_last_def sfn_is_free_def sfn_is_lfn_def ent_free_def)
qed

definition ent_loc :: "('d, 'z) fat_scheme \<Rightarrow> u32 list \<Rightarrow> nat \<Rightarrow> loc" where
  "ent_loc v cs k = \<lparr>loc_sect = ent_sect v cs k, loc_idx = ent_idx k\<rparr>"

lemma dir_search_loop_eq:
  "dir_search_loop name len sfn =
     bnd (gets dir_sect) (\<lambda>s.
     bnd (update_buf s) (\<lambda>_.
     bnd (gets (\<lambda>v. (fat_buf v, dir_sect v, dir_idx v))) (\<lambda>(b, ds, di).
     if sfn_is_last b (unat di) then throw FAT_ERR_EOF
     else if sfn_is_free b (unat di) then bnd dir_next (\<lambda>_. dir_search_loop name len sfn)
     else if sfn_is_lfn b (unat di) then
       bnd parse_lfn_name (\<lambda>_.
       bnd (gets (\<lambda>v. (fat_buf v, unat (dir_idx v), g_crc v))) (\<lambda>(b, i, crc).
       if sfn_is_free b i \<or> sfn_is_lfn b i \<or> crc \<noteq> get_crc (sfn_name b i) then throw FAT_ERR_BROKEN
       else
         bnd (gets (\<lambda>v. (unat (g_len v), g_buf v))) (\<lambda>(n, gb).
         if n = len \<and> take len gb = take len name then ret \<lparr>loc_sect = ds, loc_idx = di\<rparr>
         else bnd dir_next (\<lambda>_. dir_search_loop name len sfn))))
     else if sfn = sfn_name b (unat di) then ret \<lparr>loc_sect = ds, loc_idx = di\<rparr>
     else bnd dir_next (\<lambda>_. dir_search_loop name len sfn))))"
  by (rule ext) (rule dir_search_loop.simps)

lemma dir_find_past: "\<not> k < length es \<Longrightarrow> dir_find es name len sfn gb k = Inl FAT_ERR_EOF"
  by (subst dir_find.simps) simp

context block_dev
begin

text \<open>The sector of the current entry is in the buffer.\<close>

definition dir_here :: "('d, 'z) dctx_scheme \<Rightarrow> u32 list \<Rightarrow> nat \<Rightarrow> bool" where
  "dir_here v cs k \<longleftrightarrow> dir_on v cs \<and> dir_at v cs k \<and> buf_sect v = dir_sect v"

lemma dir_here_buf:
  assumes "dir_here v cs k"
  shows "fat_buf v = lview content v (ent_sect v cs k)" "dir_idx v = ent_idx k"
    "length (lview content v (ent_sect v cs k)) = 512" "k < dir_cap v cs" "buf_sect v = ent_sect v cs k"
proof -
  have d: "dir_on v cs" "dir_at v cs k" "buf_sect v = dir_sect v" using assms by (simp_all add: dir_here_def)
  show k: "k < dir_cap v cs" and "dir_idx v = ent_idx k" and s: "buf_sect v = ent_sect v cs k"
    using d by (simp_all add: dir_at_def)
  have "ent_sect v cs k \<noteq> 0" using dir_on_sect d(1) k by blast
  then show "fat_buf v = lview content v (ent_sect v cs k)" using s by (simp add: lview_def)
  show "length (lview content v (ent_sect v cs k)) = 512" using d(1) by (simp add: dir_on_def lview_len)
qed

lemma load_entry_wp:
  assumes d: "dir_on v cs" "dir_at v cs k"
    and q: "\<And>v1. kept v v1 \<Longrightarrow> dir_here v1 cs k \<Longrightarrow> wp (f ()) Q E v1"
    and e: "\<And>v1. kept v v1 \<Longrightarrow> E FAT_ERR_IO v1"
  shows "wp (bnd (gets dir_sect) (\<lambda>s. bnd (update_buf s) f)) Q E v"
proof -
  have c: "cache_ok ops content dinv v" using d by (simp add: dir_on_def)
  have "dir_sect v \<noteq> 0" using d dir_on_sect[of v cs k] by (simp add: dir_at_def)
  then show ?thesis
  proof (simp only: wp_bnd[of "gets _"] wp_gets, intro wp_bndI[OF update_buf_wp[OF c]], goal_cases)
    case (2 u v1)
    then have k: "kept v v1" and b: "buf_sect v1 = dir_sect v" by simp_all
    note w = kept_walked[OF k]
    have "dir_here v1 cs k"
      unfolding dir_here_def dir_at_walked[OF w c] dir_on_walked(1)[OF w c]
      using d b kept_dir[OF k] by (simp add: dir_at_def)
    with q k show ?case by simp
  next
    case (3 err v1)
    with e show ?case by simp
  qed simp
qed

definition ents :: "('d, 'z) dctx_scheme \<Rightarrow> u32 list \<Rightarrow> u8 list list" where
  "ents v cs = dir_entries v (lview content v) cs"

lemma ents_length [simp]: "length (ents v cs) = dir_cap v cs"
  by (simp add: ents_def)

lemma ents_walked:
  assumes "walked v v'" "cache_ok ops content dinv v"
  shows "ents v' cs = ents v cs"
  using dir_on_walked(2,3)[OF assms, of cs] walked_fields(16)[OF assms(1)]
  by (simp add: ents_def dir_entries_def dir_entry_def)

lemma here_entry:
  assumes h: "dir_here v cs k"
  defines "b \<equiv> fat_buf v" and "i \<equiv> unat (dir_idx v)" and "e \<equiv> ents v cs ! k"
  shows "sfn_is_last b i \<longleftrightarrow> e ! 0 = SFN_LAST" "sfn_is_free b i \<longleftrightarrow> ent_free e"
    "sfn_is_lfn b i \<longleftrightarrow> e ! 11 = FAT_ATTR_LFN" "sfn_name b i = take 11 e" "slice b i 32 = e"
    "length e = 32" "j < 32 \<Longrightarrow> b ! (i + j) = e ! j"
proof -
  note hb = dir_here_buf[OF h]
  have e: "e = dir_entry v (lview content v) cs k" using hb(4) by (simp add: e_def ents_def dir_entries_nth)
  note r = entry_reads[where v = v and lv = "lview content v" and cs = cs and k = k, OF hb(3),
      folded e, folded hb(1,2), folded b_def, folded i_def]
  show "sfn_is_last b i \<longleftrightarrow> e ! 0 = SFN_LAST" "sfn_is_free b i \<longleftrightarrow> ent_free e"
    "sfn_is_lfn b i \<longleftrightarrow> e ! 11 = FAT_ATTR_LFN" "sfn_name b i = take 11 e" "slice b i 32 = e"
    "length e = 32" by (rule r(1-6))+
  show "j < 32 \<Longrightarrow> b ! (i + j) = e ! j" by (rule r(7))
qed

lemma dir_here_on: "dir_here v cs k \<Longrightarrow> dir_on v cs" "dir_here v cs k \<Longrightarrow> dir_at v cs k"
  "dir_here v cs k \<Longrightarrow> cache_ok ops content dinv v"
  by (simp_all add: dir_here_def dir_on_def)

text \<open>Storing names leaves the place alone.\<close>

lemma dir_here_names [simp]:
  "dir_here (v\<lparr>g_buf := b\<rparr>) cs k = dir_here v cs k" "dir_here (v\<lparr>g_len := n\<rparr>) cs k = dir_here v cs k"
  "dir_here (v\<lparr>g_crc := x\<rparr>) cs k = dir_here v cs k"
proof -
  have a: "dir_at (v\<lparr>g_buf := b\<rparr>) cs k = dir_at v cs k" "dir_at (v\<lparr>g_len := n\<rparr>) cs k = dir_at v cs k"
    "dir_at (v\<lparr>g_crc := x\<rparr>) cs k = dir_at v cs k"
    by (simp_all add: dir_at_def dir_cap_def ent_clust_def ent_sect_def clust_to_sect_def spc_def)
  have g: "geom_ok (v\<lparr>g_buf := b\<rparr>) = geom_ok v" "geom_ok (v\<lparr>g_len := n\<rparr>) = geom_ok v"
    "geom_ok (v\<lparr>g_crc := x\<rparr>) = geom_ok v"
    using geom_ok_cong[of "v\<lparr>g_buf := b\<rparr>" v] geom_ok_cong[of "v\<lparr>g_len := n\<rparr>" v]
      geom_ok_cong[of "v\<lparr>g_crc := x\<rparr>" v] by simp_all
  have d: "dir_geom (v\<lparr>g_buf := b\<rparr>) = dir_geom v" "dir_geom (v\<lparr>g_len := n\<rparr>) = dir_geom v"
    "dir_geom (v\<lparr>g_crc := x\<rparr>) = dir_geom v"
    by (simp_all add: dir_geom_def data_geom_def spc_def)
  show "dir_here (v\<lparr>g_buf := b\<rparr>) cs k = dir_here v cs k" "dir_here (v\<lparr>g_len := n\<rparr>) cs k = dir_here v cs k"
    "dir_here (v\<lparr>g_crc := x\<rparr>) cs k = dir_here v cs k"
    by (simp_all add: dir_here_def dir_on_def a g d)
qed

text \<open>One step to the next entry and the loading of its sector.\<close>

lemma next_entry_wp:
  assumes h: "dir_here v cs k"
    and q: "\<And>v1. walked v v1 \<Longrightarrow> names_same v v1 \<Longrightarrow> dir_on v1 cs \<Longrightarrow> dir_at v1 cs (Suc k) \<Longrightarrow> wp f Q E v1"
    and io: "\<And>v1. walked v v1 \<Longrightarrow> E FAT_ERR_IO v1"
    and eof: "\<And>v1. walked v v1 \<Longrightarrow> Suc k = dir_cap v cs \<Longrightarrow> E FAT_ERR_EOF v1"
  shows "wp (bnd dir_next (\<lambda>_. f)) Q E v"
proof (rule wp_bndI[OF dir_next_wp[OF dir_here_on(1,2)[OF h]]], goal_cases)
  case (1 u v1)
  then show ?case using q dir_on_walked(1)[of v v1 cs] dir_here_on[OF h] by simp
next
  case (2 e v1)
  then show ?case using io eof by auto
qed

lemma parse_lfn_loop_wp:
  "dir_here v cs k \<Longrightarrow> wp (parse_lfn_loop n)
     (\<lambda>_ v'. walked v v' \<and> g_crc v' = g_crc v \<and> (\<exists>k'. dir_here v' cs k'
        \<and> lfn_collect (ents v cs) n k (g_crc v) (g_buf v) (g_len v) = Inr (k', g_buf v', g_len v')))
     (\<lambda>e v'. walked v v' \<and> (e = FAT_ERR_IO
        \<or> lfn_collect (ents v cs) n k (g_crc v) (g_buf v) (g_len v) = Inl e)) v"
proof (induction n arbitrary: v k)
  case 0
  then show ?case by (auto simp: wp_ret walked_refl dir_here_on)
next
  case (Suc n)
  note h = Suc.prems
  note c = dir_here_on(3)[OF h]
  let ?e = "ents v cs ! k"
  have slice: "slice (fat_buf v) (unat (dir_idx v)) 32 = ?e" using here_entry[OF h] by simp
  show ?case
  proof (cases "?e ! 11 \<noteq> FAT_ATTR_LFN \<or> ?e ! 13 \<noteq> g_crc v \<or> parse_lfn_frag ?e lfn_indices = None")
    case True
    then show ?thesis
      by (auto simp: wp_bnd[of "gets _"] wp_gets wp_throw slice walked_refl c)
  next
    case False
    then obtain xs where xs: "parse_lfn_frag ?e lfn_indices = Some xs" by auto
    let ?v1 = "v\<lparr>g_buf := put_slice (g_buf v) (13 * n) xs, g_len := g_len v + word_of_nat (length xs)\<rparr>"
    have h1: "dir_here ?v1 cs k" and w1: "walked v ?v1" using h c by (simp_all add: walked_refl)
    have e1: "ents ?v1 cs = ents v cs" by (rule ents_walked[OF w1 c])
    have eq: "lfn_collect (ents v cs) (Suc n) k (g_crc v) (g_buf v) (g_len v) =
      (if Suc k < dir_cap v cs then lfn_collect (ents v cs) n (Suc k) (g_crc v) (g_buf ?v1) (g_len ?v1)
       else Inl FAT_ERR_EOF)"
      using False xs by (simp add: Let_def)
    have "wp (bnd dir_next (\<lambda>_. bnd (gets dir_sect) (\<lambda>s. bnd (update_buf s) (\<lambda>_. parse_lfn_loop n))))
     (\<lambda>_ v'. walked v v' \<and> g_crc v' = g_crc v \<and> (\<exists>k'. dir_here v' cs k'
        \<and> lfn_collect (ents v cs) (Suc n) k (g_crc v) (g_buf v) (g_len v) = Inr (k', g_buf v', g_len v')))
     (\<lambda>e v'. walked v v' \<and> (e = FAT_ERR_IO
        \<or> lfn_collect (ents v cs) (Suc n) k (g_crc v) (g_buf v) (g_len v) = Inl e)) ?v1"
    proof (rule next_entry_wp[OF h1], goal_cases)
      case (1 v2)
      then have w2: "walked v v2" using w1 walked_trans by blast
      show ?case
      proof (rule load_entry_wp[OF 1(3,4)], goal_cases)
        case (1 v3)
        have w3: "walked v v3" using w2 kept_walked[OF 1(1)] walked_trans by blast
        have n3: "g_crc v3 = g_crc v" "g_buf v3 = g_buf ?v1" "g_len v3 = g_len ?v1"
          using kept_dir[OF 1(1)] \<open>names_same ?v1 v2\<close> by (simp_all add: names_same_def)
        have e3: "ents v3 cs = ents v cs" by (rule ents_walked[OF w3 c])
        have "Suc k < dir_cap v cs" using dir_here_buf(4)[OF 1(2)] dir_on_walked(2)[OF w3 c] by simp
        then show ?case
          using walked_trans[OF w3] by (intro wp_conseq[OF Suc.IH[OF 1(2)]]) (auto simp: eq e3 n3 simp del: lfn_collect.simps)
      next
        case (2 v3)
        then show ?case using w2 kept_walked walked_trans by blast
      qed
    next
      case (2 v2)
      then show ?case using w1 walked_trans by blast
    next
      case (3 v2)
      then have "\<not> Suc k < dir_cap v cs" using dir_on_walked(2)[OF w1 c, of cs] by simp
      moreover have "walked v v2" using 3 w1 walked_trans by blast
      ultimately show ?case by (simp add: eq del: lfn_collect.simps)
    qed
    then show ?thesis
      using False xs by (simp add: wp_bnd[of "gets _"] wp_gets slice wp_bnd[of "modify _"] wp_modify)
  qed
qed

lemma parse_lfn_name_wp:
  assumes h: "dir_here v cs k"
  shows "wp parse_lfn_name
     (\<lambda>_ v'. walked v v' \<and> g_crc v' = ents v cs ! k ! 13 \<and> (\<exists>k'. dir_here v' cs k'
        \<and> lfn_name (ents v cs) k (g_buf v) = Inr (k', g_buf v', g_len v')))
     (\<lambda>e v'. walked v v' \<and> (e = FAT_ERR_IO \<or> lfn_name (ents v cs) k (g_buf v) = Inl e)) v"
    (is "wp _ ?Q ?E v")
  unfolding parse_lfn_name_def
proof (rule load_entry_wp[OF dir_here_on(1,2)[OF h]], goal_cases)
  case (1 v1)
  note c = dir_here_on(3)[OF h]
  note w1 = kept_walked[OF 1(1)]
  note h1 = 1(2)
  let ?e = "ents v cs ! k"
  have e1: "ents v1 cs = ents v cs" by (rule ents_walked[OF w1 c])
  have raw: "slice (fat_buf v1) (unat (dir_idx v1)) 32 = ?e" using here_entry(5)[OF h1] e1 by simp
  let ?v2 = "v1\<lparr>g_crc := ?e ! 13, g_len := 0\<rparr>"
  have h2: "dir_here ?v2 cs k" and w2: "walked v ?v2" using h1 w1 by simp_all
  have e2: "ents ?v2 cs = ents v cs" by (rule ents_walked[OF w2 c])
  let ?cnt = "unat (?e ! 0 AND LFN_SEQ_MSK)"
  have "wp (if ?e ! 0 AND LFN_HEAD_MSK = 0 then throw FAT_ERR_BROKEN
     else if ?cnt > 20 then throw FAT_ERR_BROKEN
     else bnd (parse_lfn_loop ?cnt) (\<lambda>_. bnd (gets g_len) (\<lambda>n. if n \<le> 255 then ret () else throw FAT_ERR_BROKEN)))
     ?Q ?E ?v2"
  proof (cases "?e ! 0 AND LFN_HEAD_MSK = 0 \<or> ?cnt > 20")
    case True
    then have "lfn_name (ents v cs) k (g_buf v) = Inl FAT_ERR_BROKEN" by (simp add: lfn_name_def Let_def)
    with True w2 show ?thesis by (auto simp: wp_throw)
  next
    case False
    let ?col = "lfn_collect (ents v cs) ?cnt k (?e ! 13) (g_buf v) 0"
    have eq: "lfn_name (ents v cs) k (g_buf v) = (case ?col of Inl err \<Rightarrow> Inl err
        | Inr (k', gb', n) \<Rightarrow> if n \<le> 255 then Inr (k', gb', n) else Inl FAT_ERR_BROKEN)"
      unfolding lfn_name_def Let_def if_not_P[OF False] ..
    have gb: "g_buf ?v2 = g_buf v" using kept_dir[OF 1(1)] by simp
    have "wp (bnd (parse_lfn_loop ?cnt) (\<lambda>_. bnd (gets g_len) (\<lambda>n. if n \<le> 255 then ret () else throw FAT_ERR_BROKEN)))
       ?Q ?E ?v2"
    proof (rule wp_bndI[OF parse_lfn_loop_wp[OF h2]], goal_cases)
      case (1 u v3)
      then have w3: "walked v v3" using w2 walked_trans by blast
      from 1 obtain k' where k': "dir_here v3 cs k'" "?col = Inr (k', g_buf v3, g_len v3)"
        using e2 gb by auto
      have x: "g_crc v3 = ?e ! 13" using 1 by simp
      show ?case
        unfolding wp_bnd[of "gets _"] wp_gets wp_if wp_ret wp_throw eq using w3 k' x by simp
    next
      case (2 e v3)
      then have "walked v v3" using w2 walked_trans by blast
      then show ?case using 2 unfolding eq e2 gb by auto
    qed
    then show ?thesis using False by simp
  qed
  then show ?case
    by (simp only: wp_bnd[of "gets _"] wp_gets raw wp_bnd[of "modify _"] wp_modify Let_def)
next
  case (2 v1)
  then show ?case by (simp add: kept_walked)
qed

text \<open>What a search from entry \<open>k\<close> on has to establish.\<close>

definition search_post :: "u8 list \<Rightarrow> nat \<Rightarrow> u8 list \<Rightarrow> u32 list \<Rightarrow> nat \<Rightarrow>
    ('d, 'z) dctx_scheme \<Rightarrow> loc \<Rightarrow> ('d, 'z) dctx_scheme \<Rightarrow> bool" where
  "search_post name len sfn cs k v l v' \<longleftrightarrow> walked v v'
     \<and> (\<exists>k0 k'. dir_find (ents v cs) name len sfn (g_buf v) k = Inr (k0, k')
        \<and> l = ent_loc v cs k0 \<and> dir_here v' cs k')"

definition search_err :: "u8 list \<Rightarrow> nat \<Rightarrow> u8 list \<Rightarrow> u32 list \<Rightarrow> nat \<Rightarrow>
    ('d, 'z) dctx_scheme \<Rightarrow> fat_err \<Rightarrow> ('d, 'z) dctx_scheme \<Rightarrow> bool" where
  "search_err name len sfn cs k v e v' \<longleftrightarrow> walked v v'
     \<and> (e = FAT_ERR_IO \<or> dir_find (ents v cs) name len sfn (g_buf v) k = Inl e)"

text \<open>Going on behind entry \<open>k2\<close>, when the search from there answers for the search from \<open>k\<close>.\<close>

lemma search_next_wp:
  fixes v :: "('d, 'z) dctx_scheme"
  assumes IH: "\<And>v' :: ('d, 'z) dctx_scheme. dir_cap v' cs - Suc k2 < dir_cap v cs - k \<Longrightarrow> dir_on v' cs \<Longrightarrow> dir_at v' cs (Suc k2) \<Longrightarrow>
      wp (dir_search_loop name len sfn) (search_post name len sfn cs (Suc k2) v') (search_err name len sfn cs (Suc k2) v') v'"
    and c: "cache_ok ops content dinv v" and kc: "k < dir_cap v cs"
    and w: "walked v v2" and h: "dir_here v2 cs k2" and le: "k \<le> k2"
    and eq: "dir_find (ents v cs) name len sfn (g_buf v) k = dir_find (ents v cs) name len sfn (g_buf v2) (Suc k2)"
  shows "wp (bnd dir_next (\<lambda>_. dir_search_loop name len sfn)) (search_post name len sfn cs k v) (search_err name len sfn cs k v) v2"
proof (rule next_entry_wp[OF h], goal_cases)
  case (1 v3)
  have w3: "walked v v3" using w 1(1) by (rule walked_trans)
  have g: "g_buf v3 = g_buf v2" using 1(2) by (simp add: names_same_def)
  have cap: "dir_cap v3 cs = dir_cap v cs" by (rule dir_on_walked(2)[OF w3 c])
  have es: "ents v3 cs = ents v cs" by (rule ents_walked[OF w3 c])
  have lc: "ent_loc v3 cs = ent_loc v cs"
    using dir_on_walked(3)[OF w3 c] by (simp add: ent_loc_def fun_eq_iff)
  have "dir_cap v3 cs - Suc k2 < dir_cap v cs - k" using cap kc le by linarith
  from IH[OF this 1(3,4)] show ?case
  proof (rule wp_conseq, goal_cases)
    case (1 l v')
    then show ?case using walked_trans[OF w3] unfolding search_post_def es g lc eq by blast
  next
    case (2 err v')
    then show ?case using walked_trans[OF w3] unfolding search_err_def es g eq by blast
  qed
next
  case (2 v3)
  then show ?case using w walked_trans unfolding search_err_def by blast
next
  case (3 v3)
  have "\<not> Suc k2 < length (ents v cs)" using 3(2) dir_on_walked(2)[OF w c] by simp
  then have "dir_find (ents v cs) name len sfn (g_buf v) k = Inl FAT_ERR_EOF" unfolding eq by (rule dir_find_past)
  then show ?case using w 3(1) walked_trans unfolding search_err_def by blast
qed

text \<open>An entry of a long name.\<close>

lemma search_lfn_wp:
  assumes c: "cache_ok ops content dinv v" and w1: "walked v v1" and h1: "dir_here v1 cs k"
    and gb1: "g_buf v1 = g_buf v" and e1: "ents v1 cs = ents v cs" and lk: "k < length (ents v cs)"
    and lfn: "\<not> ent_free (ents v cs ! k)" "(ents v cs ! k) ! 11 = FAT_ATTR_LFN"
    and step: "\<And>v2 k2. walked v v2 \<Longrightarrow> dir_here v2 cs k2 \<Longrightarrow> k \<le> k2 \<Longrightarrow>
      dir_find (ents v cs) name len sfn (g_buf v) k = dir_find (ents v cs) name len sfn (g_buf v2) (Suc k2) \<Longrightarrow>
      wp (bnd dir_next (\<lambda>_. dir_search_loop name len sfn)) (search_post name len sfn cs k v) (search_err name len sfn cs k v) v2"
  shows "wp (bnd parse_lfn_name (\<lambda>_.
     bnd (gets (\<lambda>v. (fat_buf v, unat (dir_idx v), g_crc v))) (\<lambda>(b, i, crc).
     if sfn_is_free b i \<or> sfn_is_lfn b i \<or> crc \<noteq> get_crc (sfn_name b i) then throw FAT_ERR_BROKEN
     else
       bnd (gets (\<lambda>v. (unat (g_len v), g_buf v))) (\<lambda>(n, gb).
       if n = len \<and> take len gb = take len name then ret (ent_loc v cs k)
       else bnd dir_next (\<lambda>_. dir_search_loop name len sfn)))))
     (search_post name len sfn cs k v) (search_err name len sfn cs k v) v1"
proof -
  have n0: "(ents v cs ! k) ! 0 \<noteq> SFN_LAST" using lfn(1) by (auto simp: ent_free_def)
  note fs = dir_find.simps[of "ents v cs" name len sfn "g_buf v" k]
  show ?thesis
  proof (rule wp_bndI[OF parse_lfn_name_wp[OF h1]], goal_cases)
    case (1 u v2)
    then obtain k2 where h2: "dir_here v2 cs k2" and
      nm: "lfn_name (ents v cs) k (g_buf v) = Inr (k2, g_buf v2, g_len v2)"
      using e1 gb1 by auto
    have w2: "walked v v2" using 1 w1 walked_trans by blast
    have crc: "g_crc v2 = (ents v cs ! k) ! 13" using 1 e1 by simp
    have e2: "ents v2 cs = ents v cs" by (rule ents_walked[OF w2 c])
    note r2 = here_entry[OF h2, unfolded e2]
    let ?s = "ents v cs ! k2"
    have fl: "dir_find (ents v cs) name len sfn (g_buf v) k =
       (if ent_free ?s \<or> ?s ! 11 = FAT_ATTR_LFN \<or> (ents v cs ! k) ! 13 \<noteq> get_crc (take 11 ?s) then Inl FAT_ERR_BROKEN
        else if unat (g_len v2) = len \<and> take len (g_buf v2) = take len name then Inr (k, k2)
        else dir_find (ents v cs) name len sfn (g_buf v2) (Suc k2))"
      unfolding fs using lfn n0 lk nm by simp
    have le: "k \<le> k2" using nm by (rule lfn_name_le)
    show ?case
    proof (cases "ent_free ?s \<or> ?s ! 11 = FAT_ATTR_LFN \<or> (ents v cs ! k) ! 13 \<noteq> get_crc (take 11 ?s)")
      case True
      then have "dir_find (ents v cs) name len sfn (g_buf v) k = Inl FAT_ERR_BROKEN" unfolding fl by (rule if_P)
      moreover have "sfn_is_free (fat_buf v2) (unat (dir_idx v2)) \<or> sfn_is_lfn (fat_buf v2) (unat (dir_idx v2))
          \<or> g_crc v2 \<noteq> get_crc (sfn_name (fat_buf v2) (unat (dir_idx v2)))"
        using True r2 crc by simp
      ultimately show ?thesis using w2
        by (simp only: wp_bnd[of "gets _"] wp_gets prod.case if_True wp_throw search_err_def) simp
    next
      case False
      note fl2 = fl[unfolded if_not_P[OF False]]
      have nf: "\<not> (sfn_is_free (fat_buf v2) (unat (dir_idx v2)) \<or> sfn_is_lfn (fat_buf v2) (unat (dir_idx v2))
          \<or> g_crc v2 \<noteq> get_crc (sfn_name (fat_buf v2) (unat (dir_idx v2))))"
        using False r2 crc by simp
      show ?thesis
      proof (cases "unat (g_len v2) = len \<and> take len (g_buf v2) = take len name")
        case True
        then have "dir_find (ents v cs) name len sfn (g_buf v) k = Inr (k, k2)" unfolding fl2 by (rule if_P)
        then have "search_post name len sfn cs k v (ent_loc v cs k) v2" unfolding search_post_def using w2 h2 by blast
        then show ?thesis
          by (simp only: wp_bnd[of "gets _"] wp_gets prod.case if_not_P[OF nf] if_P[OF True] wp_ret)
      next
        case False
        then have "dir_find (ents v cs) name len sfn (g_buf v) k = dir_find (ents v cs) name len sfn (g_buf v2) (Suc k2)" unfolding fl2 by (rule if_not_P)
        from step[OF w2 h2 le this] show ?thesis
          by (simp only: wp_bnd[of "gets _"] wp_gets prod.case if_not_P[OF nf] if_not_P[OF False])
      qed
    qed
  next
    case (2 err v2)
    have w2: "walked v v2" using 2 w1 walked_trans by blast
    have "err = FAT_ERR_IO \<or> dir_find (ents v cs) name len sfn (g_buf v) k = Inl err"
      using 2 unfolding fs e1 gb1 using lfn n0 lk by auto
    then show ?case using w2 unfolding search_err_def by blast
  qed
qed

lemma dir_search_loop_wp:
  "dir_on v cs \<Longrightarrow> dir_at v cs k \<Longrightarrow>
   wp (dir_search_loop name len sfn) (search_post name len sfn cs k v) (search_err name len sfn cs k v) v"
proof (induction "dir_cap v cs - k" arbitrary: v k rule: less_induct)
  case less
  note d = less.prems
  have c: "cache_ok ops content dinv v" using d by (simp add: dir_on_def)
  have kc: "k < dir_cap v cs" using d by (simp add: dir_at_def)
  let ?Q = "search_post name len sfn cs k v" and ?E = "search_err name len sfn cs k v"
  let ?find = "dir_find (ents v cs) name len sfn"
  let ?e = "ents v cs ! k"
  have step: "wp (bnd dir_next (\<lambda>_. dir_search_loop name len sfn)) ?Q ?E v2"
    if "walked v v2" "dir_here v2 cs k2" "k \<le> k2" "?find (g_buf v) k = ?find (g_buf v2) (Suc k2)" for v2 k2
    by (rule search_next_wp[OF less.hyps c kc that])
  show ?case
  proof (subst dir_search_loop_eq, rule load_entry_wp[OF d], goal_cases)
    case (1 v1)
    note h1 = 1(2) and w1 = kept_walked[OF 1(1)]
    have gb1: "g_buf v1 = g_buf v" using kept_dir[OF 1(1)] by simp
    have e1: "ents v1 cs = ents v cs" by (rule ents_walked[OF w1 c])
    note r1 = here_entry[OF h1, unfolded e1]
    have loc1: "\<lparr>loc_sect = dir_sect v1, loc_idx = dir_idx v1\<rparr> = ent_loc v cs k"
      using h1 dir_on_walked(3)[OF w1 c, of cs] by (simp add: dir_here_def dir_at_def ent_loc_def)
    have lk: "k < length (ents v cs)" using kc by simp
    note fs = dir_find.simps[of "ents v cs" name len sfn "g_buf v" k]
    consider (last) "?e ! 0 = SFN_LAST" | (free) "?e ! 0 \<noteq> SFN_LAST" "ent_free ?e"
      | (lfn) "\<not> ent_free ?e" "?e ! 11 = FAT_ATTR_LFN" | (sfn) "\<not> ent_free ?e" "?e ! 11 \<noteq> FAT_ATTR_LFN"
      by blast
    then show ?case
    proof cases
      case last
      then have "?find (g_buf v) k = Inl FAT_ERR_EOF" unfolding fs by simp
      with last w1 r1 show ?thesis by (simp add: wp_bnd[of "gets _"] wp_gets wp_throw search_err_def)
    next
      case free
      then have "?find (g_buf v) k = ?find (g_buf v1) (Suc k)" unfolding fs gb1 using lk by simp
      with free r1 step[OF w1 h1] show ?thesis by (simp add: wp_bnd[of "gets _"] wp_gets)
    next
      case sfn
      then have n0: "?e ! 0 \<noteq> SFN_LAST" by (auto simp: ent_free_def)
      show ?thesis
      proof (cases "sfn = take 11 ?e")
        case True
        then have "?find (g_buf v) k = Inr (k, k)" unfolding fs using sfn n0 lk by simp
        with sfn n0 True r1 loc1 w1 h1 show ?thesis
          by (simp add: wp_bnd[of "gets _"] wp_gets wp_ret search_post_def)
      next
        case False
        then have "?find (g_buf v) k = ?find (g_buf v1) (Suc k)" unfolding fs gb1 using sfn n0 lk by simp
        with sfn n0 False r1 step[OF w1 h1] show ?thesis by (simp add: wp_bnd[of "gets _"] wp_gets)
      qed
    next
      case lfn
      then have n0: "?e ! 0 \<noteq> SFN_LAST" by (auto simp: ent_free_def)
      note search_lfn_wp[OF c w1 h1 gb1 e1 lk lfn step]
      moreover have t: "sfn_is_last (fat_buf v1) (unat (dir_idx v1)) = False"
        "sfn_is_free (fat_buf v1) (unat (dir_idx v1)) = False" "sfn_is_lfn (fat_buf v1) (unat (dir_idx v1)) = True"
        using lfn n0 r1 by simp_all
      ultimately show ?thesis
        by (simp only: wp_bnd[of "gets _"] wp_gets prod.case t loc1 if_True if_False)
    qed
  next
    case (2 v1)
    then show ?case using kept_walked unfolding search_err_def by blast
  qed
qed

end

context block_dev
begin

lemma dir_at_start:
  assumes d: "dir_on v cs" and "dir_sclust v = hd cs"
  defines "v1 \<equiv> v\<lparr>dir_clust := dir_sclust v, dir_sect := clust_to_sect v (dir_sclust v), dir_idx := 0\<rparr>"
  shows "dir_on v1 cs" "dir_at v1 cs 0" "walked v v1"
proof -
  have c: "cache_ok ops content dinv v" using d by (simp add: dir_on_def)
  show w: "walked v v1" using c by (simp add: v1_def walked_refl)
  show "dir_on v1 cs" using dir_on_walked(1)[OF w c] d by simp
  obtain x xs where cs: "cs = x # xs" using d by (cases cs) (auto simp: dir_on_def)
  show "dir_at v1 cs 0"
    unfolding dir_at_walked[OF w c] using assms(2) cs
    by (simp add: v1_def dir_cap_def ent_clust_def ent_sect_def ent_idx_def)
qed

lemma dir_search_wp:
  assumes d: "dir_on v cs" and s: "dir_sclust v = hd cs"
  shows "wp (dir_search name len)
    (search_post name len (put_sfn_name name len) cs 0 v) (search_err name len (put_sfn_name name len) cs 0 v) v"
proof -
  note st = dir_at_start[OF d s]
  let ?v1 = "v\<lparr>dir_clust := dir_sclust v, dir_sect := clust_to_sect v (dir_sclust v), dir_idx := 0\<rparr>"
  have c: "cache_ok ops content dinv v" using d by (simp add: dir_on_def)
  have "ents ?v1 cs = ents v cs" "ent_loc ?v1 cs = ent_loc v cs"
    using ents_walked[OF st(3) c] dir_on_walked(3)[OF st(3) c] by (simp_all add: ent_loc_def fun_eq_iff)
  note eq = this
  have "wp (dir_search_loop name len (put_sfn_name name len))
    (search_post name len (put_sfn_name name len) cs 0 v) (search_err name len (put_sfn_name name len) cs 0 v) ?v1"
  proof (rule wp_conseq[OF dir_search_loop_wp[OF st(1,2)]], goal_cases)
    case (1 l v')
    then show ?case using walked_trans[OF st(3)] by (auto simp: search_post_def eq)
  next
    case (2 e v')
    then show ?case using walked_trans[OF st(3)] by (auto simp: search_err_def eq)
  qed
  then show ?thesis
    by (simp add: dir_search_def dir_at_clust_def wp_bnd[of "gets _"] wp_gets wp_bnd[of "modify _"] wp_modify)
qed

end

subsection \<open>Finding what was stored\<close>

text \<open>The entries of a name as \<open>dir_add\<close> writes them, over the bytes \<open>old j\<close> that were there:
  the fragments of the long name from the last to the first, then the \<open>Sfn\<close>.\<close>

definition lfn_count :: "nat \<Rightarrow> nat" where
  "lfn_count len = (len + 12) div 13"

definition name_block :: "u8 list \<Rightarrow> nat \<Rightarrow> (nat \<Rightarrow> u8 list) \<Rightarrow> u8 list \<Rightarrow> u8 list list" where
  "name_block name len old sfn =
     map (\<lambda>j. make_lfn name len (lfn_count len - j) (if j = 0 then LFN_HEAD_MSK else 0)
            (get_crc (put_sfn_name name len)) (old j)) [0..<lfn_count len] @ [sfn]"

definition sfn_of :: "u8 list \<Rightarrow> nat \<Rightarrow> u8 list \<Rightarrow> bool" where
  "sfn_of name len e \<longleftrightarrow> length e = 32 \<and> take 11 e = put_sfn_name name len \<and> e ! 11 \<noteq> FAT_ATTR_LFN"

lemma make_lfn_fields:
  assumes "length raw = 32"
  shows "length (make_lfn name len i h crc raw) = 32" "make_lfn name len i h crc raw ! 11 = FAT_ATTR_LFN"
    "make_lfn name len i h crc raw ! 13 = crc" "make_lfn name len i h crc raw ! 0 = h OR word_of_nat i"
  using assms by (simp_all add: make_lfn_def Let_def)

lemma lfn_indices_list:
  "x \<in> set lfn_indices \<Longrightarrow> x \<noteq> 0 \<and> x \<noteq> 11 \<and> x \<noteq> 12 \<and> x \<noteq> 13 \<and> x \<noteq> 26 \<and> x \<noteq> 27"
  by (auto simp: lfn_indices_def)

lemma parse_make_lfn:
  assumes "length raw = 32" and "13 * m < len" and "len \<le> length name" and "0 \<notin> set (take len name)"
  shows "parse_lfn_frag (make_lfn name len (Suc m) h crc raw) lfn_indices =
    Some (take (min (len - 13 * m) 13) (drop (13 * m) name))"
proof -
  let ?p = "13 * m" and ?n = "min (len - 13 * m) 13"
  let ?r = "put_lfn_name_frag raw (drop ?p name) ?n"
  have "take ?n (drop ?p name) = take ?n (drop ?p (take len name))" by (simp add: drop_take)
  then have z: "0 \<notin> set (take ?n (drop ?p name))"
    using assms(4) by (metis in_set_dropD in_set_takeD)
  have "parse_lfn_frag ?r lfn_indices = Some (take ?n (drop ?p name))"
    using assms by (intro parse_put_lfn_frag z) simp_all
  moreover have "map ((!) (make_lfn name len (Suc m) h crc raw)) lfn_indices = map ((!) ?r) lfn_indices"
    by (intro map_cong refl) (drule lfn_indices_list, simp add: make_lfn_def Let_def)
  ultimately show ?thesis by (simp only: parse_lfn_frag_takeWhile)
qed

lemma lfn_count_bounds:
  assumes "0 < len"
  shows "0 < lfn_count len" "13 * (lfn_count len - 1) < len" "len \<le> 13 * lfn_count len"
    "len \<le> 255 \<Longrightarrow> lfn_count len \<le> 20"
proof -
  have c: "13 * lfn_count len \<le> len + 12" "len < 13 * lfn_count len + 1"
    using div_mult_mod_eq[of "len + 12" 13] mod_less_divisor[of 13 "len + 12"]
    unfolding lfn_count_def by linarith+
  show "0 < lfn_count len" using c assms by linarith
  show "13 * (lfn_count len - 1) < len" using c assms by linarith
  show "len \<le> 13 * lfn_count len" using c by linarith
  show "len \<le> 255 \<Longrightarrow> lfn_count len \<le> 20" using c by linarith
qed

lemma put_slice_frag:
  assumes "13 * Suc m \<le> length gb" and "13 * m < len" and "len \<le> length name" "len \<le> length gb"
  shows "take (13 * m) name @ drop (min (13 * m) len)
      (put_slice gb (13 * m) (take (min (len - 13 * m) 13) (drop (13 * m) name)))
    = take (min (13 * Suc m) len) name @ drop (min (13 * Suc m) len) gb"
  (is "_ @ drop _ (put_slice gb ?p ?xs) = _")
proof -
  have l: "length ?xs = min (len - ?p) 13" using assms by simp
  have "take ?p name @ ?xs = take (min (13 * Suc m) len) name"
  proof -
    have "min (13 * Suc m) len = ?p + min (len - ?p) 13" using assms(2) by (simp add: min_def) arith
    then show ?thesis by (simp add: take_add)
  qed
  moreover have "take (length gb - ?p) ?xs = ?xs" using assms(1) l by (intro take_all) simp
  then have "drop ?p (put_slice gb ?p ?xs) = ?xs @ drop (?p + length ?xs) gb"
    using assms(1) by (simp only: put_slice_def) (simp add: drop_append)
  moreover have "min ?p len = ?p" using assms(2) by simp
  moreover have "?p + length ?xs = min (13 * Suc m) len" using assms(2) unfolding l by (simp add: min_def) arith
  ultimately show ?thesis by (metis append.assoc)
qed

text \<open>Collecting the fragments of a name from \<open>m\<close> entries, each of which belongs to the long name with
  the checksum \<open>crc\<close> and holds its part of the name.\<close>

lemma lfn_collect_frags:
  assumes name: "len \<le> length name" "len \<le> 255" and gb: "length gb = 512"
  shows "m \<le> lfn_count len \<Longrightarrow> (m = lfn_count len \<Longrightarrow> 0 < len) \<Longrightarrow> k + m < length es \<Longrightarrow>
    (\<And>j. j < m \<Longrightarrow> es ! (k + j) ! 11 = FAT_ATTR_LFN \<and> es ! (k + j) ! 13 = crc
       \<and> parse_lfn_frag (es ! (k + j)) lfn_indices =
           Some (take (min (len - 13 * (m - j - 1)) 13) (drop (13 * (m - j - 1)) name))) \<Longrightarrow>
    lfn_collect es m k crc gb n =
      Inr (k + m, take (min (13 * m) len) name @ drop (min (13 * m) len) gb, n + word_of_nat (min (13 * m) len))"
  using gb
proof (induction m arbitrary: k gb n)
  case 0
  then show ?case by simp
next
  case (Suc m)
  let ?xs = "take (min (len - 13 * m) 13) (drop (13 * m) name)"
  have e: "es ! k ! 11 = FAT_ATTR_LFN" "es ! k ! 13 = crc" "parse_lfn_frag (es ! k) lfn_indices = Some ?xs"
    using Suc.prems(4)[of 0] by simp_all
  have "0 < len" using Suc.prems(1,2) lfn_count_def[of len] by (cases "len = 0") auto
  note b = lfn_count_bounds[OF this]
  have lt: "13 * m < len" using b(2) Suc.prems(1) by linarith
  have "13 * Suc m \<le> 13 * 20" using b(4)[OF name(2)] Suc.prems(1) by (intro mult_le_mono2) linarith
  then have "13 * Suc m \<le> 512" by simp
  then have pf: "13 * Suc m \<le> length gb" "len \<le> length gb" using Suc.prems(5) name(2) by simp_all
  let ?gb1 = "put_slice gb (13 * m) ?xs"
  have ih: "lfn_collect es m (Suc k) crc ?gb1 n1 =
      Inr (Suc k + m, take (min (13 * m) len) name @ drop (min (13 * m) len) ?gb1, n1 + word_of_nat (min (13 * m) len))" for n1
  proof (rule Suc.IH)
    show "m \<le> lfn_count len" "m = lfn_count len \<Longrightarrow> 0 < len" "Suc k + m < length es" "length ?gb1 = 512"
      using Suc.prems(1-3,5) by simp_all
    show "es ! (Suc k + j) ! 11 = FAT_ATTR_LFN \<and> es ! (Suc k + j) ! 13 = crc
       \<and> parse_lfn_frag (es ! (Suc k + j)) lfn_indices =
           Some (take (min (len - 13 * (m - j - 1)) 13) (drop (13 * (m - j - 1)) name))" if "j < m" for j
      using Suc.prems(4)[of "Suc j"] that by simp
  qed
  have w: "n + word_of_nat (length ?xs) + word_of_nat (min (13 * m) len) = n + word_of_nat (min (13 * Suc m) len)"
  proof -
    have "length ?xs + min (13 * m) len = min (13 * Suc m) len" using lt name(1) by (simp add: min_def) arith
    then show ?thesis by (metis add.assoc of_nat_add)
  qed
  have m: "min (13 * m) len = 13 * m" using lt by simp
  have "lfn_collect es (Suc m) k crc gb n = lfn_collect es m (Suc k) crc ?gb1 (n + word_of_nat (length ?xs))"
    using e Suc.prems(3) by (simp add: Let_def)
  also have "\<dots> = Inr (k + Suc m, take (min (13 * Suc m) len) name @ drop (min (13 * Suc m) len) gb,
      n + word_of_nat (min (13 * Suc m) len))"
    unfolding ih w using put_slice_frag[OF pf(1) lt name(1) pf(2)] m by simp
  finally show ?case .
qed

lemma lfn_collect_block:
  assumes name: "len \<le> length name" "len \<le> 255" "0 \<notin> set (take len name)" "0 < len"
    and gb: "length gb = 512" and k: "k + lfn_count len < length es"
    and e: "\<And>j. j < lfn_count len \<Longrightarrow> \<exists>h raw. length raw = 32 \<and> es ! (k + j) = make_lfn name len (lfn_count len - j) h crc raw"
  shows "lfn_collect es (lfn_count len) k crc gb n =
      Inr (k + lfn_count len, take len name @ drop len gb, n + word_of_nat len)"
proof -
  let ?c = "lfn_count len"
  note b = lfn_count_bounds[OF name(4)]
  have "es ! (k + j) ! 11 = FAT_ATTR_LFN \<and> es ! (k + j) ! 13 = crc
       \<and> parse_lfn_frag (es ! (k + j)) lfn_indices =
           Some (take (min (len - 13 * (?c - j - 1)) 13) (drop (13 * (?c - j - 1)) name))" if j: "j < ?c" for j
  proof -
    have c: "Suc (?c - j - 1) = ?c - j" using j by simp
    obtain h raw where r: "length raw = 32" "es ! (k + j) = make_lfn name len (Suc (?c - j - 1)) h crc raw"
      unfolding c using e[OF j] by blast
    have "13 * (?c - j - 1) < len" using b(2) by linarith
    from parse_make_lfn[OF r(1) this name(1,3)] make_lfn_fields[OF r(1), of name len "Suc (?c - j - 1)" h crc]
    show ?thesis unfolding r(2) by simp
  qed
  from lfn_collect_frags[OF name(1,2) gb _ _ k this] name(4) b(3) show ?thesis by (simp add: min_absorb2)
qed

lemma head_seq:
  assumes "0 < c" and "c \<le> 20"
  shows "(0x40 OR word_of_nat c :: u8) AND 0x40 \<noteq> 0" "unat ((0x40 OR word_of_nat c :: u8) AND 0x1f) = c"
    "(0x40 OR word_of_nat c :: u8) \<noteq> 0" "(0x40 OR word_of_nat c :: u8) \<noteq> 0xe5"
proof -
  have "list_all (\<lambda>c. (0x40 OR word_of_nat c :: u8) AND 0x40 \<noteq> 0 \<and> unat ((0x40 OR word_of_nat c :: u8) AND 0x1f) = c
     \<and> (0x40 OR word_of_nat c :: u8) \<noteq> 0 \<and> (0x40 OR word_of_nat c :: u8) \<noteq> 0xe5) [1..<21]"
    by code_simp
  moreover have "c \<in> set [1..<21]" using assms by simp
  ultimately show "(0x40 OR word_of_nat c :: u8) AND 0x40 \<noteq> 0" "unat ((0x40 OR word_of_nat c :: u8) AND 0x1f) = c"
    "(0x40 OR word_of_nat c :: u8) \<noteq> 0" "(0x40 OR word_of_nat c :: u8) \<noteq> 0xe5"
    unfolding list_all_iff by blast+
qed

lemma sfn_of_head:
  assumes "sfn_of name len e"
  shows "e ! 0 \<noteq> SFN_LAST" "\<not> ent_free e"
proof -
  have "e ! 0 = put_sfn_name name len ! 0"
    using assms by (metis sfn_of_def nth_take zero_less_numeral)
  then show "e ! 0 \<noteq> SFN_LAST" "\<not> ent_free e"
    using put_sfn_name_first[of name len] by (simp_all add: ent_free_def)
qed

text \<open>The block of a name stands at entry \<open>k\<close> of a directory.\<close>

definition block_at :: "u8 list list \<Rightarrow> nat \<Rightarrow> u8 list \<Rightarrow> nat \<Rightarrow> bool" where
  "block_at es k name len \<longleftrightarrow>
     k + lfn_count len < length es
     \<and> (\<forall>j < lfn_count len. \<exists>raw. length raw = 32 \<and> es ! (k + j) =
          make_lfn name len (lfn_count len - j) (if j = 0 then LFN_HEAD_MSK else 0)
            (get_crc (put_sfn_name name len)) raw)
     \<and> sfn_of name len (es ! (k + lfn_count len))"

lemma block_reads:
  assumes name: "len \<le> length name" "len \<le> 255" "0 \<notin> set (take len name)" "0 < len"
    and gb: "length gb = 512" and b: "block_at es k name len"
  shows "lfn_name es k gb = Inr (k + lfn_count len, take len name @ drop len gb, word_of_nat len)"
    "\<not> ent_free (es ! k)" "es ! k ! 11 = FAT_ATTR_LFN" "es ! k ! 13 = get_crc (take 11 (es ! (k + lfn_count len)))"
    "unat (word_of_nat len :: u16) = len" "sfn_of name len (es ! (k + lfn_count len))" "k + lfn_count len < length es"
proof -
  let ?c = "lfn_count len" and ?crc = "get_crc (put_sfn_name name len)"
  note cb = lfn_count_bounds[OF name(4)]
  have c20: "?c \<le> 20" by (rule cb(4)[OF name(2)])
  show kl: "k + ?c < length es" and s: "sfn_of name len (es ! (k + ?c))" using b unfolding block_at_def by blast+
  have l: "\<And>j. j < ?c \<Longrightarrow> \<exists>raw. length raw = 32 \<and> es ! (k + j) =
          make_lfn name len (?c - j) (if j = 0 then LFN_HEAD_MSK else 0) ?crc raw"
    using b unfolding block_at_def by blast
  obtain raw where r: "length raw = 32" "es ! k = make_lfn name len ?c LFN_HEAD_MSK ?crc raw"
    using l[of 0] cb(1) by auto
  note mf = make_lfn_fields[OF r(1), of name len ?c LFN_HEAD_MSK ?crc, folded r(2)]
  note hs = head_seq[OF cb(1) c20, folded mf(4)]
  have "lfn_collect es ?c k ?crc gb 0 = Inr (k + ?c, take len name @ drop len gb, 0 + word_of_nat len)"
    by (rule lfn_collect_block[OF name gb kl]) (use l in blast)
  then have col: "lfn_collect es ?c k ?crc gb 0 = Inr (k + ?c, take len name @ drop len gb, word_of_nat len)"
    by simp
  show wl: "unat (word_of_nat len :: u16) = len" using name(2) by (intro unat_u16) simp
  then have "(word_of_nat len :: u16) \<le> 255" using name(2) by (simp add: word_le_nat_alt)
  then show "lfn_name es k gb = Inr (k + ?c, take len name @ drop len gb, word_of_nat len)"
    using hs col c20 by (simp add: lfn_name_def Let_def mf(3))
  show "\<not> ent_free (es ! k)" using hs by (simp add: ent_free_def)
  show "es ! k ! 11 = FAT_ATTR_LFN" by (rule mf(2))
  show "es ! k ! 13 = get_crc (take 11 (es ! (k + ?c)))" using s mf(3) by (simp add: sfn_of_def)
qed

lemma dir_find_block:
  assumes name: "len \<le> length name" "len \<le> 255" "0 \<notin> set (take len name)" "0 < len"
    and gb: "length gb = 512" and b: "block_at es k name len"
  shows "dir_find es q qlen qsfn gb k =
    (if qlen = len \<and> take len q = take len name then Inr (k, k + lfn_count len)
     else dir_find es q qlen qsfn (take len name @ drop len gb) (Suc (k + lfn_count len)))"
proof -
  note r = block_reads[OF assms]
  have n0: "es ! k ! 0 \<noteq> SFN_LAST" using r(2) by (simp add: ent_free_def)
  have sf: "\<not> (ent_free (es ! (k + lfn_count len)) \<or> es ! (k + lfn_count len) ! 11 = FAT_ATTR_LFN
      \<or> es ! k ! 13 \<noteq> get_crc (take 11 (es ! (k + lfn_count len))))"
    using r(4,6) sfn_of_head[OF r(6)] by (simp add: sfn_of_def)
  have t: "take len (take len name @ drop len gb) = take len name" using name(1) by simp
  show ?thesis
    by (subst dir_find.simps) (use r(1,2,3,5,7) n0 sf t in auto)
qed

lemma make_sfn_of:
  assumes "attr \<noteq> FAT_ATTR_LFN"
  shows "sfn_of name len (make_sfn (put_sfn_name name len) attr clust now)"
proof -
  obtain date time where dt: "encode_timestamp now = (date, time)" by fastforce
  let ?s = "put_sfn_name name len"
  let ?e = "make_sfn ?s attr clust now"
  have l: "length ?e = 32" by (simp add: make_sfn_def Let_def dt)
  have n: "j < 12 \<Longrightarrow> ?e ! j = (if j < 11 then ?s ! j else attr)" for j
    by (simp add: make_sfn_def Let_def dt nth_wr32 nth_wr16 nth_list_update nth_put_slice length_put_sfn_name)
  then have "take 11 ?e = ?s"
    using l by (intro nth_equalityI) (simp_all add: length_put_sfn_name)
  then show ?thesis using l n[of 11] assms by (simp add: sfn_of_def)
qed

text \<open>A directory that holds the names \<open>ns\<close>, one block after the other from entry \<open>k\<close> on, and
  then the end mark.\<close>

fun names_at :: "u8 list list \<Rightarrow> nat \<Rightarrow> u8 list list \<Rightarrow> bool" where
  "names_at es k [] \<longleftrightarrow> k < length es \<and> es ! k ! 0 = SFN_LAST"
| "names_at es k (n # ns) \<longleftrightarrow> block_at es k n (length n) \<and> names_at es (Suc (k + lfn_count (length n))) ns"

definition name_ok :: "u8 list \<Rightarrow> bool" where
  "name_ok n \<longleftrightarrow> 0 < length n \<and> length n \<le> 255 \<and> 0 \<notin> set n"

fun name_place :: "nat \<Rightarrow> u8 list list \<Rightarrow> u8 list \<Rightarrow> (nat \<times> nat) option" where
  "name_place k [] q = None"
| "name_place k (n # ns) q =
     (if n = q then Some (k, k + lfn_count (length n))
      else name_place (Suc (k + lfn_count (length n))) ns q)"

lemma name_place_iff: "name_place k ns q = None \<longleftrightarrow> q \<notin> set ns"
  by (induction ns arbitrary: k) auto

lemma dir_find_names:
  assumes "names_at es k ns" and "\<forall>n \<in> set ns. name_ok n" and "length gb = 512"
    and "take (length q) qs = q"
  shows "dir_find es qs (length q) sfn gb k =
    (case name_place k ns q of None \<Rightarrow> Inl FAT_ERR_EOF | Some p \<Rightarrow> Inr p)"
  using assms
proof (induction ns arbitrary: k gb)
  case Nil
  then show ?case by (simp add: dir_find.simps[of es qs])
next
  case (Cons n ns)
  have n: "name_ok n" using Cons.prems by simp
  have e: "length q = length n \<and> take (length n) qs = take (length n) n \<longleftrightarrow> n = q"
    using Cons.prems(4) by auto
  let ?gb = "take (length n) n @ drop (length n) gb"
  have "length ?gb = 512" using n Cons.prems(3) by (simp add: name_ok_def)
  with Cons have ih: "dir_find es qs (length q) sfn ?gb (Suc (k + lfn_count (length n))) =
    (case name_place (Suc (k + lfn_count (length n))) ns q of None \<Rightarrow> Inl FAT_ERR_EOF | Some p \<Rightarrow> Inr p)"
    by simp
  have "dir_find es qs (length q) sfn gb k = (if length q = length n \<and> take (length n) qs = take (length n) n
      then Inr (k, k + lfn_count (length n)) else dir_find es qs (length q) sfn ?gb (Suc (k + lfn_count (length n))))"
    using n Cons.prems by (intro dir_find_block) (simp_all add: name_ok_def)
  then show ?case unfolding e ih by simp
qed

subsection \<open>Searching a directory\<close>

text \<open>A \<open>Dir\<close> on a directory of a volume: the layout of the volume is the one the driver relies on
  and \<open>cs\<close> are the clusters of the directory.\<close>

definition dir_ready ::
  "'d disk_ops \<Rightarrow> ('d \<Rightarrow> u32 \<Rightarrow> u8 list) \<Rightarrow> ('d \<Rightarrow> bool) \<Rightarrow> u32 list \<Rightarrow> ('d, 'z) dctx_scheme \<Rightarrow> bool" where
  "dir_ready ops content dinv cs v \<longleftrightarrow>
     cache_ok ops content dinv v \<and> geom_ok v \<and> dir_geom v
     \<and> fat_chain (fat_val (lview content v) (fat_sect0 v)) (clust_cnt v) cs
     \<and> dir_sclust v = hd cs \<and> length (g_buf v) = 512"

lemma dir_ready_on:
  assumes "block_dev ops content dinv" and "dir_ready ops content dinv cs v"
  shows "block_dev.dir_on ops content dinv v cs" "dir_sclust v = hd cs"
  using assms by (simp_all add: dir_ready_def block_dev.dir_on_def)

text \<open>C5. Looking a name up reads the directory and nothing else: \<open>dir_search\<close> gives the answer
  of the search over the list of the directory's entries, whatever the directory holds, with
  the \<open>Dir\<close> at the entry found and its sector in the buffer, or it reports an error of the
  device.  The contents of the disk do not change.\<close>

theorem dir_search_refines:
  assumes "block_dev ops content dinv" and "dir_ready ops content dinv cs v"
  shows "wp (dir_search name len)
    (\<lambda>l v'. cache_ok ops content dinv v' \<and> lview content v' = lview content v
       \<and> (\<exists>k0 k. dir_find (dir_entries v (lview content v) cs) name len (put_sfn_name name len) (g_buf v) 0 = Inr (k0, k)
          \<and> l = ent_loc v cs k0 \<and> dir_at v' cs k \<and> fat_buf v' = lview content v (ent_sect v cs k)))
    (\<lambda>e v'. cache_ok ops content dinv v' \<and> lview content v' = lview content v \<and> (e = FAT_ERR_IO
       \<or> dir_find (dir_entries v (lview content v) cs) name len (put_sfn_name name len) (g_buf v) 0 = Inl e)) v"
proof (rule wp_conseq[OF block_dev.dir_search_wp[OF assms(1) dir_ready_on[OF assms]]], goal_cases)
  note a = assms(1)
  have c: "cache_ok ops content dinv v" using assms(2) by (simp add: dir_ready_def)
  case (1 l v')
  then obtain k0 k where k: "dir_find (dir_entries v (lview content v) cs) name len (put_sfn_name name len) (g_buf v) 0 = Inr (k0, k)"
    "l = ent_loc v cs k0" "block_dev.dir_here ops content dinv v' cs k" and w: "block_dev.walked ops content dinv v v'"
    by (auto simp: block_dev.search_post_def[OF a] block_dev.ents_def[OF a])
  have "fat_buf v' = lview content v (ent_sect v cs k)"
    using block_dev.dir_here_buf(1)[OF a k(3)] block_dev.walked_fields(16)[OF a w] block_dev.dir_on_walked(3)[OF a w c] by simp
  then show ?case
    using k block_dev.walked_fields(16,17)[OF a w] block_dev.dir_here_on(2)[OF a k(3)] by blast
next
  case (2 e v')
  then show ?case
    using block_dev.walked_fields(16,17)[OF assms(1), of v v']
    by (auto simp: block_dev.search_err_def[OF assms(1)] block_dev.ents_def[OF assms(1)])
qed

text \<open>C6. On a directory that holds the names \<open>ns\<close>, each stored as \<open>dir_add\<close> stores it,
  \<open>dir_search\<close> finds exactly these names: it stops at the entries of the first one that is equal to
  the name looked for, and reports \<open>FAT_ERR_EOF\<close> exactly for the names that are not there.\<close>

theorem dir_search_lookup:
  assumes "block_dev ops content dinv" and "dir_ready ops content dinv cs v"
    and "names_at (dir_entries v (lview content v) cs) 0 ns" and "\<forall>n \<in> set ns. name_ok n"
  shows "wp (dir_search q (length q))
    (\<lambda>l v'. q \<in> set ns \<and> (\<exists>k0 k. name_place 0 ns q = Some (k0, k) \<and> l = ent_loc v cs k0 \<and> dir_at v' cs k))
    (\<lambda>e v'. e = FAT_ERR_IO \<or> e = FAT_ERR_EOF \<and> q \<notin> set ns) v"
proof -
  have gb: "length (g_buf v) = 512" using assms(2) by (simp add: dir_ready_def)
  note f = dir_find_names[OF assms(3,4) gb, of q q "put_sfn_name q (length q)", simplified]
  have a: "block_dev ops content dinv" by fact
  show ?thesis
  proof (rule wp_conseq[OF block_dev.dir_search_wp[OF a dir_ready_on[OF assms(1,2)]]], goal_cases)
    case (1 l v')
    then obtain k0 k where "dir_find (dir_entries v (lview content v) cs) q (length q) (put_sfn_name q (length q)) (g_buf v) 0 = Inr (k0, k)"
      "l = ent_loc v cs k0" "dir_at v' cs k"
      by (auto simp: block_dev.search_post_def[OF a] block_dev.ents_def[OF a] block_dev.dir_here_def[OF a])
    moreover from this f have "name_place 0 ns q = Some (k0, k)" by (auto split: option.splits)
    ultimately show ?case using name_place_iff[of 0 ns q] by auto
  next
    case (2 e v')
    then show ?case
      using f name_place_iff[of 0 ns q]
      by (auto simp: block_dev.search_err_def[OF a] block_dev.ents_def[OF a] split: option.splits)
  qed
qed

subsection \<open>A directory on the small volume\<close>

definition demo_name :: "u8 list" where
  "demo_name = [0x61, 0x2e, 0x74, 0x78, 0x74]"

text \<open>The root directory with the file \<open>a.txt\<close> and the directory \<open>b\<close>.\<close>

definition demo_block :: "u8 list \<Rightarrow> u8 \<Rightarrow> u32 \<Rightarrow> u8 list list" where
  "demo_block n attr c =
     [make_lfn n (length n) 1 LFN_HEAD_MSK (get_crc (put_sfn_name n (length n))) (replicate 32 0),
      make_sfn (put_sfn_name n (length n)) attr c fat_get_timestamp]"

definition demo_root :: "u8 list" where
  "demo_root = concat (demo_block demo_name FAT_ATTR_ARCHIVE 3) @ concat (demo_block [0x62] FAT_ATTR_DIR 6)
     @ replicate 384 0"

definition demo_dir_disk :: ram where
  "demo_dir_disk = \<lparr>ram_data = (\<lambda>n. if n = 32 \<or> n = 48 then demo_table else if n = 64 then demo_root
       else replicate 512 0), ram_bad = (\<lambda>n. False)\<rparr>"

definition demo_dctx :: "ram \<Rightarrow> ram dctx" where
  "demo_dctx d = \<lparr>fat_next = None, fat_ops = ram_ops, clust_msk = 0, clust_cnt = 128,
     info_sect = 1, fat_sect0 = 32, fat_sect1 = 48, data_sect = 64, root_clust = 2,
     last_used = 5, free_cnt = 122, buf_sect = 0, fat_buf = replicate 512 0, fat_flags = 0,
     clust_shift = 0, fat_name_len = 3, fat_name = [0x64, 0x73, 0x6b] @ replicate 29 0, dev = d, g_buf = replicate 512 0,
     g_len = 0, g_crc = 0, dir_fat = True, dir_sclust = 2, dir_clust = 2, dir_sect = 64, dir_idx = 0\<rparr>"

lemma demo_dctx_fields [simp]:
  "fat_ops (demo_dctx d) = ram_ops" "clust_cnt (demo_dctx d) = 128" "info_sect (demo_dctx d) = 1"
  "fat_sect0 (demo_dctx d) = 32" "fat_sect1 (demo_dctx d) = 48" "data_sect (demo_dctx d) = 64"
  "root_clust (demo_dctx d) = 2" "last_used (demo_dctx d) = 5" "free_cnt (demo_dctx d) = 122"
  "buf_sect (demo_dctx d) = 0" "fat_buf (demo_dctx d) = replicate 512 0" "fat_flags (demo_dctx d) = 0"
  "clust_shift (demo_dctx d) = 0" "clust_msk (demo_dctx d) = 0" "dev (demo_dctx d) = d"
  "g_buf (demo_dctx d) = replicate 512 0" "dir_sclust (demo_dctx d) = 2" "dir_fat (demo_dctx d) = True"
  "dir_clust (demo_dctx d) = 2" "dir_sect (demo_dctx d) = 64" "dir_idx (demo_dctx d) = 0"
  by (simp_all add: demo_dctx_def)

lemma slices_of_four:
  assumes "length a = 32" "length b = 32" "length c = 32" "length d = 32"
  shows "slice (a @ b @ c @ d @ z) 0 32 = a" "slice (a @ b @ c @ d @ z) 32 32 = b"
    "slice (a @ b @ c @ d @ z) 64 32 = c" "slice (a @ b @ c @ d @ z) 96 32 = d"
    "slice (a @ b @ c @ d @ z) 128 32 = take 32 z"
  using assms by (simp_all add: slice_def)

lemma demo_block_lengths: "attr \<noteq> FAT_ATTR_LFN \<Longrightarrow> length (demo_block n attr c ! 0) = 32"
  "attr \<noteq> FAT_ATTR_LFN \<Longrightarrow> length (demo_block n attr c ! 1) = 32"
  using make_sfn_of[of attr n "length n" c fat_get_timestamp]
  by (simp_all add: demo_block_def make_lfn_fields sfn_of_def)

lemma demo_root_split: "demo_root =
  demo_block demo_name FAT_ATTR_ARCHIVE 3 ! 0 @ demo_block demo_name FAT_ATTR_ARCHIVE 3 ! 1
  @ demo_block [0x62] FAT_ATTR_DIR 6 ! 0 @ demo_block [0x62] FAT_ATTR_DIR 6 ! 1 @ replicate 384 0"
  unfolding demo_root_def demo_block_def by (simp only: concat.simps append_assoc append_Nil append_Nil2 nth_Cons_0 nth_Cons_Suc One_nat_def)

lemma demo_root_length [simp]: "length demo_root = 512"
  using demo_block_lengths[of "0x20" demo_name 3] demo_block_lengths[of "0x10" "[0x62]" 6]
  unfolding demo_root_split by simp

lemma demo_dir_inv: "ram_inv demo_dir_disk"
  by (simp add: ram_inv_def demo_dir_disk_def)

lemma demo_dctx_view: "lview ram_data (demo_dctx d) = ram_data d"
  by (simp add: lview_def fun_eq_iff)

lemma demo_dctx_geom: "geom_ok (demo_dctx d)" "dir_geom (demo_dctx d)"
  by (simp_all add: geom_ok_def in_fat_def fat_sectors_def dir_geom_def data_geom_def spc_def)

lemma demo_dctx_cache: "cache_ok ram_ops ram_data ram_inv (demo_dctx demo_dir_disk)"
  by (simp add: cache_ok_def demo_dir_inv buf_dirty_def)

lemma demo_dir_chain: "fat_chain (fat_val (ram_data demo_dir_disk) 32) 128 [2]"
  by (simp add: demo_dir_disk_def fat_val_def fat_ent_def demo_table_def le_simps)

lemma demo_dir_ready: "dir_ready ram_ops ram_data ram_inv [2] (demo_dctx demo_dir_disk)"
  using demo_dir_chain demo_dctx_geom by (simp add: dir_ready_def demo_dctx_cache demo_dctx_view)

lemma demo_root_entries:
  "slice demo_root 0 32 = demo_block demo_name FAT_ATTR_ARCHIVE 3 ! 0"
  "slice demo_root 32 32 = demo_block demo_name FAT_ATTR_ARCHIVE 3 ! 1"
  "slice demo_root 64 32 = demo_block [0x62] FAT_ATTR_DIR 6 ! 0"
  "slice demo_root 96 32 = demo_block [0x62] FAT_ATTR_DIR 6 ! 1"
  "slice demo_root 128 32 = replicate 32 0"
proof -
  have "take 32 (replicate 384 0) = (replicate 32 0 :: u8 list)" by (simp only: take_replicate) simp
  moreover have l: "length (demo_block demo_name FAT_ATTR_ARCHIVE 3 ! 0) = 32"
    "length (demo_block demo_name FAT_ATTR_ARCHIVE 3 ! 1) = 32"
    "length (demo_block [0x62] FAT_ATTR_DIR 6 ! 0) = 32" "length (demo_block [0x62] FAT_ATTR_DIR 6 ! 1) = 32"
    by (intro demo_block_lengths; simp)+
  ultimately show "slice demo_root 0 32 = demo_block demo_name FAT_ATTR_ARCHIVE 3 ! 0"
    "slice demo_root 32 32 = demo_block demo_name FAT_ATTR_ARCHIVE 3 ! 1"
    "slice demo_root 64 32 = demo_block [0x62] FAT_ATTR_DIR 6 ! 0"
    "slice demo_root 96 32 = demo_block [0x62] FAT_ATTR_DIR 6 ! 1"
    "slice demo_root 128 32 = replicate 32 0"
    using slices_of_four[OF l, of "replicate 384 0", folded demo_root_split] by simp_all
qed

lemma demo_dir_entry: "k < 16 \<Longrightarrow> dir_entries (demo_dctx demo_dir_disk) (ram_data demo_dir_disk) [2] ! k = slice demo_root (32 * k) 32"
  by (simp add: dir_entries_nth dir_cap_def dir_entry_def ent_sect_def ent_clust_def clust_to_sect_def spc_def
      demo_dir_disk_def)

lemma demo_block_at:
  assumes "es ! k = demo_block n attr c ! 0" "es ! Suc k = demo_block n attr c ! 1" "Suc k < length es"
    "attr \<noteq> FAT_ATTR_LFN" "lfn_count (length n) = 1"
  shows "block_at es k n (length n)"
  unfolding block_at_def assms(5)
  using assms make_sfn_of[OF assms(4), of n "length n" c fat_get_timestamp]
  by (auto simp: demo_block_def intro!: exI[of _ "replicate 32 0"])

lemma demo_names: "names_at (dir_entries (demo_dctx demo_dir_disk) (ram_data demo_dir_disk) [2]) 0 [demo_name, [0x62]]"
proof -
  let ?es = "dir_entries (demo_dctx demo_dir_disk) (ram_data demo_dir_disk) [2]"
  have len: "length ?es = 16" by (simp add: dir_cap_def spc_def)
  have l: "lfn_count (length demo_name) = 1" "lfn_count (length [0x62 :: u8]) = 1"
    by (simp_all add: demo_name_def lfn_count_def)
  have e: "?es ! 0 = demo_block demo_name FAT_ATTR_ARCHIVE 3 ! 0" "?es ! Suc 0 = demo_block demo_name FAT_ATTR_ARCHIVE 3 ! 1"
    "?es ! 2 = demo_block [0x62] FAT_ATTR_DIR 6 ! 0" "?es ! Suc 2 = demo_block [0x62] FAT_ATTR_DIR 6 ! 1"
    "?es ! 4 = replicate 32 0"
    using demo_dir_entry[of 0] demo_dir_entry[of "Suc 0"] demo_dir_entry[of 2] demo_dir_entry[of "Suc 2"] demo_dir_entry[of 4]
    by (simp_all add: demo_root_entries)
  have "block_at ?es 0 demo_name (length demo_name)"
    by (rule demo_block_at[OF e(1,2) _ _ l(1)]) (simp_all add: dir_cap_def spc_def)
  moreover have "block_at ?es 2 [0x62] (length [0x62 :: u8])"
    by (rule demo_block_at[OF e(3,4) _ _ l(2)]) (simp_all add: dir_cap_def spc_def)
  moreover have s: "Suc (0 + 1) = 2" "Suc (2 + 1) = (4 :: nat)" by simp_all
  moreover have "names_at ?es 4 []" by (simp only: names_at.simps len e(5)) simp
  ultimately show ?thesis by (simp only: names_at.simps(2) l s simp_thms)
qed

theorem dir_search_refines_witness:
  "wp (dir_search demo_name 5) (\<lambda>l v'. lview ram_data v' 64 = demo_root)
    (\<lambda>e v'. lview ram_data v' 64 = demo_root) (demo_dctx demo_dir_disk)"
  by (rule wp_conseq[OF dir_search_refines[OF ram.block_dev_axioms demo_dir_ready]])
    (auto simp: demo_dctx_view, auto simp: demo_dir_disk_def)

theorem dir_search_lookup_witness:
  "wp (dir_search [0x62] (Suc 0))
    (\<lambda>l v'. l = \<lparr>loc_sect = 64, loc_idx = 64\<rparr> \<and> dir_idx v' = 96) (\<lambda>e v'. e = FAT_ERR_IO) (demo_dctx demo_dir_disk)"
proof -
  have ok: "\<forall>n \<in> set [demo_name, [0x62]]. name_ok n" by (simp add: name_ok_def demo_name_def)
  have p: "name_place 0 [demo_name, [0x62]] [0x62] = Some (2, 3)" by (simp add: demo_name_def lfn_count_def)
  note w = dir_search_lookup[OF ram.block_dev_axioms demo_dir_ready, unfolded demo_dctx_view, OF demo_names ok, of "[0x62]"]
  show ?thesis
    by (rule wp_conseq[OF w[simplified]])
      (use p in \<open>auto simp: ent_loc_def dir_at_def ent_sect_def ent_clust_def ent_idx_def clust_to_sect_def spc_def\<close>)
qed

subsection \<open>A data area that does not start at a multiple of the cluster size\<close>

lemma take_bit_add_push: "n \<le> LENGTH('a) \<Longrightarrow> take_bit n (push_bit n x + w) = take_bit n (w :: 'a :: len word)"
proof (transfer fixing: n, goal_cases)
  case (1 x w)
  have "take_bit n (push_bit n x + w) = take_bit n w"
    using take_bit_add[of n "push_bit n x" w] by (simp add: take_bit_push_bit)
  with 1 show ?case by (simp add: min_absorb2)
qed

text \<open>The test for the end of a cluster looks at the absolute sector number.  When the data area
  does not start at a multiple of the cluster size, stepping from the last entry of a cluster
  leads into the cluster that follows on the disk, whatever the table says.\<close>

theorem dir_next_misaligned:
  assumes sh: "unat (clust_shift v) \<le> 7" and m: "clust_msk v = word_of_nat (spc v - 1)"
    and mis: "\<not> spc v dvd unat (data_sect v)"
    and p: "dir_idx v = 480" "dir_sect v = clust_to_sect v (dir_clust v) + word_of_nat (spc v - 1)"
  shows "dir_next v = Some (Inr (), v\<lparr>dir_idx := 0, dir_sect := clust_to_sect v (dir_clust v + 1)\<rparr>)"
proof -
  let ?n = "unat (clust_shift v)" and ?c = "dir_clust v"
  have s: "clust_to_sect v ?c + word_of_nat (spc v - 1) + 1 = clust_to_sect v (?c + 1)"
    by (simp add: clust_to_sect_def spc_def of_nat_diff push_bit_eq_mult algebra_simps)
  have mm: "clust_msk v = Bit_Operations.mask ?n"
    using m by (simp add: spc_def mask_eq_exp_minus_1 of_nat_diff)
  have "clust_to_sect v (?c + 1) AND clust_msk v \<noteq> 0"
  proof
    assume "clust_to_sect v (?c + 1) AND clust_msk v = 0"
    then have t: "take_bit ?n (clust_to_sect v (?c + 1)) = 0" by (simp add: mm take_bit_eq_mask)
    have "take_bit ?n (clust_to_sect v (?c + 1)) = take_bit ?n (data_sect v)"
      using take_bit_add_push[of ?n "?c + 1 - 2" "data_sect v"] sh
      by (simp add: clust_to_sect_def add.commute)
    with t have "unat (take_bit ?n (data_sect v)) = 0" by simp
    then have "unat (data_sect v) mod 2 ^ ?n = 0" by (simp only: unsigned_take_bit_eq take_bit_nat_def)
    with mis show False by (simp add: spc_def mod_eq_0_iff_dvd)
  qed
  then show ?thesis
    using p s by (simp add: dir_next_def bnd_def modify_def gets_def ret_def)
qed

definition misaligned_dctx :: "ram dctx" where
  "misaligned_dctx = (demo_dctx demo_dir_disk)\<lparr>clust_shift := 1, clust_msk := 1, data_sect := 65,
     dir_sect := 66, dir_idx := 480\<rparr>"

theorem dir_next_misaligned_witness:
  "\<exists>v'. dir_next misaligned_dctx = Some (Inr (), v') \<and> dir_sect v' = 67 \<and> dir_clust v' = 2"
proof -
  have "\<not> (2 :: nat) dvd 65" by presburger
  then have "dir_next misaligned_dctx = Some (Inr (), misaligned_dctx\<lparr>dir_idx := 0,
      dir_sect := clust_to_sect misaligned_dctx (dir_clust misaligned_dctx + 1)\<rparr>)"
    by (intro dir_next_misaligned) (simp_all add: misaligned_dctx_def spc_def clust_to_sect_def)
  then show ?thesis by (simp add: misaligned_dctx_def clust_to_sect_def)
qed

end
