(* ===== verification/Fat_File.thy ===== *)
theory Fat_File
  imports Fat_Dir
begin

text \<open>
  Files of \<open>fat.c\<close>: \<open>fat_file_seek\<close>, which moves the one-sector file buffer and stretches the
  cluster chain, and \<open>fat_file_read\<close>, \<open>fat_file_write\<close>, \<open>fat_file_sync\<close> and
  \<open>fat_file_close\<close> over it.

  The \<open>File\<close> is the file part of the state.  Lengths are natural numbers: the code's \<open>int len\<close>
  is not negative.  The clock callback's answer is the argument \<open>now\<close>.
\<close>

subsection \<open>Seeking\<close>

text \<open>The walk along the chain; it stretches the chain behind its last cluster.\<close>

fun seek_clusters :: "nat \<Rightarrow> (('d, 'z) fctx_scheme, fat_err, unit) prog" where
  "seek_clusters 0 = ret ()"
| "seek_clusters (Suc n) =
     bnd (gets file_clust) (\<lambda>c.
     bnd (get_fat c) (\<lambda>(nxt, flags).
     if flags AND (CLUST_BAD OR CLUST_FREE) \<noteq> 0 then throw FAT_ERR_BROKEN
     else
       bnd (if flags AND CLUST_LAST \<noteq> 0 then stretch_chain c else ret nxt) (\<lambda>nxt.
       bnd (modify (\<lambda>v. v\<lparr>file_clust := nxt\<rparr>)) (\<lambda>_. seek_clusters n))))"

text \<open>The file buffer is written back to the sector \<open>ssect\<close> it came from and loaded again.\<close>

definition file_swap :: "u32 \<Rightarrow> (('d, 'z) fctx_scheme, fat_err, unit) prog" where
  "file_swap ssect =
     bnd (gets (\<lambda>v. (file_flags v, file_buf v))) (\<lambda>(fl, fb).
     bnd (if fl AND FAT_FILE_DIRTY \<noteq> 0 then
            bnd (disk_write fb ssect) (\<lambda>ok.
            if \<not> ok then throw FAT_ERR_IO
            else modify (\<lambda>v. v\<lparr>file_flags := file_flags v AND NOT FAT_FILE_DIRTY\<rparr>))
          else ret ()) (\<lambda>_.
     bnd (gets (\<lambda>v. (file_buf v, file_sect v))) (\<lambda>(fb, s).
     bnd (disk_read fb s) (\<lambda>(ok, fb').
     bnd (modify (\<lambda>v. v\<lparr>file_buf := fb'\<rparr>)) (\<lambda>_.
     if \<not> ok then throw FAT_ERR_IO else ret ())))))"

definition seek_base :: "whence \<Rightarrow> ('d, 'z) fctx_scheme \<Rightarrow> int" where
  "seek_base w v = (case w of FAT_SEEK_START \<Rightarrow> 0 | FAT_SEEK_CURR \<Rightarrow> uint (file_offset v)
     | FAT_SEEK_END \<Rightarrow> uint (file_size v))"

definition clust_size :: "('d, 'z) fat_scheme \<Rightarrow> u32" where
  "clust_size v = push_bit (unat (clust_shift v)) 512"

definition fat_file_seek :: "int \<Rightarrow> whence \<Rightarrow> (('d, 'z) fctx_scheme, fat_err, unit) prog" where
  "fat_file_seek offset w =
     bnd (gets (\<lambda>v. (file_fat v, file_sect v, seek_base w v + offset))) (\<lambda>(f, ssect, off64).
     if \<not> f then throw FAT_ERR_PARAM
     else if off64 < 0 \<or> off64 > 0xffffffff then throw FAT_ERR_EOF
     else
       let off = word_of_int off64 :: u32
       in bnd (gets (\<lambda>v. (off div clust_size v, file_offset v div clust_size v))) (\<lambda>(dst, src).
          bnd (if dst < src then
                 modify (\<lambda>v. v\<lparr>file_clust := file_sclust v,
                   file_sect := clust_to_sect v (file_sclust v), file_offset := 0\<rparr>)
               else ret ()) (\<lambda>_.
          bnd (seek_clusters (unat (dst - (if dst < src then 0 else src)))) (\<lambda>_.
          bnd (modify (\<lambda>v. v\<lparr>file_sect := clust_to_sect v (file_clust v) + ((off div 512) AND clust_msk v),
                            file_offset := off\<rparr>)) (\<lambda>_.
          bnd (gets file_sect) (\<lambda>s. if s \<noteq> ssect then file_swap ssect else ret ()))))))"

subsection \<open>Reading\<close>

text \<open>The bytes copied to the caller so far are the accumulator; an error comes with them.\<close>

partial_function (option) file_read_loop ::
  "nat \<Rightarrow> u8 list \<Rightarrow> ('d, 'z) fctx_scheme \<Rightarrow> (((fat_err \<times> u8 list) + u8 list) \<times> ('d, 'z) fctx_scheme) option" where
  "file_read_loop len acc v =
     bnd (gets (\<lambda>v. (file_offset v, file_size v, file_buf v))) (\<lambda>(off, fsize, fb).
     if len = 0 \<or> \<not> off < fsize then ret acc
     else
       let idx = unat (off mod 512); cnt = min len (min (512 - idx) (unat (fsize - off)));
           acc' = acc @ slice fb idx cnt
       in attempt (fat_file_seek (int cnt) FAT_SEEK_CURR) (\<lambda>r.
          case r of Inl e \<Rightarrow> throw (e, acc') | Inr _ \<Rightarrow> file_read_loop (len - cnt) acc')) v"

definition fat_file_read :: "nat \<Rightarrow> (('d, 'z) fctx_scheme, fat_err \<times> u8 list, u8 list) prog" where
  "fat_file_read len =
     bnd (gets (\<lambda>v. (file_fat v, file_flags v))) (\<lambda>(f, fl).
     if \<not> f then throw (FAT_ERR_PARAM, [])
     else if fl AND FAT_READ = 0 then throw (FAT_ERR_DENIED, [])
     else
       bnd (modify (\<lambda>v. v\<lparr>file_flags := file_flags v OR FAT_ACCESSED\<rparr>)) (\<lambda>_.
       file_read_loop len []))"

subsection \<open>Writing\<close>

text \<open>The result is the number of bytes the code reports.  The error of \<open>fat_file_seek\<close> ends the
  loop and is lost: the \<open>err\<close> of the loop is a second variable.\<close>

partial_function (option) file_write_loop ::
  "u8 list \<Rightarrow> nat \<Rightarrow> ('d, 'z) fctx_scheme \<Rightarrow> (((fat_err \<times> nat) + nat) \<times> ('d, 'z) fctx_scheme) option" where
  "file_write_loop src n v =
     (if src = [] then ret n
      else
        bnd (gets (\<lambda>v. unat (file_offset v mod 512))) (\<lambda>idx.
        let cnt = min (length src) (512 - idx)
        in bnd (modify (\<lambda>v. v\<lparr>file_buf := put_slice (file_buf v) idx (take cnt src),
                             file_flags := file_flags v OR FAT_FILE_DIRTY\<rparr>)) (\<lambda>_.
           attempt (fat_file_seek (int cnt) FAT_SEEK_CURR) (\<lambda>r.
           case r of Inl e \<Rightarrow> ret (n + cnt) | Inr _ \<Rightarrow> file_write_loop (drop cnt src) (n + cnt))))) v"

definition fat_file_write :: "u8 list \<Rightarrow> (('d, 'z) fctx_scheme, fat_err \<times> nat, nat) prog" where
  "fat_file_write src =
     bnd (gets (\<lambda>v. (file_fat v, file_flags v))) (\<lambda>(f, fl).
     if \<not> f then throw (FAT_ERR_PARAM, 0)
     else if fl AND FAT_WRITE = 0 then throw (FAT_ERR_DENIED, 0)
     else
       bnd (modify (\<lambda>v. v\<lparr>file_flags := file_flags v OR (FAT_MODIFIED OR FAT_ACCESSED)\<rparr>)) (\<lambda>_.
       bnd (file_write_loop src 0) (\<lambda>n.
       bnd (modify (\<lambda>v. v\<lparr>file_size := (if file_offset v > file_size v then file_offset v else file_size v)\<rparr>)) (\<lambda>_.
       ret n))))"

subsection \<open>Synchronizing and closing\<close>

definition put_file_entry :: "timestamp \<Rightarrow> ('d, 'z) fctx_scheme \<Rightarrow> ('d, 'z) fctx_scheme" where
  "put_file_entry now v =
     (let (date, time) = encode_timestamp now; i = unat (file_dir_idx v);
          b = fat_buf v;
          b = (if file_flags v AND FAT_ACCESSED \<noteq> 0 then wr16 b (i + 18) date else b);
          b = (if file_flags v AND FAT_MODIFIED \<noteq> 0
               then wr16 (wr16 (wr32 (b[i + 11 := b ! (i + 11) OR FAT_ATTR_ARCHIVE])
                      (i + 28) (file_size v)) (i + 24) date) (i + 22) time
               else b)
      in v\<lparr>fat_buf := b, fat_flags := fat_flags v OR FAT_BUF_DIRTY\<rparr>)"

definition fat_file_sync :: "timestamp \<Rightarrow> (('d, 'z) fctx_scheme, fat_err, unit) prog" where
  "fat_file_sync now =
     bnd (gets (\<lambda>v. (file_fat v, file_buf v, file_sect v))) (\<lambda>(f, fb, s).
     if \<not> f then throw FAT_ERR_PARAM
     else
       bnd (disk_write fb s) (\<lambda>ok.
       if \<not> ok then throw FAT_ERR_IO
       else
         bnd (gets (\<lambda>v. (file_flags v, file_dir_sect v))) (\<lambda>(fl, ds).
         bnd (if fl AND (FAT_ACCESSED OR FAT_MODIFIED) \<noteq> 0 then
                bnd (update_buf ds) (\<lambda>_. modify (put_file_entry now))
              else ret ()) (\<lambda>_.
         bnd sync_fs (\<lambda>_.
         modify (\<lambda>v. v\<lparr>file_flags := file_flags v AND NOT (FAT_ACCESSED OR FAT_MODIFIED)\<rparr>))))))"

definition fat_file_close :: "timestamp \<Rightarrow> (('d, 'z) fctx_scheme, fat_err, unit) prog" where
  "fat_file_close now =
     bnd (gets file_fat) (\<lambda>f. if \<not> f then throw FAT_ERR_PARAM else fat_file_sync now)"

end
