(* ===== verification/Fat_Bytes.thy ===== *)
theory Fat_Bytes
  imports Fat_Walk Fat_File
begin


text \<open>
  A file as a list of bytes.  The sectors of the cluster chain, with the one-sector buffer of the
  \<open>File\<close> laid over the device, are the contents (\<open>file_bytes\<close>); \<open>file_on\<close> is the invariant of an
  open file.  The file functions bypass the sector cache, so the invariant also says that the
  cache holds none of the sectors the file may come to use.
\<close>

subsection \<open>Sectors the cache does not hold\<close>

definition cache_out :: "u32 set \<Rightarrow> 'd fat \<Rightarrow> ('d, 'z) vol_scheme \<Rightarrow> bool" where
  "cache_out S g v \<longleftrightarrow> buf_sect v \<notin> S \<and> fat_sect0 v = fat_sect0 g \<and> fat_sect1 v = fat_sect1 g
     \<and> info_sect v = info_sect g \<and> clust_cnt v = clust_cnt g"

lemma cache_out_upd [simp]:
  "cache_out S g (v\<lparr>fat_flags := f\<rparr>) = cache_out S g v" "cache_out S g (v\<lparr>fat_buf := b\<rparr>) = cache_out S g v"
  "cache_out S g (v\<lparr>dev := d\<rparr>) = cache_out S g v" "cache_out S g (v\<lparr>free_cnt := c\<rparr>) = cache_out S g v"
  "cache_out S g (v\<lparr>last_used := l\<rparr>) = cache_out S g v"
  by (simp_all add: cache_out_def)

lemma cache_out_disk [keeps_rules]:
  "keeps (cache_out S g) any_err (disk_write b n)" "keeps (cache_out S g) any_err (disk_read b n)"
  by (auto simp: keeps_def disk_write_def disk_read_def cache_out_def split: prod.splits)

lemma cache_out_sync_buf [keeps_rules]: "keeps (cache_out S g) any_err sync_buf"
  unfolding sync_buf_def
  by (auto intro!: keeps_bnd_gets keeps_bnd keeps_rules keeps_modify keeps_if split: prod.splits)

lemma cache_out_update_buf: "n \<notin> S \<Longrightarrow> keeps (cache_out S g) any_err (update_buf n)"
  unfolding update_buf_def
  by (auto intro!: keeps_bnd_gets keeps_bnd keeps_rules keeps_modify keeps_if split: prod.splits)
     (simp add: cache_out_def)

lemma cache_out_sync_fs:
  assumes "info_sect g \<notin> S"
  shows "keeps (cache_out S g) any_err sync_fs"
  unfolding sync_fs_def
proof (rule keeps_bnd[OF cache_out_sync_buf], rule keeps_bnd_gets, simp only: prod.case, intro keeps_if keeps_bnd keeps_rules)
  fix s assume "cache_out S g s"
  then show "keeps (cache_out S g) any_err (update_buf (info_sect s))"
    using assms by (intro cache_out_update_buf) (simp add: cache_out_def)
qed (rule keeps_modify, simp add: set_fsinfo_def)+

text \<open>Sectors outside the table, its mirror and \<open>FsInfo\<close>.\<close>

definition no_meta :: "u32 set \<Rightarrow> ('d, 'z) fat_scheme \<Rightarrow> bool" where
  "no_meta S g \<longleftrightarrow> (\<forall>n\<in>S. \<not> meta_sect g n)"

lemma table_out: "geom_ok g \<Longrightarrow> no_meta S g \<Longrightarrow> c < clust_cnt g \<Longrightarrow> fat_copy g base \<Longrightarrow> base + c div 128 \<notin> S"
  using fat_sector_in(1)[of g c base] by (auto simp: no_meta_def meta_sect_def fat_copy_def)

lemma cache_out_get_fat:
  assumes "geom_ok g" "no_meta S g" "c < clust_cnt g"
  shows "keeps (cache_out S g) any_err (get_fat c)"
  unfolding get_fat_def
proof (rule keeps_bnd_gets, rule keeps_bnd)
  fix s assume "cache_out S g s"
  then show "keeps (cache_out S g) any_err (update_buf (fat_sect0 s + c div 128))"
    using table_out[OF assms fat_copy0] by (intro cache_out_update_buf) (simp add: cache_out_def)
qed (auto intro!: keeps_bnd_gets keeps_rules simp: Let_def split: prod.splits option.splits)

lemma cache_out_put_fat2:
  assumes "geom_ok g" "no_meta S g" "c < clust_cnt g" "fat_copy g base"
  shows "keeps (cache_out S g) any_err (put_fat2 base c val)"
  unfolding put_fat2_def
  by (intro keeps_bnd cache_out_update_buf table_out[OF assms] keeps_modify)
     (simp add: set_fat_item_def Let_def)

lemma cache_out_put_fat:
  assumes "geom_ok g" "no_meta S g" "c < clust_cnt g"
  shows "keeps (cache_out S g) any_err (put_fat c val)"
  unfolding put_fat_def
proof (rule keeps_bnd_gets, simp only: prod.case, rule keeps_bnd)
  fix s assume s: "cache_out S g s"
  note p = cache_out_put_fat2[OF assms]
  show "keeps (cache_out S g) any_err (if fat_sect1 s \<noteq> 0 then put_fat2 (fat_sect1 s) c val else ret ())"
    using s by (auto intro!: keeps_if p keeps_rules simp: cache_out_def fat_copy_def)
  show "keeps (cache_out S g) any_err (put_fat2 (fat_sect0 s) c val)" for x
    using s by (intro p) (simp add: cache_out_def fat_copy_def)
qed

lemma next_clust_lt: "2 < cnt \<Longrightarrow> next_clust cnt c < cnt"
  by (auto simp: next_clust_def not_le)

lemma cache_out_scan_free:
  assumes g: "geom_ok g" "no_meta S g"
  shows "keeps (cache_out S g) any_err (scan_free c fl)"
proof -
  have "cache_out S g v \<longrightarrow> cache_out S g (snd y)" if "scan_free c fl v = Some y" for c fl v y
  proof (rule scan_free.raw_induct[OF _ that], goal_cases)
    case (1 scan c fl v y)
    show ?case
    proof
      assume o: "cache_out S g v"
      have c: "next_clust (clust_cnt v) c < clust_cnt g"
        using next_clust_lt[OF geom_ok_cnt(1)[OF g(1)]] o by (simp add: cache_out_def)
      have k: "keeps (cache_out S g) any_err (scan c' fl')" for c' fl'
        using 1(1) by (force simp: keeps_def)
      have "keeps (cache_out S g) any_err (attempt (get_fat (next_clust (clust_cnt v) c)) (\<lambda>r.
         case r of Inl e \<Rightarrow> throw (FAT_RET_FLAGS fl) | Inr (nxt, fl) \<Rightarrow>
           if fl AND CLUST_FREE \<noteq> 0 then ret (next_clust (clust_cnt v) c)
           else scan (next_clust (clust_cnt v) c) (Some fl)))"
        by (auto intro!: keeps_attempt cache_out_get_fat[OF g c] keeps_rules k split: sum.splits prod.splits)
      with 1(2) o show "cache_out S g (snd y)"
        by (cases y) (auto simp: bnd_def gets_def throw_def keeps_def split: if_splits)
    qed
  qed
  then show ?thesis by (force simp: keeps_def)
qed

context block_dev
begin

lemma stretch_chain_out_wp:
  assumes c: "cache_ok ops content dinv v" and g: "geom_ok v"
    and lu: "2 \<le> last_used v" "last_used v < clust_cnt v"
    and pr: "prev = 0 \<or> 2 \<le> prev \<and> prev < clust_cnt v"
    and S: "no_meta S v" "buf_sect v \<notin> S"
  shows "wp (stretch_chain prev) (\<lambda>_ v'. buf_sect v' \<notin> S)
    (\<lambda>e v'. buf_sect v' \<notin> S \<and> (e \<noteq> FAT_ERR_IO \<longrightarrow>
       cache_ok ops content dinv v' \<and> lview content v' = lview content v \<and> only_cache v v')) v"
    (is "wp _ ?Q ?E v")
proof -
  define h where "h = fat.truncate v"
  have h: "geom_ok h" "no_meta S h" "clust_cnt h = clust_cnt v" "cache_out S h v"
    using g S by (simp_all add: h_def fat.truncate_def geom_ok_def in_fat_def fat_sectors_def no_meta_def
        meta_sect_def cache_out_def)
  note r = keeps_rules cache_out_get_fat[OF h(1,2)] cache_out_scan_free[OF h(1,2)] cache_out_put_fat[OF h(1,2)]
  have i: "info_sect h \<notin> S" using h(2) by (auto simp: no_meta_def meta_sect_def)
  have n: "next_clust (clust_cnt w) c < clust_cnt h" if "cache_out S h w" for c and w :: "('d, 'z) vol_scheme"
    using next_clust_lt[OF geom_ok_cnt(1)[OF h(1)]] that by (simp add: cache_out_def)
  have f: "keeps (cache_out S h) any_err (stretch_find prev :: (('d, 'z) vol_scheme, fat_err, u32) prog)"
    unfolding stretch_find_def
    by (auto intro!: keeps_bnd_gets keeps_bnd r n keeps_if split: prod.splits)
  have p: "prev < clust_cnt h" using pr geom_ok_pos[OF g] h(3) by auto
  have l: "keeps (cache_out S h) any_err (stretch_link prev n :: (('d, 'z) vol_scheme, fat_err, u32) prog)"
    if "n < clust_cnt h" for n unfolding stretch_link_def
    by (intro keeps_bnd r that p keeps_if keeps_modify cache_out_sync_fs[OF i]) simp_all
  let ?v0 = "v\<lparr>fat_flags := fat_flags v OR 2\<rparr>"
  note s0 = set_info_dirty_tframe[OF c]
  have f0: "last_used ?v0 = last_used v" "clust_cnt ?v0 = clust_cnt v" "fat_sect0 ?v0 = fat_sect0 v" by simp_all
  have g0: "geom_ok ?v0" using g geom_ok_cong[of ?v0 v] by simp
  have o0: "cache_out S h ?v0" using h(4) by simp
  have "wp (bnd (stretch_find prev) (stretch_link prev)) ?Q ?E ?v0"
  proof (rule wp_bndI[OF wp_keeps[OF stretch_find_wp[OF s0(1) g0, unfolded f0 s0(2), OF lu pr] f o0]], goal_cases)
    case (1 n v1)
    then have n: "n < clust_cnt h" and k: "kept ?v0 v1" and o: "cache_out S h v1" using h(3) by simp_all
    have o1: "only_cache ?v0 v1" and c1: "cache_ok ops content dinv v1" and i1: "info_dirty v1"
      using k s0(3) by (simp_all add: kept_def)
    note f1 = only_cache_fields[OF o1, unfolded f0]
    have g1: "geom_ok v1" using g0 only_counters_geom(1)[OF only_cache_counters[OF o1]] by simp
    have r1: "n < clust_cnt v1" "prev < clust_cnt v1" using n p f1 h(3) by simp_all
    show ?case
      by (rule wp_conseq[OF wp_keeps[OF stretch_link_wp[OF c1 g1 i1 r1] l[OF n] o]])
         (auto simp: cache_out_def)
  next
    case (2 e v1)
    then have k: "kept ?v0 v1" and o: "buf_sect v1 \<notin> S" by (auto simp: cache_out_def)
    have "only_cache v ?v0" by simp
    also have "only_cache ?v0 v1" using k by (simp add: kept_def)
    finally show ?case using s0(2) k o by (simp add: kept_def)
  qed
  then show ?thesis
    by (simp add: stretch_chain_split set_info_dirty_def wp_bnd[of "modify _"] wp_modify)
qed

end

subsection \<open>Devices that do not fail\<close>

context block_dev
begin

definition reliable :: bool where
  "reliable \<longleftrightarrow> (\<forall>d b n. dinv d \<and> length b = 512 \<longrightarrow> fst (op_read ops b n d) \<and> fst (op_write ops b n d))"

definition no_io :: "fat_err \<Rightarrow> bool" where
  "no_io e \<longleftrightarrow> (reliable \<longrightarrow> e \<noteq> FAT_ERR_IO)"

lemma reliableD:
  "reliable \<Longrightarrow> dinv d \<Longrightarrow> length b = 512 \<Longrightarrow> op_read ops b n d = (ok, r) \<Longrightarrow> ok"
  "reliable \<Longrightarrow> dinv d \<Longrightarrow> length b = 512 \<Longrightarrow> op_write ops b n d = (ok, d') \<Longrightarrow> ok"
  unfolding reliable_def by (metis fst_conv)+

lemma no_io_simps [simp]: "no_io FAT_ERR_BROKEN" "no_io FAT_ERR_FULL" "no_io (FAT_RET_FLAGS f)" "no_io FAT_ERR_EOF"
  by (simp_all add: no_io_def)

definition dev_good :: "('d, 'z) vol_scheme \<Rightarrow> bool" where
  "dev_good v \<longleftrightarrow> fat_ops v = ops \<and> dinv (dev v) \<and> length (fat_buf v) = 512"

lemma cache_ok_good: "cache_ok ops content dinv v \<Longrightarrow> dev_good v"
  by (simp add: dev_good_def cache_ok_def)

lemma dev_good_upd [simp]:
  "dev_good (v\<lparr>fat_flags := f\<rparr>) = dev_good v" "dev_good (v\<lparr>buf_sect := n\<rparr>) = dev_good v"
  "dev_good (v\<lparr>free_cnt := c\<rparr>) = dev_good v" "dev_good (v\<lparr>last_used := l\<rparr>) = dev_good v"
  by (simp_all add: dev_good_def)

lemma dev_good_file_upd [simp]: "dev_good (v\<lparr>file_clust := fc\<rparr>) = dev_good v"
  by (simp add: dev_good_def)

lemma dev_good_sync_buf: "keeps dev_good no_io sync_buf"
proof (rule keepsI)
  fix v :: "('d, 'z) vol_scheme" and r v' assume g: "dev_good v" and run: "sync_buf v = Some (r, v')"
  then have v: "fat_ops v = ops" "dinv (dev v)" "length (fat_buf v) = 512" by (simp_all add: dev_good_def)
  obtain ok d where w: "op_write ops (fat_buf v) (buf_sect v) (dev v) = (ok, d)" by (metis surj_pair)
  have "dinv d" using write_ok[OF v(2,3), of "buf_sect v" d] write_fail[OF v(2,3), of "buf_sect v" d] w
    by (cases ok) auto
  moreover have "reliable \<Longrightarrow> ok" using v w unfolding reliable_def by (metis fst_conv)
  ultimately show "dev_good v' \<and> (\<forall>e. r = Inl e \<longrightarrow> no_io e)"
    using run w v by (auto simp: sync_buf_def bnd_def gets_def modify_def throw_def ret_def disk_write_def
        dev_good_def no_io_def split: if_splits)
qed

lemma dev_good_load:
  fixes n :: u32
  shows "keeps dev_good no_io (bnd (gets (fat_buf :: ('d, 'z) vol_scheme \<Rightarrow> _)) (\<lambda>b. bnd (disk_read b n) (\<lambda>(ok, b').
       bnd (modify (\<lambda>v. v\<lparr>fat_buf := b'\<rparr>)) (\<lambda>_.
       if \<not> ok then throw FAT_ERR_IO else modify (\<lambda>v. v\<lparr>buf_sect := n\<rparr>)))))"
    (is "keeps _ _ ?m")
proof (rule keepsI)
  fix v :: "('d, 'z) vol_scheme" and r v' assume g: "dev_good v" and run: "?m v = Some (r, v')"
  then have v: "fat_ops v = ops" "dinv (dev v)" "length (fat_buf v) = 512" by (simp_all add: dev_good_def)
  obtain ok b d where w: "op_read ops (fat_buf v) n (dev v) = (ok, b, d)" by (metis surj_pair)
  have "dinv d \<and> length b = 512"
    using read_ok[OF v(2,3), of n b d] read_fail[OF v(2,3), of n b d] w v content_len by (cases ok) auto
  moreover have "reliable \<Longrightarrow> ok" using v w unfolding reliable_def by (metis fst_conv)
  ultimately show "dev_good v' \<and> (\<forall>e. r = Inl e \<longrightarrow> no_io e)"
    using run w v by (auto simp: bnd_def gets_def modify_def throw_def disk_read_def
        dev_good_def no_io_def split: if_splits)
qed

lemma dev_good_update_buf: "keeps dev_good no_io (update_buf n)"
  unfolding update_buf_def
  by (intro keeps_bnd_gets keeps_if keeps_bnd dev_good_sync_buf dev_good_load keeps_ret)

lemma dev_good_sync_fs: "keeps dev_good no_io sync_fs"
  unfolding sync_fs_def
  by (rule keeps_bnd[OF dev_good_sync_buf], rule keeps_bnd_gets, simp only: prod.case,
      intro keeps_if keeps_bnd keeps_ret dev_good_update_buf dev_good_sync_buf keeps_modify)
     (simp_all add: set_fsinfo_def dev_good_def)

lemma dev_good_get_fat: "keeps dev_good no_io (get_fat c)"
  unfolding get_fat_def
  by (rule keeps_bnd_gets, rule keeps_bnd[OF dev_good_update_buf], rule keeps_bnd_gets)
     (auto intro!: keeps_rules simp: Let_def split: prod.splits option.splits)

lemma dev_good_put_fat2: "keeps dev_good no_io (put_fat2 base c val)"
  unfolding put_fat2_def
  by (intro keeps_bnd dev_good_update_buf keeps_modify) (simp add: set_fat_item_def Let_def dev_good_def)

lemma dev_good_put_fat: "keeps dev_good no_io (put_fat c val)"
  unfolding put_fat_def
  by (rule keeps_bnd_gets, simp only: prod.case, intro keeps_bnd keeps_if dev_good_put_fat2 keeps_ret)

lemma dev_good_scan_free: "keeps dev_good no_io (scan_free c fl)"
proof -
  have "dev_good v \<longrightarrow> dev_good (snd y) \<and> (\<forall>e. fst y = Inl e \<longrightarrow> no_io e)"
    if "scan_free c fl v = Some y" for c fl v y
  proof (rule scan_free.raw_induct[OF _ that], goal_cases)
    case (1 scan c fl v y)
    have k: "keeps dev_good no_io (scan c' fl')" for c' fl'
      using 1(1) by (force simp: keeps_def)
    have "keeps dev_good no_io (\<lambda>v. bnd (gets (\<lambda>v. (clust_cnt v, last_used v))) (\<lambda>(cnt, last).
       if next_clust cnt c = last then throw FAT_ERR_FULL
       else attempt (get_fat (next_clust cnt c)) (\<lambda>r.
         case r of Inl e \<Rightarrow> throw (FAT_RET_FLAGS fl) | Inr (nxt, fl) \<Rightarrow>
           if fl AND CLUST_FREE \<noteq> 0 then ret (next_clust cnt c) else scan (next_clust cnt c) (Some fl))) v)"
      by (rule keeps_bnd_gets)
         (auto intro!: keeps_attempt[OF dev_good_get_fat] keeps_rules k split: sum.splits prod.splits)
    note K = keepsD[OF this, of v]
    obtain r t where y: "y = (r, t)" by fastforce
    show ?case using K[of r t] 1(2) unfolding y fst_conv snd_conv by blast
  qed
  then show ?thesis by (force simp: keeps_def)
qed

lemma dev_good_stretch: "keeps dev_good no_io (stretch_chain prev)"
proof -
  have "keeps dev_good no_io (set_info_dirty :: (('d, 'z) vol_scheme, fat_err, unit) prog)" unfolding set_info_dirty_def by (rule keeps_modify) simp
  moreover have "keeps dev_good no_io (stretch_find prev :: (('d, 'z) vol_scheme, fat_err, u32) prog)" unfolding stretch_find_def
    by (rule keeps_bnd_gets)
       (auto intro!: keeps_if keeps_bnd dev_good_get_fat dev_good_scan_free keeps_ret split: prod.splits)
  moreover have "keeps dev_good no_io (stretch_link prev n :: (('d, 'z) vol_scheme, fat_err, u32) prog)" for n unfolding stretch_link_def
    by (intro keeps_bnd dev_good_put_fat keeps_if keeps_ret keeps_modify dev_good_sync_fs) simp_all
  ultimately show ?thesis unfolding stretch_chain_split by (intro keeps_bnd)
qed

lemma dev_good_seek_clusters: "keeps dev_good no_io (seek_clusters n)"
proof (induction n)
  case (Suc n)
  have "keeps dev_good no_io (modify (\<lambda>v. v\<lparr>file_clust := c\<rparr>) :: (('d, 'z) fctx_scheme, fat_err, unit) prog)" for c
    by (rule keeps_modify) simp
  then show ?case using Suc
    by (auto intro!: keeps_bnd_gets keeps_bnd dev_good_get_fat dev_good_stretch keeps_rules split: prod.splits)
qed (simp add: keeps_ret)

end

subsection \<open>The sectors of a chain\<close>

definition nsect :: "('d, 'z) fat_scheme \<Rightarrow> u32 list \<Rightarrow> nat" where
  "nsect v cs = length cs * spc v"

definition chain_sect :: "('d, 'z) fat_scheme \<Rightarrow> u32 list \<Rightarrow> nat \<Rightarrow> u32" where
  "chain_sect v cs k = clust_to_sect v (cs ! (k div spc v)) + word_of_nat (k mod spc v)"

definition file_dirty :: "('d, 'z) fctx_scheme \<Rightarrow> bool" where
  "file_dirty v = bit (file_flags v) 7"

lemma flag_bit7: "((f :: u8) AND 0x80 \<noteq> 0) = bit f 7"
  using and_exp_eq_0_iff_not_bit[of f 7] by simp

lemma chain_sect_append: "k < nsect v cs \<Longrightarrow> chain_sect v (cs @ ds) k = chain_sect v cs k"
  by (simp add: chain_sect_def nsect_def nth_append div_less_iff_less_mult)

lemma nsect_append: "nsect v (cs @ ds) = nsect v cs + length ds * spc v"
  by (simp add: nsect_def add_mult_distrib)

lemma nsect_clust: "k < nsect v cs \<Longrightarrow> k div spc v < length cs"
  by (simp add: nsect_def div_less_iff_less_mult)

text \<open>Different sectors of a chain have different numbers.\<close>

lemma clust_sect_inj:
  assumes g: "data_geom v" and c: "2 \<le> c" "c < clust_cnt v" "2 \<le> d" "d < clust_cnt v"
    and j: "i < spc v" "j < spc v" and e: "clust_to_sect v c + word_of_nat i = clust_to_sect v d + word_of_nat j"
  shows "c = d \<and> i = j"
proof -
  have u: "spc v * (unat c - 2) + i = spc v * (unat d - 2) + j"
    using clust_sect_unat[OF g c(1,2) j(1)] clust_sect_unat[OF g c(3,4) j(2)] e by simp
  have "(spc v * (unat c - 2) + i) mod spc v = i" "(spc v * (unat d - 2) + j) mod spc v = j"
    "(spc v * (unat c - 2) + i) div spc v = unat c - 2" "(spc v * (unat d - 2) + j) div spc v = unat d - 2"
    using j by simp_all
  with u have "i = j" "unat c - 2 = unat d - 2" by metis+
  moreover have "2 \<le> unat c" "2 \<le> unat d" using c by (simp_all add: word_le_nat_alt)
  ultimately show ?thesis by (simp add: word_unat_eq_iff)
qed

lemma chain_sect_inj:
  assumes "data_geom v" and "fat_chain F (clust_cnt v) cs" and "clust_cnt v \<le> 0x0ffffff0"
    and "i < nsect v cs" "j < nsect v cs" and "chain_sect v cs i = chain_sect v cs j"
  shows "i = j"
proof -
  have l: "i div spc v < length cs" "j div spc v < length cs" using assms(4,5) by (simp_all add: nsect_clust)
  then have "cs ! (i div spc v) = cs ! (j div spc v) \<and> i mod spc v = j mod spc v"
    using clust_sect_inj[OF assms(1) _ _ _ _ _ _ assms(6)[unfolded chain_sect_def]] fat_chain_in[OF assms(2)] by simp
  then have "i div spc v = j div spc v" "i mod spc v = j mod spc v"
    using l fat_chain_distinct[OF assms(3,2)] nth_eq_iff_index_eq by blast+
  then show ?thesis by (metis div_mult_mod_eq)
qed

subsection \<open>Open files\<close>

text \<open>The fields of a \<open>File\<close> that moving around in it leaves alone.\<close>

definition file_meta :: "('d, 'z) fctx_scheme \<Rightarrow> u32 \<times> u16 \<times> u32 \<times> u32 \<times> u8 \<times> u8" where
  "file_meta v = (file_dir_sect v, file_dir_idx v, file_sclust v, file_size v, file_attr v, file_flags v AND 0x7f)"

definition same_layout :: "('d, 'z) fat_scheme \<Rightarrow> ('d, 'z) fat_scheme \<Rightarrow> bool" where
  "same_layout v v' \<longleftrightarrow> clust_msk v' = clust_msk v \<and> clust_shift v' = clust_shift v
     \<and> clust_cnt v' = clust_cnt v \<and> info_sect v' = info_sect v \<and> fat_sect0 v' = fat_sect0 v
     \<and> fat_sect1 v' = fat_sect1 v \<and> data_sect v' = data_sect v \<and> root_clust v' = root_clust v"

lemma same_layout_simps:
  assumes "same_layout v v'"
  shows "spc v' = spc v" "nsect v' = nsect v" "chain_sect v' = chain_sect v" "clust_to_sect v' = clust_to_sect v"
    "clust_cnt v' = clust_cnt v" "geom_ok v' = geom_ok v" "data_geom v' = data_geom v"
    "meta_sect v' = meta_sect v" "data_sect v' = data_sect v" "fat_sect0 v' = fat_sect0 v"
    "fat_copy v' = fat_copy v" "clust_size v' = clust_size v" "clust_msk v' = clust_msk v"
proof -
  note d = assms[unfolded same_layout_def]
  show s: "spc v' = spc v" using d by (simp add: spc_def)
  show "nsect v' = nsect v" using s by (simp add: nsect_def fun_eq_iff)
  show cts: "clust_to_sect v' = clust_to_sect v" using d by (simp add: clust_to_sect_def fun_eq_iff)
  then show "chain_sect v' = chain_sect v" using s by (simp add: chain_sect_def fun_eq_iff)
  show "clust_cnt v' = clust_cnt v" "data_sect v' = data_sect v" "fat_sect0 v' = fat_sect0 v"
    "clust_msk v' = clust_msk v" using d by simp_all
  show "geom_ok v' = geom_ok v" "fat_copy v' = fat_copy v" using d geom_ok_cong[of v' v] by simp_all
  show "data_geom v' = data_geom v" using d s by (simp add: data_geom_def)
  show "meta_sect v' = meta_sect v" using d by (simp add: meta_sect_def in_fat_def fat_sectors_def fun_eq_iff)
  show "clust_size v' = clust_size v" using d by (simp add: clust_size_def)
qed

lemma same_layout_trans: "same_layout u v \<Longrightarrow> same_layout v w \<Longrightarrow> same_layout u w"
  by (simp add: same_layout_def)

lemma only_counters_layout: "only_counters v v' \<Longrightarrow> same_layout v v'"
  by (simp add: same_layout_def only_counters_fields)

lemma file_fields:
  assumes "vol.more (v' :: ('d, 'z) fctx_scheme) = vol.more v"
  shows "file_fat v' = file_fat v" "file_dir_sect v' = file_dir_sect v" "file_sclust v' = file_sclust v"
    "file_clust v' = file_clust v" "file_sect v' = file_sect v" "file_size v' = file_size v"
    "file_offset v' = file_offset v" "file_dir_idx v' = file_dir_idx v" "file_attr v' = file_attr v"
    "file_flags v' = file_flags v" "file_buf v' = file_buf v" "file_meta v' = file_meta v"
    "file_dirty v' = file_dirty v"
  using assms by (cases v; cases v'; simp add: file_meta_def file_dirty_def)+

context block_dev
begin

text \<open>The sectors of the clusters the file has or could get: those on its chain and the free ones.\<close>

definition own_sects :: "('d, 'z) vol_scheme \<Rightarrow> u32 list \<Rightarrow> u32 set" where
  "own_sects v cs = {clust_to_sect v c + word_of_nat j | c j. j < spc v \<and>
     (c \<in> set cs \<or> 2 \<le> c \<and> c < clust_cnt v \<and> fat_val (lview content v) (fat_sect0 v) c = 0)}"

definition has_free :: "('d, 'z) vol_scheme \<Rightarrow> bool" where
  "has_free v \<longleftrightarrow> (\<exists>x. 2 \<le> x \<and> x < clust_cnt v \<and> fat_val (lview content v) (fat_sect0 v) x = 0)"

definition fsec :: "('d, 'z) fctx_scheme \<Rightarrow> u32 \<Rightarrow> u8 list" where
  "fsec v n = (if file_dirty v \<and> n = file_sect v then file_buf v else content (dev v) n)"

definition file_bytes :: "('d, 'z) fctx_scheme \<Rightarrow> u32 list \<Rightarrow> u8 list" where
  "file_bytes v cs = concat (map (\<lambda>k. fsec v (chain_sect v cs k)) [0..<nsect v cs])"

text \<open>The volume under an open file whose clusters are \<open>cs\<close>.\<close>

definition vol_on :: "('d, 'z) vol_scheme \<Rightarrow> u32 list \<Rightarrow> bool" where
  "vol_on v cs \<longleftrightarrow> cache_ok ops content dinv v \<and> geom_ok v \<and> data_geom v
     \<and> 2 \<le> last_used v \<and> last_used v < clust_cnt v
     \<and> (\<forall>n. meta_sect v n \<longrightarrow> unat n < unat (data_sect v))
     \<and> fat_chain (fat_val (lview content v) (fat_sect0 v)) (clust_cnt v) cs
     \<and> buf_sect v \<notin> own_sects v cs"

definition file_on :: "('d, 'z) fctx_scheme \<Rightarrow> u32 list \<Rightarrow> bool" where
  "file_on v cs \<longleftrightarrow> vol_on v cs \<and> file_fat v \<and> file_sclust v = hd cs \<and> length (file_buf v) = 512
     \<and> (file_dirty v \<longrightarrow> (\<exists>k < nsect v cs. file_sect v = chain_sect v cs k))
     \<and> (\<not> file_dirty v \<longrightarrow> file_sect v \<in> own_sects v cs \<longrightarrow> file_buf v = content (dev v) (file_sect v))"

lemma own_sectE:
  assumes "n \<in> own_sects v cs"
    and "fat_chain (fat_val (lview content v) (fat_sect0 v)) (clust_cnt v) cs"
  obtains c j where "n = clust_to_sect v c + word_of_nat j" "j < spc v" "2 \<le> c" "c < clust_cnt v"
    "c \<in> set cs \<or> fat_val (lview content v) (fat_sect0 v) c = 0"
  using assms fat_chain_in[OF assms(2)] unfolding own_sects_def by blast

lemma own_data:
  assumes "vol_on v cs" and "n \<in> own_sects v cs"
  shows "unat (data_sect v) \<le> unat n" "\<not> meta_sect v n"
proof -
  obtain c j where "n = clust_to_sect v c + word_of_nat j" "j < spc v" "2 \<le> c" "c < clust_cnt v"
    using assms own_sectE unfolding vol_on_def by metis
  then show "unat (data_sect v) \<le> unat n" using clust_sect_unat assms(1) unfolding vol_on_def by fastforce
  then show "\<not> meta_sect v n" using assms(1) unfolding vol_on_def by (meson not_less)
qed

lemma chain_sect_own: "k < nsect v cs \<Longrightarrow> chain_sect v cs k \<in> own_sects v cs"
  using nsect_clust[of k v cs] unfolding own_sects_def chain_sect_def
  by (auto intro!: exI[of _ "cs ! (k div spc v)"] exI[of _ "k mod spc v"])

lemma vol_content:
  assumes "vol_on v cs" and "n \<in> own_sects v cs"
  shows "content (dev v) n = lview content v n"
  using assms by (auto simp: vol_on_def lview_def)

text \<open>Reading the table under an open file.\<close>

lemma vol_on_kept:
  assumes v: "vol_on v cs" and k: "kept v v'" and b: "buf_sect v' \<notin> own_sects v cs"
  shows "vol_on v' cs" "own_sects v' cs = own_sects v cs" "same_layout v v'"
    "\<forall>n \<in> own_sects v cs. content (dev v') n = content (dev v) n" "free_cnt v' = free_cnt v"
    "last_used v' = last_used v" "has_free v' = has_free v"
proof -
  have o: "only_cache v v'" and l: "lview content v' = lview content v" and c: "cache_ok ops content dinv v'"
    using k by (simp_all add: kept_def)
  show s: "same_layout v v'" by (rule only_counters_layout[OF only_cache_counters[OF o]])
  note sl = same_layout_simps[OF s]
  show w: "own_sects v' cs = own_sects v cs" by (simp add: own_sects_def sl l)
  show "has_free v' = has_free v" by (simp add: has_free_def sl l)
  show f: "free_cnt v' = free_cnt v" "last_used v' = last_used v" using only_cache_fields[OF o] by simp_all
  show v': "vol_on v' cs" using v b by (simp add: vol_on_def w sl l c f)
  show "\<forall>n \<in> own_sects v cs. content (dev v') n = content (dev v) n"
    using vol_content[OF v] vol_content[OF v'] l w by simp
qed

lemma fat_of_cs:
  assumes v: "vol_on v cs" and i: "i < length cs"
  shows "wp (get_fat (cs ! i))
    (\<lambda>(val, fl) v'. kept v v' \<and> buf_sect v' \<notin> own_sects v cs
       \<and> (if Suc i < length cs then val = cs ! Suc i \<and> fl = 2 else fl = 6))
    (\<lambda>e v'. e = FAT_ERR_IO \<and> kept v v' \<and> buf_sect v' \<notin> own_sects v cs) v"
proof -
  let ?F = "fat_val (lview content v) (fat_sect0 v)"
  have c: "cache_ok ops content dinv v" and g: "geom_ok v" and ch: "fat_chain ?F (clust_cnt v) cs"
    and b: "buf_sect v \<notin> own_sects v cs"
    using v by (simp_all add: vol_on_def)
  have lt: "cs ! i < clust_cnt v" using fat_chain_in[OF ch, of "cs ! i"] i by simp
  define h where "h = fat.truncate v"
  have h: "geom_ok h" "no_meta (own_sects v cs) h" "cs ! i < clust_cnt h" "cache_out (own_sects v cs) h v"
    using g lt b own_data(2)[OF v] by (simp_all add: h_def fat.truncate_def geom_ok_def in_fat_def fat_sectors_def no_meta_def
        meta_sect_def cache_out_def)
  have n0: "fat_sect0 v + cs ! i div 128 \<noteq> 0" using fat_sector_in(2)[OF g lt, of "fat_sect0 v"] by simp
  have F: "fat_entry_flags (clust_cnt v) (?F (cs ! i)) = Some (if Suc i < length cs then 2 else 6)"
    "Suc i < length cs \<Longrightarrow> ?F (cs ! i) = cs ! Suc i"
  proof -
    show l: "?F (cs ! i) = cs ! Suc i" if "Suc i < length cs" by (rule fat_chain_link[OF ch that])
    show "fat_entry_flags (clust_cnt v) (?F (cs ! i)) = Some (if Suc i < length cs then 2 else 6)"
    proof (cases "Suc i < length cs")
      case True
      then show ?thesis using l fat_chain_in[OF ch, of "cs ! Suc i"]
        fat_entry_flags_simps(3)[OF _ _ geom_ok_cnt(2)[OF g]] by simp
    next
      case False
      then have "i = length cs - 1" using i by linarith
      then have "cs ! i = List.last cs" using i by (metis last_conv_nth length_0_conv not_less_zero)
      then show ?thesis using False fat_chain_last[OF ch] fat_entry_flags_simps(2) by simp
    qed
  qed
  show ?thesis
    by (rule wp_conseq[OF wp_keeps[OF get_fat_wp[OF c n0] cache_out_get_fat[OF h(1-3)] h(4)]])
       (use F in \<open>auto simp: cache_out_def split: if_splits\<close>)
qed

end

lemma only_cache_layout: "only_cache v v' \<Longrightarrow> same_layout v v'"
  by (simp add: only_counters_layout only_cache_counters)

context block_dev
begin

text \<open>The volume after the chain has grown by the clusters \<open>ds\<close>; the sectors that were the
  file's own or free keep their contents.\<close>

definition grown :: "('d, 'z) vol_scheme \<Rightarrow> u32 list \<Rightarrow> ('d, 'z) vol_scheme \<Rightarrow> u32 list \<Rightarrow> bool" where
  "grown v cs v' ds \<longleftrightarrow> vol_on v' (cs @ ds) \<and> same_layout v v'
     \<and> own_sects v' (cs @ ds) = own_sects v cs
     \<and> (\<forall>n \<in> own_sects v cs. content (dev v') n = content (dev v) n)
     \<and> free_cnt v' = free_cnt v - word_of_nat (length ds)
     \<and> (ds \<noteq> [] \<or> has_free v' \<longrightarrow> has_free v)"

lemma grown_refl: "vol_on v cs \<Longrightarrow> grown v cs v []"
  by (simp add: grown_def same_layout_def)

lemma grown_kept: "vol_on v cs \<Longrightarrow> kept v v' \<Longrightarrow> buf_sect v' \<notin> own_sects v cs \<Longrightarrow> grown v cs v' []"
  using vol_on_kept[of v cs v'] by (simp add: grown_def)

lemma own_sects_mono: "set cs \<subseteq> set cs' \<Longrightarrow> own_sects v cs \<subseteq> own_sects v cs'"
  unfolding own_sects_def by blast

lemma chain_own_in: "set cs \<subseteq> set cs' \<Longrightarrow> k < nsect v cs \<Longrightarrow> chain_sect v cs k \<in> own_sects v cs'"
  using chain_sect_own own_sects_mono by blast

lemma grown_step:
  assumes v: "vol_on v cs"
    and s: "vframe v v'" "synced v'" "stretched v (List.last cs) n v'" "last_used v' = n"
    and f: "free_cnt v' = free_cnt v - 1"
    and n: "2 \<le> n" "n < clust_cnt v" "fat_val (lview content v) (fat_sect0 v) n = 0"
    and b: "buf_sect v' \<notin> own_sects v cs"
  shows "grown v cs v' [n]"
proof -
  let ?F = "fat_val (lview content v) (fat_sect0 v)" and ?F' = "fat_val (lview content v') (fat_sect0 v)"
  have ch: "fat_chain ?F (clust_cnt v) cs" and g: "geom_ok v" using v by (simp_all add: vol_on_def)
  have o: "only_counters v v'" and c: "cache_ok ops content dinv v'" using s(1) by (simp_all add: vframe_def)
  have sl: "same_layout v v'" by (rule only_counters_layout[OF o])
  note sl' = same_layout_simps[OF sl]
  have ne: "cs \<noteq> []" using ch by auto
  have "2 \<le> List.last cs" using fat_chain_in[OF ch, of "List.last cs"] ne by simp
  then have l0: "List.last cs \<noteq> 0" by auto
  have F': "?F' x = (if x = List.last cs then n else if x = n then 0x0fffffff else ?F x)"
    if "x < clust_cnt v" for x
    using s(3) fat_copy0[of v] that l0 by (simp add: stretched_def)
  have ch': "fat_chain ?F' (clust_cnt v) (cs @ [n])"
    by (rule fat_chain_extend[OF ch n(1,2) free_not_in_chain[OF ch n(3,1)]
          fat_chain_distinct[OF geom_ok_cnt(2)[OF g] ch] F'])
  have own: "own_sects v' (cs @ [n]) = own_sects v cs"
  proof (intro equalityI subsetI)
    fix y assume "y \<in> own_sects v' (cs @ [n])"
    then obtain c j where y: "y = clust_to_sect v c + word_of_nat j" "j < spc v"
      and c: "c \<in> set (cs @ [n]) \<or> 2 \<le> c \<and> c < clust_cnt v \<and> ?F' c = 0"
      unfolding own_sects_def sl' by blast
    have "c \<in> set cs \<or> 2 \<le> c \<and> c < clust_cnt v \<and> ?F c = 0"
      using c n F'[of c] by (auto split: if_splits)
    with y show "y \<in> own_sects v cs" unfolding own_sects_def by blast
  next
    fix y assume "y \<in> own_sects v cs"
    then obtain c j where y: "y = clust_to_sect v c + word_of_nat j" "j < spc v"
      and c: "c \<in> set cs \<or> 2 \<le> c \<and> c < clust_cnt v \<and> ?F c = 0" by (auto simp: own_sects_def)
    have "c \<noteq> List.last cs" if "?F c = 0" "2 \<le> c"
      using free_not_in_chain[OF ch that] ne by auto
    then have "c \<in> set (cs @ [n]) \<or> 2 \<le> c \<and> c < clust_cnt v \<and> ?F' c = 0"
      using c F'[of c] by auto
    with y show "y \<in> own_sects v' (cs @ [n])" unfolding own_sects_def sl' by blast
  qed
  have con: "\<forall>m \<in> own_sects v cs. content (dev v') m = content (dev v) m"
    using vol_content[OF v] own_data(2)[OF v] synced_content[OF s(2)] vframe_data[OF s(1)] by simp
  have "vol_on v' (cs @ [n])" using v b c ch' own n s(4) unfolding vol_on_def sl' by auto
  moreover have "has_free v" unfolding has_free_def using n by blast
  ultimately show ?thesis using sl own con f by (simp add: grown_def)
qed

lemma stretch_file_wp:
  assumes v: "vol_on v cs"
  shows "wp (stretch_chain (List.last cs))
    (\<lambda>n v'. grown v cs v' [n] \<and> vol.more v' = vol.more v)
    (\<lambda>e v'. (e \<noteq> FAT_ERR_IO \<longrightarrow> grown v cs v' [] \<and> vol.more v' = vol.more v)
       \<and> (e = FAT_ERR_FULL \<longrightarrow> (\<forall>x. 2 \<le> x \<and> x < clust_cnt v \<and> x \<noteq> last_used v \<longrightarrow>
            fat_val (lview content v) (fat_sect0 v) x \<noteq> 0))) v"
proof -
  have c: "cache_ok ops content dinv v" and g: "geom_ok v" and lu: "2 \<le> last_used v" "last_used v < clust_cnt v"
    and ch: "fat_chain (fat_val (lview content v) (fat_sect0 v)) (clust_cnt v) cs"
    and b: "buf_sect v \<notin> own_sects v cs" using v by (simp_all add: vol_on_def)
  have "cs \<noteq> []" using ch by auto
  then have pr: "List.last cs = 0 \<or> 2 \<le> List.last cs \<and> List.last cs < clust_cnt v"
    using fat_chain_in[OF ch, of "List.last cs"] by simp
  have S: "no_meta (own_sects v cs) v" using own_data(2)[OF v] by (simp add: no_meta_def)
  show ?thesis
  proof (rule wp_conseq[OF wp_conj[OF stretch_chain_wp[OF c g lu pr] stretch_chain_out_wp[OF c g lu pr S b]]],
      goal_cases)
    case (1 n v')
    then have "vol.more v' = vol.more v" by (simp add: vframe_def only_counters_fields)
    with 1 show ?case using grown_step[OF v] by simp
  next
    case (2 e v')
    then have full: "e = FAT_ERR_FULL \<longrightarrow> (\<forall>x. 2 \<le> x \<and> x < clust_cnt v \<and> x \<noteq> last_used v \<longrightarrow>
            fat_val (lview content v) (fat_sect0 v) x \<noteq> 0)" by auto
    have m: "vol.more v' = vol.more v" using 2 by (simp add: vframe_def only_counters_fields)
    have "grown v cs v' []" if "e \<noteq> FAT_ERR_IO"
    proof -
      have o: "cache_ok ops content dinv v'" "lview content v' = lview content v" "only_cache v v'"
        "buf_sect v' \<notin> own_sects v cs" using 2 that by simp_all
      note sl = same_layout_simps[OF only_cache_layout[OF o(3)]]
      note f = only_cache_fields[OF o(3)]
      have own: "own_sects v' cs = own_sects v cs" unfolding own_sects_def sl o(2) ..
      have v': "vol_on v' cs" using v o sl f own unfolding vol_on_def by simp
      have "\<forall>m \<in> own_sects v cs. content (dev v') m = content (dev v) m"
        using vol_content[OF v] vol_content[OF v'] own o(2) by simp
      moreover have "has_free v' = has_free v" unfolding has_free_def sl o(2) ..
      ultimately show ?thesis using v' own f only_cache_layout[OF o(3)] by (simp add: grown_def)
    qed
    with m full show ?case by simp
  qed
qed

subsection \<open>Walking along the chain of a file\<close>

lemma grown_trans:
  assumes "grown u cs v ds" and "grown v (cs @ ds) w es"
  shows "grown u cs w (ds @ es)"
proof -
  have "free_cnt w = free_cnt u - word_of_nat (length (ds @ es))"
    using assms by (simp add: grown_def)
  then show ?thesis using assms same_layout_trans[of u v w] unfolding grown_def by simp
qed

lemma lview_file_upd [simp]:
  "lview content (v\<lparr>file_clust := c\<rparr>) = lview content v" "lview content (v\<lparr>file_sect := s\<rparr>) = lview content v"
  "lview content (v\<lparr>file_offset := p\<rparr>) = lview content v" "lview content (v\<lparr>file_flags := f\<rparr>) = lview content v"
  "lview content (v\<lparr>file_buf := b\<rparr>) = lview content v" "lview content (v\<lparr>file_size := z\<rparr>) = lview content v"
  by (auto simp: lview_def fun_eq_iff)

lemma own_upd [simp]:
  "own_sects (v\<lparr>file_clust := c\<rparr>) cs = own_sects v cs" "own_sects (v\<lparr>file_sect := s\<rparr>) cs = own_sects v cs"
  "own_sects (v\<lparr>file_offset := p\<rparr>) cs = own_sects v cs" "own_sects (v\<lparr>file_flags := f\<rparr>) cs = own_sects v cs"
  "own_sects (v\<lparr>file_buf := b\<rparr>) cs = own_sects v cs" "own_sects (v\<lparr>file_size := z\<rparr>) cs = own_sects v cs"
  by (simp_all add: own_sects_def spc_def clust_to_sect_def)

lemma has_free_upd [simp]:
  "has_free (v\<lparr>file_clust := c\<rparr>) = has_free v" "has_free (v\<lparr>file_sect := s\<rparr>) = has_free v"
  "has_free (v\<lparr>file_offset := p\<rparr>) = has_free v" "has_free (v\<lparr>file_flags := f\<rparr>) = has_free v"
  "has_free (v\<lparr>file_buf := b\<rparr>) = has_free v" "has_free (v\<lparr>file_size := z\<rparr>) = has_free v"
  by (simp_all add: has_free_def)

lemma vol_on_upd [simp]:
  "vol_on (v\<lparr>file_clust := c\<rparr>) cs = vol_on v cs" "vol_on (v\<lparr>file_sect := s\<rparr>) cs = vol_on v cs"
  "vol_on (v\<lparr>file_offset := p\<rparr>) cs = vol_on v cs" "vol_on (v\<lparr>file_flags := f\<rparr>) cs = vol_on v cs"
  "vol_on (v\<lparr>file_buf := b\<rparr>) cs = vol_on v cs" "vol_on (v\<lparr>file_size := z\<rparr>) cs = vol_on v cs"
  by (simp_all add: vol_on_def cache_ok_def buf_dirty_def geom_ok_def in_fat_def
      fat_sectors_def data_geom_def spc_def meta_sect_def)

lemma same_layout_upd [simp]:
  "same_layout u (v\<lparr>file_clust := c\<rparr>) = same_layout u v" "same_layout u (v\<lparr>file_sect := s\<rparr>) = same_layout u v"
  "same_layout u (v\<lparr>file_offset := p\<rparr>) = same_layout u v" "same_layout u (v\<lparr>file_flags := f\<rparr>) = same_layout u v"
  "same_layout u (v\<lparr>file_buf := b\<rparr>) = same_layout u v" "same_layout u (v\<lparr>file_size := z\<rparr>) = same_layout u v"
  "same_layout (u\<lparr>file_clust := c\<rparr>) v = same_layout u v" "same_layout (u\<lparr>file_sect := s\<rparr>) v = same_layout u v"
  "same_layout (u\<lparr>file_offset := p\<rparr>) v = same_layout u v" "same_layout (u\<lparr>file_flags := f\<rparr>) v = same_layout u v"
  "same_layout (u\<lparr>file_buf := b\<rparr>) v = same_layout u v" "same_layout (u\<lparr>file_size := z\<rparr>) v = same_layout u v"
  by (simp_all add: same_layout_def)

lemma grown_upd [simp]:
  "grown u cs (v\<lparr>file_clust := c\<rparr>) ds = grown u cs v ds" "grown u cs (v\<lparr>file_sect := s\<rparr>) ds = grown u cs v ds"
  "grown u cs (v\<lparr>file_offset := p\<rparr>) ds = grown u cs v ds" "grown u cs (v\<lparr>file_flags := f\<rparr>) ds = grown u cs v ds"
  "grown u cs (v\<lparr>file_buf := b\<rparr>) ds = grown u cs v ds" "grown u cs (v\<lparr>file_size := z\<rparr>) ds = grown u cs v ds"
  "grown (u\<lparr>file_clust := c\<rparr>) cs v ds = grown u cs v ds" "grown (u\<lparr>file_sect := s\<rparr>) cs v ds = grown u cs v ds"
  "grown (u\<lparr>file_offset := p\<rparr>) cs v ds = grown u cs v ds" "grown (u\<lparr>file_flags := f\<rparr>) cs v ds = grown u cs v ds"
  "grown (u\<lparr>file_buf := b\<rparr>) cs v ds = grown u cs v ds" "grown (u\<lparr>file_size := z\<rparr>) cs v ds = grown u cs v ds"
  by (simp_all add: grown_def)

end

text \<open>Everything of the \<open>File\<close>, of the \<open>Dir\<close> and of the globals but the current cluster.\<close>

definition file_rest :: "('d, 'z) fctx_scheme \<Rightarrow> ('d, 'z) fctx_scheme \<Rightarrow> bool" where
  "file_rest v v' \<longleftrightarrow> vol.more (v'\<lparr>file_clust := 0\<rparr>) = vol.more (v\<lparr>file_clust := 0\<rparr>)"

lemma file_rest_trans: "file_rest u v \<Longrightarrow> file_rest v w \<Longrightarrow> file_rest u w"
  by (simp add: file_rest_def)

lemma file_rest_upd [simp]: "file_rest u (v\<lparr>file_clust := c\<rparr>) = file_rest u v"
  by (simp add: file_rest_def)

lemma file_rest_more: "vol.more v' = vol.more v \<Longrightarrow> file_rest v (v' :: ('d, 'z) fctx_scheme)"
  by (cases v; cases v'; simp add: file_rest_def)

lemma file_rest_fields:
  assumes "file_rest v v'"
  shows "file_fat v' = file_fat v" "file_dir_sect v' = file_dir_sect v" "file_sclust v' = file_sclust v"
    "file_sect v' = file_sect v" "file_size v' = file_size v" "file_offset v' = file_offset v"
    "file_dir_idx v' = file_dir_idx v" "file_attr v' = file_attr v"
    "file_flags v' = file_flags v" "file_buf v' = file_buf v" "file_meta v' = file_meta v"
    "file_dirty v' = file_dirty v"
  using file_fields[OF assms[unfolded file_rest_def]] by (simp_all add: file_meta_def file_dirty_def)

context block_dev
begin

lemma seek_clusters_wp:
  assumes v: "vol_on v cs" and i: "i < length cs" "file_clust v = cs ! i"
  shows "wp (seek_clusters n)
    (\<lambda>_ v'. \<exists>ds. grown v cs v' ds \<and> file_rest v v' \<and> length ds = Suc (i + n) - length cs
       \<and> file_clust v' = (cs @ ds) ! (i + n))
    (\<lambda>e v'. (i + n < length cs \<longrightarrow> e = FAT_ERR_IO)
       \<and> (e \<noteq> FAT_ERR_IO \<longrightarrow> (\<exists>ds. grown v cs v' ds \<and> file_rest v v' \<and> length cs + length ds \<le> i + n
            \<and> file_clust v' = List.last (cs @ ds)))) v"
  using assms
proof (induction n arbitrary: v cs i)
  case 0
  have "grown v cs v []" using 0 grown_refl[of v cs] by simp
  then show ?case using 0 by (auto simp: wp_ret file_rest_more intro!: exI[of _ "[]"])
next
  case (Suc n)
  note v = Suc.prems(1) and i = Suc.prems(2,3)
  let ?Q = "\<lambda>_ v'. \<exists>ds. grown v cs v' ds \<and> file_rest v v' \<and> length ds = Suc (i + Suc n) - length cs
       \<and> file_clust v' = (cs @ ds) ! (i + Suc n)"
  let ?E = "\<lambda>e v'. (i + Suc n < length cs \<longrightarrow> e = FAT_ERR_IO)
       \<and> (e \<noteq> FAT_ERR_IO \<longrightarrow> (\<exists>ds. grown v cs v' ds \<and> file_rest v v' \<and> length cs + length ds \<le> i + Suc n
            \<and> file_clust v' = List.last (cs @ ds)))"
  have step: "wp (bnd (modify (\<lambda>v. v\<lparr>file_clust := nxt\<rparr>)) (\<lambda>_. seek_clusters n)) ?Q ?E v1"
    if g: "grown v cs v1 ds" and r: "file_rest v v1" and l: "length ds = Suc (Suc i) - length cs"
      and nx: "nxt = (cs @ ds) ! Suc i" for v1 ds nxt
  proof -
    let ?v2 = "v1\<lparr>file_clust := nxt\<rparr>"
    have "vol_on ?v2 (cs @ ds)" using g by (simp add: grown_def)
    moreover have "Suc i < length (cs @ ds)" using l i by simp
    ultimately have "wp (seek_clusters n) ?Q ?E ?v2"
    proof (intro wp_conseq[OF Suc.IH[of ?v2 "cs @ ds" "Suc i"]], goal_cases)
      case (4 x v3)
      then obtain es where es: "grown ?v2 (cs @ ds) v3 es" "file_rest ?v2 v3"
        "length es = Suc (Suc i + n) - length (cs @ ds)" "file_clust v3 = ((cs @ ds) @ es) ! (Suc i + n)" by blast
      have "grown v cs v3 (ds @ es)" using grown_trans[of v cs ?v2 ds] g es(1) by simp
      moreover have "file_rest v v3" using file_rest_trans[of v ?v2] r es(2) by simp
      ultimately show ?case using es(3,4) l by (intro exI[of _ "ds @ es"]) simp
    next
      case (5 e v3)
      show ?case
      proof (intro conjI impI)
        assume "i + Suc n < length cs"
        then show "e = FAT_ERR_IO" using 5 l by simp
      next
        assume "e \<noteq> FAT_ERR_IO"
        then obtain es where es: "grown ?v2 (cs @ ds) v3 es" "file_rest ?v2 v3"
          "length (cs @ ds) + length es \<le> Suc i + n" "file_clust v3 = List.last ((cs @ ds) @ es)" using 5 by blast
        have "grown v cs v3 (ds @ es)" using grown_trans[of v cs ?v2 ds] g es(1) by simp
        moreover have "file_rest v v3" using file_rest_trans[of v ?v2] r es(2) by simp
        ultimately show "\<exists>ds. grown v cs v3 ds \<and> file_rest v v3 \<and> length cs + length ds \<le> i + Suc n
            \<and> file_clust v3 = List.last (cs @ ds)" using es(3,4) by (intro exI[of _ "ds @ es"]) simp
      qed
    qed (simp_all add: nx)
    then show ?thesis by (simp add: wp_bnd[of "modify _"] wp_modify)
  qed
  have "wp (bnd (get_fat (cs ! i)) (\<lambda>(nxt, flags).
     if flags AND (CLUST_BAD OR CLUST_FREE) \<noteq> 0 then throw FAT_ERR_BROKEN
     else
       bnd (if flags AND CLUST_LAST \<noteq> 0 then stretch_chain (cs ! i) else ret nxt) (\<lambda>nxt.
       bnd (modify (\<lambda>v. v\<lparr>file_clust := nxt\<rparr>)) (\<lambda>_. seek_clusters n)))) ?Q ?E v"
  proof (rule wp_bndI[OF fat_of_cs[OF v i(1)]], goal_cases)
    case (1 r v1)
    obtain val fl where r: "r = (val, fl)" by fastforce
    have k: "kept v v1" "buf_sect v1 \<notin> own_sects v cs" using 1 r by simp_all
    have g: "grown v cs v1 []" by (rule grown_kept[OF v k])
    have m: "vol.more v1 = vol.more v" using k(1) by (simp add: kept_def only_cache_fields)
    show ?case
    proof (cases "Suc i < length cs")
      case True
      then have "val = cs ! Suc i" "fl = 2" using 1 r by simp_all
      then show ?thesis using step[OF g file_rest_more[OF m], of val] True r by simp
    next
      case False
      then have fl: "fl = 6" using 1 r by simp
      have e: "length cs = Suc i" using i False by simp
      then have l: "cs ! i = List.last cs" by (metis last_conv_nth diff_Suc_1 length_0_conv nat.simps(3))
      have v1: "vol_on v1 cs" using g by (simp add: grown_def)
      have "wp (bnd (stretch_chain (List.last cs)) (\<lambda>nxt. bnd (modify (\<lambda>v. v\<lparr>file_clust := nxt\<rparr>)) (\<lambda>_. seek_clusters n)))
        ?Q ?E v1"
      proof (rule wp_bndI[OF stretch_file_wp[OF v1]], goal_cases)
        case (1 nx v2)
        then have "grown v cs v2 [nx]" "file_rest v v2"
          using grown_trans[OF g, of v2 "[nx]"] file_rest_more[of v2 v] m by simp_all
        then show ?case using step[of v2 "[nx]" nx] e by (simp add: nth_append)
      next
        case (2 e' v2)
        have "grown v cs v2 [] \<and> file_rest v v2" if "e' \<noteq> FAT_ERR_IO"
          using 2 that grown_trans[OF g, of v2 "[]"] file_rest_more[of v2 v] m by simp
        moreover have "file_clust v2 = List.last cs" if "e' \<noteq> FAT_ERR_IO"
          using file_fields(4)[of v2 v] 2 that m i l by simp
        ultimately show ?case using e by (auto intro!: exI[of _ "[]"])
      qed
      then show ?thesis using r fl l by simp
    qed
  next
    case (2 e v1)
    then show ?case by simp
  qed
  then show ?case by (simp only: seek_clusters.simps wp_bnd[of "gets _"] wp_gets i(2))
qed

end

end
