(* ===== verification/Fat_Seek.thy ===== *)
theory Fat_Seek
  imports Fat_Bytes
begin

text \<open>
  Moving in a file: the state of an open \<open>File\<close> that stands at an offset (\<open>file_at\<close>,
  \<open>file_loaded\<close>), writing its buffer back and loading another sector (\<open>file_swap\<close>), and
  \<open>fat_file_seek\<close>: it keeps the bytes of the file (\<open>moved\<close>) and extends the chain when the
  offset lies behind its end.
\<close>

subsection \<open>Offsets\<close>

lemma clust_size_unat: "data_geom v \<Longrightarrow> unat (clust_size v) = 512 * spc v"
proof -
  assume g: "data_geom v"
  have "spc v \<le> 2 ^ 7" unfolding spc_def using g by (intro power_increasing) (simp_all add: data_geom_def)
  then have "512 * spc v < 2 ^ 32" by simp
  moreover have "clust_size v = word_of_nat (512 * spc v)"
    by (simp add: clust_size_def spc_def push_bit_eq_mult)
  ultimately show ?thesis by (simp only: unat_of_nat) simp
qed

lemma clust_of_offset: "data_geom v \<Longrightarrow> unat (off div clust_size v) = unat off div 512 div spc v"
  by (simp only: unat_div clust_size_unat div_mult2_eq)

lemma sect_of_offset:
  assumes "data_geom v"
  shows "((off :: u32) div 512) AND clust_msk v = word_of_nat (unat off div 512 mod spc v)"
proof -
  let ?n = "unat (clust_shift v)"
  have "clust_msk v = Bit_Operations.mask ?n"
    using assms by (simp add: data_geom_def spc_def mask_eq_exp_minus_1 of_nat_diff)
  then have "(off div 512) AND clust_msk v = take_bit ?n (off div 512)" by (simp add: take_bit_eq_mask)
  then have "unat ((off div 512) AND clust_msk v) = unat off div 512 mod spc v"
    by (simp only: unsigned_take_bit_eq take_bit_nat_def spc_def unat_div) simp
  then have "word_of_nat (unat ((off div 512) AND clust_msk v)) = (word_of_nat (unat off div 512 mod spc v) :: u32)"
    by (simp only:)
  then show ?thesis by simp
qed

lemma unat_word_of_int: "0 \<le> x \<Longrightarrow> x < 2 ^ 32 \<Longrightarrow> unat (word_of_int x :: u32) = nat x"
  by (simp add: unat_eq_nat_uint unsigned_of_int take_bit_int_eq_self)

lemma div_512_less: "(p :: nat) < 512 * n \<longleftrightarrow> p div 512 < n"
  by (simp add: div_less_iff_less_mult mult.commute)

context block_dev
begin

subsection \<open>Positions\<close>

text \<open>The \<open>File\<close> stands at the byte \<open>file_offset\<close>; \<open>file_loaded\<close>: its buffer holds the sector of it.\<close>

definition file_at :: "('d, 'z) fctx_scheme \<Rightarrow> u32 list \<Rightarrow> bool" where
  "file_at v cs \<longleftrightarrow> file_on v cs \<and> unat (file_offset v) < 512 * nsect v cs
     \<and> file_clust v = cs ! (unat (file_offset v) div 512 div spc v)"

definition file_loaded :: "('d, 'z) fctx_scheme \<Rightarrow> u32 list \<Rightarrow> bool" where
  "file_loaded v cs \<longleftrightarrow> file_at v cs \<and> file_sect v = chain_sect v cs (unat (file_offset v) div 512)"

text \<open>The file after an operation that does not change its bytes; its chain may have grown.\<close>

definition moved :: "('d, 'z) fctx_scheme \<Rightarrow> u32 list \<Rightarrow> ('d, 'z) fctx_scheme \<Rightarrow> u32 list \<Rightarrow> bool" where
  "moved v cs v' ds \<longleftrightarrow> file_on v' (cs @ ds) \<and> same_layout v v'
     \<and> own_sects v' (cs @ ds) = own_sects v cs
     \<and> (\<forall>n \<in> own_sects v cs. fsec v' n = fsec v n)
     \<and> free_cnt v' = free_cnt v - word_of_nat (length ds) \<and> file_meta v' = file_meta v
     \<and> (ds \<noteq> [] \<or> has_free v' \<longrightarrow> has_free v)"

lemma moved_trans:
  assumes "moved u cs v ds" and "moved v (cs @ ds) w es"
  shows "moved u cs w (ds @ es)"
proof -
  have "free_cnt w = free_cnt u - word_of_nat (length (ds @ es))"
    using assms by (simp add: moved_def)
  then show ?thesis using assms same_layout_trans[of u v w] unfolding moved_def by simp
qed

lemma moved_bytes:
  assumes "moved v cs v' ds"
  shows "file_bytes v' (cs @ ds) = file_bytes v (cs @ ds)"
proof -
  have s: "same_layout v v'" and f: "\<forall>n \<in> own_sects v cs. fsec v' n = fsec v n"
    and o: "own_sects v' (cs @ ds) = own_sects v cs" using assms by (simp_all add: moved_def)
  have "fsec v' (chain_sect v (cs @ ds) k) = fsec v (chain_sect v (cs @ ds) k)" if "k < nsect v (cs @ ds)" for k
    using f o chain_sect_own[of k v' "cs @ ds"] that by (simp add: same_layout_simps[OF s])
  then show ?thesis
    by (auto simp: file_bytes_def same_layout_simps[OF s] intro!: arg_cong[where f = concat])
qed

lemma grown_moved:
  assumes g: "grown v cs v' ds" and v: "file_on v cs"
    and f: "file_fat v' = file_fat v" "file_sclust v' = file_sclust v" "file_sect v' = file_sect v"
      "file_buf v' = file_buf v" "file_meta v' = file_meta v" "file_dirty v' = file_dirty v"
  shows "moved v cs v' ds"
proof -
  have s: "same_layout v v'" and o: "own_sects v' (cs @ ds) = own_sects v cs"
    and c: "\<forall>n \<in> own_sects v cs. content (dev v') n = content (dev v) n" and vo: "vol_on v' (cs @ ds)"
    and fc: "free_cnt v' = free_cnt v - word_of_nat (length ds)" "ds \<noteq> [] \<or> has_free v' \<longrightarrow> has_free v"
    using g by (simp_all add: grown_def)
  note sl = same_layout_simps[OF s]
  have ne: "cs \<noteq> []" using v by (auto simp: file_on_def vol_on_def)
  have d: "\<exists>k < nsect v (cs @ ds). file_sect v = chain_sect v (cs @ ds) k" if "file_dirty v"
    using v that chain_sect_append[of _ v cs ds] nsect_append[of v cs ds] unfolding file_on_def
    by (metis trans_less_add1)
  have "file_on v' (cs @ ds)" unfolding file_on_def f sl
    using vo v d c o ne unfolding file_on_def by auto
  then show ?thesis using s o c fc f by (simp add: moved_def fsec_def)
qed

subsection \<open>Swapping the buffer\<close>

text \<open>A device that has changed in sectors of the file only.\<close>

lemma vol_on_dev:
  assumes v: "vol_on v cs" and d: "dinv d" and e: "\<And>n. n \<notin> own_sects v cs \<Longrightarrow> content d n = content (dev v) n"
  shows "vol_on (v\<lparr>dev := d\<rparr>) cs" "own_sects (v\<lparr>dev := d\<rparr>) cs = own_sects v cs"
    "has_free (v\<lparr>dev := d\<rparr>) = has_free v"
proof -
  let ?v = "v\<lparr>dev := d\<rparr>" and ?F = "fat_val (lview content v) (fat_sect0 v)"
  have b: "buf_sect v \<notin> own_sects v cs" and g: "geom_ok v" and ch: "fat_chain ?F (clust_cnt v) cs"
    using v by (simp_all add: vol_on_def)
  have l: "lview content ?v n = lview content v n" if "n \<notin> own_sects v cs" for n
    using e[OF that] by (auto simp: lview_def)
  have F: "fat_val (lview content ?v) (fat_sect0 v) x = ?F x" if "x < clust_cnt v" for x
  proof -
    have "meta_sect v (fat_sect0 v + x div 128)"
      using fat_sector_in(1)[OF g that, of "fat_sect0 v"] by (simp add: meta_sect_def)
    then have "fat_sect0 v + x div 128 \<notin> own_sects v cs" using own_data(2)[OF v] by blast
    then show ?thesis using l by (simp add: fat_val_def fat_ent_def)
  qed
  show "has_free ?v = has_free v" using F by (auto simp: has_free_def)
  have "(c \<in> set cs \<or> 2 \<le> c \<and> c < clust_cnt v \<and> fat_val (lview content ?v) (fat_sect0 v) c = 0)
    = (c \<in> set cs \<or> 2 \<le> c \<and> c < clust_cnt v \<and> ?F c = 0)" for c using F by auto
  then show o: "own_sects ?v cs = own_sects v cs"
    by (simp add: own_sects_def spc_def clust_to_sect_def)
  have "fat_chain (fat_val (lview content ?v) (fat_sect0 v)) (clust_cnt v) cs"
    using ch fat_chain_cong[of cs "fat_val (lview content ?v) (fat_sect0 v)" ?F] F fat_chain_in[OF ch] by simp
  then show "vol_on ?v cs"
    using v b d e o by (simp add: vol_on_def cache_ok_def buf_dirty_def geom_ok_def in_fat_def fat_sectors_def
        data_geom_def spc_def meta_sect_def)
qed

lemma file_swap_wp:
  assumes v: "vol_on v cs" and l: "length (file_buf v) = 512"
    and s: "file_dirty v \<Longrightarrow> ssect \<in> own_sects v cs"
  shows "wp (file_swap ssect)
    (\<lambda>_ v'. vol_on v' cs \<and> same_layout v v' \<and> own_sects v' cs = own_sects v cs
       \<and> has_free v' = has_free v \<and> \<not> file_dirty v'
       \<and> length (file_buf v') = 512 \<and> file_buf v' = content (dev v') (file_sect v)
       \<and> (\<forall>n \<in> own_sects v cs. content (dev v') n
            = (if file_dirty v \<and> n = ssect then file_buf v else content (dev v) n))
       \<and> free_cnt v' = free_cnt v \<and> file_meta v' = file_meta v \<and> file_fat v' = file_fat v
       \<and> file_sclust v' = file_sclust v \<and> file_clust v' = file_clust v \<and> file_sect v' = file_sect v
       \<and> file_offset v' = file_offset v)
    (\<lambda>e _. e = FAT_ERR_IO \<and> \<not> reliable) v"
proof -
  have ops: "fat_ops v = ops" "dinv (dev v)" using v by (simp_all add: vol_on_def cache_ok_def)
  have clean: "(file_flags v AND NOT FAT_FILE_DIRTY) AND 0x7f = file_flags v AND 0x7f"
    "\<not> bit (file_flags v AND NOT FAT_FILE_DIRTY) 7"
    using bit_and_iff[of "file_flags v" "NOT FAT_FILE_DIRTY" 7] by (simp_all add: and.assoc bit_simps)
  text \<open>the load that follows, from a state that is clean\<close>
  have load: "wp (bnd (gets (\<lambda>v. (file_buf v, file_sect v))) (\<lambda>(fb, s).
       bnd (disk_read fb s) (\<lambda>(ok, fb').
       bnd (modify (\<lambda>v. v\<lparr>file_buf := fb'\<rparr>)) (\<lambda>_. if \<not> ok then throw FAT_ERR_IO else ret ()))))
     (\<lambda>_ v'. \<exists>d. v' = w\<lparr>dev := d, file_buf := content (dev w) (file_sect w)\<rparr> \<and> dinv d \<and> content d = content (dev w))
     (\<lambda>e _. e = FAT_ERR_IO \<and> \<not> reliable) w"
    if w: "fat_ops w = ops" "dinv (dev w)" "length (file_buf w) = 512" for w :: "('d, 'z) fctx_scheme"
  proof -
    obtain ok b d where r: "op_read ops (file_buf w) (file_sect w) (dev w) = (ok, b, d)" by (metis surj_pair)
    have k: "ok \<Longrightarrow> b = content (dev w) (file_sect w) \<and> content d = content (dev w) \<and> dinv d"
      using read_ok[OF w(2,3), of "file_sect w" b d] r by simp
    have nr: "\<not> ok \<Longrightarrow> \<not> reliable" using reliableD(1)[OF _ w(2,3) r] by blast
    have "wp (bnd (gets (\<lambda>v. (file_buf v, file_sect v))) (\<lambda>(fb, s).
       bnd (disk_read fb s) (\<lambda>(ok, fb').
       bnd (modify (\<lambda>v. v\<lparr>file_buf := fb'\<rparr>)) (\<lambda>_. if \<not> ok then throw FAT_ERR_IO else ret ())))) Q E w
      = (if ok then Q () (w\<lparr>dev := d, file_buf := b\<rparr>) else E FAT_ERR_IO (w\<lparr>dev := d, file_buf := b\<rparr>))" for Q E
      using r w(1) by (simp add: wp_def bnd_def gets_def modify_def throw_def ret_def disk_read_def)
    then show ?thesis using k nr by auto
  qed
  text \<open>writing the buffer back\<close>
  let ?Q1 = "\<lambda>_ w. \<exists>d f. w = v\<lparr>dev := d, file_flags := f\<rparr> \<and> dinv d \<and> f AND 0x7f = file_flags v AND 0x7f \<and> \<not> bit f 7
       \<and> content d = (if file_dirty v then (content (dev v))(ssect := file_buf v) else content (dev v))"
  have save: "wp (if file_flags v AND FAT_FILE_DIRTY \<noteq> 0 then
            bnd (disk_write (file_buf v) ssect) (\<lambda>ok.
            if \<not> ok then throw FAT_ERR_IO
            else modify (\<lambda>v. v\<lparr>file_flags := file_flags v AND NOT FAT_FILE_DIRTY\<rparr>))
          else ret ()) ?Q1 (\<lambda>e _. e = FAT_ERR_IO \<and> \<not> reliable) v"
  proof (cases "file_dirty v")
    case False
    then have "?Q1 () v" using ops(2)
      by (intro exI[of _ "dev v"] exI[of _ "file_flags v"]) (simp add: file_dirty_def)
    then show ?thesis using False by (simp add: flag_bit7 file_dirty_def[symmetric] wp_ret)
  next
    case True
    obtain ok d where r: "op_write ops (file_buf v) ssect (dev v) = (ok, d)" by (metis surj_pair)
    have w: "ok \<Longrightarrow> content d = (content (dev v))(ssect := file_buf v) \<and> dinv d"
      using write_ok[OF ops(2) l, of ssect d] r by simp
    have rl: "reliable \<Longrightarrow> ok" using reliableD(2)[OF _ ops(2) l r] .
    have run: "wp (bnd (disk_write (file_buf v) ssect) (\<lambda>ok. if \<not> ok then throw FAT_ERR_IO
        else modify (\<lambda>v. v\<lparr>file_flags := file_flags v AND NOT FAT_FILE_DIRTY\<rparr>))) Q E v
      = (if ok then Q () (v\<lparr>dev := d, file_flags := file_flags v AND NOT FAT_FILE_DIRTY\<rparr>)
         else E FAT_ERR_IO (v\<lparr>dev := d\<rparr>))" for Q E
      using r ops(1) by (simp add: wp_def bnd_def modify_def throw_def disk_write_def)
    have D: "file_flags v AND FAT_FILE_DIRTY \<noteq> 0" using True by (simp only: flag_bit7 file_dirty_def)
    have q: "?Q1 () (v\<lparr>dev := d, file_flags := file_flags v AND NOT FAT_FILE_DIRTY\<rparr>)" if ok
      using w[OF that] clean True
      by (intro exI[of _ d] exI[of _ "file_flags v AND NOT FAT_FILE_DIRTY"]) (simp only: if_True simp_thms)
    show ?thesis unfolding if_P[OF D] run using q rl by (cases ok) (simp_all only: if_True if_False, blast)
  qed
  show ?thesis
    unfolding file_swap_def wp_bnd[of "gets (\<lambda>v. (file_flags v, file_buf v))"] wp_gets prod.case
  proof (rule wp_bndI[OF save], goal_cases)
    case (1 x w)
    then obtain d f where w: "w = v\<lparr>dev := d, file_flags := f\<rparr>" and d: "dinv d"
      and f: "f AND 0x7f = file_flags v AND 0x7f" "\<not> bit f 7"
      and cd: "content d = (if file_dirty v then (content (dev v))(ssect := file_buf v) else content (dev v))"
      by blast
    have "fat_ops w = ops" "dinv (dev w)" "length (file_buf w) = 512" using w ops d l by simp_all
    from load[OF this] show ?case
    proof (rule wp_conseq, goal_cases)
      case (1 y v')
      then obtain d' where v': "v' = w\<lparr>dev := d', file_buf := content (dev w) (file_sect w)\<rparr>"
        and d': "dinv d'" "content d' = content (dev w)" by blast
      have o: "content d' n = content (dev v) n" if "n \<notin> own_sects v cs" for n
        using that d'(2) w cd s by auto
      note vd = vol_on_dev[OF v d'(1) o]
      have e: "v' = v\<lparr>dev := d', file_flags := f, file_buf := content (dev w) (file_sect w)\<rparr>"
        using v' w by simp
      have "own_sects v' cs = own_sects v cs" "vol_on v' cs" "same_layout v v'" "has_free v' = has_free v"
        using vd unfolding e by (simp_all add: same_layout_def)
      moreover have "length (file_buf v') = 512" using v' w d content_len by simp
      ultimately show ?case using e f d' cd w by (auto simp: file_dirty_def file_meta_def)
    qed
  qed
qed

text \<open>The end of a seek, when the chain has been walked: the buffer changes its sector.\<close>

lemma seek_swap_wp:
  assumes on: "file_on v cs" and gv: "grown v cs v1 ds" and l5: "length (file_buf v) = 512"
    and f1: "file_fat v1 = file_fat v" "file_sclust v1 = file_sclust v" "file_buf v1 = file_buf v"
      "file_meta v1 = file_meta v" "file_dirty v1 = file_dirty v"
    and s: "s = chain_sect v (cs @ ds) k" and k: "k < nsect v (cs @ ds)"
  shows "wp (if s \<noteq> file_sect v then file_swap (file_sect v) else ret ())
    (\<lambda>_ v'. moved v cs v' ds \<and> file_sect v' = s \<and> file_offset v' = off \<and> file_clust v' = file_clust v1)
    (\<lambda>e v'. e = FAT_ERR_IO \<and> \<not> reliable) (v1\<lparr>file_sect := s, file_offset := off\<rparr>)" (is "wp _ ?Q ?E ?v2")
proof (cases "s = file_sect v")
  case True
  have "moved v cs ?v2 ds"
    by (rule grown_moved[OF _ on]) (use gv f1 True in \<open>simp_all add: file_meta_def file_dirty_def\<close>)
  then show ?thesis using True by (simp add: wp_ret)
next
  case False
  have vo: "vol_on v cs" and ff: "file_fat v" and hd: "file_sclust v = hd cs" and ne: "cs \<noteq> []"
    using on by (auto simp: file_on_def vol_on_def)
  have sl: "same_layout v v1" using gv by (simp add: grown_def)
  have own: "own_sects ?v2 (cs @ ds) = own_sects v cs" using gv by (simp add: grown_def)
  have v2: "vol_on ?v2 (cs @ ds)" using gv by (simp add: grown_def)
  have b2: "length (file_buf ?v2) = 512" using f1 l5 by simp
  have d2: "file_sect v \<in> own_sects ?v2 (cs @ ds)" if "file_dirty ?v2"
  proof -
    have "file_dirty v" using that f1 by (simp add: file_dirty_def)
    then show ?thesis unfolding own using on chain_sect_own unfolding file_on_def by metis
  qed
  have "wp (file_swap (file_sect v)) ?Q ?E ?v2"
  proof (rule wp_conseq[OF file_swap_wp[OF v2 b2 d2]], goal_cases)
    case 1 then show ?case by simp
  next
    case (2 x v')
    have so: "s \<in> own_sects v cs"
      using chain_sect_own[of k v "cs @ ds"] chain_sect_own[of k ?v2 "cs @ ds"] s own k
        same_layout_simps(2,3)[of v ?v2] sl by simp
    have w: "same_layout v v'" using 2 sl same_layout_trans[of v ?v2 v'] by simp
    have fb: "file_fat v' = file_fat v" "file_sclust v' = file_sclust v" "file_meta v' = file_meta v"
      "file_sect v' = s" "free_cnt v' = free_cnt v - word_of_nat (length ds)"
      using 2 f1 gv by (simp_all add: file_meta_def grown_def)
    have "length (file_buf v') = 512" "vol_on v' (cs @ ds)" "\<not> file_dirty v'"
      "file_buf v' = content (dev v') (file_sect v')" using 2 fb(4) by auto
    then have "file_on v' (cs @ ds)" unfolding file_on_def using ff hd fb(1,2) ne by simp
    moreover have "fsec v' n = fsec v n" if "n \<in> own_sects v cs" for n
      using 2 that own f1 gv by (auto simp: fsec_def grown_def file_dirty_def)
    moreover have "ds \<noteq> [] \<or> has_free v' \<longrightarrow> has_free v" using 2 gv by (simp add: grown_def)
    ultimately have "moved v cs v' ds" using 2 own w fb by (simp add: moved_def)
    then show ?case using 2 fb(4) by simp
  qed (simp add: no_io_def)
  then show ?thesis using False by simp
qed

lemma fat_file_seek_wp:
  assumes at: "file_at v cs" and b: "0 \<le> seek_base w v + offset" "seek_base w v + offset < 2 ^ 32"
    and t: "t = nat (seek_base w v + offset)"
  shows "wp (fat_file_seek offset w)
    (\<lambda>_ v'. \<exists>ds. moved v cs v' ds \<and> file_loaded v' (cs @ ds) \<and> unat (file_offset v') = t
       \<and> length ds = Suc (t div 512 div spc v) - length cs)
    (\<lambda>e v'. no_io e \<and> (t < 512 * nsect v cs \<longrightarrow> e = FAT_ERR_IO)
       \<and> (e \<noteq> FAT_ERR_IO \<longrightarrow> (\<exists>ds. grown v cs v' ds \<and> file_rest v v' \<and> file_clust v' = List.last (cs @ ds)
            \<and> length cs + length ds \<le> t div 512 div spc v))) v"
    (is "wp _ ?Q ?E v")
proof -
  have on: "file_on v cs" and lt: "unat (file_offset v) < 512 * nsect v cs"
    and fc: "file_clust v = cs ! (unat (file_offset v) div 512 div spc v)"
    using at by (simp_all add: file_at_def)
  have vo: "vol_on v cs" and ff: "file_fat v" and l5: "length (file_buf v) = 512" and hd: "file_sclust v = hd cs"
    using on by (simp_all add: file_on_def)
  have g: "data_geom v" and ne: "cs \<noteq> []" using vo by (auto simp: vol_on_def)
  define off where "off = (word_of_int (seek_base w v + offset) :: u32)"
  have off: "unat off = t"
    using unat_word_of_int[OF b] t by (simp only: off_def)
  define D where "D = t div 512 div spc v"
  define S where "S = unat (file_offset v) div 512 div spc v"
  have S: "S < length cs" using lt unfolding S_def div_512_less nsect_def by (simp add: div_less_iff_less_mult)
  have D: "t < 512 * nsect v cs \<longleftrightarrow> D < length cs"
    unfolding D_def div_512_less nsect_def by (simp add: div_less_iff_less_mult)
  have du: "unat (off div clust_size v) = D" "unat (file_offset v div clust_size v) = S"
    using clust_of_offset[OF g] off by (simp_all add: D_def S_def)
  have ds: "off div clust_size v < file_offset v div clust_size v \<longleftrightarrow> D < S"
    by (simp only: word_less_nat_alt du)
  define i where "i = (if D < S then 0 else S)"
  define v0 where "v0 = (if D < S then v\<lparr>file_clust := file_sclust v,
      file_sect := clust_to_sect v (file_sclust v), file_offset := 0\<rparr> else v)"
  have cnt: "D < S \<Longrightarrow> unat (off div clust_size v - 0) = D - i"
    "\<not> D < S \<Longrightarrow> unat (off div clust_size v - file_offset v div clust_size v) = D - i"
    using du by (simp_all add: i_def unat_sub word_le_nat_alt)
  let ?tl = "\<lambda>_. bnd (modify (\<lambda>v. v\<lparr>file_sect := clust_to_sect v (file_clust v) + ((off div 512) AND clust_msk v),
                            file_offset := off\<rparr>)) (\<lambda>_.
          bnd (gets file_sect) (\<lambda>s. if s \<noteq> file_sect v then file_swap (file_sect v) else ret ()))"
  have "\<not> seek_base w v + offset < 0" "\<not> seek_base w v + offset > 0xffffffff" using b by simp_all
  then have unfold: "wp (fat_file_seek offset w) ?Q ?E v = wp (bnd (seek_clusters (D - i)) ?tl) ?Q ?E v0"
    using ff unfolding fat_file_seek_def v0_def
    by (cases "D < S")
       (simp_all only: wp_bnd[of "gets _"] wp_gets prod.case if_False if_True not_True_eq_False simp_thms Let_def
        off_def[symmetric] ds cnt wp_bnd[of "modify _"] wp_bnd[of "ret _"] wp_modify wp_ret)
  have v0: "vol_on v0 cs" "i < length cs" "file_clust v0 = cs ! i" "i \<le> D"
    using vo S fc ne hd by (simp_all add: v0_def i_def hd_conv_nth S_def)
  have gd: "dev_good v0" using v0(1) cache_ok_good[of v0] by (simp add: vol_on_def)
  have iD: "i + (D - i) = D" using v0(4) by simp
  have "wp (bnd (seek_clusters (D - i)) ?tl) ?Q ?E v0"
  proof (rule wp_bndI[OF wp_keeps[OF seek_clusters_wp[OF v0(1-3), of "D - i", unfolded iD] dev_good_seek_clusters gd]], goal_cases)
    case (1 x v1)
    then obtain ds where g1: "grown v0 cs v1 ds" and r1: "file_rest v0 v1"
      and l1: "length ds = Suc D - length cs" and c1: "file_clust v1 = (cs @ ds) ! D" by blast
    have gv: "grown v cs v1 ds" using g1 by (simp add: v0_def split: if_splits)
    have sl: "same_layout v v1" using gv by (simp add: grown_def)
    note sl1 = same_layout_simps[OF sl]
    have f1: "file_fat v1 = file_fat v" "file_sclust v1 = file_sclust v" "file_buf v1 = file_buf v"
      "file_meta v1 = file_meta v" "file_dirty v1 = file_dirty v"
      using file_rest_fields[OF r1] by (simp_all add: v0_def file_meta_def file_dirty_def)
    define s where "s = clust_to_sect v1 (file_clust v1) + ((off div 512) AND clust_msk v1)"
    let ?v2 = "v1\<lparr>file_sect := s, file_offset := off\<rparr>"
    have s: "s = chain_sect v (cs @ ds) (t div 512)"
      using c1 sect_of_offset[OF g, of off] off by (simp add: s_def sl1 chain_sect_def D_def)
    have lD: "D < length (cs @ ds)" using l1 by simp
    then have tl: "t < 512 * nsect v (cs @ ds)"
      unfolding D_def div_512_less nsect_def by (simp add: div_less_iff_less_mult)
    have fin: "?Q () v'" if m: "moved v cs v' ds" and "file_sect v' = s" "file_offset v' = off" "file_clust v' = file_clust v1" for v'
    proof -
      have "same_layout v v'" "file_on v' (cs @ ds)" using m by (simp_all add: moved_def)
      then have "file_loaded v' (cs @ ds)"
        using that s off c1 tl by (simp add: file_loaded_def file_at_def same_layout_simps D_def)
      then show ?thesis using m that off l1 by (auto simp: D_def)
    qed
    have k: "t div 512 < nsect v (cs @ ds)" using tl by (simp add: div_512_less)
    have "wp (if s \<noteq> file_sect v then file_swap (file_sect v) else ret ()) ?Q ?E ?v2"
      by (rule wp_conseq[OF seek_swap_wp[OF on gv l5 f1 s k]]) (use fin in \<open>auto simp: no_io_def\<close>)
    then show ?case by (simp add: wp_bnd[of "modify _"] wp_bnd[of "gets _"] wp_modify wp_gets s_def)
  next
    case (2 e v1)
    then have "v0 = v" if "e \<noteq> FAT_ERR_IO" using S that D_def by (auto simp: v0_def)
    with 2 show ?case using D by (auto simp: D_def)
  qed
  then show ?thesis using unfold by simp
qed

end

end
