(* ===== verification/Fat_Access.thy ===== *)
theory Fat_Access
  imports Fat_Seek
begin

text \<open>
  Reading and writing open files.  A file is the list of the bytes of its chain up to its size
  (\<open>file_data\<close>): \<open>fat_file_read\<close> returns the slice at the offset, \<open>fat_file_write\<close> replaces it and
  extends the chain where it has to.
\<close>

subsection \<open>Bytes of sectors\<close>

lemma concat_block:
  "\<forall>x \<in> set xs. length x = B \<Longrightarrow> k < length xs \<Longrightarrow> take B (drop (B * k) (concat xs)) = xs ! k"
proof (induction xs arbitrary: k)
  case (Cons x xs)
  then show ?case by (cases k) simp_all
qed simp

lemma length_concat_block: "\<forall>x \<in> set xs. length x = B \<Longrightarrow> length (concat xs) = B * length xs"
  by (induction xs) simp_all

lemma slice_concat:
  assumes "\<forall>x \<in> set xs. length x = B" and "k < length xs" and "i + c \<le> B"
  shows "slice (concat xs) (B * k + i) c = slice (xs ! k) i c"
proof -
  have "slice (xs ! k) i c = take c (drop i (take B (drop (B * k) (concat xs))))"
    by (simp only: concat_block[OF assms(1,2)] slice_def)
  also have "\<dots> = take c (drop (B * k + i) (concat xs))"
    using assms(3) by (simp add: drop_take min_def add.commute)
  finally show ?thesis by (simp add: slice_def)
qed

lemma slice_add: "slice b i (m + n) = slice b i m @ slice b (i + m) n"
  by (simp add: slice_def take_add add.commute)

lemma slice_0 [simp]: "slice b i 0 = []"
  by (simp add: slice_def)

lemma slice_append: "i + n \<le> length b \<Longrightarrow> slice (b @ c) i n = slice b i n"
  by (simp add: slice_def)

lemma grow_sum:
  fixes a b l x y :: nat
  shows "a \<le> b \<Longrightarrow> x = Suc a - l \<Longrightarrow> y = Suc b - (l + x) \<Longrightarrow> x + y = Suc b - l"
  by linarith

lemma seek_fwd:
  "p + c < 2 ^ 32 \<Longrightarrow> 0 \<le> int p + int c \<and> int p + int c < 2 ^ 32 \<and> p + c = nat (int p + int c)"
  by (simp add: nat_int_add)

context block_dev
begin

lemma fsec_len: "file_on v cs \<Longrightarrow> length (fsec v n) = 512"
  using content_len by (auto simp: file_on_def fsec_def vol_on_def cache_ok_def)

lemma file_bytes_len: "file_on v cs \<Longrightarrow> length (file_bytes v ds) = 512 * nsect v ds"
  unfolding file_bytes_def by (subst length_concat_block[of _ 512]) (auto simp: fsec_len)

lemma file_bytes_append:
  "\<exists>bs. file_bytes v (cs @ ds) = file_bytes v cs @ bs"
proof -
  let ?m = "length ds * spc v" and ?f = "\<lambda>k. fsec v (chain_sect v (cs @ ds) k)"
  have "[0..<nsect v (cs @ ds)] = [0..<nsect v cs] @ [nsect v cs..<nsect v cs + ?m]"
    unfolding nsect_append by (rule upt_add_eq_append) simp
  moreover have "map ?f [0..<nsect v cs] = map (\<lambda>k. fsec v (chain_sect v cs k)) [0..<nsect v cs]"
    by (auto simp: chain_sect_append)
  ultimately show ?thesis unfolding file_bytes_def by (metis map_append concat_append)
qed

lemma fsec_loaded: "file_loaded v cs \<Longrightarrow> fsec v (file_sect v) = file_buf v"
  using chain_sect_own[of "unat (file_offset v) div 512" v cs]
  by (auto simp: file_loaded_def file_at_def file_on_def fsec_def div_512_less)

lemma loaded_slice:
  assumes l: "file_loaded v cs" and c: "unat (file_offset v) mod 512 + c \<le> 512"
  shows "slice (file_buf v) (unat (file_offset v) mod 512) c = slice (file_bytes v cs) (unat (file_offset v)) c"
proof -
  let ?o = "unat (file_offset v)" and ?xs = "map (\<lambda>k. fsec v (chain_sect v cs k)) [0..<nsect v cs]"
  have on: "file_on v cs" and lt: "?o div 512 < nsect v cs"
    using l by (simp_all add: file_loaded_def file_at_def div_512_less)
  have k: "?xs ! (?o div 512) = file_buf v" using l lt fsec_loaded[OF l] by (simp add: file_loaded_def)
  have "slice (concat ?xs) (512 * (?o div 512) + ?o mod 512) c = slice (?xs ! (?o div 512)) (?o mod 512) c"
    by (rule slice_concat[OF _ _ c]) (use fsec_len[OF on] lt in auto)
  then show ?thesis unfolding k file_bytes_def by simp
qed

subsection \<open>Reading\<close>

text \<open>The number of bytes a read of \<open>len\<close> bytes gets.\<close>

definition read_cnt :: "('d, 'z) fctx_scheme \<Rightarrow> nat \<Rightarrow> nat" where
  "read_cnt v len = min len (unat (file_size v) - unat (file_offset v))"

lemma file_read_loop_wp:
  assumes "file_loaded v cs" and "unat (file_offset v) + read_cnt v len \<le> 512 * nsect v cs"
  shows "wp (file_read_loop len acc)
    (\<lambda>bs v'. bs = acc @ slice (file_bytes v cs) (unat (file_offset v)) (read_cnt v len)
       \<and> (\<exists>ds. moved v cs v' ds \<and> file_loaded v' (cs @ ds)
         \<and> unat (file_offset v') = unat (file_offset v) + read_cnt v len
         \<and> length ds = Suc (unat (file_offset v') div 512 div spc v) - length cs))
    (\<lambda>(e, bs) v'. no_io e \<and> (unat (file_offset v) + read_cnt v len < 512 * nsect v cs \<longrightarrow> e = FAT_ERR_IO)
       \<and> (\<exists>m \<le> read_cnt v len. bs = acc @ slice (file_bytes v cs) (unat (file_offset v)) m)) v"
  using assms
proof (induction len arbitrary: v cs acc rule: less_induct)
  case (less len)
  note l = less.prems(1) and cap = less.prems(2)
  let ?o = "unat (file_offset v)" and ?n = "read_cnt v len"
  have on: "file_on v cs" and at: "file_at v cs" and lt: "?o < 512 * nsect v cs"
    using l by (simp_all add: file_loaded_def file_at_def)
  let ?Q = "\<lambda>bs v'. bs = acc @ slice (file_bytes v cs) ?o ?n
       \<and> (\<exists>ds. moved v cs v' ds \<and> file_loaded v' (cs @ ds) \<and> unat (file_offset v') = ?o + ?n
         \<and> length ds = Suc (unat (file_offset v') div 512 div spc v) - length cs)"
  let ?E = "\<lambda>(e, bs) v'. no_io e \<and> (?o + ?n < 512 * nsect v cs \<longrightarrow> e = FAT_ERR_IO)
       \<and> (\<exists>m \<le> ?n. bs = acc @ slice (file_bytes v cs) ?o m)"
  show ?case
  proof (cases "len = 0 \<or> \<not> file_offset v < file_size v")
    case True
    then have n: "?n = 0" by (auto simp: read_cnt_def word_less_nat_alt)
    have "moved v cs v []" using on by (simp add: moved_def same_layout_def)
    moreover have "?o div 512 div spc v < length cs"
      using lt unfolding div_512_less nsect_def by (simp add: div_less_iff_less_mult)
    ultimately show ?thesis using True n l
      by (subst file_read_loop.simps) (auto simp: wp_bnd[of "gets _"] wp_gets wp_ret intro!: exI[of _ "[]"])
  next
    case False
    then have len: "0 < len" and os: "?o < unat (file_size v)" by (simp_all add: word_less_nat_alt)
    have sub: "unat (file_size v - file_offset v) = unat (file_size v) - ?o"
      using os by (simp add: unat_sub word_le_nat_alt)
    define c where "c = min len (min (512 - ?o mod 512) (unat (file_size v) - ?o))"
    have c: "0 < c" "c \<le> len" "?o mod 512 + c \<le> 512" "c \<le> ?n" "?o + c \<le> unat (file_size v)"
      using len os by (auto simp: c_def read_cnt_def)
    have fs: "unat (file_size v) < 2 ^ 32" using unsigned_less[of "file_size v"] by simp
    have mod: "unat (file_offset v mod 512) = ?o mod 512" by (simp add: unat_mod)
    have sb: "seek_base FAT_SEEK_CURR v = int ?o" by (simp add: seek_base_def)
    have t: "0 \<le> seek_base FAT_SEEK_CURR v + int c" "seek_base FAT_SEEK_CURR v + int c < 2 ^ 32"
      "?o + c = nat (seek_base FAT_SEEK_CURR v + int c)"
      using seek_fwd[of ?o c] le_less_trans[OF c(5) fs] unfolding sb by blast+
    let ?a = "acc @ slice (file_buf v) (?o mod 512) c"
    have a: "?a = acc @ slice (file_bytes v cs) ?o c" using loaded_slice[OF l c(3)] by simp
    have "wp (attempt (fat_file_seek (int c) FAT_SEEK_CURR) (\<lambda>r. case r of
        Inl e \<Rightarrow> throw (e, ?a) | Inr _ \<Rightarrow> file_read_loop (len - c) ?a)) ?Q ?E v"
    proof (rule wp_attemptI[OF fat_file_seek_wp[OF at t]], goal_cases)
      case (1 x v1)
      then obtain ds where m: "moved v cs v1 ds" and l1: "file_loaded v1 (cs @ ds)"
        and o1: "unat (file_offset v1) = ?o + c" and d: "length ds = Suc ((?o + c) div 512 div spc v) - length cs" by blast
      have sl: "same_layout v v1" and z: "file_size v1 = file_size v" using m by (simp_all add: moved_def file_meta_def)
      note sl1 = same_layout_simps[OF sl]
      have r1: "read_cnt v1 (len - c) = ?n - c" using z o1 by (simp add: read_cnt_def min_def)
      have n: "?o + c + (?n - c) = ?o + ?n" using c(4) by simp
      have cap1: "unat (file_offset v1) + read_cnt v1 (len - c) \<le> 512 * nsect v1 (cs @ ds)"
        using cap o1 r1 n nsect_append[of v cs ds] by (simp add: sl1)
      have sc: "slice (file_bytes v1 (cs @ ds)) (?o + c) k = slice (file_bytes v cs) (?o + c) k"
        if "k \<le> ?n - c" for k
      proof -
        obtain bs where "file_bytes v (cs @ ds) = file_bytes v cs @ bs" using file_bytes_append by blast
        then show ?thesis using that n cap file_bytes_len[OF on, of cs]
          by (simp add: moved_bytes[OF m] slice_append)
      qed
      have ln: "len - c < len" using c len by simp
      have "wp (file_read_loop (len - c) ?a) ?Q ?E v1"
      proof (rule wp_conseq[OF less.IH[OF ln l1 cap1, of ?a]], goal_cases)
        case (1 bs v2)
        then obtain es where m2: "moved v1 (cs @ ds) v2 es" "file_loaded v2 ((cs @ ds) @ es)"
          and o2: "unat (file_offset v2) = ?o + ?n"
          and e: "length es = Suc (unat (file_offset v2) div 512 div spc v1) - length (cs @ ds)"
          using r1 o1 n by auto
        have bs: "bs = acc @ slice (file_bytes v cs) ?o ?n"
          using 1 sc[of "?n - c"] r1 o1 slice_add[of "file_bytes v cs" ?o c "?n - c"] c(4) by (simp add: a)
        have "?o + c \<le> ?o + ?n" using c by simp
        then have "(?o + c) div 512 div spc v \<le> (?o + ?n) div 512 div spc v" by (intro div_le_mono)
        then have "length (ds @ es) = Suc (unat (file_offset v2) div 512 div spc v) - length cs"
          using grow_sum[OF _ d] e unfolding o2 sl1 length_append by blast
        then show ?case using bs o2 moved_trans[OF m m2(1)] m2(2) by (intro conjI exI[of _ "ds @ es"]) simp_all
      next
        case (2 eb v2)
        obtain e bs where eb: "eb = (e, bs)" by fastforce
        obtain k where k: "k \<le> ?n - c" "bs = ?a @ slice (file_bytes v1 (cs @ ds)) (?o + c) k"
          using 2 r1 o1 eb by auto
        then have "bs = acc @ slice (file_bytes v cs) ?o (c + k)"
          using sc[OF k(1)] slice_add[of "file_bytes v cs" ?o c k] by (simp add: a)
        moreover have "c + k \<le> ?n" using k c by simp
        moreover have "?o + ?n < 512 * nsect v cs \<longrightarrow> e = FAT_ERR_IO"
          using 2 r1 o1 n nsect_append[of v cs ds] eb by (auto simp: sl1)
        moreover have "no_io e" using 2 eb by simp
        ultimately show ?case using eb by auto
      qed
      then show ?case by simp
    next
      case (2 e v1)
      then show ?case using c(4) a by (auto simp: wp_throw)
    qed
    then show ?thesis
      by (subst file_read_loop.simps)
         (simp only: wp_bnd[of "gets _"] wp_gets prod.case if_not_P[OF False] Let_def sub mod c_def)
  qed
qed

end

subsection \<open>Writing\<close>

lemma put_slice_append1: "i + length xs \<le> length b \<Longrightarrow> put_slice (b @ c) i xs = put_slice b i xs @ c"
  by (simp add: put_slice_def)

lemma put_slice_append2: "put_slice (b @ c) (length b + i) xs = b @ put_slice c i xs"
  by (simp add: put_slice_def)

lemma put_slice_concat:
  "\<forall>x \<in> set xs. length x = B \<Longrightarrow> k < length xs \<Longrightarrow> i + length bs \<le> B \<Longrightarrow>
   put_slice (concat xs) (B * k + i) bs = concat (xs[k := put_slice (xs ! k) i bs])"
proof (induction xs arbitrary: k)
  case (Cons x xs)
  show ?case
  proof (cases k)
    case 0
    then show ?thesis using Cons.prems put_slice_append1[of i bs x] by simp
  next
    case (Suc l)
    then have "put_slice (concat xs) (B * l + i) bs = concat (xs[l := put_slice (xs ! l) i bs])"
      using Cons by simp
    then show ?thesis using put_slice_append2[of x "concat xs" "B * l + i" bs] Cons.prems(1) Suc
      by (simp add: add.assoc)
  qed
qed simp

lemma put_slice_twice:
  assumes "i + length xs + length ys \<le> length b"
  shows "put_slice (put_slice b i xs) (i + length xs) ys = put_slice b i (xs @ ys)"
  by (rule nth_equalityI) (use assms in \<open>auto simp: nth_put_slice nth_append\<close>)

lemma put_slice_nil [simp]: "put_slice b i [] = b"
  by (simp add: put_slice_def)

lemma last_clust_div: "0 < s \<Longrightarrow> Suc k = n * s \<Longrightarrow> k div s = n - (1 :: nat)"
proof -
  assume s: "0 < s" "Suc k = n * s"
  then obtain m where n: "n = Suc m" by (cases n) auto
  then have "s * m \<le> k" "k < s * Suc m" using s by (simp_all add: algebra_simps)
  then show ?thesis using n div_nat_eqI[of s m k] by simp
qed

lemma sect_bound: "p mod 512 + c \<le> 512 \<Longrightarrow> p + c \<le> 512 * Suc (p div 512)" for p :: nat
proof -
  have "p = 512 * (p div 512) + p mod 512" by simp
  then show "p mod 512 + c \<le> 512 \<Longrightarrow> p + c \<le> 512 * Suc (p div 512)" unfolding mult_Suc_right by linarith
qed

lemma dirty_bits:
  "bit ((f :: u8) OR 0x80) 7" "(f OR 0x80) AND 0x7f = f AND 0x7f"
  using bit_or_iff[of f "0x80" 7] by (simp_all add: bit_simps bit.conj_disj_distrib2)

context block_dev
begin

text \<open>What an operation on an open file keeps, its bytes aside.\<close>

definition file_frame :: "('d, 'z) fctx_scheme \<Rightarrow> u32 list \<Rightarrow> ('d, 'z) fctx_scheme \<Rightarrow> u32 list \<Rightarrow> bool" where
  "file_frame v cs v' ds \<longleftrightarrow> file_on v' (cs @ ds) \<and> same_layout v v'
     \<and> own_sects v' (cs @ ds) = own_sects v cs \<and> free_cnt v' = free_cnt v - word_of_nat (length ds)
     \<and> file_meta v' = file_meta v \<and> (ds \<noteq> [] \<or> has_free v' \<longrightarrow> has_free v)"

lemma moved_frame: "moved v cs v' ds \<Longrightarrow> file_frame v cs v' ds"
  by (simp add: moved_def file_frame_def)

lemma frame_trans:
  assumes "file_frame u cs v ds" and "file_frame v (cs @ ds) w es"
  shows "file_frame u cs w (ds @ es)"
proof -
  have "free_cnt w = free_cnt u - word_of_nat (length (ds @ es))"
    using assms by (simp add: file_frame_def)
  then show ?thesis using assms same_layout_trans[of u v w] unfolding file_frame_def by auto
qed

lemma frame_refl: "file_on v cs \<Longrightarrow> file_frame v cs v []"
  by (simp add: file_frame_def same_layout_def)

lemma bytes_cong:
  assumes "same_layout v v'" and "\<And>k. k < nsect v es \<Longrightarrow> fsec v' (chain_sect v es k) = fsec v (chain_sect v es k)"
  shows "file_bytes v' es = file_bytes v es"
  using assms(2) by (auto simp: file_bytes_def same_layout_simps[OF assms(1)] intro!: arg_cong[where f = concat])

text \<open>The sectors of a chain that a later state has.\<close>

lemma frame_own: "file_frame v cs v' ds \<Longrightarrow> k < nsect v (cs @ ds) \<Longrightarrow> chain_sect v (cs @ ds) k \<in> own_sects v cs"
  using chain_sect_own[of k v' "cs @ ds"] same_layout_simps(2,3)[of v v'] by (simp add: file_frame_def)

lemma frame_inj:
  assumes "file_frame v cs v' ds" and "i < nsect v (cs @ ds)" "j < nsect v (cs @ ds)"
    and "chain_sect v (cs @ ds) i = chain_sect v (cs @ ds) j"
  shows "i = j"
proof -
  have s: "same_layout v v'" and o: "file_on v' (cs @ ds)" using assms(1) by (simp_all add: file_frame_def)
  have g: "data_geom v'" "clust_cnt v' \<le> 0x0ffffff0"
    "fat_chain (fat_val (lview content v') (fat_sect0 v')) (clust_cnt v') (cs @ ds)"
    using o geom_ok_cnt(2)[of v'] by (simp_all add: file_on_def vol_on_def)
  from chain_sect_inj[OF g(1,3,2)] assms(2-4) show ?thesis by (simp add: same_layout_simps[OF s])
qed

text \<open>Storing into the buffer.\<close>

definition store :: "nat \<Rightarrow> u8 list \<Rightarrow> ('d, 'z) fctx_scheme \<Rightarrow> ('d, 'z) fctx_scheme" where
  "store idx bs v = v\<lparr>file_buf := put_slice (file_buf v) idx bs, file_flags := file_flags v OR FAT_FILE_DIRTY\<rparr>"

lemma store_loaded:
  assumes l: "file_loaded v cs"
  shows "file_loaded (store idx bs v) cs" "file_frame v cs (store idx bs v) []"
    "file_offset (store idx bs v) = file_offset v"
proof -
  have d: "file_dirty (store idx bs v)" by (simp add: store_def file_dirty_def dirty_bits(1))
  have lay: "same_layout v (store idx bs v)" by (simp add: store_def same_layout_def)
  have lt: "unat (file_offset v) div 512 < nsect v cs" and fs: "file_sect v = chain_sect v cs (unat (file_offset v) div 512)"
    using l by (simp_all add: file_loaded_def file_at_def div_512_less)
  have "vol_on (store idx bs v) cs = vol_on v cs" "file_fat (store idx bs v) = file_fat v"
    "file_sclust (store idx bs v) = file_sclust v" "file_sect (store idx bs v) = file_sect v"
    "length (file_buf (store idx bs v)) = length (file_buf v)" by (simp_all add: store_def)
  then have on: "file_on (store idx bs v) cs"
    using l d lt fs unfolding file_on_def file_loaded_def file_at_def same_layout_simps[OF lay] by auto
  then show "file_loaded (store idx bs v) cs"
    using l unfolding file_loaded_def file_at_def same_layout_simps[OF lay] by (simp add: store_def)
  show "file_frame v cs (store idx bs v) []"
    using on lay by (simp add: file_frame_def store_def file_meta_def dirty_bits(2))
qed (simp add: store_def)

lemma store_bytes:
  assumes l: "file_loaded v cs" and f: "file_frame v cs v' ds"
    and c: "unat (file_offset v) mod 512 + length bs \<le> 512"
  shows "file_bytes (store (unat (file_offset v) mod 512) bs v) (cs @ ds)
    = put_slice (file_bytes v (cs @ ds)) (unat (file_offset v)) bs"
proof -
  let ?o = "unat (file_offset v)" and ?v1 = "store (unat (file_offset v) mod 512) bs v"
  let ?k = "?o div 512" and ?n = "nsect v (cs @ ds)" and ?S = "chain_sect v (cs @ ds)"
  let ?xs = "map (\<lambda>k. fsec v (?S k)) [0..<?n]"
  have lay: "same_layout v ?v1" by (simp add: store_def same_layout_def)
  have on: "file_on v cs" and lt: "?k < nsect v cs" and fs: "file_sect v = chain_sect v cs ?k"
    using l by (simp_all add: file_loaded_def file_at_def div_512_less)
  have ltn: "?k < ?n" using lt nsect_append[of v cs ds] by simp
  have Sk: "?S ?k = file_sect v" using fs chain_sect_append[OF lt] by simp
  have s: "fsec ?v1 n = (if n = file_sect v then put_slice (file_buf v) (?o mod 512) bs else fsec v n)" for n
    using dirty_bits(1)[of "file_flags v"] by (simp add: fsec_def store_def file_dirty_def)
  have "map (\<lambda>k. fsec ?v1 (?S k)) [0..<?n] = ?xs[?k := put_slice (?xs ! ?k) (?o mod 512) bs]"
  proof (rule nth_equalityI)
    fix i assume i: "i < length (map (\<lambda>k. fsec ?v1 (?S k)) [0..<?n])"
    then have "?S i = file_sect v \<longleftrightarrow> i = ?k" using frame_inj[OF f _ ltn, of i] Sk by auto
    then show "map (\<lambda>k. fsec ?v1 (?S k)) [0..<?n] ! i = ?xs[?k := put_slice (?xs ! ?k) (?o mod 512) bs] ! i"
      using i ltn s Sk fsec_loaded[OF l] by (simp add: nth_list_update)
  qed simp
  then have "file_bytes ?v1 (cs @ ds) = concat (?xs[?k := put_slice (?xs ! ?k) (?o mod 512) bs])"
    by (simp only: file_bytes_def same_layout_simps[OF lay])
  also have "\<dots> = put_slice (concat ?xs) (512 * ?k + ?o mod 512) bs"
    by (rule put_slice_concat[symmetric]) (use fsec_len[OF on] ltn c in auto)
  finally show ?thesis by (simp add: file_bytes_def)
qed

lemma file_write_loop_eq:
  "file_write_loop src n = (if src = [] then ret n
      else
        bnd (gets (\<lambda>v. unat (file_offset v mod 512))) (\<lambda>idx.
        let cnt = min (length src) (512 - idx)
        in bnd (modify (\<lambda>v. v\<lparr>file_buf := put_slice (file_buf v) idx (take cnt src),
                             file_flags := file_flags v OR FAT_FILE_DIRTY\<rparr>)) (\<lambda>_.
           attempt (fat_file_seek (int cnt) FAT_SEEK_CURR) (\<lambda>r.
           case r of Inl e \<Rightarrow> ret (n + cnt) | Inr _ \<Rightarrow> file_write_loop (drop cnt src) (n + cnt)))))"
  by (rule ext) (subst file_write_loop.simps, rule refl)

definition write_post :: "u32 list \<Rightarrow> u8 list \<Rightarrow> nat \<Rightarrow> ('d, 'z) fctx_scheme \<Rightarrow> nat \<Rightarrow> ('d, 'z) fctx_scheme \<Rightarrow> bool" where
  "write_post cs src n v m v' \<longleftrightarrow> (\<exists>ds j. m = n + j \<and> j \<le> length src \<and> file_frame v cs v' ds \<and> file_loaded v' (cs @ ds)
     \<and> (ds \<noteq> [] \<longrightarrow> 512 * nsect v cs \<le> unat (file_offset v) + j)
     \<and> file_bytes v' (cs @ ds) = put_slice (file_bytes v (cs @ ds)) (unat (file_offset v)) (take j src)
     \<and> (j = length src \<and> unat (file_offset v') = unat (file_offset v) + j
        \<or> unat (file_offset v') < unat (file_offset v) + j
          \<and> unat (file_offset v) + j = 512 * nsect v (cs @ ds)))"

text \<open>A round of the loop that could move on, and the rounds behind it.\<close>

lemma write_round:
  assumes l: "file_loaded v cs" and c: "0 < c" "c \<le> length src" "unat (file_offset v) mod 512 + c \<le> 512"
    and m: "moved (store (unat (file_offset v) mod 512) (take c src) v) cs v2 ds" and o2: "unat (file_offset v2) = unat (file_offset v) + c"
    and d2: "length ds = Suc ((unat (file_offset v) + c) div 512 div spc v) - length cs"
    and p: "write_post (cs @ ds) (drop c src) (n + c) v2 k v3"
  shows "write_post cs src n v k v3"
proof -
  let ?o = "unat (file_offset v)" and ?v1 = "store (unat (file_offset v) mod 512) (take c src) v"
  note s1 = store_loaded[OF l, of "?o mod 512" "take c src"]
  have on: "file_on v cs" using l by (simp add: file_loaded_def file_at_def)
  have f2: "file_frame v cs v2 ds" using frame_trans[OF s1(2), of v2 ds] moved_frame[OF m] by simp
  have gr: "512 * nsect v cs \<le> ?o + c" if "ds \<noteq> []"
  proof -
    have "length cs \<le> (?o + c) div 512 div spc v" using that d2 by (cases ds) simp_all
    then have "length cs * spc v \<le> (?o + c) div 512" by (simp add: less_eq_div_iff_mult_less_eq)
    then have "length cs * spc v * 512 \<le> ?o + c" by (simp only: less_eq_div_iff_mult_less_eq[of 512, simplified])
    then show ?thesis by (simp add: nsect_def mult.commute)
  qed
  from p obtain es j where k: "k = n + c + j" "j \<le> length src - c" and f3: "file_frame v2 (cs @ ds) v3 es"
    and l3: "file_loaded v3 ((cs @ ds) @ es)" and g3: "es \<noteq> [] \<longrightarrow> 512 * nsect v2 (cs @ ds) \<le> ?o + c + j"
    and b3: "file_bytes v3 ((cs @ ds) @ es) = put_slice (file_bytes v2 ((cs @ ds) @ es)) (?o + c) (take j (drop c src))"
    and o3: "j = length src - c \<and> unat (file_offset v3) = ?o + c + j
      \<or> unat (file_offset v3) < ?o + c + j \<and> ?o + c + j = 512 * nsect v2 ((cs @ ds) @ es)"
    unfolding write_post_def o2 length_drop by blast
  let ?es = "ds @ es"
  have f: "file_frame v cs v3 ?es" using frame_trans[OF f2 f3] by simp
  have ns: "nsect v2 ((cs @ ds) @ es) = nsect v (cs @ ?es)"
    using f2 same_layout_simps(2)[of v v2] by (simp add: file_frame_def)
  have lay12: "same_layout ?v1 v2" and lay1: "same_layout v ?v1"
    using m s1(2) by (simp_all add: moved_def file_frame_def)
  have "file_bytes v2 (cs @ ?es) = file_bytes ?v1 (cs @ ?es)"
  proof (rule bytes_cong[OF lay12])
    fix i assume "i < nsect ?v1 (cs @ ?es)"
    then have "chain_sect v (cs @ ?es) i \<in> own_sects v cs"
      using frame_own[OF f, of i] by (simp add: same_layout_simps[OF lay1])
    then have "chain_sect ?v1 (cs @ ?es) i \<in> own_sects ?v1 cs"
      using s1(2) by (simp add: file_frame_def same_layout_simps[OF lay1])
    then show "fsec v2 (chain_sect ?v1 (cs @ ?es) i) = fsec ?v1 (chain_sect ?v1 (cs @ ?es) i)"
      using m by (simp add: moved_def)
  qed
  also have "\<dots> = put_slice (file_bytes v (cs @ ?es)) ?o (take c src)"
    using store_bytes[OF l f, of "take c src"] c by simp
  finally have b2: "file_bytes v2 (cs @ ?es) = put_slice (file_bytes v (cs @ ?es)) ?o (take c src)" .
  have len: "?o + (c + j) \<le> length (file_bytes v (cs @ ?es))"
  proof -
    have "unat (file_offset v3) < 512 * nsect v (cs @ ?es)"
      using l3 f same_layout_simps(2)[of v v3] by (simp add: file_loaded_def file_at_def file_frame_def)
    then show ?thesis unfolding file_bytes_len[OF on] using o3 ns by auto
  qed
  have jc: "length (take c src) = c" "length (take j (drop c src)) = j" using c k by simp_all
  have "file_bytes v3 (cs @ ?es) = put_slice (file_bytes v (cs @ ?es)) ?o (take c src @ take j (drop c src))"
    using b3 b2 put_slice_twice[of ?o "take c src" "take j (drop c src)" "file_bytes v (cs @ ?es)", unfolded jc] len
    by (simp add: add.assoc)
  also have "take c src @ take j (drop c src) = take (c + j) src" by (simp add: take_add)
  finally have b: "file_bytes v3 (cs @ ?es) = put_slice (file_bytes v (cs @ ?es)) ?o (take (c + j) src)" .
  have "512 * nsect v cs \<le> ?o + (c + j)" if "?es \<noteq> []"
  proof (cases "ds = []")
    case True
    have "nsect v2 (cs @ ds) = nsect v cs"
      using True f2 same_layout_simps(2)[of v v2] by (simp add: file_frame_def)
    then show ?thesis using g3 True that by simp
  next
    case False
    then show ?thesis using gr by simp
  qed
  then show ?thesis unfolding write_post_def using k c f l3 o3 ns b by (intro exI[of _ ?es] exI[of _ "c + j"]) auto
qed

text \<open>A round after which no cluster could be added: it ends at the end of the chain.\<close>

lemma write_stop:
  assumes l: "file_loaded v cs" and c: "0 < c" "c \<le> length src" "unat (file_offset v) mod 512 + c \<le> 512"
    and g: "grown (store (unat (file_offset v) mod 512) (take c src) v) cs v2 ds"
    and r: "file_rest (store (unat (file_offset v) mod 512) (take c src) v) v2"
    and cl: "file_clust v2 = List.last (cs @ ds)"
    and ld: "length cs + length ds \<le> (unat (file_offset v) + c) div 512 div spc (store (unat (file_offset v) mod 512) (take c src) v)"
    and nl: "\<not> unat (file_offset v) + c < 512 * nsect (store (unat (file_offset v) mod 512) (take c src) v) cs"
  shows "write_post cs src n v (n + c) v2"
proof -
  let ?o = "unat (file_offset v)" and ?v1 = "store (unat (file_offset v) mod 512) (take c src) v"
  note s1 = store_loaded[OF l, of "?o mod 512" "take c src"]
  have on: "file_on v cs" using l by (simp add: file_loaded_def file_at_def)
  have lay1: "same_layout v ?v1" using s1(2) by (simp add: file_frame_def)
  have lt: "?o < 512 * nsect v cs" using l by (simp add: file_loaded_def file_at_def)
  have oc: "?o + c \<le> 512 * Suc (?o div 512)" by (rule sect_bound[OF c(3)])
  have "Suc (?o div 512) \<le> nsect v cs" using lt by (simp add: div_512_less Suc_le_eq)
  then have "512 * Suc (?o div 512) \<le> 512 * nsect v cs" by (rule mult_le_mono2)
  moreover have "512 * nsect v cs \<le> ?o + c" using nl by (simp add: same_layout_simps[OF lay1])
  ultimately have cap: "?o + c = 512 * nsect v cs" using oc by linarith
  then have D: "(?o + c) div 512 div spc v = length cs" by (simp add: nsect_def)
  then have ds: "ds = []" using ld by (simp add: same_layout_simps[OF lay1])
  have on1: "file_on ?v1 cs" using s1(1) by (simp add: file_loaded_def file_at_def)
  have m2: "moved ?v1 cs v2 []"
    by (rule grown_moved[OF g[unfolded ds] on1 file_rest_fields(1,3,4,10,11,12)[OF r]])
  then have f2: "file_frame v cs v2 []" using frame_trans[OF s1(2), of v2 "[]"] moved_frame[OF m2] by simp
  have lay2: "same_layout v v2" using f2 by (simp add: file_frame_def)
  have o2: "file_offset v2 = file_offset v" using file_rest_fields[OF r] s1(3) by simp
  have "Suc (?o div 512) = length cs * spc v"
  proof (rule le_antisym)
    show "Suc (?o div 512) \<le> length cs * spc v" using lt by (simp add: div_512_less nsect_def Suc_le_eq)
    have "512 * (length cs * spc v) \<le> 512 * Suc (?o div 512)" using oc cap by (simp only: nsect_def)
    then show "length cs * spc v \<le> Suc (?o div 512)" by (simp only: mult_le_cancel1)
  qed
  then have q: "?o div 512 div spc v = length cs - 1" by (rule last_clust_div[OF spc_pos])
  have "file_on v2 cs" using f2 by (simp add: file_frame_def)
  moreover have "cs \<noteq> []" using on by (auto simp: file_on_def vol_on_def)
  ultimately have "file_loaded v2 cs" using s1(1) cl ds o2 q file_rest_fields(4)[OF r] lt
    unfolding file_loaded_def file_at_def same_layout_simps[OF lay2] same_layout_simps[OF lay1] s1(3)
    by (simp add: last_conv_nth)
  moreover have "file_bytes v2 cs = put_slice (file_bytes v cs) ?o (take c src)"
    using moved_bytes[OF m2] store_bytes[OF l frame_refl[OF on], of "take c src"] c by simp
  ultimately show ?thesis unfolding write_post_def using f2 c(1,2) o2 cap by (intro exI[of _ "[]"] exI[of _ c]) simp
qed

lemma file_write_loop_post:
  assumes rel: reliable
  shows "file_loaded v cs \<Longrightarrow> unat (file_offset v) + length src < 2 ^ 32 \<Longrightarrow>
    wp (file_write_loop src n) (write_post cs src n v) (\<lambda>_ _. False) v"
proof (induction "length src" arbitrary: v cs src n rule: less_induct)
  case less
  note l = less.prems(1) and big = less.prems(2)
  let ?o = "unat (file_offset v)"
  have on: "file_on v cs" using l by (simp add: file_loaded_def file_at_def)
  show ?case
  proof (cases "src = []")
    case True
    then show ?thesis using l frame_refl[OF on]
      by (subst file_write_loop_eq) (auto simp: wp_ret write_post_def intro!: exI[of _ "[]"] exI[of _ "0 :: nat"])
  next
    case False
    define c where "c = min (length src) (512 - ?o mod 512)"
    have c: "0 < c" "c \<le> length src" "?o mod 512 + c \<le> 512" using False by (auto simp: c_def)
    let ?v1 = "store (?o mod 512) (take c src) v"
    have at1: "file_at ?v1 cs" using store_loaded[OF l, of "?o mod 512" "take c src"] by (simp add: file_loaded_def)
    have mod: "unat (file_offset v mod 512) = ?o mod 512" by (simp add: unat_mod)
    have sb: "seek_base FAT_SEEK_CURR ?v1 = int ?o" by (simp add: seek_base_def store_def)
    have "?o + c < 2 ^ 32" using big c(2) by linarith
    from seek_fwd[OF this] have t: "0 \<le> seek_base FAT_SEEK_CURR ?v1 + int c"
      "seek_base FAT_SEEK_CURR ?v1 + int c < 2 ^ 32" "?o + c = nat (seek_base FAT_SEEK_CURR ?v1 + int c)"
      unfolding sb by blast+
    have "wp (attempt (fat_file_seek (int c) FAT_SEEK_CURR) (\<lambda>r. case r of Inl e \<Rightarrow> ret (n + c)
        | Inr _ \<Rightarrow> file_write_loop (drop c src) (n + c))) (write_post cs src n v) (\<lambda>_ _. False) ?v1"
    proof (rule wp_attemptI[OF fat_file_seek_wp[OF at1 t]], goal_cases)
      case (1 x v2)
      then obtain ds where m: "moved ?v1 cs v2 ds" "file_loaded v2 (cs @ ds)" "unat (file_offset v2) = ?o + c"
        "length ds = Suc ((?o + c) div 512 div spc v) - length cs" by (auto simp: store_def spc_def)
      have lt: "length (drop c src) < length src" using c False by simp
      have big2: "unat (file_offset v2) + length (drop c src) < 2 ^ 32" using m(3) c big by simp
      from less.hyps[OF lt m(2) big2, of "n + c"] show ?case
        by (simp only: sum.case) (erule wp_conseq, rule write_round[OF l c m(1,3,4)])
    next
      case (2 e v2)
      then have "e \<noteq> FAT_ERR_IO" and nl: "\<not> ?o + c < 512 * nsect ?v1 cs" using rel by (auto simp: no_io_def)
      then obtain ds where "grown ?v1 cs v2 ds" "file_rest ?v1 v2" "file_clust v2 = List.last (cs @ ds)"
        "length cs + length ds \<le> (?o + c) div 512 div spc ?v1"
        using 2 by blast
      from write_stop[OF l c this nl] show ?case by (simp add: wp_ret)
    qed
    then show ?thesis
      by (subst file_write_loop_eq)
         (simp only: wp_bnd[of "gets _"] wp_gets if_not_P[OF False] Let_def mod c_def store_def
           wp_bnd[of "modify _"] wp_modify)
  qed
qed

lemmas file_write_loop_wp = file_write_loop_post[unfolded write_post_def]

end

subsection \<open>The operations\<close>

lemma flag_or_bits:
  "bit ((f :: u8) OR 0x20) 7 = bit f 7" "bit ((f :: u8) OR 0x60) 7 = bit f 7"
  using bit_or_iff[of f "0x20" 7] bit_or_iff[of f "0x60" 7] by (simp_all add: bit_simps)

context block_dev
begin

definition file_data :: "('d, 'z) fctx_scheme \<Rightarrow> u32 list \<Rightarrow> u8 list" where
  "file_data v cs = take (unat (file_size v)) (file_bytes v cs)"

lemma loaded_flags:
  assumes "bit f 7 = bit (file_flags v) 7"
  shows "file_loaded (v\<lparr>file_flags := f\<rparr>) cs = file_loaded v cs"
    and "file_bytes (v\<lparr>file_flags := f\<rparr>) cs = file_bytes v cs"
    and "file_on (v\<lparr>file_flags := f\<rparr>) cs = file_on v cs"
proof -
  have l: "same_layout v (v\<lparr>file_flags := f\<rparr>)" by (simp add: same_layout_def)
  show o: "file_on (v\<lparr>file_flags := f\<rparr>) cs = file_on v cs" unfolding file_on_def same_layout_simps[OF l]
    using assms by (simp add: file_dirty_def)
  show "file_loaded (v\<lparr>file_flags := f\<rparr>) cs = file_loaded v cs"
    unfolding file_loaded_def file_at_def o same_layout_simps[OF l] by simp
  show "file_bytes (v\<lparr>file_flags := f\<rparr>) cs = file_bytes v cs"
    by (rule bytes_cong[OF l]) (simp add: fsec_def file_dirty_def assms)
qed

lemma loaded_size:
  "file_loaded (v\<lparr>file_size := z\<rparr>) cs = file_loaded v cs" "file_bytes (v\<lparr>file_size := z\<rparr>) cs = file_bytes v cs"
proof -
  have l: "same_layout v (v\<lparr>file_size := z\<rparr>)" by (simp add: same_layout_def)
  show "file_loaded (v\<lparr>file_size := z\<rparr>) cs = file_loaded v cs"
    unfolding file_loaded_def file_at_def file_on_def same_layout_simps[OF l] by (simp add: file_dirty_def)
  show "file_bytes (v\<lparr>file_size := z\<rparr>) cs = file_bytes v cs"
    by (rule bytes_cong[OF l]) (simp add: fsec_def file_dirty_def)
qed

lemma read_cnt_slice:
  assumes "file_on v cs" and "unat (file_size v) \<le> 512 * nsect v cs"
  shows "slice (file_bytes v cs) (unat (file_offset v)) (read_cnt v len) = slice (file_data v cs) (unat (file_offset v)) len"
    and "m \<le> read_cnt v len \<Longrightarrow> slice (file_bytes v cs) (unat (file_offset v)) m
      = take m (slice (file_data v cs) (unat (file_offset v)) len)"
    and "read_cnt v len = length (slice (file_data v cs) (unat (file_offset v)) len)"
proof -
  have l: "length (file_bytes v cs) = 512 * nsect v cs" by (rule file_bytes_len[OF assms(1)])
  show e: "slice (file_bytes v cs) (unat (file_offset v)) (read_cnt v len) = slice (file_data v cs) (unat (file_offset v)) len"
    by (simp add: slice_def file_data_def read_cnt_def drop_take)
  show "m \<le> read_cnt v len \<Longrightarrow> slice (file_bytes v cs) (unat (file_offset v)) m
      = take m (slice (file_data v cs) (unat (file_offset v)) len)"
    unfolding e[symmetric] by (simp add: slice_def min_def)
  show "read_cnt v len = length (slice (file_data v cs) (unat (file_offset v)) len)"
    using assms(2) l by (simp add: file_data_def read_cnt_def)
qed

lemma fat_file_read_wp:
  assumes l: "file_loaded v cs" and f: "file_flags v AND FAT_READ \<noteq> 0"
    and z: "unat (file_size v) \<le> 512 * nsect v cs"
    and x: "x = slice (file_data v cs) (unat (file_offset v)) len"
  shows "wp (fat_file_read len)
    (\<lambda>bs v'. bs = x \<and> (\<exists>ds. file_loaded v' (cs @ ds) \<and> file_data v' (cs @ ds) = file_data v cs
         \<and> unat (file_offset v') = unat (file_offset v) + length x \<and> file_size v' = file_size v
         \<and> length ds = (if unat (file_offset v) + length x = 512 * nsect v cs then 1 else 0)
         \<and> free_cnt v' = free_cnt v - word_of_nat (length ds)))
    (\<lambda>(e, bs) v'. no_io e \<and> (e = FAT_ERR_IO \<or> unat (file_offset v) + length x = 512 * nsect v cs)
       \<and> (\<exists>m. bs = take m x)) v"
proof -
  let ?v1 = "v\<lparr>file_flags := file_flags v OR FAT_ACCESSED\<rparr>"
  note fl = loaded_flags[of "file_flags v OR FAT_ACCESSED" v, OF flag_or_bits(1)]
  have lay: "same_layout v ?v1" by (simp add: same_layout_def)
  note ly = same_layout_simps[OF lay]
  have on: "file_on v cs" and lt: "unat (file_offset v) < 512 * nsect v cs"
    using l by (simp_all add: file_loaded_def file_at_def)
  have ff: "file_fat v" using on by (simp add: file_on_def)
  note rc = read_cnt_slice(1)[OF on z, of len, folded x] read_cnt_slice(2)[OF on z, of _ len, folded x]
    read_cnt_slice(3)[OF on z, of len, folded x]
  have r1: "read_cnt ?v1 len = length x" using rc(3) by (simp add: read_cnt_def)
  have cap: "unat (file_offset ?v1) + read_cnt ?v1 len \<le> 512 * nsect ?v1 cs"
    using z lt unfolding ly by (simp add: read_cnt_def)
  have l1: "file_loaded ?v1 cs" using l fl by simp
  have "wp (file_read_loop len [])
    (\<lambda>bs v'. bs = x \<and> (\<exists>ds. file_loaded v' (cs @ ds) \<and> file_data v' (cs @ ds) = file_data v cs
         \<and> unat (file_offset v') = unat (file_offset v) + length x \<and> file_size v' = file_size v
         \<and> length ds = (if unat (file_offset v) + length x = 512 * nsect v cs then 1 else 0)
         \<and> free_cnt v' = free_cnt v - word_of_nat (length ds)))
    (\<lambda>(e, bs) v'. no_io e \<and> (e = FAT_ERR_IO \<or> unat (file_offset v) + length x = 512 * nsect v cs)
       \<and> (\<exists>m. bs = take m x)) ?v1"
  proof (rule wp_conseq[OF file_read_loop_wp[OF l1 cap, of "[]"]], goal_cases)
    case (1 bs v')
    then obtain ds where m: "moved ?v1 cs v' ds" and l': "file_loaded v' (cs @ ds)"
      and o': "unat (file_offset v') = unat (file_offset v) + length x"
      and d: "length ds = Suc (unat (file_offset v') div 512 div spc v) - length cs" unfolding r1 ly by auto
    have bs: "bs = x" using 1 rc(1,3) fl unfolding r1 by simp
    have sz: "file_size v' = file_size v" using m by (simp add: moved_def file_meta_def)
    have "file_bytes v' (cs @ ds) = file_bytes v (cs @ ds)"
      using moved_bytes[OF m] loaded_flags(2)[of "file_flags v OR FAT_ACCESSED" v, OF flag_or_bits(1)] by simp
    moreover obtain ys where "file_bytes v (cs @ ds) = file_bytes v cs @ ys" using file_bytes_append by blast
    ultimately have fd: "file_data v' (cs @ ds) = file_data v cs"
      using z sz file_bytes_len[OF on, of cs] by (simp add: file_data_def)
    have "length ds = (if unat (file_offset v) + length x = 512 * nsect v cs then 1 else 0)"
    proof (cases "unat (file_offset v) + length x = 512 * nsect v cs")
      case True
      then show ?thesis using d o' by (simp add: nsect_def)
    next
      case False
      then have "unat (file_offset v') < 512 * nsect v cs" using cap o' unfolding r1 ly by simp
      then have "unat (file_offset v') div 512 div spc v < length cs"
        unfolding div_512_less nsect_def by (simp add: div_less_iff_less_mult)
      then show ?thesis using d False by simp
    qed
    then show ?case using bs l' o' sz fd m by (auto simp: moved_def)
  next
    case (2 eb v')
    then show ?case using rc fl cap unfolding r1 ly by (auto split: prod.splits)
  qed
  then show ?thesis using ff f by (simp add: fat_file_read_def wp_bnd[of "gets _"] wp_gets wp_bnd[of "modify _"] wp_modify)
qed

lemma fat_file_write_wp:
  assumes rel: reliable and l: "file_loaded v cs" and f: "file_flags v AND FAT_WRITE \<noteq> 0"
    and b: "unat (file_offset v) + length bs < 2 ^ 32"
  shows "wp (fat_file_write bs)
    (\<lambda>m v'. \<exists>ds. m \<le> length bs \<and> file_loaded v' (cs @ ds)
       \<and> file_bytes v' (cs @ ds) = put_slice (file_bytes v (cs @ ds)) (unat (file_offset v)) (take m bs)
       \<and> file_size v' = max (file_size v) (file_offset v')
       \<and> (ds \<noteq> [] \<longrightarrow> has_free v \<and> 512 * nsect v cs \<le> unat (file_offset v) + m)
       \<and> file_flags v' AND 0x7f = (file_flags v OR 0x60) AND 0x7f \<and> same_layout v v'
       \<and> (m = length bs \<and> unat (file_offset v') = unat (file_offset v) + m
          \<or> unat (file_offset v') < unat (file_offset v) + m
            \<and> unat (file_offset v) + m = 512 * nsect v (cs @ ds)))
    (\<lambda>_ _. False) v"
proof -
  have fe: "FAT_MODIFIED OR FAT_ACCESSED = (0x60 :: u8)" by simp
  let ?v1 = "v\<lparr>file_flags := file_flags v OR 0x60\<rparr>"
  note fl = loaded_flags[of "file_flags v OR 0x60" v, OF flag_or_bits(2)]
  have lay: "same_layout v ?v1" by (simp add: same_layout_def)
  note ly = same_layout_simps[OF lay]
  have ff: "file_fat v" using l by (simp add: file_loaded_def file_at_def file_on_def)
  have l1: "file_loaded ?v1 cs" using l fl by simp
  have b1: "unat (file_offset ?v1) + length bs < 2 ^ 32" using b by simp
  let ?Q = "\<lambda>m v'. \<exists>ds. m \<le> length bs \<and> file_loaded v' (cs @ ds)
       \<and> file_bytes v' (cs @ ds) = put_slice (file_bytes v (cs @ ds)) (unat (file_offset v)) (take m bs)
       \<and> file_size v' = max (file_size v) (file_offset v')
       \<and> (ds \<noteq> [] \<longrightarrow> has_free v \<and> 512 * nsect v cs \<le> unat (file_offset v) + m)
       \<and> file_flags v' AND 0x7f = (file_flags v OR 0x60) AND 0x7f \<and> same_layout v v'
       \<and> (m = length bs \<and> unat (file_offset v') = unat (file_offset v) + m
          \<or> unat (file_offset v') < unat (file_offset v) + m
            \<and> unat (file_offset v) + m = 512 * nsect v (cs @ ds))"
  have "wp (bnd (file_write_loop bs 0) (\<lambda>n.
       bnd (modify (\<lambda>v. v\<lparr>file_size := (if file_offset v > file_size v then file_offset v else file_size v)\<rparr>)) (\<lambda>_.
       ret n))) ?Q (\<lambda>_ _. False) ?v1"
  proof (rule wp_bndI[OF file_write_loop_wp[OF rel l1 b1]], goal_cases)
    case (1 m v2)
    then obtain ds where p: "m \<le> length bs" "file_frame ?v1 cs v2 ds" "file_loaded v2 (cs @ ds)"
      "ds \<noteq> [] \<longrightarrow> 512 * nsect v cs \<le> unat (file_offset v) + m"
      "file_bytes v2 (cs @ ds) = put_slice (file_bytes v (cs @ ds)) (unat (file_offset v)) (take m bs)"
      "m = length bs \<and> unat (file_offset v2) = unat (file_offset v) + m
            \<or> unat (file_offset v2) < unat (file_offset v) + m
              \<and> unat (file_offset v) + m = 512 * nsect v (cs @ ds)"
      unfolding ly using loaded_flags(2)[of "file_flags v OR 0x60" v, OF flag_or_bits(2)] by auto
    let ?v3 = "v2\<lparr>file_size := (if file_offset v2 > file_size v2 then file_offset v2 else file_size v2)\<rparr>"
    have "file_size v2 = file_size v" "file_flags v2 AND 0x7f = (file_flags v OR 0x60) AND 0x7f"
      "same_layout v v2" "ds \<noteq> [] \<longrightarrow> has_free v"
      using p(2) by (simp_all add: file_frame_def file_meta_def)
    then have "?Q m ?v3" using p by (intro exI[of _ ds]) (auto simp: loaded_size max_def)
    then show ?case by (simp add: wp_bnd[of "modify _"] wp_modify wp_ret)
  qed simp
  then show ?thesis using ff f unfolding fat_file_write_def fe
    by (simp add: wp_bnd[of "gets _"] wp_gets wp_bnd[of "modify _"] wp_modify)
qed

end

subsection \<open>Reading back what was written\<close>

context block_dev
begin

text \<open>Writing inside the chain, and going back to a place inside it.\<close>

lemma fat_file_write_inside_wp:
  assumes rel: reliable and l: "file_loaded v cs" and f: "file_flags v AND FAT_WRITE \<noteq> 0"
    and b: "unat (file_offset v) + length bs < 512 * nsect v cs" "unat (file_offset v) + length bs < 2 ^ 32"
  shows "wp (fat_file_write bs)
    (\<lambda>m v'. file_loaded v' cs \<and> file_bytes v' cs = put_slice (file_bytes v cs) (unat (file_offset v)) bs
       \<and> unat (file_offset v') = unat (file_offset v) + length bs
       \<and> unat (file_size v') = max (unat (file_size v)) (unat (file_offset v) + length bs)
       \<and> file_flags v' AND 0x7f = (file_flags v OR 0x60) AND 0x7f \<and> same_layout v v')
    (\<lambda>_ _. False) v"
proof (rule wp_conseq[OF fat_file_write_wp[OF rel l f b(2)]], goal_cases)
  case (1 m v')
  then obtain ds where a: "m \<le> length bs" "file_loaded v' (cs @ ds)"
      "file_bytes v' (cs @ ds) = put_slice (file_bytes v (cs @ ds)) (unat (file_offset v)) (take m bs)"
      "file_size v' = max (file_size v) (file_offset v')"
      "ds \<noteq> [] \<longrightarrow> 512 * nsect v cs \<le> unat (file_offset v) + m"
      "file_flags v' AND 0x7f = (file_flags v OR 0x60) AND 0x7f" "same_layout v v'"
      "m = length bs \<and> unat (file_offset v') = unat (file_offset v) + m \<or> unat (file_offset v) + m = 512 * nsect v (cs @ ds)"
    by blast
  have ds: "ds = []" using a(1,5) b(1) by (cases ds) auto
  have m: "m = length bs" "unat (file_offset v') = unat (file_offset v) + length bs" using a(1,8) b(1) ds by auto
  have "unat (file_size v') = max (unat (file_size v)) (unat (file_offset v) + length bs)"
    unfolding a(4) m(2)[symmetric] by (auto simp: max_def word_le_nat_alt)
  then show ?case using a ds m by simp
qed simp

lemma seek_inside_keeps:
  assumes lt: "t < 512 * nsect v cs" and mv: "moved v cs v' ds"
    and e: "length ds = Suc (t div 512 div spc v) - length cs"
  shows "ds = []" and "file_bytes v' cs = file_bytes v cs" and "file_meta v' = file_meta v" and "same_layout v v'"
proof -
  have "t div 512 div spc v < length cs" using lt unfolding div_512_less nsect_def by (simp add: div_less_iff_less_mult)
  then show ds: "ds = []" using e by simp
  show "file_bytes v' cs = file_bytes v cs" using moved_bytes[OF mv] ds by simp
  show "file_meta v' = file_meta v" "same_layout v v'" using mv by (simp_all add: moved_def)
qed

lemma fat_file_seek_back_wp:
  assumes rel: reliable and l: "file_loaded v cs" and o: "unat (file_offset v) = t + n" and lt: "t < 512 * nsect v cs"
  shows "wp (fat_file_seek (- int n) FAT_SEEK_CURR)
    (\<lambda>_ v'. file_loaded v' cs \<and> file_bytes v' cs = file_bytes v cs \<and> unat (file_offset v') = t
       \<and> file_meta v' = file_meta v \<and> same_layout v v')
    (\<lambda>_ _. False) v"
proof -
  have at: "file_at v cs" using l by (simp add: file_loaded_def)
  have sb: "seek_base FAT_SEEK_CURR v = int (t + n)"
  proof -
    have "seek_base FAT_SEEK_CURR v = int (unat (file_offset v))" by (simp add: seek_base_def)
    then show ?thesis by (simp only: o)
  qed
  have "unat (file_offset v) < 2 ^ 32" using unsigned_less[of "file_offset v", where ?'a = nat] by simp
  then have b: "0 \<le> seek_base FAT_SEEK_CURR v + - int n" "seek_base FAT_SEEK_CURR v + - int n < 2 ^ 32"
    "t = nat (seek_base FAT_SEEK_CURR v + - int n)"
    unfolding sb o by simp_all
  show ?thesis
  proof (rule wp_conseq[OF fat_file_seek_wp[OF at b]], goal_cases)
    case (1 x v')
    then obtain ds where ds: "moved v cs v' ds" "file_loaded v' (cs @ ds)" "unat (file_offset v') = t"
      "length ds = Suc (t div 512 div spc v) - length cs" by blast
    show ?case using ds seek_inside_keeps[OF lt ds(1,4)] by simp
  next
    case (2 e v')
    then show ?case using rel lt by (auto simp: no_io_def)
  qed
qed

lemma file_meta_reads:
  "file_meta v' = file_meta v1 \<Longrightarrow> file_flags v1 AND 0x7f = (file_flags v OR 0x60) AND 0x7f \<Longrightarrow>
   (file_flags v' AND FAT_READ \<noteq> 0) = (file_flags v AND FAT_READ \<noteq> 0)"
proof -
  assume m: "file_meta v' = file_meta v1" and f: "file_flags v1 AND 0x7f = (file_flags v OR 0x60) AND 0x7f"
  have "bit (file_flags v' AND 0x7f) 1 = bit ((file_flags v OR 0x60) AND 0x7f) 1"
    using m f by (simp add: file_meta_def)
  then have "bit (file_flags v') 1 = bit (file_flags v) 1" by (simp add: bit_simps)
  then show ?thesis by (simp only: flag_bit1)
qed

lemma slice_written:
  assumes "file_bytes v2 cs = put_slice (file_bytes v cs) k bs" and "k + length bs \<le> length (file_bytes v cs)"
    and "k + length bs \<le> unat (file_size v2)"
  shows "slice (file_data v2 cs) k (length bs) = bs"
proof -
  have "slice (file_data v2 cs) k (length bs) = slice (put_slice (file_bytes v cs) k bs) k (length bs)"
    using assms(1,3) by (simp add: file_data_def slice_def drop_take min_def)
  also have "\<dots> = bs" by (rule slice_put_slice[OF assms(2)])
  finally show ?thesis .
qed

text \<open>Writing, seeking back and reading.\<close>

lemma fat_file_write_read_wp:
  assumes rel: reliable and l: "file_loaded v cs"
    and f: "file_flags v AND FAT_WRITE \<noteq> 0" "file_flags v AND FAT_READ \<noteq> 0"
    and b: "unat (file_offset v) + length bs < 512 * nsect v cs" "unat (file_offset v) + length bs < 2 ^ 32"
    and z: "unat (file_size v) \<le> 512 * nsect v cs"
  shows "wp (attempt (fat_file_write bs) (\<lambda>_.
       attempt (fat_file_seek (- int (length bs)) FAT_SEEK_CURR) (\<lambda>_. fat_file_read (length bs))))
    (\<lambda>bs' _. bs' = bs) (\<lambda>_ _. False) v"
proof (rule wp_attemptI[OF fat_file_write_inside_wp[OF rel l f(1) b]], goal_cases)
  case (1 m v1)
  note w = 1
  have n1: "nsect v1 cs = nsect v cs" using w same_layout_simps(2) by metis
  have lt: "unat (file_offset v) < 512 * nsect v1 cs" using b(1) n1 by simp
  show ?case
  proof (rule wp_attemptI[OF fat_file_seek_back_wp[OF rel _ _ lt]], goal_cases)
    case (3 x v2)
    have n2: "nsect v2 cs = nsect v cs" using 3 same_layout_simps(2) n1 by metis
    have z2: "unat (file_size v2) = max (unat (file_size v)) (unat (file_offset v) + length bs)"
      using 3 w by (simp add: file_meta_def)
    have on: "file_on v cs" using l by (simp add: file_loaded_def file_at_def)
    have x: "bs = slice (file_data v2 cs) (unat (file_offset v2)) (length bs)"
      using slice_written[of v2 cs v "unat (file_offset v)" bs] 3 w z2 file_bytes_len[OF on, of cs] b(1) by simp
    show ?case
    proof (rule wp_conseq[OF fat_file_read_wp[OF _ _ _ x]], goal_cases)
      case (5 eb v3)
      then show ?case using rel 3 n2 b(1) by (auto simp: no_io_def)
    qed (use 3 w f(2) file_meta_reads z2 z b(1) n2 in auto)
  qed (use w in auto)
qed simp

end

end
