(* ===== verification/Fat_Content.thy ===== *)
theory Fat_Content
  imports Fat_Access
begin

text \<open>
  What \<open>fat_file_read\<close> and \<open>fat_file_write\<close> do to the bytes of a file, on any device that keeps the
  contract, and on open files of a small volume in memory.
\<close>


subsection \<open>A device without bad sectors and open files on it\<close>

definition ram_sound :: "ram \<Rightarrow> bool" where
  "ram_sound d \<longleftrightarrow> ram_inv d \<and> (\<forall>n. \<not> ram_bad d n)"

interpretation sound: block_dev ram_ops ram_data ram_sound
  by unfold_locales
     (auto simp: ram_ops_def ram_sound_def ram_inv_def ram_read_def ram_write_def split: if_splits)

lemma sound_reliable: "sound.reliable"
  unfolding sound.reliable_def by (auto simp: ram_sound_def ram_ops_def ram_read_def ram_write_def)

text \<open>An open file on the small volume, at offset \<open>off\<close> in cluster \<open>c\<close> with the sector of it loaded.\<close>

definition demo_file :: "ram \<Rightarrow> u32 \<Rightarrow> u32 \<Rightarrow> u32 \<Rightarrow> u32 \<Rightarrow> ram fctx" where
  "demo_file d sc c z off = \<lparr>fat_next = None, fat_ops = ram_ops, clust_msk = 0, clust_cnt = 128,
     info_sect = 1, fat_sect0 = 32, fat_sect1 = 48, data_sect = 64, root_clust = 2,
     last_used = 5, free_cnt = 122, buf_sect = 0, fat_buf = replicate 512 0, fat_flags = 0,
     clust_shift = 0, fat_name_len = 3, fat_name = [0x64, 0x73, 0x6b] @ replicate 29 0, dev = d, g_buf = replicate 512 0,
     g_len = 0, g_crc = 0, dir_fat = True, dir_sclust = 2, dir_clust = 2, dir_sect = 64, dir_idx = 0,
     file_fat = True, file_dir_sect = 64, file_sclust = sc, file_clust = c, file_sect = c + 62, file_size = z,
     file_offset = off, file_dir_idx = 0, file_attr = 0x20, file_flags = 3, file_buf = ram_data d (c + 62)\<rparr>"

lemma demo_file_fields [simp]:
  "fat_ops (demo_file d sc c z off) = ram_ops" "clust_cnt (demo_file d sc c z off) = 128"
  "info_sect (demo_file d sc c z off) = 1" "fat_sect0 (demo_file d sc c z off) = 32"
  "fat_sect1 (demo_file d sc c z off) = 48" "data_sect (demo_file d sc c z off) = 64"
  "last_used (demo_file d sc c z off) = 5" "free_cnt (demo_file d sc c z off) = 122"
  "buf_sect (demo_file d sc c z off) = 0" "fat_buf (demo_file d sc c z off) = replicate 512 0"
  "fat_flags (demo_file d sc c z off) = 0" "clust_shift (demo_file d sc c z off) = 0"
  "clust_msk (demo_file d sc c z off) = 0" "dev (demo_file d sc c z off) = d"
  "file_fat (demo_file d sc c z off) = True" "file_sclust (demo_file d sc c z off) = sc"
  "file_clust (demo_file d sc c z off) = c" "file_sect (demo_file d sc c z off) = c + 62"
  "file_size (demo_file d sc c z off) = z" "file_offset (demo_file d sc c z off) = off"
  "file_flags (demo_file d sc c z off) = 3" "file_buf (demo_file d sc c z off) = ram_data d (c + 62)"
  by (simp_all add: demo_file_def)

lemma demo_file_spc [simp]: "spc (demo_file d sc c z off) = 1" "nsect (demo_file d sc c z off) cs = length cs"
  "clust_to_sect (demo_file d sc c z off) x = x + 62"
  by (simp_all add: spc_def nsect_def clust_to_sect_def)

lemma demo_file_loaded:
  assumes d: "ram_sound d" and ch: "fat_chain (fat_val (ram_data d) 32) 128 cs"
    and sc: "sc = hd cs" and o: "unat off < 512 * length cs" "c = cs ! (unat off div 512)"
  shows "sound.file_loaded (demo_file d sc c z off) cs"
proof -
  let ?v = "demo_file d sc c z off"
  have lv: "lview ram_data ?v = ram_data d" by (simp add: lview_def fun_eq_iff)
  have dg: "data_geom ?v" by (simp add: data_geom_def)
  have "0 \<notin> sound.own_sects ?v cs"
  proof
    assume "0 \<in> sound.own_sects ?v cs"
    then obtain x j where x: "0 = clust_to_sect ?v x + word_of_nat j" "j < spc ?v" "2 \<le> x" "x < clust_cnt ?v"
      using ch fat_chain_in[OF ch] unfolding sound.own_sects_def lv by auto
    have "unat (clust_to_sect ?v x + word_of_nat j) = unat (data_sect ?v) + spc ?v * (unat x - 2) + j"
      by (rule clust_sect_unat[OF dg x(3,4,2)])
    then show False unfolding x(1)[symmetric] by simp
  qed
  moreover have "\<forall>n. meta_sect ?v n \<longrightarrow> unat n < unat (data_sect ?v)"
    by (auto simp: meta_sect_def in_fat_def fat_sectors_def)
  moreover have "cache_ok ram_ops ram_data ram_sound ?v" using d by (simp add: cache_ok_def buf_dirty_def)
  moreover have "geom_ok ?v" by (simp add: geom_ok_def in_fat_def fat_sectors_def)
  ultimately have "sound.vol_on ?v cs" using dg ch by (simp add: sound.vol_on_def lv)
  moreover have "\<not> file_dirty ?v"
    by (simp add: file_dirty_def)
  moreover have "length (ram_data d n) = 512" for n using d by (simp add: ram_sound_def ram_inv_def)
  ultimately have on: "sound.file_on ?v cs" using sc by (simp add: sound.file_on_def)
  show ?thesis using on o by (simp add: sound.file_loaded_def sound.file_at_def chain_sect_def)
qed

text \<open>Sectors 65, 66 and 67 hold the file [3, 4, 5].\<close>

definition file_disk :: ram where
  "file_disk = demo_disk\<lparr>ram_data := (ram_data demo_disk)(65 := replicate 512 0x61,
     66 := replicate 512 0x62, 67 := replicate 512 0x63)\<rparr>"

lemma file_disk_sound: "ram_sound file_disk"
  by (simp add: ram_sound_def ram_inv_def file_disk_def demo_disk_def)

lemma file_disk_chain: "fat_chain (fat_val (ram_data file_disk) 32) 128 [3, 4, 5]"
proof -
  have "fat_val (ram_data file_disk) 32 x = fat_val (ram_data demo_disk) 32 x" if "x < 128" for x
  proof -
    have "x div 128 = 0" using that by (simp add: word_unat_eq_iff unat_div word_less_nat_alt)
    then show ?thesis by (simp add: fat_val_def fat_ent_def file_disk_def)
  qed
  then show ?thesis using demo_entries by simp
qed

definition demo_read :: "ram fctx" where
  "demo_read = demo_file file_disk 3 4 1000 600"

lemma demo_read_loaded: "sound.file_loaded demo_read [3, 4, 5]"
  unfolding demo_read_def by (rule demo_file_loaded[OF file_disk_sound file_disk_chain]) simp_all

lemma demo_read_bytes: "sound.file_bytes demo_read [3, 4, 5]
  = replicate 512 0x61 @ replicate 512 0x62 @ replicate 512 0x63"
proof -
  have "\<not> file_dirty demo_read" by (simp add: demo_read_def file_dirty_def)
  moreover have "[0..<3] = [0, Suc 0, Suc (Suc 0)]" by (simp add: upt_rec)
  ultimately show ?thesis
    by (simp add: sound.file_bytes_def sound.fsec_def demo_read_def chain_sect_def file_disk_def)
qed

text \<open>C7. Reading: \<open>fat_file_read\<close> on an open file returns the slice of the file's bytes at the offset,
  cut off at the size, and moves the offset behind it; the bytes of the file stay what they were.
  When the read ends at the very end of the last cluster, it also adds a cluster to the chain.
  If the device or that allocation fails, the bytes copied so far are the right ones.\<close>

theorem fat_file_read_refines:
  assumes "block_dev ops content dinv" and "block_dev.file_loaded ops content dinv v cs"
    and "file_flags v AND FAT_READ \<noteq> 0" and "unat (file_size v) \<le> 512 * nsect v cs"
    and x: "x = slice (block_dev.file_data content v cs) (unat (file_offset v)) len"
  shows "wp (fat_file_read len)
    (\<lambda>bs v'. bs = x \<and> (\<exists>ds. block_dev.file_loaded ops content dinv v' (cs @ ds)
         \<and> block_dev.file_data content v' (cs @ ds) = block_dev.file_data content v cs
         \<and> unat (file_offset v') = unat (file_offset v) + length x \<and> file_size v' = file_size v
         \<and> length ds = (if unat (file_offset v) + length x = 512 * nsect v cs then 1 else 0)
         \<and> free_cnt v' = free_cnt v - word_of_nat (length ds)))
    (\<lambda>(e, bs) v'. (e = FAT_ERR_IO \<or> unat (file_offset v) + length x = 512 * nsect v cs)
       \<and> (\<exists>m. bs = take m x)) v"
  by (rule wp_conseq[OF block_dev.fat_file_read_wp[OF assms(1-4) x]]) (auto split: prod.splits)

theorem fat_file_read_refines_witness:
  "wp (fat_file_read 300) (\<lambda>bs v'. bs = replicate 300 0x62 \<and> file_offset v' = 900)
     (\<lambda>(e, bs) v'. e = FAT_ERR_IO) demo_read"
proof -
  have x: "replicate 300 0x62 = slice (sound.file_data demo_read [3, 4, 5]) (unat (file_offset demo_read)) 300"
    by (simp add: sound.file_data_def demo_read_bytes) (simp add: slice_def demo_read_def)
  have a: "file_flags demo_read AND FAT_READ \<noteq> 0" "unat (file_size demo_read) \<le> 512 * nsect demo_read [3, 4, 5]"
    by (simp_all add: demo_read_def)
  show ?thesis
    by (rule wp_conseq[OF fat_file_read_refines[OF sound.block_dev_axioms demo_read_loaded a x]])
       (auto simp: demo_read_def word_unat_eq_iff)
qed

text \<open>C8. Writing, on a device that does not fail: \<open>fat_file_write\<close> replaces the bytes at the offset,
  as many as it reports, by those of the caller, extending the chain where they go beyond it, and
  the size follows the offset.  It reports all of them and moves the offset behind them, unless it
  runs into a cluster boundary behind which no cluster could be added.\<close>

theorem fat_file_write_writes:
  assumes "block_dev ops content dinv" and "block_dev.reliable ops dinv"
    and "block_dev.file_loaded ops content dinv v cs"
    and "file_flags v AND FAT_WRITE \<noteq> 0" and "unat (file_offset v) + length bs < 2 ^ 32"
  shows "wp (fat_file_write bs)
    (\<lambda>m v'. \<exists>ds. m \<le> length bs \<and> block_dev.file_loaded ops content dinv v' (cs @ ds)
       \<and> block_dev.file_bytes content v' (cs @ ds)
         = put_slice (block_dev.file_bytes content v (cs @ ds)) (unat (file_offset v)) (take m bs)
       \<and> file_size v' = max (file_size v) (file_offset v')
       \<and> (ds \<noteq> [] \<longrightarrow> 512 * nsect v cs \<le> unat (file_offset v) + m)
       \<and> (m = length bs \<and> unat (file_offset v') = unat (file_offset v) + m
          \<or> unat (file_offset v') < unat (file_offset v) + m
            \<and> unat (file_offset v) + m = 512 * nsect v (cs @ ds)))
    (\<lambda>_ _. False) v"
  by (rule wp_conseq[OF block_dev.fat_file_write_wp[OF assms]]) blast+

theorem fat_file_write_writes_witness:
  "wp (fat_file_write [1, 2, 3]) (\<lambda>m v'. m = 3 \<and> slice (sound.file_bytes v' [3, 4, 5]) 599 5 = [0x62, 1, 2, 3, 0x62])
     (\<lambda>_ _. False) demo_read"
proof -
  have a: "file_flags demo_read AND FAT_WRITE \<noteq> 0" "unat (file_offset demo_read) + length [1 :: u8, 2, 3] < 2 ^ 32"
    by (simp_all add: demo_read_def)
  show ?thesis
  proof (rule wp_conseq[OF fat_file_write_writes[OF sound.block_dev_axioms sound_reliable demo_read_loaded a]], goal_cases)
    case (1 m v')
    then obtain ds where p: "m \<le> 3" "ds \<noteq> [] \<longrightarrow> 1536 \<le> 600 + m"
      "m = 3 \<or> 600 + m = 512 * length ([3, 4, 5] @ ds)"
      "sound.file_bytes v' ([3, 4, 5] @ ds) = put_slice (sound.file_bytes demo_read ([3, 4, 5] @ ds)) 600 (take m [1, 2, 3])"
      by (auto simp: demo_read_def)
    then have ds: "ds = []" and m: "m = 3" by auto
    have "slice (put_slice (replicate 512 0x61 @ replicate 512 0x62 @ replicate 512 0x63) 600 [1, 2, 3 :: u8]) 599 5
      = [0x62, 1, 2, 3, 0x62]"
      by (simp add: slice_def put_slice_def take_Cons' drop_Cons')
    then show ?case using p(4) unfolding ds m append_Nil2 demo_read_bytes by simp
  qed simp
qed

text \<open>C9. What is written is read back: writing inside the chain, seeking back by as many bytes and
  reading them again returns the bytes that were written, on a device that does not fail.\<close>

theorem fat_file_write_read:
  assumes dev: "block_dev ops content dinv" "block_dev.reliable ops dinv"
    and l: "block_dev.file_loaded ops content dinv v cs"
    and f: "file_flags v AND FAT_WRITE \<noteq> 0" "file_flags v AND FAT_READ \<noteq> 0"
    and b: "unat (file_offset v) + length bs < 512 * nsect v cs" "unat (file_offset v) + length bs < 2 ^ 32"
    and z: "unat (file_size v) \<le> 512 * nsect v cs"
  shows "wp (attempt (fat_file_write bs) (\<lambda>_.
       attempt (fat_file_seek (- int (length bs)) FAT_SEEK_CURR) (\<lambda>_. fat_file_read (length bs))))
    (\<lambda>bs' _. bs' = bs) (\<lambda>_ _. False) v"
  by (rule block_dev.fat_file_write_read_wp[OF dev l f b z])

theorem fat_file_write_read_witness:
  "wp (attempt (fat_file_write [7, 8]) (\<lambda>_. attempt (fat_file_seek (- 2) FAT_SEEK_CURR) (\<lambda>_. fat_file_read 2)))
    (\<lambda>bs' _. bs' = [7, 8]) (\<lambda>_ _. False) demo_read"
proof -
  have a: "file_flags demo_read AND FAT_WRITE \<noteq> 0" "file_flags demo_read AND FAT_READ \<noteq> 0"
    "unat (file_offset demo_read) + length [7 :: u8, 8] < 512 * nsect demo_read [3, 4, 5]"
    "unat (file_offset demo_read) + length [7 :: u8, 8] < 2 ^ 32"
    "unat (file_size demo_read) \<le> 512 * nsect demo_read [3, 4, 5]"
    by (simp_all add: demo_read_def)
  show ?thesis
    using fat_file_write_read[OF sound.block_dev_axioms sound_reliable demo_read_loaded a]
    by (simp add: numeral_2_eq_2)
qed

text \<open>C10. On a full volume: a write that ends at the end of the last cluster reports success for all of
  its bytes and puts them into the file's sectors, but the offset and the size stop short of the
  last of them, so the file ends before them.\<close>

theorem fat_file_write_full:
  assumes dev: "block_dev ops content dinv" "block_dev.reliable ops dinv"
    and l: "block_dev.file_loaded ops content dinv v cs"
    and f: "file_flags v AND FAT_WRITE \<noteq> 0" and full: "\<not> block_dev.has_free content v"
    and e: "unat (file_offset v) + length bs = 512 * nsect v cs" and b: "512 * nsect v cs < 2 ^ 32"
    and z: "unat (file_size v) < 512 * nsect v cs"
  shows "\<exists>v'. fat_file_write bs v = Some (Inr (length bs), v') \<and> unat (file_size v') < 512 * nsect v cs
    \<and> block_dev.file_bytes content v' cs = put_slice (block_dev.file_bytes content v cs) (unat (file_offset v)) bs"
proof -
  have b': "unat (file_offset v) + length bs < 2 ^ 32" using e b by simp
  note w = block_dev.fat_file_write_wp[OF dev l f b']
  obtain r v' where run: "fat_file_write bs v = Some (r, v')" using wp_returns[OF w] by blast
  with w obtain m ds where r: "r = Inr m" and m: "m \<le> length bs"
    and l': "block_dev.file_loaded ops content dinv v' (cs @ ds)"
    and bw: "block_dev.file_bytes content v' (cs @ ds)
         = put_slice (block_dev.file_bytes content v (cs @ ds)) (unat (file_offset v)) (take m bs)"
    and z': "file_size v' = max (file_size v) (file_offset v')" and d: "ds \<noteq> [] \<longrightarrow> block_dev.has_free content v"
    and lay: "same_layout v v'"
    and o: "m = length bs \<and> unat (file_offset v') = unat (file_offset v) + m
          \<or> unat (file_offset v') < unat (file_offset v) + m \<and> unat (file_offset v) + m = 512 * nsect v (cs @ ds)"
    by (cases r) (auto simp: wp_def)
  have ds: "ds = []" using d full by blast
  have lt: "unat (file_offset v') < 512 * nsect v cs"
    using l' ds same_layout_simps(2)[OF lay] by (simp add: block_dev.file_loaded_def[OF dev(1)] block_dev.file_at_def[OF dev(1)])
  have mm: "m = length bs" using o e ds m by auto
  have "unat (file_size v') < 512 * nsect v cs"
    unfolding z' using lt z by (simp add: max_def)
  then show ?thesis using run r mm bw ds by auto
qed

lemma full_disk_sound: "ram_sound full_disk"
  by (simp add: ram_sound_def ram_inv_def full_disk_def)

definition demo_full :: "ram fctx" where
  "demo_full = demo_file full_disk 5 5 500 500"

lemma demo_full_loaded: "sound.file_loaded demo_full [5]"
  unfolding demo_full_def by (rule demo_file_loaded[OF full_disk_sound]) (simp_all add: full_entries)

theorem fat_file_write_full_witness:
  "\<exists>v'. fat_file_write (replicate 12 1) demo_full = Some (Inr 12, v') \<and> unat (file_size v') < 512"
proof -
  have lv: "lview ram_data demo_full = ram_data full_disk"
    by (auto simp: lview_def fun_eq_iff demo_full_def)
  have "\<not> sound.has_free demo_full"
    unfolding sound.has_free_def lv by (auto simp: demo_full_def full_entries)
  moreover have "file_flags demo_full AND FAT_WRITE \<noteq> 0"
    "unat (file_offset demo_full) + length (replicate 12 (1 :: u8)) = 512 * nsect demo_full [5]"
    "512 * nsect demo_full [5] < 2 ^ 32" "unat (file_size demo_full) < 512 * nsect demo_full [5]"
    by (simp_all add: demo_full_def)
  ultimately obtain v' where "fat_file_write (replicate 12 1) demo_full = Some (Inr (length (replicate 12 (1 :: u8))), v')"
    "unat (file_size v') < 512 * nsect demo_full [5]"
    using fat_file_write_full[OF sound.block_dev_axioms sound_reliable demo_full_loaded] by blast
  then show ?thesis by (auto simp: demo_full_def)
qed

end
