(* ===== verification/Fat_Api.thy ===== *)
theory Fat_Api
  imports Fat_File
begin

text \<open>
  The functions of \<open>fat.c\<close> that take a path: \<open>fat_stat\<close>, \<open>fat_unlink\<close>, \<open>fat_file_open\<close>,
  \<open>fat_dir_create\<close>, \<open>fat_dir_open\<close>, and the directory reading functions.
\<close>

subsection \<open>Reading a directory\<close>

partial_function (option) dir_read_loop ::
  "('d, 'z) dctx_scheme \<Rightarrow> ((fat_err + dir_info) \<times> ('d, 'z) dctx_scheme) option" where
  "dir_read_loop v =
     bnd (gets dir_sect) (\<lambda>s.
     bnd (update_buf s) (\<lambda>_.
     bnd (gets (\<lambda>v. (fat_buf v, unat (dir_idx v)))) (\<lambda>(b, i).
     if sfn_is_last b i then throw FAT_ERR_EOF
     else if sfn_is_free b i then bnd dir_next (\<lambda>_. dir_read_loop)
     else
       bnd (if sfn_is_lfn b i then
              bnd parse_lfn_name (\<lambda>_.
              bnd (gets dir_sect) (\<lambda>s.
              bnd (update_buf s) (\<lambda>_.
              bnd (gets (\<lambda>v. (fat_buf v, unat (dir_idx v), g_crc v))) (\<lambda>(b, i, crc).
              if sfn_is_free b i \<or> crc \<noteq> get_crc (sfn_name b i) then throw FAT_ERR_BROKEN
              else ret ()))))
            else
              modify (\<lambda>v. let nm = parse_sfn_name (sfn_name b i)
                in v\<lparr>g_buf := put_slice (g_buf v) 0 nm, g_len := word_of_nat (length nm)\<rparr>)) (\<lambda>_.
       gets (\<lambda>v. let b = fat_buf v; i = unat (dir_idx v)
         in \<lparr>di_created = decode_timestamp (sfn_cre_date b i) (sfn_cre_time b i),
             di_modified = decode_timestamp (sfn_mod_date b i) (sfn_mod_time b i),
             di_size = sfn_size b i, di_attr = sfn_attr b i,
             di_name = take (unat (g_len v)) (g_buf v)\<rparr>))))) v"

definition fat_dir_read :: "(('d, 'z) dctx_scheme, fat_err, dir_info) prog" where
  "fat_dir_read = bnd (gets dir_fat) (\<lambda>f. if \<not> f then throw FAT_ERR_PARAM else dir_read_loop)"

definition fat_dir_next :: "(('d, 'z) dctx_scheme, fat_err, unit) prog" where
  "fat_dir_next = bnd (gets dir_fat) (\<lambda>f. if \<not> f then throw FAT_ERR_PARAM else dir_next)"

definition fat_dir_rewind :: "(('d, 'z) dctx_scheme, fat_err, unit) prog" where
  "fat_dir_rewind =
     bnd (gets (\<lambda>v. (dir_fat v, dir_sclust v))) (\<lambda>(f, c).
     if \<not> f then throw FAT_ERR_PARAM else dir_at_clust c)"

subsection \<open>Paths\<close>

text \<open>Dropping the unread path from an error.\<close>

definition path_err :: "('s, fat_err \<times> u8 list, 'a) prog \<Rightarrow> ('s, fat_err, 'a) prog" where
  "path_err m = attempt m (\<lambda>r. case r of Inl (e, _) \<Rightarrow> throw e | Inr x \<Rightarrow> ret x)"

text \<open>\<open>junk\<close> is what the local \<open>loc\<close> of \<open>fat_stat\<close> holds before anything is stored in it: no
  entry points to the root directory, so \<open>follow_path\<close> leaves it alone there.\<close>

definition fat_stat :: "loc \<Rightarrow> u8 list \<Rightarrow> (('d, 'z) dctx_scheme, fat_err, dir_info) prog" where
  "fat_stat junk path =
     bnd (path_err (follow_path path)) (\<lambda>(rest, l).
     if subpath_len rest \<noteq> 0 then throw FAT_ERR_PATH
     else bnd (dir_seek (case l of None \<Rightarrow> junk | Some l \<Rightarrow> l)) (\<lambda>_. fat_dir_read))"

text \<open>A function works on a copy of the \<open>Dir\<close>.\<close>

definition with_dir_copy :: "(('d, 'z) dctx_scheme, fat_err, 'a) prog \<Rightarrow> (('d, 'z) dctx_scheme, fat_err, 'a) prog" where
  "with_dir_copy m =
     bnd (gets (\<lambda>v. (dir_fat v, dir_sclust v, dir_clust v, dir_sect v, dir_idx v))) (\<lambda>(f, sc, c, s, i).
     attempt m (\<lambda>r.
     bnd (modify (\<lambda>v. v\<lparr>dir_fat := f, dir_sclust := sc, dir_clust := c, dir_sect := s, dir_idx := i\<rparr>)) (\<lambda>_.
     case r of Inl e \<Rightarrow> throw e | Inr x \<Rightarrow> ret x)))"

partial_function (option) dir_empty_loop ::
  "('d, 'z) dctx_scheme \<Rightarrow> ((fat_err + unit) \<times> ('d, 'z) dctx_scheme) option" where
  "dir_empty_loop v =
     bnd (gets dir_sect) (\<lambda>s.
     bnd (update_buf s) (\<lambda>_.
     bnd (gets (\<lambda>v. (fat_buf v, unat (dir_idx v)))) (\<lambda>(b, i).
     if sfn_is_last b i then ret ()
     else if \<not> sfn_is_free b i then throw FAT_ERR_DENIED
     else bnd dir_next (\<lambda>_. dir_empty_loop)))) v"

definition fat_unlink :: "loc \<Rightarrow> u8 list \<Rightarrow> (('d, 'z) dctx_scheme, fat_err, unit) prog" where
  "fat_unlink junk path =
     bnd (path_err (follow_path path)) (\<lambda>(rest, l).
     bnd (gets dir_at_root) (\<lambda>root.
     if root then throw FAT_ERR_DENIED
     else
       bnd (gets (\<lambda>v. (fat_buf v, unat (dir_idx v)))) (\<lambda>(b, i).
       let clust = sfn_cluster b i
       in if sfn_attr b i AND (FAT_ATTR_RO OR FAT_ATTR_SYS OR FAT_ATTR_LABEL) \<noteq> 0 then throw FAT_ERR_DENIED
          else
            bnd (if sfn_attr b i AND FAT_ATTR_DIR \<noteq> 0 then
                   with_dir_copy
                     (bnd (dir_enter clust) (\<lambda>_. bnd (dir_advance 2) (\<lambda>_. dir_empty_loop)))
                 else ret ()) (\<lambda>_.
            bnd (remove_chain clust) (\<lambda>_.
            bnd (remove_entries (case l of None \<Rightarrow> junk | Some l \<Rightarrow> l)) (\<lambda>_. sync_fs))))))"

subsection \<open>Opening a file\<close>

text \<open>Setting up the \<open>File\<close> from the entry the \<open>Dir\<close> stands at.\<close>

definition file_setup :: "u8 \<Rightarrow> ('d, 'z) fctx_scheme \<Rightarrow> ('d, 'z) fctx_scheme" where
  "file_setup flags v =
     (let b = fat_buf v; i = unat (dir_idx v); c = sfn_cluster b i; n = sfn_size b i;
          cut = (n \<noteq> 0 \<and> flags AND FAT_TRUNC \<noteq> 0)
      in v\<lparr>file_fat := dir_fat v, file_dir_sect := dir_sect v, file_dir_idx := dir_idx v,
           file_sclust := c, file_clust := c, file_sect := 0xffffffff, file_offset := 0,
           file_attr := sfn_attr b i, file_size := (if cut then 0 else n),
           file_flags := (if cut then flags OR FAT_MODIFIED else flags)\<rparr>)"

definition fat_file_open :: "timestamp \<Rightarrow> u8 list \<Rightarrow> u8 \<Rightarrow> (('d, 'z) fctx_scheme, fat_err, unit) prog" where
  "fat_file_open now path flags =
     bnd (modify (\<lambda>v. v\<lparr>dir_fat := False\<rparr>)) (\<lambda>_.
     attempt (follow_path path) (\<lambda>r.
     bnd (case r of
            Inr _ \<Rightarrow> ret ()
          | Inl (e, rest) \<Rightarrow>
              if e \<noteq> FAT_ERR_EOF then throw e
              else if flags AND FAT_CREATE = 0 then throw FAT_ERR_DENIED
              else
                let len = last_subpath_len rest
                in if len = 0 then throw FAT_ERR_PATH
                   else bnd create_chain (\<lambda>c. dir_add now rest len FAT_ATTR_ARCHIVE c)) (\<lambda>_.
     bnd (modify (file_setup flags)) (\<lambda>_.
     fat_file_seek 0 (if flags AND FAT_APPEND \<noteq> 0 then FAT_SEEK_END else FAT_SEEK_START)))))"

subsection \<open>Creating and opening a directory\<close>

text \<open>The entries \<open>.\<close> and \<open>..\<close> over the bytes of the cleared sector.\<close>

definition make_dot :: "u32 \<Rightarrow> timestamp \<Rightarrow> u8 list \<Rightarrow> u8 list" where
  "make_dot clust now e =
     (let (date, time) = encode_timestamp now;
          e = put_slice e 0 (replicate 11 0x20);
          e = e[0 := 0x2e, 11 := FAT_ATTR_DIR];
          e = wr16 (wr16 e 20 (ucast (drop_bit 16 clust))) 26 (ucast (clust AND 0xffff))
      in wr16 (wr16 (wr16 (wr16 (wr16 e 16 date) 14 time) 24 date) 22 time) 18 date)"

definition make_dotdot :: "u32 \<Rightarrow> u8 list \<Rightarrow> u8 list" where
  "make_dotdot parent dot =
     wr16 (wr16 (dot[1 := 0x2e]) 20 (ucast (drop_bit 16 parent))) 26 (ucast (parent AND 0xffff))"

definition put_dots :: "u32 \<Rightarrow> timestamp \<Rightarrow> ('d, 'z) dctx_scheme \<Rightarrow> ('d, 'z) dctx_scheme" where
  "put_dots clust now v =
     (let dot = make_dot clust now (take 32 (fat_buf v));
          parent = (if dir_sclust v = root_clust v then 0 else dir_sclust v)
      in v\<lparr>fat_buf := put_slice (put_slice (fat_buf v) 0 dot) 32 (make_dotdot parent dot),
           fat_flags := fat_flags v OR FAT_BUF_DIRTY\<rparr>)"

text \<open>\<open>return err\<close> with \<open>err\<close> zero, when the path exists already, reports success.\<close>

definition fat_dir_create :: "timestamp \<Rightarrow> u8 list \<Rightarrow> (('d, 'z) dctx_scheme, fat_err, unit) prog" where
  "fat_dir_create now path =
     attempt (follow_path path) (\<lambda>r.
     case r of
       Inr _ \<Rightarrow> ret ()
     | Inl (e, rest) \<Rightarrow>
         if e \<noteq> FAT_ERR_EOF then throw e
         else
           let len = last_subpath_len rest
           in if len = 0 then throw FAT_ERR_PATH
              else
                bnd create_chain (\<lambda>c.
                bnd (clust_clear c) (\<lambda>_.
                bnd (gets (\<lambda>v. clust_to_sect v c)) (\<lambda>s.
                bnd (update_buf s) (\<lambda>_.
                bnd (modify (put_dots c now)) (\<lambda>_.
                bnd (dir_add now rest len FAT_ATTR_DIR c) (\<lambda>_.
                bnd (dir_enter c) (\<lambda>_. sync_fs))))))))"

definition fat_dir_open :: "u8 list \<Rightarrow> (('d, 'z) dctx_scheme, fat_err, unit) prog" where
  "fat_dir_open path =
     bnd (path_err (follow_path path)) (\<lambda>_.
     bnd (gets dir_at_root) (\<lambda>root.
     if root then ret ()
     else
       bnd (gets dir_sect) (\<lambda>s.
       bnd (update_buf s) (\<lambda>_.
       bnd (gets (\<lambda>v. (fat_buf v, unat (dir_idx v)))) (\<lambda>(b, i).
       if sfn_attr b i AND FAT_ATTR_DIR = 0 then throw FAT_ERR_PATH
       else dir_enter (sfn_cluster b i))))))"

definition fat_sync :: "(('d, 'z) vol_scheme, fat_err, unit) prog" where
  "fat_sync = sync_fs"

end
