(* ===== verification/Fat_Mount.thy ===== *)
theory Fat_Mount
  imports Fat_Api
begin

text \<open>
  Probing, mounting and unmounting of \<open>fat.c\<close>: \<open>get_part_lba\<close>, \<open>check_fat\<close>, \<open>probe\<close>,
  \<open>fat_probe\<close>, \<open>fat_mount\<close>, \<open>fat_umount\<close> and the list of mounted volumes.

  The structs \<open>Fat\<close> lie in a heap of numbered volumes and are linked through \<open>next\<close>;
  \<open>g_fat_list\<close> is the head of the list.  A division by zero stops the machine: it is the fault
  \<open>Div_zero\<close>, beside the error codes of the driver.
\<close>

datatype mount_err = Err fat_err | Div_zero

record 'd mst =
  vols :: "nat \<Rightarrow> 'd fat"
  g_fat_list :: "nat option"
  m_dev :: 'd
  m_buf :: "u8 list"

subsection \<open>Boot sector and partition table\<close>

definition get_part_lba :: "u8 list \<Rightarrow> nat \<Rightarrow> u32 option" where
  "get_part_lba buf p =
     (if rd16 buf 510 \<noteq> 0xaa55 then None
      else if buf ! (446 + 16 * p + 4) \<noteq> 0x0c then None
      else Some (rd32 buf (446 + 16 * p + 8)))"

abbreviation (input) bpb_bytes_per_sect :: "u8 list \<Rightarrow> u16" where "bpb_bytes_per_sect b \<equiv> rd16 b 11"
abbreviation (input) bpb_sect_per_clust :: "u8 list \<Rightarrow> u8" where "bpb_sect_per_clust b \<equiv> b ! 13"
abbreviation (input) bpb_res_sect_cnt :: "u8 list \<Rightarrow> u16" where "bpb_res_sect_cnt b \<equiv> rd16 b 14"
abbreviation (input) bpb_fat_cnt :: "u8 list \<Rightarrow> u8" where "bpb_fat_cnt b \<equiv> b ! 16"
abbreviation (input) bpb_sect_cnt_32 :: "u8 list \<Rightarrow> u32" where "bpb_sect_cnt_32 b \<equiv> rd32 b 32"
abbreviation (input) bpb_sect_per_fat :: "u8 list \<Rightarrow> u32" where "bpb_sect_per_fat b \<equiv> rd32 b 36"
abbreviation (input) bpb_ext_flags :: "u8 list \<Rightarrow> u16" where "bpb_ext_flags b \<equiv> rd16 b 40"
abbreviation (input) bpb_root_cluster :: "u8 list \<Rightarrow> u32" where "bpb_root_cluster b \<equiv> rd32 b 44"
abbreviation (input) bpb_info_sect :: "u8 list \<Rightarrow> u16" where "bpb_info_sect b \<equiv> rd16 b 48"

definition fs_type_fat32 :: "u8 list" where
  "fs_type_fat32 = [0x46, 0x41, 0x54, 0x33, 0x32, 0x20, 0x20, 0x20]"

text \<open>\<open>None\<close> is the division by zero.\<close>

definition check_fat :: "u8 list \<Rightarrow> bool option" where
  "check_fat b =
     (if b ! 0 \<noteq> 0xeb \<and> b ! 0 \<noteq> 0xe9 then Some False
      else if bpb_fat_cnt b \<noteq> 2 then Some False
      else if rd16 b 17 \<noteq> 0 \<or> rd16 b 19 \<noteq> 0 \<or> rd16 b 22 \<noteq> 0 then Some False
      else if bpb_info_sect b \<noteq> 1 then Some False
      else if slice b 82 8 \<noteq> fs_type_fat32 then Some False
      else if bpb_bytes_per_sect b \<noteq> 512 then Some False
      else if bpb_ext_flags b AND 0x80 = 0 \<and> bpb_ext_flags b AND 0x0f > 1 then Some False
      else if bpb_sect_per_clust b = 0 then None
      else
        let sect_cnt = bpb_sect_cnt_32 b
              - (ucast (bpb_res_sect_cnt b) + ucast (bpb_fat_cnt b) * bpb_sect_per_fat b)
        in Some (sect_cnt div ucast (bpb_sect_per_clust b) \<ge> 65525))"

definition mount_read :: "'d disk_ops \<Rightarrow> u32 \<Rightarrow> ('d mst, mount_err, unit) prog" where
  "mount_read ops n = (\<lambda>s. case op_read ops (m_buf s) n (m_dev s) of
     (ok, b, d) \<Rightarrow> Some (if ok then Inr () else Inl (Err FAT_ERR_IO), s\<lparr>m_buf := b, m_dev := d\<rparr>))"

definition mount_check :: "('d mst, mount_err, bool) prog" where
  "mount_check = bnd (gets (\<lambda>s. check_fat (m_buf s))) (\<lambda>r.
     case r of None \<Rightarrow> throw Div_zero | Some ok \<Rightarrow> ret ok)"

definition probe :: "'d disk_ops \<Rightarrow> nat \<Rightarrow> ('d mst, mount_err, u32) prog" where
  "probe ops part =
     bnd (mount_read ops 0) (\<lambda>_.
     bnd mount_check (\<lambda>ok.
     if ok then (if part = 0 then ret 0 else throw (Err FAT_ERR_NOFAT))
     else
       bnd (gets (\<lambda>s. get_part_lba (m_buf s) part)) (\<lambda>r.
       case r of
         None \<Rightarrow> throw (Err FAT_ERR_NOFAT)
       | Some lba \<Rightarrow>
           bnd (mount_read ops lba) (\<lambda>_.
           bnd mount_check (\<lambda>ok. if ok then ret lba else throw (Err FAT_ERR_NOFAT))))))"

definition fat_probe :: "'d disk_ops \<Rightarrow> nat \<Rightarrow> ('d mst, mount_err, unit) prog" where
  "fat_probe ops part = bnd (probe ops part) (\<lambda>_. ret ())"

subsection \<open>Mounting\<close>

text \<open>\<open>__builtin_ctz\<close> of a byte that is not 0.\<close>

definition ctz :: "u8 \<Rightarrow> nat" where
  "ctz x = length (takeWhile (\<lambda>i. \<not> bit x i) [0..<8])"

text \<open>The fields that come from the boot sector \<open>b\<close> of the partition that starts at \<open>lba\<close>.\<close>

definition mount_geometry :: "u8 list \<Rightarrow> u32 \<Rightarrow> 'd fat \<Rightarrow> 'd fat" where
  "mount_geometry b lba f =
     (let mirror = (bpb_ext_flags b AND 0x80 \<noteq> 0); use_first = (bpb_ext_flags b AND 1 = 0);
          res = ucast (bpb_res_sect_cnt b) :: u32; spf = bpb_sect_per_fat b;
          fat_0 = lba + res; fat_1 = lba + res + spf
      in f\<lparr>clust_shift := word_of_nat (ctz (bpb_sect_per_clust b)),
           clust_msk := ucast (bpb_sect_per_clust b) - 1, clust_cnt := spf * 128,
           root_clust := bpb_root_cluster b,
           fat_sect0 := (if use_first then fat_0 else fat_1),
           fat_sect1 := (if mirror then (if use_first then fat_1 else fat_0) else 0),
           info_sect := lba + ucast (bpb_info_sect b),
           data_sect := lba + res + ucast (bpb_fat_cnt b) * spf\<rparr>)"

definition fsinfo_ok :: "u8 list \<Rightarrow> bool" where
  "fsinfo_ok b \<longleftrightarrow>
     \<not> (rd32 b 508 \<noteq> 0xaa550000 \<or> rd32 b 0 \<noteq> 0x41615252 \<or> rd32 b 484 \<noteq> 0x61417272
        \<or> rd32 b 492 = 0xffffffff \<or> rd32 b 488 = 0xffffffff)"

text \<open>\<open>a\<close> is the address of the struct \<open>Fat\<close>, \<open>name\<close> the string without its terminator.  The
  code sets neither \<open>flags\<close> nor \<open>buf\<close>: they are what the struct held.\<close>

definition fat_mount :: "'d disk_ops \<Rightarrow> nat \<Rightarrow> nat \<Rightarrow> u8 list \<Rightarrow> ('d mst, mount_err, unit) prog" where
  "fat_mount ops part a name =
     bnd (probe ops part) (\<lambda>lba.
     bnd (modify (\<lambda>s. s\<lparr>vols := (vols s)(a := mount_geometry (m_buf s) lba (vols s a))\<rparr>)) (\<lambda>_.
     bnd (gets (\<lambda>s. info_sect (vols s a))) (\<lambda>info.
     bnd (mount_read ops info) (\<lambda>_.
     bnd (gets m_buf) (\<lambda>b.
     if \<not> fsinfo_ok b then throw (Err FAT_ERR_NOFAT)
     else
       bnd (modify (\<lambda>s. s\<lparr>vols := (vols s)(a := (vols s a)\<lparr>last_used := rd32 b 492, free_cnt := rd32 b 488\<rparr>)\<rparr>)) (\<lambda>_.
       if length name > 32 then throw (Err FAT_ERR_PARAM)
       else
         modify (\<lambda>s. s\<lparr>vols := (vols s)(a := (vols s a)\<lparr>fat_name := put_slice (fat_name (vols s a)) 0 name,
             fat_name_len := word_of_nat (length name), fat_ops := ops, buf_sect := 0,
             fat_next := g_fat_list s\<rparr>), g_fat_list := Some a\<rparr>)))))))"

subsection \<open>The list of volumes\<close>

text \<open>\<open>find_fat_volume\<close> along the pointers; a cyclic list may keep it from returning.\<close>

partial_function (option) find_volume :: "(nat \<Rightarrow> 'd fat) \<Rightarrow> u8 list \<Rightarrow> nat \<Rightarrow> nat option \<Rightarrow> nat option option" where
  "find_volume h name len it =
     (case it of
        None \<Rightarrow> Some None
      | Some a \<Rightarrow>
          if len = unat (fat_name_len (h a)) \<and> take len name = take len (fat_name (h a)) then Some (Some a)
          else find_volume h name len (fat_next (h a)))"

text \<open>The first loop of \<open>fat_umount\<close>: \<open>it\<close> is a pointer to a pointer, the head of the list
  (\<open>None\<close>) or the field \<open>next\<close> of a volume.\<close>

definition link_val :: "'d mst \<Rightarrow> nat option \<Rightarrow> nat option" where
  "link_val s it = (case it of None \<Rightarrow> g_fat_list s | Some a \<Rightarrow> fat_next (vols s a))"

partial_function (option) find_link :: "'d mst \<Rightarrow> nat \<Rightarrow> nat option \<Rightarrow> nat option option" where
  "find_link s a it =
     (case link_val s it of
        None \<Rightarrow> Some it
      | Some b \<Rightarrow> if b = a then Some it else find_link s a (Some b))"

definition set_link :: "nat option \<Rightarrow> nat option \<Rightarrow> 'd mst \<Rightarrow> 'd mst" where
  "set_link it x s = (case it of None \<Rightarrow> s\<lparr>g_fat_list := x\<rparr>
     | Some a \<Rightarrow> s\<lparr>vols := (vols s)(a := (vols s a)\<lparr>fat_next := x\<rparr>)\<rparr>)"

text \<open>\<open>sync_fs\<close> on the volume at \<open>a\<close>.\<close>

definition mount_sync :: "nat \<Rightarrow> ('d mst, mount_err, unit) prog" where
  "mount_sync a = (\<lambda>s. case sync_fs (fat.extend (vols s a) (vol.fields (m_dev s))) of
     None \<Rightarrow> None
   | Some (r, v) \<Rightarrow> Some (map_sum Err id r, s\<lparr>vols := (vols s)(a := fat.truncate v), m_dev := dev v\<rparr>))"

definition fat_umount :: "nat \<Rightarrow> ('d mst, mount_err, unit) prog" where
  "fat_umount a = (\<lambda>s. case find_link s a None of
     None \<Rightarrow> None
   | Some it \<Rightarrow>
       if link_val s it = None then Some (Inl (Err FAT_ERR_PARAM), s)
       else mount_sync a (set_link it (fat_next (vols s a)) s))"

end
