(* ===== verification/Fat_Volume.thy ===== *)
theory Fat_Volume
  imports Fat_Mount Fat_Content
begin

text \<open>
  What mounting establishes, and the list of mounted volumes: \<open>fat_mount\<close> gives a volume with the
  layout and the cache the rest of the driver relies on, \<open>find_fat_volume\<close> finds it by its
  name, and \<open>fat_umount\<close> takes it out of the list.
\<close>

subsection \<open>What mounting establishes\<close>

lemma wp_mount_read:
  assumes "block_dev ops content dinv" and "dinv (m_dev s)" and "length (m_buf s) = 512"
  shows "wp (mount_read ops n)
    (\<lambda>_ s'. s' = s\<lparr>m_buf := content (m_dev s) n, m_dev := m_dev s'\<rparr> \<and> dinv (m_dev s')
       \<and> content (m_dev s') = content (m_dev s))
    (\<lambda>e s'. e = Err FAT_ERR_IO) s"
proof -
  obtain ok b d where r: "op_read ops (m_buf s) n (m_dev s) = (ok, b, d)" by (metis surj_pair)
  show ?thesis
    using block_dev.read_ok[OF assms, of n b d] r by (cases ok) (auto simp: wp_def mount_read_def)
qed

text \<open>A boot sector whose sizes fit: a power of two of sectors to a cluster, \<open>FsInfo\<close> before the first
  table, fewer clusters than the reserved values, and an end below \<open>2 ^ 32\<close>.\<close>

definition bpb_sane :: "u8 list \<Rightarrow> u32 \<Rightarrow> bool" where
  "bpb_sane b lba \<longleftrightarrow>
     unat (bpb_sect_per_clust b) = 2 ^ ctz (bpb_sect_per_clust b) \<and> ctz (bpb_sect_per_clust b) \<le> 7
     \<and> 2 \<le> unat (bpb_res_sect_cnt b) \<and> 1 \<le> unat (bpb_sect_per_fat b)
     \<and> unat (bpb_sect_per_fat b) * 128 \<le> 0x0ffffff0
     \<and> unat lba + unat (bpb_res_sect_cnt b) + 2 * unat (bpb_sect_per_fat b)
         + unat (bpb_sect_per_clust b) * (unat (bpb_sect_per_fat b) * 128) \<le> 2 ^ 32"

lemma check_fatD:
  assumes "check_fat b = Some True"
  shows "bpb_fat_cnt b = 2" "bpb_info_sect b = 1" "bpb_sect_per_clust b \<noteq> 0"
  using assms by (auto simp: check_fat_def split: if_splits)

lemma check_fat_None: "check_fat b = None \<Longrightarrow> bpb_sect_per_clust b = 0"
  by (auto simp: check_fat_def Let_def split: if_splits)

lemma geometry_unat:
  assumes "check_fat b = Some True" and s: "bpb_sane b lba"
    and f_def: "f = mount_geometry b lba v"
  defines "res \<equiv> unat lba + unat (bpb_res_sect_cnt b)" and "spf \<equiv> unat (bpb_sect_per_fat b)"
  shows "unat (clust_cnt f) = spf * 128" "unat (info_sect f) = unat lba + 1" "unat (data_sect f) = res + 2 * spf"
    "spc f = unat (bpb_sect_per_clust b)" "unat (clust_shift f) = ctz (bpb_sect_per_clust b)"
    "clust_msk f = word_of_nat (spc f - 1)"
    "unat (fat_sect0 f) = res \<and> (fat_sect1 f = 0 \<or> unat (fat_sect1 f) = res + spf)
     \<or> unat (fat_sect0 f) = res + spf \<and> (fat_sect1 f = 0 \<or> unat (fat_sect1 f) = res)"
proof -
  note c = check_fatD[OF assms(1)]
  let ?r = "lba + ucast (bpb_res_sect_cnt b) :: u32" and ?s = "bpb_sect_per_fat b"
  have c0: "0 < unat (bpb_sect_per_clust b)" using c(3) by (simp add: unat_gt_0)
  have lim: "spf * 128 \<le> 0x0ffffff0" "2 \<le> res - unat lba" "1 \<le> spf"
    "res + 2 * spf + unat (bpb_sect_per_clust b) * (spf * 128) \<le> 2 ^ 32"
    using s unfolding bpb_sane_def res_def spf_def by (blast | linarith)+
  have "1 \<le> unat (bpb_sect_per_clust b) * (spf * 128)" using c0 lim(3) by simp
  then have le: "res + 2 * spf < 2 ^ 32" using lim(4) by linarith
  have r: "?r = word_of_nat res" "?s = word_of_nat spf" by (simp_all add: res_def spf_def)
  have "clust_cnt f = word_of_nat (spf * 128)" by (simp add: f_def mount_geometry_def Let_def spf_def)
  then show "unat (clust_cnt f) = spf * 128" using lim(1) unat_u32[of "spf * 128"] by simp
  have "info_sect f = word_of_nat (unat lba + 1)" using c by (simp add: f_def mount_geometry_def Let_def)
  moreover have "unat lba + 1 < 2 ^ 32" using le lim(2) by linarith
  ultimately show "unat (info_sect f) = unat lba + 1" by (simp only: unat_u32)
  have d: "data_sect f = word_of_nat (res + 2 * spf)"
    using c by (simp add: f_def mount_geometry_def Let_def r)
  show "unat (data_sect f) = res + 2 * spf" by (simp only: d unat_u32[OF le])
  have "ctz (bpb_sect_per_clust b) < 256" using s by (simp add: bpb_sane_def)
  then show k: "unat (clust_shift f) = ctz (bpb_sect_per_clust b)"
    by (simp add: f_def mount_geometry_def Let_def unat_of_nat take_bit_eq_mod)
  show sp: "spc f = unat (bpb_sect_per_clust b)" using s by (simp add: spc_def k bpb_sane_def)
  have "1 \<le> unat (bpb_sect_per_clust b)" using c0 by simp
  then show "clust_msk f = word_of_nat (spc f - 1)"
    unfolding sp by (simp add: f_def mount_geometry_def Let_def of_nat_diff of_nat_unat)
  have u: "unat ?r = res" "unat (?r + ?s) = res + spf"
    using le unat_u32[of res] unat_u32[of "res + spf"] by (simp_all only: r of_nat_add[symmetric])
  then show "unat (fat_sect0 f) = res \<and> (fat_sect1 f = 0 \<or> unat (fat_sect1 f) = res + spf)
     \<or> unat (fat_sect0 f) = res + spf \<and> (fat_sect1 f = 0 \<or> unat (fat_sect1 f) = res)"
    by (auto simp: f_def mount_geometry_def Let_def)
qed

lemma geometry_ok:
  assumes "check_fat b = Some True" and s: "bpb_sane b lba"
    and f_def: "f = mount_geometry b lba v"
  shows "geom_ok f" "data_geom f" "meta_sect f n \<Longrightarrow> unat n < unat (data_sect f)"
proof -
  note g = geometry_unat[OF assms]
  define res where "res = unat lba + unat (bpb_res_sect_cnt b)"
  define spf where "spf = unat (bpb_sect_per_fat b)"
  have lim: "spf * 128 \<le> 0x0ffffff0" "unat lba + 2 \<le> res" "1 \<le> spf" "ctz (bpb_sect_per_clust b) \<le> 7"
    "res + 2 * spf + unat (bpb_sect_per_clust b) * (spf * 128) \<le> 2 ^ 32"
    using s unfolding bpb_sane_def res_def spf_def by (blast | linarith)+
  note g = g[folded res_def spf_def]
  have fs: "fat_sectors f = spf" by (simp add: fat_sectors_def g(1))
  have le: "res + 2 * spf \<le> 2 ^ 32" using lim(5) by linarith
  have sects: "unat (fat_sect0 f) = res \<and> (fat_sect1 f = 0 \<or> unat (fat_sect1 f) = res + spf)
     \<or> unat (fat_sect0 f) = res + spf \<and> (fat_sect1 f = 0 \<or> unat (fat_sect1 f) = res)" by (rule g(7))
  have nz: "fat_sect0 f \<noteq> 0" "info_sect f \<noteq> 0" using sects lim(2) g(2) by (auto simp: unat_eq_0[symmetric])
  have "2 < clust_cnt f" "clust_cnt f \<le> 0x0ffffff0"
    using lim(1,3) g(1) by (simp_all add: word_less_nat_alt word_le_nat_alt)
  then show "geom_ok f"
    using sects nz lim(2) le unfolding geom_ok_def fs in_fat_def g(1,2) by auto
  show "data_geom f" using lim g by (simp add: data_geom_def)
  show "meta_sect f n \<Longrightarrow> unat n < unat (data_sect f)"
    using sects lim(2,3) unfolding meta_sect_def in_fat_def fs g(3) by (auto simp: g(2))
qed

lemma wp_mount_check:
  "wp mount_check (\<lambda>ok t. t = s \<and> check_fat (m_buf s) = Some ok)
     (\<lambda>e t. t = s \<and> e = Div_zero \<and> bpb_sect_per_clust (m_buf s) = 0) s"
  by (cases "check_fat (m_buf s)") (simp_all add: mount_check_def wp_rules check_fat_None)

text \<open>Reading the device leaves the volumes alone.\<close>

definition mframe :: "('d \<Rightarrow> u32 \<Rightarrow> u8 list) \<Rightarrow> ('d \<Rightarrow> bool) \<Rightarrow> 'd mst \<Rightarrow> 'd mst \<Rightarrow> bool" where
  "mframe content dinv s t \<longleftrightarrow>
     vols t = vols s \<and> g_fat_list t = g_fat_list s \<and> content (m_dev t) = content (m_dev s)
     \<and> dinv (m_dev t) \<and> length (m_buf t) = 512"

lemma mframe_trans: "mframe content dinv s t \<Longrightarrow> mframe content dinv t u \<Longrightarrow> mframe content dinv s u"
  by (simp add: mframe_def)

lemma mount_read_frame:
  assumes "block_dev ops content dinv" and "mframe content dinv s t"
  shows "wp (mount_read ops n)
    (\<lambda>_ t'. mframe content dinv s t' \<and> m_buf t' = content (m_dev s) n)
    (\<lambda>e t'. mframe content dinv s t' \<and> e = Err FAT_ERR_IO) t"
proof -
  obtain ok b d where r: "op_read ops (m_buf t) n (m_dev t) = (ok, b, d)" by (metis surj_pair)
  have t: "dinv (m_dev t)" "length (m_buf t) = 512" "content (m_dev t) = content (m_dev s)"
    using assms(2) by (simp_all add: mframe_def)
  show ?thesis
    using block_dev.read_ok[OF assms(1) t(1,2), of n b d] block_dev.read_fail[OF assms(1) t(1,2), of n b d]
      block_dev.content_len[OF assms(1) t(1), of n] r assms(2) t
    by (cases ok) (auto simp: wp_def mount_read_def mframe_def)
qed

definition boot_at :: "('d \<Rightarrow> u32 \<Rightarrow> u8 list) \<Rightarrow> 'd \<Rightarrow> nat \<Rightarrow> u32 \<Rightarrow> bool" where
  "boot_at content d part lba \<longleftrightarrow>
     check_fat (content d lba) = Some True
     \<and> (part = 0 \<and> lba = 0 \<or> check_fat (content d 0) = Some False \<and> get_part_lba (content d 0) part = Some lba)"

lemma probe_wp:
  assumes B: "block_dev ops content dinv" and s: "mframe content dinv s s"
  shows "wp (probe ops part)
    (\<lambda>lba t. mframe content dinv s t \<and> m_buf t = content (m_dev s) lba \<and> boot_at content (m_dev s) part lba)
    (\<lambda>e t. mframe content dinv s t \<and> (e = Div_zero \<longrightarrow> (\<exists>n. bpb_sect_per_clust (content (m_dev s) n) = 0))) s"
proof -
  note rd = mount_read_frame[OF B]
  show ?thesis
    unfolding probe_def
  proof (rule wp_bndI[OF rd[OF s]], goal_cases)
    case (1 _ t)
    show ?case
    proof (rule wp_bndI[OF wp_mount_check], goal_cases)
      case (1 ok u)
      then have u: "u = t" "mframe content dinv s u" "check_fat (content (m_dev s) 0) = Some ok"
        "m_buf u = content (m_dev s) 0"
        using \<open>mframe content dinv s t \<and> _\<close> by simp_all
      show ?case
      proof (cases ok)
        case True
        then show ?thesis using u by (simp add: wp_rules boot_at_def)
      next
        case False
        show ?thesis
        proof (cases "get_part_lba (m_buf u) part")
          case None
          then show ?thesis using False u by (simp add: wp_rules)
        next
          case (Some lba)
          have "wp (bnd (mount_read ops lba) (\<lambda>_. bnd mount_check (\<lambda>ok. if ok then ret lba else throw (Err FAT_ERR_NOFAT))))
            (\<lambda>lba t. mframe content dinv s t \<and> m_buf t = content (m_dev s) lba \<and> boot_at content (m_dev s) part lba)
            (\<lambda>e t. mframe content dinv s t \<and> (e = Div_zero \<longrightarrow> (\<exists>n. bpb_sect_per_clust (content (m_dev s) n) = 0))) u"
          proof (rule wp_bndI[OF rd[OF u(2)]], goal_cases)
            case (1 _ w)
            show ?case
              by (rule wp_bndI[OF wp_mount_check]) (use 1 u False Some in \<open>auto simp: wp_rules boot_at_def\<close>)
          qed simp
          then show ?thesis using False Some by (simp add: wp_bnd wp_gets)
        qed
      qed
    qed (use 1 in auto)
  qed simp
qed

lemma meta_below_cong:
  "geom_ok (f\<lparr>last_used := l, free_cnt := c, fat_name := n, fat_name_len := k, fat_ops := p, buf_sect := b, fat_next := x\<rparr>) = geom_ok f"
  "data_geom (f\<lparr>last_used := l, free_cnt := c, fat_name := n, fat_name_len := k, fat_ops := p, buf_sect := b, fat_next := x\<rparr>) = data_geom f"
  "meta_sect (f\<lparr>last_used := l, free_cnt := c, fat_name := n, fat_name_len := k, fat_ops := p, buf_sect := b, fat_next := x\<rparr>) = meta_sect f"
  by (simp_all add: fun_eq_iff geom_ok_def in_fat_def fat_sectors_def data_geom_def spc_def meta_sect_def)

text \<open>What is known of the struct at \<open>a\<close> when mounting has returned.\<close>

definition mounted :: "'d disk_ops \<Rightarrow> ('d \<Rightarrow> u32 \<Rightarrow> u8 list) \<Rightarrow> 'd \<Rightarrow> u32 \<Rightarrow> u8 list \<Rightarrow> 'd fat \<Rightarrow> 'd fat \<Rightarrow> bool" where
  "mounted ops content d lba name f0 f \<longleftrightarrow>
     (let b = content d lba; g = mount_geometry b lba f0; i = content d (info_sect g)
      in fsinfo_ok i \<and> length name \<le> 32
         \<and> f = g\<lparr>last_used := rd32 i 492, free_cnt := rd32 i 488, fat_name := put_slice (fat_name f0) 0 name,
                fat_name_len := word_of_nat (length name), fat_ops := ops, buf_sect := 0, fat_next := fat_next f\<rparr>)"

lemma mount_geometry_keeps [simp]:
  "fat_name (mount_geometry b lba f) = fat_name f" "fat_buf (mount_geometry b lba f) = fat_buf f"
  "fat_flags (mount_geometry b lba f) = fat_flags f"
  by (simp_all add: mount_geometry_def Let_def)

lemma mount_wp:
  assumes B: "block_dev ops content dinv" and s: "dinv (m_dev s)" "length (m_buf s) = 512"
  shows "wp (fat_mount ops part a name)
    (\<lambda>_ t. (\<exists>lba. boot_at content (m_dev s) part lba
         \<and> mounted ops content (m_dev s) lba name (vols s a) (vols t a))
       \<and> fat_next (vols t a) = g_fat_list s \<and> g_fat_list t = Some a
       \<and> (\<forall>x. x \<noteq> a \<longrightarrow> vols t x = vols s x) \<and> content (m_dev t) = content (m_dev s) \<and> dinv (m_dev t))
    (\<lambda>e t. g_fat_list t = g_fat_list s \<and> (\<forall>x. x \<noteq> a \<longrightarrow> vols t x = vols s x) \<and> fat_next (vols t a) = fat_next (vols s a)
       \<and> content (m_dev t) = content (m_dev s) \<and> dinv (m_dev t)
       \<and> (e = Div_zero \<longrightarrow> (\<exists>n. bpb_sect_per_clust (content (m_dev s) n) = 0))) s"
  (is "wp _ ?Q ?E s")
proof -
  have fr: "mframe content dinv s s" using s by (simp add: mframe_def)
  show ?thesis
    unfolding fat_mount_def
  proof (rule wp_bndI[OF probe_wp[OF B fr]], goal_cases)
    case (1 lba t)
    let ?g = "mount_geometry (content (m_dev s) lba) lba (vols s a)"
    let ?u = "t\<lparr>vols := (vols s)(a := ?g)\<rparr>"
    have t: "vols t = vols s" "m_buf t = content (m_dev s) lba" using 1 by (simp_all add: mframe_def)
    have len: "length (m_buf t) = 512" using 1 unfolding mframe_def by blast
    have fu: "mframe content dinv ?u ?u" "content (m_dev ?u) = content (m_dev s)" using 1 len by (simp_all add: mframe_def)
    have nx: "fat_next ?g = fat_next (vols s a)" by (simp add: mount_geometry_def Let_def)
    show ?case
      unfolding wp_bnd[of "modify _"] wp_modify wp_bnd[of "gets _"] wp_gets t
    proof (rule wp_bndI[OF mount_read_frame[OF B fu(1)]], goal_cases)
      case (1 _ w)
      then have w: "vols w = (vols s)(a := ?g)" "g_fat_list w = g_fat_list s" "content (m_dev w) = content (m_dev s)"
        "dinv (m_dev w)" "m_buf w = content (m_dev s) (info_sect ?g)"
        using \<open>mframe content dinv s t \<and> _\<close> by (simp_all add: mframe_def)
      have b: "boot_at content (m_dev s) part lba" using \<open>mframe content dinv s t \<and> _\<close> by blast
      show ?case
      proof (cases "fsinfo_ok (m_buf w) \<and> length name \<le> 32")
        case True
        then show ?thesis
          using b w by (auto simp: wp_rules mounted_def Let_def)
      next
        case False
        then show ?thesis using w nx by (auto simp: wp_rules)
      qed
    next
      case (2 e w)
      then show ?case using \<open>mframe content dinv s t \<and> _\<close> nx by (auto simp: mframe_def)
    qed
  next
    case (2 e t)
    then show ?case by (auto simp: mframe_def)
  qed
qed

lemma mounted_name:
  assumes m: "mounted ops content d lba name f0 f"
  shows "fat_name f = put_slice (fat_name f0) 0 name" "fat_name_len f = word_of_nat (length name)"
proof -
  let ?g = "mount_geometry (content d lba) lba f0"
  let ?i = "content d (info_sect ?g)"
  have f: "f = ?g\<lparr>last_used := rd32 ?i 492, free_cnt := rd32 ?i 488, fat_name := put_slice (fat_name f0) 0 name,
                fat_name_len := word_of_nat (length name), fat_ops := ops, buf_sect := 0, fat_next := fat_next f\<rparr>"
    using m by (simp add: mounted_def Let_def)
  show "fat_name f = put_slice (fat_name f0) 0 name" "fat_name_len f = word_of_nat (length name)" by (subst f, simp)+
qed

lemma mounted_sound:
  assumes m: "mounted ops content d lba name f0 f" and "boot_at content d part lba" and "bpb_sane (content d lba) lba"
    and clean: "\<not> buf_dirty f0" "length (fat_buf f0) = 512" and "dinv d'"
  shows "geom_ok f" "data_geom f" "meta_sect f n \<Longrightarrow> unat n < unat (data_sect f)"
    "cache_ok ops content dinv (fat.extend f (vol.fields d'))"
proof -
  let ?g = "mount_geometry (content d lba) lba f0"
  let ?i = "content d (info_sect ?g)"
  have f: "f = ?g\<lparr>last_used := rd32 ?i 492, free_cnt := rd32 ?i 488, fat_name := put_slice (fat_name f0) 0 name,
                fat_name_len := word_of_nat (length name), fat_ops := ops, buf_sect := 0, fat_next := fat_next f\<rparr>"
    using m by (simp add: mounted_def Let_def)
  have c: "check_fat (content d lba) = Some True" using assms(2) by (simp add: boot_at_def)
  note g = geometry_ok[OF c assms(3) refl, of f0]
  have e: "geom_ok f = geom_ok ?g" "data_geom f = data_geom ?g" "meta_sect f = meta_sect ?g" "data_sect f = data_sect ?g"
    by (subst f, simp only: meta_below_cong)+ (subst f, simp)
  show "geom_ok f" "data_geom f" "meta_sect f n \<Longrightarrow> unat n < unat (data_sect f)" using g(1,2,3) unfolding e by blast+
  have "fat_ops f = ops" "fat_buf f = fat_buf f0" "fat_flags f = fat_flags f0" "buf_sect f = 0" by (subst f, simp)+
  moreover have "\<not> buf_dirty (fat.extend f (vol.fields d'))"
    using clean(1) calculation(3) by (simp add: buf_dirty_def fat.extend_def)
  ultimately show "cache_ok ops content dinv (fat.extend f (vol.fields d'))"
    using clean(2) assms(6) by (simp add: cache_ok_def fat.extend_def vol.fields_def)
qed

subsection \<open>The list of volumes\<close>

text \<open>\<open>xs\<close> are the volumes linked from \<open>p\<close> on.\<close>

primrec vol_list :: "(nat \<Rightarrow> 'd fat) \<Rightarrow> nat option \<Rightarrow> nat list \<Rightarrow> bool" where
  "vol_list h p [] \<longleftrightarrow> p = None"
| "vol_list h p (x # xs) \<longleftrightarrow> p = Some x \<and> vol_list h (fat_next (h x)) xs"

lemma vol_list_unique: "vol_list h p xs \<Longrightarrow> vol_list h p ys \<Longrightarrow> xs = ys"
  by (induction xs arbitrary: p ys) (case_tac ys; auto)+

lemma vol_list_drop: "vol_list h p (xs @ x # ys) \<Longrightarrow> vol_list h (fat_next (h x)) ys"
  by (induction xs arbitrary: p) auto

lemma vol_list_notin: "vol_list h p (x # xs) \<Longrightarrow> x \<notin> set xs"
proof
  assume l: "vol_list h p (x # xs)" and "x \<in> set xs"
  then obtain ys zs where "xs = ys @ x # zs" by (auto dest: split_list)
  with l have "vol_list h (fat_next (h x)) (ys @ x # zs)" "vol_list h (fat_next (h x)) zs"
    using vol_list_drop[of h p "x # ys" x zs] by auto
  from vol_list_unique[OF this] show False by (simp add: neq_Nil_conv)
qed

lemma vol_list_distinct: "vol_list h p xs \<Longrightarrow> distinct xs"
proof (induction xs arbitrary: p)
  case (Cons x xs)
  then show ?case using vol_list_notin[of h p x xs] by auto
qed simp

lemma vol_list_upd: "a \<notin> set xs \<Longrightarrow> vol_list (h(a := f)) p xs = vol_list h p xs"
  by (induction xs arbitrary: p) auto

lemma vol_list_cong: "(\<And>x. x \<in> set xs \<Longrightarrow> fat_next (g x) = fat_next (h x)) \<Longrightarrow> vol_list g p xs = vol_list h p xs"
  by (induction xs arbitrary: p) auto

text \<open>\<open>vol_named\<close> is the test of \<open>find_fat_volume\<close>.\<close>

definition vol_named :: "u8 list \<Rightarrow> nat \<Rightarrow> 'd fat \<Rightarrow> bool" where
  "vol_named name len f \<longleftrightarrow> len = unat (fat_name_len f) \<and> take len name = take len (fat_name f)"

lemma find_volume_list: "vol_list h p xs \<Longrightarrow> find_volume h name len p = Some (find (\<lambda>a. vol_named name len (h a)) xs)"
proof (induction xs arbitrary: p)
  case Nil
  then show ?case by (simp add: find_volume.simps)
next
  case (Cons x xs)
  then show ?case by (subst find_volume.simps) (auto simp: vol_named_def)
qed

lemma find_link_list:
  assumes "vol_list (vols s) (link_val s it) xs"
  shows "\<exists>it'. find_link s a it = Some it'
     \<and> (if a \<in> set xs then link_val s it' = Some a \<and> (it' = it \<or> (\<exists>ys b zs. xs = ys @ b # a # zs \<and> it' = Some b))
        else link_val s it' = None)"
  using assms
proof (induction xs arbitrary: it)
  case Nil
  then show ?case by (simp add: find_link.simps)
next
  case (Cons x xs)
  then have l: "link_val s it = Some x" and r: "vol_list (vols s) (link_val s (Some x)) xs"
    by (simp_all add: link_val_def)
  show ?case
  proof (cases "x = a")
    case True
    then show ?thesis using l by (simp add: find_link.simps[of s a it])
  next
    case False
    have eq: "find_link s a it = find_link s a (Some x)" using False l by (simp add: find_link.simps[of s a it])
    from Cons.IH[OF r] obtain it' where i: "find_link s a (Some x) = Some it'"
      and c: "if a \<in> set xs then link_val s it' = Some a \<and> (it' = Some x \<or> (\<exists>ys b zs. xs = ys @ b # a # zs \<and> it' = Some b))
        else link_val s it' = None" by blast
    show ?thesis
    proof (cases "a \<in> set xs")
      case out: False
      then show ?thesis using False eq i c by simp
    next
      case True
      then have "it' = Some x \<or> (\<exists>ys b zs. xs = ys @ b # a # zs \<and> it' = Some b)" using c by simp
      then have "\<exists>ys b zs. x # xs = ys @ b # a # zs \<and> it' = Some b"
      proof
        assume x: "it' = Some x"
        then have "link_val s (Some x) = Some a" using True c by simp
        then have "\<exists>zs. xs = a # zs" using r True by (cases xs) auto
        then show ?thesis using x by (metis append_Nil)
      next
        assume "\<exists>ys b zs. xs = ys @ b # a # zs \<and> it' = Some b"
        then show ?thesis by (metis append_Cons)
      qed
      then show ?thesis using True eq i c by simp
    qed
  qed
qed

lemma vol_list_unlink:
  "vol_list h p (ys @ b # a # zs) \<Longrightarrow>
   vol_list (h(b := (h b)\<lparr>fat_next := fat_next (h a)\<rparr>)) p (ys @ b # zs)"
proof (induction ys arbitrary: p)
  case Nil
  then have "b \<notin> set (a # zs)" using vol_list_notin[of h p b "a # zs"] by simp
  with Nil show ?case by (simp add: vol_list_upd del: fun_upd_apply) simp
next
  case (Cons y ys)
  then have "y \<noteq> b" using vol_list_notin[of h p y "ys @ b # a # zs"] by auto
  then show ?case using Cons by (auto simp: fun_upd_def)
qed

lemma set_link_unlinks:
  assumes l: "vol_list (vols s) (g_fat_list s) xs" and a: "a \<in> set xs"
  shows "\<exists>it. find_link s a None = Some it \<and> link_val s it = Some a
    \<and> vol_list (vols (set_link it (fat_next (vols s a)) s)) (g_fat_list (set_link it (fat_next (vols s a)) s)) (remove1 a xs)
    \<and> vols (set_link it (fat_next (vols s a)) s) a = vols s a
    \<and> m_dev (set_link it (fat_next (vols s a)) s) = m_dev s"
proof -
  have "vol_list (vols s) (link_val s None) xs" using l by (simp add: link_val_def)
  from find_link_list[OF this, of a] a obtain it where it: "find_link s a None = Some it" "link_val s it = Some a"
    "it = None \<or> (\<exists>ys b zs. xs = ys @ b # a # zs \<and> it = Some b)" by auto
  from it(3) show ?thesis
  proof
    assume n: "it = None"
    then obtain ys where "xs = a # ys" using it(2) l a by (cases xs) (auto simp: link_val_def)
    then show ?thesis using it(1,2) n l by (auto simp: set_link_def)
  next
    assume "\<exists>ys b zs. xs = ys @ b # a # zs \<and> it = Some b"
    then obtain ys b zs where x: "xs = ys @ b # a # zs" "it = Some b" by blast
    have d: "distinct xs" by (rule vol_list_distinct[OF l])
    then have r: "remove1 a xs = ys @ b # zs" "a \<noteq> b" using x by (auto simp: remove1_append)
    show ?thesis using it(1,2) x(2) r vol_list_unlink[of "vols s" "g_fat_list s" ys b a zs] l
      by (auto simp: set_link_def x(1)[symmetric])
  qed
qed

definition vol_at :: "'d mst \<Rightarrow> nat \<Rightarrow> 'd vol" where
  "vol_at s a = fat.extend (vols s a) (vol.fields (m_dev s))"

lemma vol_at_fields:
  "fat_next (vol_at s a) = fat_next (vols s a)" "info_sect (vol_at s a) = info_sect (vols s a)"
  "fat.truncate (vol_at s a) = vols s a" "dev (vol_at s a) = m_dev s"
  by (simp_all add: vol_at_def fat.extend_def vol.fields_def fat.truncate_def)

lemma mount_sync_wp:
  assumes B: "block_dev ops content dinv" and c: "cache_ok ops content dinv (vol_at s a)"
    and i: "info_sect (vols s a) \<noteq> 0" and l: "vol_list (vols s) (g_fat_list s) xs"
  shows "wp (mount_sync a)
    (\<lambda>_ t. vol_list (vols t) (g_fat_list t) xs \<and> \<not> buf_dirty (vols t a) \<and> \<not> info_dirty (vols t a)
       \<and> (\<forall>x. x \<noteq> a \<longrightarrow> vols t x = vols s x)
       \<and> (\<forall>n. n \<noteq> 0 \<longrightarrow> content (m_dev t) n = block_dev.fsinfo_view content (vol_at s a) n))
    (\<lambda>e t. e = Err FAT_ERR_IO \<and> vol_list (vols t) (g_fat_list t) xs \<and> (\<forall>x. x \<noteq> a \<longrightarrow> vols t x = vols s x)) s"
proof -
  have i': "info_sect (vol_at s a) \<noteq> 0" using i by (simp add: vol_at_fields)
  note w = block_dev.sync_fs_wp[OF B c i']
  from wp_returns[OF w] obtain r v where r: "sync_fs (vol_at s a) = Some (r, v)" by blast
  have "only_cache (vol_at s a) v" using w r by (cases r) (auto simp: wp_def)
  then have n: "fat_next v = fat_next (vols s a)" by (simp add: only_cache_fields vol_at_fields)
  have l': "vol_list ((vols s)(a := fat.truncate v)) (g_fat_list s) xs"
    using l n by (subst vol_list_cong[where h = "vols s"]) (auto simp: fat.truncate_def)
  show ?thesis
    using w r l' by (cases r) (auto simp: wp_def mount_sync_def vol_at_def[symmetric] buf_dirty_def info_dirty_def fat.truncate_def)
qed

lemma umount_wp:
  assumes B: "block_dev ops content dinv" and c: "cache_ok ops content dinv (vol_at s a)"
    and i: "info_sect (vols s a) \<noteq> 0" and l: "vol_list (vols s) (g_fat_list s) xs" and a: "a \<in> set xs"
  shows "wp (fat_umount a)
    (\<lambda>_ t. vol_list (vols t) (g_fat_list t) (remove1 a xs) \<and> \<not> buf_dirty (vols t a) \<and> \<not> info_dirty (vols t a)
       \<and> (\<forall>n. n \<noteq> 0 \<longrightarrow> content (m_dev t) n = block_dev.fsinfo_view content (vol_at s a) n))
    (\<lambda>e t. e = Err FAT_ERR_IO \<and> vol_list (vols t) (g_fat_list t) (remove1 a xs)) s"
proof -
  from set_link_unlinks[OF l a] obtain it where it: "find_link s a None = Some it" "link_val s it = Some a"
    and s: "vol_list (vols (set_link it (fat_next (vols s a)) s)) (g_fat_list (set_link it (fat_next (vols s a)) s)) (remove1 a xs)"
      "vols (set_link it (fat_next (vols s a)) s) a = vols s a" "m_dev (set_link it (fat_next (vols s a)) s) = m_dev s" by blast
  let ?s = "set_link it (fat_next (vols s a)) s"
  have v: "vol_at ?s a = vol_at s a" using s(2,3) by (simp add: vol_at_def)
  have "fat_umount a s = mount_sync a ?s" using it by (simp add: fat_umount_def)
  moreover have "wp (mount_sync a) (\<lambda>_ t. vol_list (vols t) (g_fat_list t) (remove1 a xs) \<and> \<not> buf_dirty (vols t a) \<and> \<not> info_dirty (vols t a)
       \<and> (\<forall>n. n \<noteq> 0 \<longrightarrow> content (m_dev t) n = block_dev.fsinfo_view content (vol_at s a) n))
    (\<lambda>e t. e = Err FAT_ERR_IO \<and> vol_list (vols t) (g_fat_list t) (remove1 a xs)) ?s"
    by (rule wp_conseq[OF mount_sync_wp[OF B, of ?s a "remove1 a xs", unfolded v, OF c _ s(1)]]) (use i s(2) in auto)
  ultimately show ?thesis by (simp add: wp_def)
qed

subsection \<open>The claims\<close>

text \<open>C19. Mounting returns on every device.  When it succeeds, the volume is the new head of the list,
  its struct holds the geometry of the boot sector of the partition asked for and the counters of a
  valid \<open>FsInfo\<close> sector, no other volume and no sector has changed; and when the sizes in
  the boot sector fit, the volume has the layout and the cache the driver relies on: the tables, the
  \<open>FsInfo\<close> sector and the data area do not overlap.  When it fails, the list is as before, and
  the division by zero happens only with a boot sector that has 0 sectors to a cluster.\<close>

theorem fat_mount_establishes:
  assumes "block_dev ops content dinv" and "dinv (m_dev s)" and "length (m_buf s) = 512"
    and "\<not> buf_dirty (vols s a)" and "length (fat_buf (vols s a)) = 512"
  shows "wp (fat_mount ops part a name)
    (\<lambda>_ t. g_fat_list t = Some a \<and> fat_next (vols t a) = g_fat_list s
       \<and> (\<forall>x. x \<noteq> a \<longrightarrow> vols t x = vols s x) \<and> content (m_dev t) = content (m_dev s)
       \<and> (\<exists>lba. boot_at content (m_dev s) part lba
            \<and> mounted ops content (m_dev s) lba name (vols s a) (vols t a)
            \<and> (bpb_sane (content (m_dev s) lba) lba \<longrightarrow>
                 geom_ok (vols t a) \<and> data_geom (vols t a) \<and> cache_ok ops content dinv (vol_at t a)
                 \<and> (\<forall>n. meta_sect (vols t a) n \<longrightarrow> unat n < unat (data_sect (vols t a))))))
    (\<lambda>e t. g_fat_list t = g_fat_list s \<and> (\<forall>x. x \<noteq> a \<longrightarrow> vols t x = vols s x)
       \<and> content (m_dev t) = content (m_dev s)
       \<and> (e = Div_zero \<longrightarrow> (\<exists>n. bpb_sect_per_clust (content (m_dev s) n) = 0))) s"
proof (rule wp_conseq[OF mount_wp[OF assms(1-3)]], goal_cases)
  case (1 _ t)
  then obtain lba where l: "boot_at content (m_dev s) part lba"
    "mounted ops content (m_dev s) lba name (vols s a) (vols t a)" and d: "dinv (m_dev t)" by blast
  have "geom_ok (vols t a) \<and> data_geom (vols t a) \<and> cache_ok ops content dinv (vol_at t a)
      \<and> (\<forall>n. meta_sect (vols t a) n \<longrightarrow> unat n < unat (data_sect (vols t a)))"
    if b: "bpb_sane (content (m_dev s) lba) lba"
    using mounted_sound[where content = content and d = "m_dev s" and lba = lba and dinv = dinv and d' = "m_dev t", OF l(2,1) b assms(4,5) d] unfolding vol_at_def by blast
  then show ?case using 1 l by blast
qed blast

text \<open>A disk of 70000 sectors that is one volume: 512 sectors for each table, one sector to a cluster.\<close>

definition demo_boot :: "u8 list" where
  "demo_boot =
     (put_slice (wr16 (wr32 (wr32 (wr32 (wr16 (wr16 (replicate 512 0) 11 512) 14 32) 32 70000) 36 512) 44 2) 48 1)
       82 fs_type_fat32) [0 := 0xeb, 13 := 1, 16 := 2]"

definition demo_info :: "u8 list" where
  "demo_info = wr32 (wr32 (wr32 (wr32 (wr32 (replicate 512 0) 508 0xaa550000) 0 0x41615252) 484 0x61417272) 488 68000) 492 3"

definition demo_boot_disk :: ram where
  "demo_boot_disk = \<lparr>ram_data = (\<lambda>n. if n = 0 then demo_boot else if n = 1 then demo_info else replicate 512 0),
     ram_bad = (\<lambda>n. False)\<rparr>"

text \<open>One volume, at address 7, is mounted already; the struct at 4 is free and holds zeros.\<close>

definition demo_mst :: "ram mst" where
  "demo_mst = \<lparr>vols = (\<lambda>x. (fat.truncate (demo_vol demo_disk))\<lparr>fat_name := replicate 32 0, fat_next := None\<rparr>),
     g_fat_list = Some 7, m_dev = demo_boot_disk, m_buf = replicate 512 0\<rparr>"

definition dsk :: "u8 list" where "dsk = [0x64, 0x73, 0x6b]"

lemma demo_boot_fields:
  "rd16 demo_boot 14 = 32" "rd32 demo_boot 36 = 512" "demo_boot ! 13 = 1" "ctz 1 = 0"
  by code_simp+

lemma demo_boot_facts:
  "check_fat demo_boot = Some True" "fsinfo_ok demo_info"
  "length demo_boot = 512" "length demo_info = 512"
  by code_simp+

lemma demo_boot_sane: "bpb_sane demo_boot 0"
  by (simp add: bpb_sane_def demo_boot_fields)

lemma demo_mount_info: "info_sect (mount_geometry demo_boot 0 f) = 1"
  using check_fatD(2)[OF demo_boot_facts(1)] by (simp add: mount_geometry_def Let_def)

lemma demo_mount_returns: "\<exists>t. fat_mount ram_ops 0 4 dsk demo_mst = Some (Inr (), t)"
  by (simp add: fat_mount_def probe_def bnd_def mount_read_def mount_check_def gets_def modify_def ret_def
      demo_mst_def ram_ops_def ram_read_def demo_boot_disk_def demo_boot_facts demo_mount_info dsk_def)

lemma demo_mst_facts:
  "ram_inv (m_dev demo_mst)" "length (m_buf demo_mst) = 512" "\<not> buf_dirty (vols demo_mst 4)"
  "length (fat_buf (vols demo_mst 4)) = 512" "vol_list (vols demo_mst) (g_fat_list demo_mst) [7]"
  by (simp_all add: demo_mst_def ram_inv_def demo_boot_disk_def demo_boot_facts buf_dirty_def fat.truncate_def demo_vol_def)

theorem fat_mount_establishes_witness:
  "\<exists>t. fat_mount ram_ops 0 4 dsk demo_mst = Some (Inr (), t) \<and> g_fat_list t = Some 4
     \<and> fat_next (vols t 4) = Some 7 \<and> geom_ok (vols t 4) \<and> data_geom (vols t 4)
     \<and> cache_ok ram_ops ram_data ram_inv (vol_at t 4)"
proof -
  obtain t where t: "fat_mount ram_ops 0 4 dsk demo_mst = Some (Inr (), t)" using demo_mount_returns by blast
  have l: "lba = 0" if "boot_at ram_data (m_dev demo_mst) 0 lba" for lba
    using that demo_boot_facts by (auto simp: boot_at_def demo_mst_def demo_boot_disk_def)
  have b: "bpb_sane (ram_data (m_dev demo_mst) 0) 0" by (simp add: demo_mst_def demo_boot_disk_def demo_boot_sane)
  note w = wp_InrD[OF fat_mount_establishes[OF ram.block_dev_axioms demo_mst_facts(1-4)] t]
  have "geom_ok (vols t 4) \<and> data_geom (vols t 4) \<and> cache_ok ram_ops ram_data ram_inv (vol_at t 4)"
    using w l b by blast
  moreover have "g_fat_list demo_mst = Some 7" by (simp add: demo_mst_def)
  ultimately show ?thesis using t w by auto
qed

text \<open>After a successful mount the name of the volume leads to it, every other name leads where
  it led before, and unmounting gives the list that was there before mounting.\<close>

theorem fat_mount_find:
  assumes "block_dev ops content dinv" and "dinv (m_dev s)" and "length (m_buf s) = 512"
    and "vol_list (vols s) (g_fat_list s) xs" and "a \<notin> set xs" and "length (fat_name (vols s a)) = 32"
    and "fat_mount ops part a name s = Some (Inr (), t)"
  shows "find_volume (vols t) name (length name) (g_fat_list t) = Some (Some a)
    \<and> (\<forall>nm len. len \<noteq> length name \<or> take len nm \<noteq> take len name \<longrightarrow>
         find_volume (vols t) nm len (g_fat_list t) = find_volume (vols s) nm len (g_fat_list s))
    \<and> vol_list (vols t) (g_fat_list t) (a # xs)"
proof -
  note w = wp_InrD[OF mount_wp[OF assms(1-3), of part a name] assms(7)]
  then obtain lba where m: "mounted ops content (m_dev s) lba name (vols s a) (vols t a)" by blast
  have len: "length name \<le> 32" using m by (simp add: mounted_def Let_def)
  have oth: "vols t x = vols s x" if "x \<in> set xs" for x using w that assms(5) by metis
  have l: "vol_list (vols t) (g_fat_list s) xs" using assms(4) oth by (subst vol_list_cong[of xs _ "vols s"]) simp_all
  then have l': "vol_list (vols t) (g_fat_list t) (a # xs)" using w by simp
  have n: "vol_named k len (vols t a) \<longleftrightarrow> len = length name \<and> take len k = take len name" for k len
    using len assms(6) by (auto simp: vol_named_def mounted_name[OF m] put_slice_def unat_of_nat take_bit_eq_mod)
  have "find (\<lambda>a. vol_named k len (vols t a)) xs = find (\<lambda>a. vol_named k len (vols s a)) xs" for k len
    using oth by (induction xs) auto
  then show ?thesis
    using l' unfolding find_volume_list[OF l'] find_volume_list[OF assms(4)] by (simp add: n)
qed

theorem fat_mount_find_witness:
  "\<exists>t. fat_mount ram_ops 0 4 dsk demo_mst = Some (Inr (), t)
     \<and> find_volume (vols t) dsk 3 (g_fat_list t) = Some (Some 4)
     \<and> find_volume (vols t) [0x78] 1 (g_fat_list t) = Some None
     \<and> vol_list (vols t) (g_fat_list t) [4, 7]"
proof -
  obtain t where t: "fat_mount ram_ops 0 4 dsk demo_mst = Some (Inr (), t)" using demo_mount_returns by blast
  have a: "4 \<notin> set [7 :: nat]" "length (fat_name (vols demo_mst 4)) = 32" by (simp_all add: demo_mst_def)
  note w = fat_mount_find[OF ram.block_dev_axioms demo_mst_facts(1,2,5) a t]
  have d: "length dsk = 3" by (simp add: dsk_def)
  then have "1 \<noteq> length dsk \<or> take 1 [0x78] \<noteq> take 1 dsk" by simp
  then have f: "find_volume (vols t) dsk 3 (g_fat_list t) = Some (Some 4)" "vol_list (vols t) (g_fat_list t) [4, 7]"
    "find_volume (vols t) [0x78] 1 (g_fat_list t) = find_volume (vols demo_mst) [0x78] 1 (g_fat_list demo_mst)"
    using w unfolding d by blast+
  have "\<not> vol_named [0x78] 1 (vols demo_mst 7)"
    by (simp add: vol_named_def demo_mst_def fat.truncate_def demo_vol_def)
  then have "find_volume (vols demo_mst) [0x78] 1 (g_fat_list demo_mst) = Some None"
    unfolding find_volume_list[OF demo_mst_facts(5)] by simp
  then show ?thesis using t f by auto
qed

text \<open>C20. Unmounting takes exactly the given volume out of the list, wherever it stands, and writes its
  cached sector and counters back; it fails without changing anything when the volume is not in the
  list.  When the write fails the volume is taken out all the same.\<close>

theorem fat_umount_unlinks:
  assumes "block_dev ops content dinv" and "cache_ok ops content dinv (vol_at s a)"
    and "info_sect (vols s a) \<noteq> 0" and "vol_list (vols s) (g_fat_list s) xs"
  shows "(a \<notin> set xs \<longrightarrow> fat_umount a s = Some (Inl (Err FAT_ERR_PARAM), s))
    \<and> (a \<in> set xs \<longrightarrow> wp (fat_umount a)
      (\<lambda>_ t. vol_list (vols t) (g_fat_list t) (remove1 a xs) \<and> \<not> buf_dirty (vols t a) \<and> \<not> info_dirty (vols t a)
         \<and> (\<forall>n. n \<noteq> 0 \<longrightarrow> content (m_dev t) n = block_dev.fsinfo_view content (vol_at s a) n))
      (\<lambda>e t. e = Err FAT_ERR_IO \<and> vol_list (vols t) (g_fat_list t) (remove1 a xs)) s)"
proof (intro conjI impI)
  assume a: "a \<notin> set xs"
  have "vol_list (vols s) (link_val s None) xs" using assms(4) by (simp add: link_val_def)
  from find_link_list[OF this, of a] a obtain it where "find_link s a None = Some it" "link_val s it = None" by auto
  then show "fat_umount a s = Some (Inl (Err FAT_ERR_PARAM), s)" by (simp add: fat_umount_def)
qed (rule umount_wp[OF assms])

text \<open>Two volumes on the small disk; the second one is taken out.\<close>

definition demo_mst2 :: "ram mst" where
  "demo_mst2 = \<lparr>vols = (\<lambda>x. (fat.truncate (demo_vol demo_disk))\<lparr>fat_next := if x = 4 then Some 7 else None\<rparr>),
     g_fat_list = Some 4, m_dev = demo_disk, m_buf = replicate 512 0\<rparr>"

theorem fat_umount_unlinks_witness:
  "wp (fat_umount 7) (\<lambda>_ t. vol_list (vols t) (g_fat_list t) [4]) (\<lambda>e t. e = Err FAT_ERR_IO) demo_mst2
   \<and> fat_umount 5 demo_mst2 = Some (Inl (Err FAT_ERR_PARAM), demo_mst2)"
proof -
  have l: "vol_list (vols demo_mst2) (g_fat_list demo_mst2) [4, 7]" by (simp add: demo_mst2_def)
  have c: "cache_ok ram_ops ram_data ram_inv (vol_at demo_mst2 x)" "info_sect (vols demo_mst2 x) \<noteq> 0" for x
    by (simp_all add: cache_ok_def vol_at_def demo_mst2_def fat.extend_def vol.fields_def fat.truncate_def demo_vol_def
        buf_dirty_def ram_inv_def demo_disk_def)
  note u = fat_umount_unlinks[OF ram.block_dev_axioms c l]
  have r: "remove1 7 [4, 7] = [4 :: nat]" by simp
  have "wp (fat_umount 7) (\<lambda>_ t. vol_list (vols t) (g_fat_list t) [4]) (\<lambda>e t. e = Err FAT_ERR_IO) demo_mst2"
    by (rule wp_conseq[OF u[of 7, THEN conjunct2, THEN mp, unfolded r]]) simp_all
  then show ?thesis using u[of 5] by simp
qed

end
