(* ===== verification/Fat_List.thy ===== *)
theory Fat_List
  imports Fat_Search Fat_Api Fat_Bytes
begin

text \<open>
  Listing a directory.  \<open>dir_first\<close> is the reading of the next entry over the list of the
  directory's entries; \<open>fat_dir_read\<close> computes it over the cluster chain, the sector cache and the
  device (\<open>fat_dir_read_wp\<close>), and it gives the names \<open>dir_add\<close> has stored, in their order
  (\<open>dir_first_names\<close>).
\<close>

subsection \<open>Reading over the list of entries\<close>

text \<open>What \<open>fat_dir_read\<close> reports of the \<open>Sfn\<close> \<open>e\<close> under the name \<open>nm\<close>.\<close>

definition entry_info :: "u8 list \<Rightarrow> u8 list \<Rightarrow> dir_info" where
  "entry_info e nm = \<lparr>di_created = decode_timestamp (rd16 e 16) (rd16 e 14),
     di_modified = decode_timestamp (rd16 e 24) (rd16 e 22), di_size = rd32 e 28, di_attr = e ! 11, di_name = nm\<rparr>"

text \<open>The number of the next \<open>Sfn\<close> from entry \<open>k\<close> on and its name.\<close>

function dir_first :: "u8 list list \<Rightarrow> u8 list \<Rightarrow> nat \<Rightarrow> fat_err + (nat \<times> u8 list)" where
  "dir_first es gb k =
     (if \<not> k < length es \<or> es ! k ! 0 = SFN_LAST then Inl FAT_ERR_EOF
      else if ent_free (es ! k) then dir_first es gb (Suc k)
      else if es ! k ! 11 = FAT_ATTR_LFN then
        (case lfn_name es k gb of
           Inl err \<Rightarrow> Inl err
         | Inr (k', gb', n) \<Rightarrow>
             if ent_free (es ! k') \<or> es ! k ! 13 \<noteq> get_crc (take 11 (es ! k')) then Inl FAT_ERR_BROKEN
             else Inr (k', take (unat n) gb'))
      else Inr (k, parse_sfn_name (take 11 (es ! k))))"
  by pat_completeness auto
termination
  by (relation "measure (\<lambda>(es, gb, k). length es - k)") auto

declare dir_first.simps [simp del]

lemma dir_first_past: "\<not> k < length es \<Longrightarrow> dir_first es gb k = Inl FAT_ERR_EOF"
  by (subst dir_first.simps) simp

lemma parse_sfn_length: "length (parse_sfn_name n) \<le> 12"
proof -
  have "length (takeWhile P (take m xs)) \<le> m" for P :: "u8 \<Rightarrow> bool" and m xs
    using length_takeWhile_le[of P "take m xs"] by simp
  from this[of _ 8] this[of _ 3] have
    "length (takeWhile (\<lambda>c. c \<noteq> SFN_PAD) (take 8 n)) \<le> 8"
    "length (takeWhile (\<lambda>c. c \<noteq> SFN_PAD) (take 3 (drop 8 n))) \<le> 3" by blast+
  then show ?thesis by (simp add: parse_sfn_name_def)
qed

lemma take_put_front: "length xs \<le> length b \<Longrightarrow> take (length xs) (put_slice b 0 xs) = xs"
  by (simp add: put_slice_def)

text \<open>The part of \<open>fat_dir_read\<close> that fills in the \<open>DirInfo\<close> from the entry in the buffer.\<close>

definition read_info :: "('d, 'z) dctx_scheme \<Rightarrow> dir_info" where
  "read_info v = (let b = fat_buf v; i = unat (dir_idx v)
     in \<lparr>di_created = decode_timestamp (sfn_cre_date b i) (sfn_cre_time b i),
         di_modified = decode_timestamp (sfn_mod_date b i) (sfn_mod_time b i),
         di_size = sfn_size b i, di_attr = sfn_attr b i, di_name = take (unat (g_len v)) (g_buf v)\<rparr>)"

lemma dir_read_loop_eq:
  "dir_read_loop =
     bnd (gets dir_sect) (\<lambda>s.
     bnd (update_buf s) (\<lambda>_.
     bnd (gets (\<lambda>v. (fat_buf v, unat (dir_idx v)))) (\<lambda>(b, i).
     if sfn_is_last b i then throw FAT_ERR_EOF
     else if sfn_is_free b i then bnd dir_next (\<lambda>_. dir_read_loop)
     else
       bnd (if sfn_is_lfn b i then
              bnd parse_lfn_name (\<lambda>_.
              bnd (gets dir_sect) (\<lambda>s.
              bnd (update_buf s) (\<lambda>_.
              bnd (gets (\<lambda>v. (fat_buf v, unat (dir_idx v), g_crc v))) (\<lambda>(b, i, crc).
              if sfn_is_free b i \<or> crc \<noteq> get_crc (sfn_name b i) then throw FAT_ERR_BROKEN
              else ret ()))))
            else
              modify (\<lambda>v. let nm = parse_sfn_name (sfn_name b i)
                in v\<lparr>g_buf := put_slice (g_buf v) 0 nm, g_len := word_of_nat (length nm)\<rparr>)) (\<lambda>_.
       gets read_info))))"
  unfolding read_info_def [abs_def] by (rule ext) (rule dir_read_loop.simps)

lemma lfn_collect_length: "lfn_collect es m k crc gb n = Inr (k', gb', n') \<Longrightarrow> length gb' = length gb"
  by (induction es m k crc gb n rule: lfn_collect.induct) (auto simp: Let_def split: if_splits option.splits)

lemma lfn_name_length: "lfn_name es k gb = Inr (k', gb', n') \<Longrightarrow> length gb' = length gb"
  by (auto simp: lfn_name_def Let_def split: if_splits sum.splits dest: lfn_collect_length)

context block_dev
begin

lemma here_info:
  assumes "dir_here v cs k"
  shows "read_info v = entry_info (ents v cs ! k) (take (unat (g_len v)) (g_buf v))"
proof -
  let ?b = "fat_buf v" and ?i = "unat (dir_idx v)" and ?e = "ents v cs ! k"
  note e = here_entry(7)[OF assms]
  have r16: "rd16 ?b (?i + j) = rd16 ?e j" if "j + 1 < 32" for j
    using e[of j] e[of "j + 1"] that by (simp add: rd16_def add.assoc)
  have r32: "rd32 ?b (?i + j) = rd32 ?e j" if "j + 3 < 32" for j
    using e[of j] e[of "j + 1"] e[of "j + 2"] e[of "j + 3"] that by (simp add: rd32_def add.assoc)
  show ?thesis
    by (simp add: read_info_def entry_info_def Let_def r16 r32 e)
qed

definition read_post :: "u32 list \<Rightarrow> nat \<Rightarrow> ('d, 'z) dctx_scheme \<Rightarrow> dir_info \<Rightarrow> ('d, 'z) dctx_scheme \<Rightarrow> bool" where
  "read_post cs k v x v' \<longleftrightarrow> walked v v' \<and> length (g_buf v') = 512
     \<and> (\<exists>k' nm. dir_first (ents v cs) (g_buf v) k = Inr (k', nm) \<and> x = entry_info (ents v cs ! k') nm \<and> dir_at v' cs k')"

definition read_err :: "u32 list \<Rightarrow> nat \<Rightarrow> ('d, 'z) dctx_scheme \<Rightarrow> fat_err \<Rightarrow> ('d, 'z) dctx_scheme \<Rightarrow> bool" where
  "read_err cs k v e v' \<longleftrightarrow> walked v v' \<and> (e = FAT_ERR_IO \<or> dir_first (ents v cs) (g_buf v) k = Inl e)"


text \<open>A free entry is passed over.\<close>

lemma read_next_wp:
  fixes v :: "('d, 'z) dctx_scheme"
  assumes IH: "\<And>v' :: ('d, 'z) dctx_scheme. dir_cap v' cs - Suc k < dir_cap v cs - k \<Longrightarrow> dir_on v' cs \<Longrightarrow>
      dir_at v' cs (Suc k) \<Longrightarrow> length (g_buf v') = 512 \<Longrightarrow>
      wp dir_read_loop (read_post cs (Suc k) v') (read_err cs (Suc k) v') v'"
    and c: "cache_ok ops content dinv v" and kc: "k < dir_cap v cs" and gl: "length (g_buf v) = 512"
    and w1: "walked v v1" and h1: "dir_here v1 cs k" and gb1: "g_buf v1 = g_buf v"
    and eq: "dir_first (ents v cs) (g_buf v) k = dir_first (ents v cs) (g_buf v) (Suc k)"
  shows "wp (bnd dir_next (\<lambda>_. dir_read_loop)) (read_post cs k v) (read_err cs k v) v1"
proof (rule next_entry_wp[OF h1], goal_cases)
  case (1 v3)
  have w3: "walked v v3" using w1 1(1) by (rule walked_trans)
  have g: "g_buf v3 = g_buf v" using 1(2) gb1 by (simp add: names_same_def)
  have es: "ents v3 cs = ents v cs" by (rule ents_walked[OF w3 c])
  have "dir_cap v3 cs - Suc k < dir_cap v cs - k" using dir_on_walked(2)[OF w3 c] kc by simp
  from IH[OF this 1(3,4)] g gl have "wp dir_read_loop (read_post cs (Suc k) v3) (read_err cs (Suc k) v3) v3" by simp
  then show ?case
  proof (rule wp_conseq, goal_cases)
    case (1 x v')
    then show ?case using walked_trans[OF w3] unfolding read_post_def es g eq by blast
  next
    case (2 err v')
    then show ?case using walked_trans[OF w3] unfolding read_err_def es g eq by blast
  qed
next
  case (2 v3)
  then show ?case using w1 walked_trans unfolding read_err_def by blast
next
  case (3 v3)
  have "\<not> Suc k < length (ents v cs)" using 3(2) dir_on_walked(2)[OF w1 c] by simp
  then have "dir_first (ents v cs) (g_buf v) k = Inl FAT_ERR_EOF" unfolding eq by (rule dir_first_past)
  then show ?case using w1 3(1) walked_trans unfolding read_err_def by blast
qed

text \<open>An entry of a long name: the name is put together and its short entry checked.\<close>

lemma read_lfn_wp:
  assumes c: "cache_ok ops content dinv v" and gl: "length (g_buf v) = 512" and w1: "walked v v1" and h1: "dir_here v1 cs k"
    and gb1: "g_buf v1 = g_buf v" and e1: "ents v1 cs = ents v cs" and lk: "k < length (ents v cs)"
    and lfn: "\<not> ent_free (ents v cs ! k)" "(ents v cs ! k) ! 11 = FAT_ATTR_LFN"
  shows "wp (bnd (bnd parse_lfn_name (\<lambda>_.
       bnd (gets dir_sect) (\<lambda>s.
       bnd (update_buf s) (\<lambda>_.
       bnd (gets (\<lambda>v. (fat_buf v, unat (dir_idx v), g_crc v))) (\<lambda>(b, i, crc).
       if sfn_is_free b i \<or> crc \<noteq> get_crc (sfn_name b i) then throw FAT_ERR_BROKEN
       else ret ()))))) (\<lambda>_. gets read_info))
     (read_post cs k v) (read_err cs k v) v1"
proof -
  have n0: "(ents v cs ! k) ! 0 \<noteq> SFN_LAST" using lfn(1) by (auto simp: ent_free_def)
  note fs = dir_first.simps[of "ents v cs" "g_buf v" k]
  show ?thesis
    unfolding bnd_assoc
  proof (rule wp_bndI[OF parse_lfn_name_wp[OF h1]], goal_cases)
    case (1 u v2)
    then obtain k2 where p: "dir_here v2 cs k2 \<and> walked v v2 \<and> g_crc v2 = (ents v cs ! k) ! 13
        \<and> lfn_name (ents v cs) k (g_buf v) = Inr (k2, g_buf v2, g_len v2)" using e1 gb1 w1 walked_trans by auto
    then have d2: "dir_on v2 cs" "dir_at v2 cs k2" using dir_here_on by blast+
    let ?s = "ents v cs ! k2"
    have fl: "dir_first (ents v cs) (g_buf v) k =
       (if ent_free ?s \<or> (ents v cs ! k) ! 13 \<noteq> get_crc (take 11 ?s) then Inl FAT_ERR_BROKEN
        else Inr (k2, take (unat (g_len v2)) (g_buf v2)))"
      unfolding fs using lfn n0 lk p by simp
    show ?case
    proof (rule load_entry_wp[OF d2], goal_cases)
      case (1 v3)
      have w3: "walked v v3" using p kept_walked[OF 1(1)] walked_trans by blast
      have n3: "g_buf v3 = g_buf v2" "g_len v3 = g_len v2" "g_crc v3 = (ents v cs ! k) ! 13" using kept_dir[OF 1(1)] p by simp_all
      have e3: "ents v3 cs = ents v cs" by (rule ents_walked[OF w3 c])
      note r3 = here_entry[OF 1(2), unfolded e3]
      have gl3: "length (g_buf v3) = 512" using lfn_name_length[of "ents v cs" k "g_buf v"] p gl n3 by simp
      show ?case
      proof (cases "ent_free ?s \<or> (ents v cs ! k) ! 13 \<noteq> get_crc (take 11 ?s)")
        case True
        then have "read_err cs k v FAT_ERR_BROKEN v3" unfolding read_err_def using fl w3 by simp
        then show ?thesis using True r3 n3 by (simp add: wp_bnd[of "gets _"] wp_gets wp_throw)
      next
        case False
        then have "read_post cs k v (read_info v3) v3"
          unfolding read_post_def here_info[OF 1(2)] e3 using fl w3 gl3 n3 dir_here_on(2)[OF 1(2)] by auto
        then show ?thesis using False r3 n3 by (simp add: wp_bnd[of "gets _"] wp_gets wp_ret)
      qed
    next
      case (2 v3)
      have "walked v v3" using p kept_walked[OF 2] walked_trans by blast
      then show ?case by (simp add: read_err_def)
    qed
  next
    case (2 err v2)
    have w2: "walked v v2" using 2 w1 walked_trans by blast
    have "err = FAT_ERR_IO \<or> dir_first (ents v cs) (g_buf v) k = Inl err"
      using 2 unfolding fs e1 gb1 using lfn n0 lk by auto
    then show ?case using w2 unfolding read_err_def by blast
  qed
qed

lemma dir_read_loop_wp:
  "dir_on v cs \<Longrightarrow> dir_at v cs k \<Longrightarrow> length (g_buf v) = 512 \<Longrightarrow>
   wp dir_read_loop (read_post cs k v) (read_err cs k v) v"
proof (induction "dir_cap v cs - k" arbitrary: v k rule: less_induct)
  case less
  note d = less.prems(1,2) and gl = less.prems(3)
  have c: "cache_ok ops content dinv v" using d by (simp add: dir_on_def)
  have kc: "k < dir_cap v cs" using d by (simp add: dir_at_def)
  let ?Q = "read_post cs k v" and ?E = "read_err cs k v"
  let ?first = "dir_first (ents v cs) (g_buf v)"
  let ?e = "ents v cs ! k"
  show ?case
  proof (subst dir_read_loop_eq, rule load_entry_wp[OF d], goal_cases)
    case (1 v1)
    note h1 = 1(2) and w1 = kept_walked[OF 1(1)]
    have gb1: "g_buf v1 = g_buf v" using kept_dir[OF 1(1)] by simp
    have e1: "ents v1 cs = ents v cs" by (rule ents_walked[OF w1 c])
    note r1 = here_entry[OF h1, unfolded e1]
    have lk: "k < length (ents v cs)" using kc by simp
    note fs = dir_first.simps[of "ents v cs" "g_buf v" k]
    consider (last) "?e ! 0 = SFN_LAST" | (free) "?e ! 0 \<noteq> SFN_LAST" "ent_free ?e"
      | (lfn) "\<not> ent_free ?e" "?e ! 11 = FAT_ATTR_LFN" | (sfn) "\<not> ent_free ?e" "?e ! 11 \<noteq> FAT_ATTR_LFN"
      by blast
    then show ?case
    proof cases
      case last
      then have "?first k = Inl FAT_ERR_EOF" unfolding fs by simp
      with last w1 r1 show ?thesis by (simp add: wp_bnd[of "gets _"] wp_gets wp_throw read_err_def)
    next
      case free
      then have eq: "?first k = ?first (Suc k)" unfolding fs using lk by simp
      have "wp (bnd dir_next (\<lambda>_. dir_read_loop)) ?Q ?E v1" by (rule read_next_wp[OF less.hyps c kc gl w1 h1 gb1 eq])
      with free r1 show ?thesis by (simp add: wp_bnd[of "gets _"] wp_gets)
    next
      case sfn
      then have n0: "?e ! 0 \<noteq> SFN_LAST" by (auto simp: ent_free_def)
      let ?nm = "parse_sfn_name (take 11 ?e)"
      let ?v2 = "v1\<lparr>g_buf := put_slice (g_buf v1) 0 ?nm, g_len := word_of_nat (length ?nm)\<rparr>"
      have f: "?first k = Inr (k, ?nm)" unfolding fs using sfn n0 lk by simp
      have h2: "dir_here ?v2 cs k" and w2: "walked v ?v2" using h1 w1 by simp_all
      have l12: "length ?nm \<le> 12" by (rule parse_sfn_length)
      have "unat (word_of_nat (length ?nm) :: u16) = length ?nm" using l12 by (intro unat_u16) simp
      then have tk: "take (unat (g_len ?v2)) (g_buf ?v2) = ?nm" using l12 gl gb1 by (simp add: take_put_front)
      have e2: "ents ?v2 cs = ents v cs" by (rule ents_walked[OF w2 c])
      have "?Q (read_info ?v2) ?v2"
        unfolding read_post_def here_info[OF h2] e2 tk using w2 f dir_here_on(2)[OF h2] gl gb1 by auto
      then show ?thesis
        using sfn n0 r1 by (simp add: wp_bnd[of "gets _"] wp_gets wp_bnd[of "modify _"] wp_modify Let_def)
    next
      case lfn
      then have n0: "?e ! 0 \<noteq> SFN_LAST" by (auto simp: ent_free_def)
      note read_lfn_wp[OF c gl w1 h1 gb1 e1 lk lfn]
      then show ?thesis using lfn n0 r1 by (simp add: wp_bnd[of "gets _"] wp_gets)
    qed
  next
    case (2 v1)
    then show ?case using kept_walked unfolding read_err_def by blast
  qed
qed

end

subsection \<open>Reading from a device that does not fail\<close>

context block_dev
begin

lemma dev_good_dir_upd [simp]:
  "dev_good (v\<lparr>dir_clust := c\<rparr>) = dev_good v" "dev_good (v\<lparr>dir_sect := s\<rparr>) = dev_good v"
  "dev_good (v\<lparr>dir_idx := i\<rparr>) = dev_good v" "dev_good (v\<lparr>g_buf := b\<rparr>) = dev_good v"
  "dev_good (v\<lparr>g_len := n\<rparr>) = dev_good v" "dev_good (v\<lparr>g_crc := x\<rparr>) = dev_good v"
  by (simp_all add: dev_good_def)

lemma dev_good_dir_next: "keeps dev_good no_io dir_next"
  unfolding dir_next_def dir_at_clust_def
  by (rule keeps_bnd[OF keeps_modify]; (rule keeps_bnd_gets keeps_if keeps_ret)?)
    (auto intro!: keeps_bnd_gets keeps_if keeps_bnd keeps_modify dev_good_get_fat keeps_rules split: prod.splits)

lemma dev_good_parse_lfn_loop: "keeps dev_good no_io (parse_lfn_loop n)"
proof (induction n)
  case (Suc n)
  then show ?case
    by (auto intro!: keeps_bnd_gets keeps_if keeps_bnd keeps_modify dev_good_dir_next dev_good_update_buf keeps_rules
        split: prod.splits option.splits)
qed (simp add: keeps_ret)

lemma dev_good_parse_lfn_name: "keeps dev_good no_io parse_lfn_name"
  unfolding parse_lfn_name_def
  by (auto intro!: keeps_bnd_gets keeps_if keeps_bnd keeps_modify dev_good_parse_lfn_loop dev_good_update_buf keeps_rules
      simp: Let_def split: prod.splits)

lemma dev_good_dir_read_loop: "keeps dev_good no_io dir_read_loop"
proof -
  have "dev_good v \<longrightarrow> dev_good (snd y) \<and> (\<forall>e. fst y = Inl e \<longrightarrow> no_io e)"
    if "dir_read_loop v = Some y" for v :: "('d, 'z) dctx_scheme" and y
  proof (rule dir_read_loop.raw_induct[OF _ that], goal_cases)
    case (1 loop v y)
    have k: "keeps dev_good no_io loop" using 1(1) by (force simp: keeps_def)
    note r = 1(2)
    have "keeps dev_good no_io (\<lambda>v. bnd (gets dir_sect) (\<lambda>s.
     bnd (update_buf s) (\<lambda>_.
     bnd (gets (\<lambda>v. (fat_buf v, unat (dir_idx v)))) (\<lambda>(b, i).
     if sfn_is_last b i then throw FAT_ERR_EOF
     else if sfn_is_free b i then bnd dir_next (\<lambda>_. loop)
     else
       bnd (if sfn_is_lfn b i then
              bnd parse_lfn_name (\<lambda>_.
              bnd (gets dir_sect) (\<lambda>s.
              bnd (update_buf s) (\<lambda>_.
              bnd (gets (\<lambda>v. (fat_buf v, unat (dir_idx v), g_crc v))) (\<lambda>(b, i, crc).
              if sfn_is_free b i \<or> crc \<noteq> get_crc (sfn_name b i) then throw FAT_ERR_BROKEN
              else ret ()))))
            else
              modify (\<lambda>v. let nm = parse_sfn_name (sfn_name b i)
                in v\<lparr>g_buf := put_slice (g_buf v) 0 nm, g_len := word_of_nat (length nm)\<rparr>)) (\<lambda>_.
       gets read_info)))) v)"
      by (auto intro!: keeps_bnd_gets keeps_if keeps_bnd keeps_modify k dev_good_dir_next dev_good_parse_lfn_name
          dev_good_update_buf keeps_rules simp: Let_def split: prod.splits)
    note K = keepsD[OF this, of v]
    obtain q t where y: "y = (q, t)" by fastforce
    show ?case using K[of q t] r unfolding y fst_conv snd_conv read_info_def [abs_def] by blast
  qed
  then show ?thesis by (force simp: keeps_def)
qed

end

subsection \<open>The names of a directory in their order\<close>

lemma dir_first_block:
  assumes name: "len \<le> length name" "len \<le> 255" "0 \<notin> set (take len name)" "0 < len"
    and gb: "length gb = 512" and b: "block_at es k name len"
  shows "dir_first es gb k = Inr (k + lfn_count len, take len name)"
proof -
  note r = block_reads[OF assms]
  have n0: "es ! k ! 0 \<noteq> SFN_LAST" using r(2) by (simp add: ent_free_def)
  have "take len (take len name @ drop len gb) = take len name" using name(1) by simp
  then show ?thesis
    by (subst dir_first.simps) (use r n0 sfn_of_head[OF r(6)] in auto)
qed

lemma dir_first_names:
  assumes "names_at es k ns" and "\<forall>n \<in> set ns. name_ok n" and "length gb = 512"
  shows "dir_first es gb k = (case ns of [] \<Rightarrow> Inl FAT_ERR_EOF | n # _ \<Rightarrow> Inr (k + lfn_count (length n), n))"
proof (cases ns)
  case Nil
  with assms show ?thesis by (simp add: dir_first.simps[of es])
next
  case (Cons n ms)
  with assms dir_first_block[of "length n" n gb es k] show ?thesis by (simp add: name_ok_def)
qed

text \<open>The entries of the names \<open>ns\<close>, stored one behind the other from entry \<open>k\<close> on.\<close>

fun name_infos :: "u8 list list \<Rightarrow> nat \<Rightarrow> u8 list list \<Rightarrow> dir_info list" where
  "name_infos es k [] = []"
| "name_infos es k (n # ns) =
     entry_info (es ! (k + lfn_count (length n))) n # name_infos es (Suc (k + lfn_count (length n))) ns"

lemma entry_info_name [simp]: "di_name (entry_info e n) = n"
  by (simp add: entry_info_def)

lemma name_infos_names [simp]: "map di_name (name_infos es k ns) = ns"
  by (induction ns arbitrary: k) simp_all

text \<open>The directory on \<open>cs\<close> holds the entries \<open>xs\<close> from entry \<open>k\<close> on, and then the end mark.\<close>

definition entries_at :: "u8 list list \<Rightarrow> nat \<Rightarrow> dir_info list \<Rightarrow> bool" where
  "entries_at es k xs \<longleftrightarrow> names_at es k (map di_name xs) \<and> (\<forall>n \<in> set (map di_name xs). name_ok n)
     \<and> xs = name_infos es k (map di_name xs)"

lemma entries_at_names: "names_at es k ns \<Longrightarrow> \<forall>n \<in> set ns. name_ok n \<Longrightarrow> entries_at es k (name_infos es k ns)"
  by (simp add: entries_at_def del: set_map)

lemma entries_at_Nil: "entries_at es k [] \<Longrightarrow> k < length es \<and> es ! k ! 0 = SFN_LAST"
  by (simp add: entries_at_def)

lemma entries_at_Cons:
  assumes "entries_at es k (x # xs)"
  shows "x = entry_info (es ! (k + lfn_count (length (di_name x)))) (di_name x)"
    "entries_at es (Suc (k + lfn_count (length (di_name x)))) xs"
  using assms by (auto simp: entries_at_def)

lemma dir_first_entries:
  assumes "entries_at es k xs" and "length gb = 512"
  shows "dir_first es gb k = (case xs of [] \<Rightarrow> Inl FAT_ERR_EOF
    | x # _ \<Rightarrow> Inr (k + lfn_count (length (di_name x)), di_name x))"
  using dir_first_names[of es k "map di_name xs" gb] assms by (auto simp: entries_at_def split: list.splits)

definition dir_lists ::
  "'d disk_ops \<Rightarrow> ('d \<Rightarrow> u32 \<Rightarrow> u8 list) \<Rightarrow> ('d \<Rightarrow> bool) \<Rightarrow> u32 list \<Rightarrow> nat \<Rightarrow> dir_info list \<Rightarrow> ('d, 'z) dctx_scheme \<Rightarrow> bool" where
  "dir_lists ops content dinv cs k xs v \<longleftrightarrow>
     cache_ok ops content dinv v \<and> geom_ok v \<and> dir_geom v
     \<and> fat_chain (fat_val (lview content v) (fat_sect0 v)) (clust_cnt v) cs \<and> length (g_buf v) = 512
     \<and> entries_at (dir_entries v (lview content v) cs) k xs"

context block_dev
begin

lemma dir_lists_iff:
  "dir_lists ops content dinv cs k xs v \<longleftrightarrow> dir_on v cs \<and> length (g_buf v) = 512 \<and> entries_at (ents v cs) k xs"
  by (auto simp: dir_lists_def dir_on_def ents_def)

lemma dir_lists_walked:
  assumes "walked v v'" and "cache_ok ops content dinv v" and "length (g_buf v') = length (g_buf v)"
  shows "dir_lists ops content dinv cs k xs v' = dir_lists ops content dinv cs k xs v"
  using assms dir_on_walked(1)[OF assms(1,2)] ents_walked[OF assms(1,2)] by (simp add: dir_lists_iff)

lemma fat_dir_next_wp:
  assumes "dir_lists ops content dinv cs (Suc k) xs v" and "dir_at v cs k" and "dir_fat v"
  shows "wp fat_dir_next
    (\<lambda>_ v'. walked v v' \<and> length (g_buf v') = 512 \<and> dir_at v' cs (Suc k))
    (\<lambda>e v'. walked v v' \<and> length (g_buf v') = 512 \<and> e = FAT_ERR_IO \<and> \<not> reliable) v"
proof -
  have d: "dir_on v cs" "length (g_buf v) = 512" and n: "entries_at (ents v cs) (Suc k) xs"
    using assms(1) by (simp_all add: dir_lists_iff)
  have "Suc k < dir_cap v cs" using n by (cases xs) (auto simp: entries_at_def block_at_def)
  moreover have "dev_good v" using d(1) by (simp add: dir_on_def cache_ok_good)
  note wp_keeps[OF dir_next_wp[OF d(1) assms(2)] dev_good_dir_next this]
  ultimately show ?thesis
    unfolding fat_dir_next_def wp_bnd[of "gets _"] wp_gets using assms(3) d(2)
    by (auto elim!: wp_conseq simp: names_same_def no_io_def)
qed

lemma fat_dir_read_wp:
  assumes "dir_lists ops content dinv cs k xs v" and "dir_at v cs k" and "dir_fat v"
  shows "wp fat_dir_read
    (\<lambda>x v'. walked v v' \<and> length (g_buf v') = 512 \<and> (\<exists>ms k'. xs = x # ms
       \<and> dir_at v' cs k' \<and> dir_lists ops content dinv cs (Suc k') ms v'))
    (\<lambda>e v'. walked v v' \<and> (e = FAT_ERR_IO \<and> \<not> reliable \<or> e = FAT_ERR_EOF \<and> xs = [])) v"
proof -
  have d: "dir_on v cs" "length (g_buf v) = 512" and n: "entries_at (ents v cs) k xs"
    using assms(1) by (simp_all add: dir_lists_iff)
  note f = dir_first_entries[OF n d(2)]
  have c: "cache_ok ops content dinv v" using d by (simp add: dir_on_def)
  have "wp dir_read_loop
    (\<lambda>x v'. walked v v' \<and> length (g_buf v') = 512 \<and> (\<exists>ms k'. xs = x # ms
       \<and> dir_at v' cs k' \<and> dir_lists ops content dinv cs (Suc k') ms v'))
    (\<lambda>e v'. walked v v' \<and> (e = FAT_ERR_IO \<and> \<not> reliable \<or> e = FAT_ERR_EOF \<and> xs = [])) v"
  proof (rule wp_conseq[OF wp_keeps[OF dir_read_loop_wp[OF d(1) assms(2) d(2)] dev_good_dir_read_loop cache_ok_good[OF c]]],
      goal_cases)
    case (1 x v')
    then obtain k' nm where p: "walked v v'" "length (g_buf v') = 512"
      "dir_first (ents v cs) (g_buf v) k = Inr (k', nm)" "x = entry_info (ents v cs ! k') nm" "dir_at v' cs k'"
      unfolding read_post_def by blast
    then obtain y ms where m: "xs = y # ms" "nm = di_name y" "k' = k + lfn_count (length nm)"
      using f by (auto split: list.splits)
    note e = entries_at_Cons[OF n[unfolded m(1)], folded m(2), folded m(3)]
    have "dir_lists ops content dinv cs (Suc k') ms v'"
      unfolding dir_lists_walked[OF p(1) c p(2)[folded d(2)]] using d e(2) by (simp add: dir_lists_iff)
    moreover have "x = y" using p(4) e(1) by simp
    ultimately show ?case using p m by blast
  next
    case (2 e v')
    then show ?case using f unfolding read_err_def by (auto simp: no_io_def split: list.splits)
  qed
  then show ?thesis using assms(3) by (simp add: fat_dir_read_def wp_bnd[of "gets _"] wp_gets)
qed

end

end
