(* ===== verification/Kernel_Stream.thy ===== *)
theory Kernel_Stream
  imports Prelude
begin

text \<open>
  The ring buffer and the byte streams of \<open>kernel/stream.c\<close>.

  What a bounded queue promises its users is the locale \<open>bounded_queue\<close>; the ring buffer of the
  code is an interpretation of it, with a capacity of one less than the buffer.  The blocking
  operations execute \<open>sti; hlt\<close> when they cannot go on: what the interrupts that arrive between
  two rounds of the loop do to the stream is an argument of the model, the sequence \<open>ev\<close>.
\<close>

subsection \<open>Ring buffer\<close>

abbreviation (input) STREAM_BUFFER_SIZE :: u32 where "STREAM_BUFFER_SIZE \<equiv> 4096"

record ringbuf =
  rb_buf :: "u8 list"
  rb_head :: u32
  rb_tail :: u32

text \<open>\<open>None\<close> is the return value -1, which leaves the buffer as it is.\<close>

definition ringbuf_put :: "u8 \<Rightarrow> ringbuf \<Rightarrow> ringbuf option" where
  "ringbuf_put c rb =
     (let next = (rb_head rb + 1) AND (STREAM_BUFFER_SIZE - 1)
      in if next = rb_tail rb then None
         else Some (rb\<lparr>rb_buf := (rb_buf rb)[unat (rb_head rb) := c], rb_head := next\<rparr>))"

definition ringbuf_get :: "ringbuf \<Rightarrow> (u8 \<times> ringbuf) option" where
  "ringbuf_get rb =
     (if rb_tail rb = rb_head rb then None
      else Some (rb_buf rb ! unat (rb_tail rb),
                 rb\<lparr>rb_tail := (rb_tail rb + 1) AND (STREAM_BUFFER_SIZE - 1)\<rparr>))"

subsection \<open>Streams\<close>

abbreviation (input) ST_READ :: u32 where "ST_READ \<equiv> 1"
abbreviation (input) ST_WRITE :: u32 where "ST_WRITE \<equiv> 2"

text \<open>The function pointers \<open>read\<close> and \<open>write\<close> are set once, by \<open>stream_init\<close>, to the two
  functions below.\<close>

record stream =
  st_rb :: ringbuf
  st_flag :: u32
  st_overflow :: u32

definition stream_init :: "u32 \<Rightarrow> stream \<Rightarrow> stream" where
  "stream_init flags s = s\<lparr>st_rb := (st_rb s)\<lparr>rb_head := 0, rb_tail := 0\<rparr>,
     st_overflow := 0, st_flag := flags\<rparr>"

text \<open>\<open>while (n < len \<and> ringbuf_get(..) = 0) n++\<close>, over any queue.\<close>

fun drain :: "('q \<Rightarrow> ('a \<times> 'q) option) \<Rightarrow> nat \<Rightarrow> 'q \<Rightarrow> 'a list \<times> 'q" where
  "drain get 0 q = ([], q)"
| "drain get (Suc n) q =
     (case get q of
        None \<Rightarrow> ([], q)
      | Some (c, q') \<Rightarrow> (case drain get n q' of (cs, q'') \<Rightarrow> (c # cs, q'')))"

text \<open>The result and the bytes stored at \<open>dst\<close>; \<open>dst\<close> is whether the pointer is not null.\<close>

definition stream_try_read :: "bool \<Rightarrow> nat \<Rightarrow> stream \<Rightarrow> int \<times> u8 list \<times> stream" where
  "stream_try_read dst len s =
     (if st_flag s AND ST_READ = 0 \<or> \<not> dst then (- 1, [], s)
      else case drain ringbuf_get len (st_rb s) of
             (cs, rb) \<Rightarrow> (int (length cs), cs, s\<lparr>st_rb := rb\<rparr>))"

text \<open>\<open>got\<close> holds the bytes read so far; \<open>k\<close> counts the rounds.  The pointer given to
  \<open>stream_try_read\<close> is \<open>dst + got\<close>.\<close>

partial_function (option) stream_read_loop ::
  "(nat \<Rightarrow> stream \<Rightarrow> stream) \<Rightarrow> bool \<Rightarrow> nat \<Rightarrow> u8 list \<Rightarrow> nat \<Rightarrow> stream \<Rightarrow> (u8 list \<times> nat \<times> stream) option" where
  "stream_read_loop ev dst len got k s =
     (if length got < len then
        (case stream_try_read (dst \<or> got \<noteq> []) (len - length got) s of
           (n, cs, s') \<Rightarrow>
             stream_read_loop ev dst len (if n > 0 then got @ cs else got) (Suc k) (ev k s'))
      else Some (got, k, s))"

definition stream_read ::
  "(nat \<Rightarrow> stream \<Rightarrow> stream) \<Rightarrow> bool \<Rightarrow> nat \<Rightarrow> stream \<Rightarrow> (int \<times> u8 list \<times> stream) option" where
  "stream_read ev dst len s =
     (case stream_read_loop ev dst len [] 0 s of
        None \<Rightarrow> None
      | Some (got, k, s') \<Rightarrow> Some (int (length got), got, s'))"

text \<open>The inner loop of \<open>stream_write\<close> for one byte, then the outer loop.\<close>

partial_function (option) stream_put_loop ::
  "(nat \<Rightarrow> stream \<Rightarrow> stream) \<Rightarrow> u8 \<Rightarrow> nat \<Rightarrow> stream \<Rightarrow> (nat \<times> stream) option" where
  "stream_put_loop ev c k s =
     (case ringbuf_put c (st_rb s) of
        Some rb \<Rightarrow> Some (k, s\<lparr>st_rb := rb\<rparr>)
      | None \<Rightarrow> stream_put_loop ev c (Suc k) (ev k (s\<lparr>st_overflow := st_overflow s + 1\<rparr>)))"

fun stream_write_loop ::
  "(nat \<Rightarrow> stream \<Rightarrow> stream) \<Rightarrow> u8 list \<Rightarrow> nat \<Rightarrow> stream \<Rightarrow> stream option" where
  "stream_write_loop ev [] k s = Some s"
| "stream_write_loop ev (c # cs) k s =
     (case stream_put_loop ev c k s of
        None \<Rightarrow> None
      | Some (k', s') \<Rightarrow> stream_write_loop ev cs k' s')"

definition stream_write ::
  "(nat \<Rightarrow> stream \<Rightarrow> stream) \<Rightarrow> bool \<Rightarrow> u8 list \<Rightarrow> stream \<Rightarrow> (int \<times> stream) option" where
  "stream_write ev src bytes s =
     (if st_flag s AND ST_WRITE = 0 \<or> \<not> src then Some (- 1, s)
      else map_option (\<lambda>s'. (int (length bytes), s')) (stream_write_loop ev bytes 0 s))"

subsection \<open>Bounded queues\<close>

locale bounded_queue =
  fixes inv :: "'q \<Rightarrow> bool"
    and items :: "'q \<Rightarrow> 'a list"
    and cap :: nat
    and put :: "'a \<Rightarrow> 'q \<Rightarrow> 'q option"
    and get :: "'q \<Rightarrow> ('a \<times> 'q) option"
  assumes len_cap: "inv q \<Longrightarrow> length (items q) \<le> cap"
    and put_full: "inv q \<Longrightarrow> length (items q) = cap \<Longrightarrow> put c q = None"
    and put_room: "inv q \<Longrightarrow> length (items q) < cap \<Longrightarrow>
      \<exists>q'. put c q = Some q' \<and> inv q' \<and> items q' = items q @ [c]"
    and get_none: "inv q \<Longrightarrow> items q = [] \<Longrightarrow> get q = None"
    and get_some: "inv q \<Longrightarrow> items q = c # cs \<Longrightarrow> \<exists>q'. get q = Some (c, q') \<and> inv q' \<and> items q' = cs"
begin

lemma put_None_iff: "inv q \<Longrightarrow> put c q = None \<longleftrightarrow> length (items q) = cap"
  using put_full put_room[of q c] len_cap[of q] by (cases "length (items q) = cap") auto

lemma put_SomeD:
  assumes "inv q" and "put c q = Some q'"
  shows "inv q' \<and> items q' = items q @ [c] \<and> length (items q) < cap"
  using put_full[OF assms(1), of c] put_room[OF assms(1), of c] len_cap[OF assms(1)] assms(2)
  by (cases "length (items q) = cap") auto

lemma get_SomeD:
  assumes "inv q" and "get q = Some (c, q')"
  shows "inv q' \<and> items q = c # items q'"
proof (cases "items q")
  case Nil
  with assms get_none show ?thesis by fastforce
next
  case (Cons d ds)
  with get_some[OF assms(1) Cons] assms(2) show ?thesis by auto
qed

lemma get_None_iff: "inv q \<Longrightarrow> get q = None \<longleftrightarrow> items q = []"
  by (cases "items q") (use get_none get_some in fastforce)+

text \<open>Taking out up to \<open>n\<close> elements gives the oldest ones, in order, and leaves the rest.\<close>

lemma drain_spec:
  assumes "inv q"
  shows "\<exists>q'. drain get n q = (take n (items q), q') \<and> inv q' \<and> items q' = drop n (items q)"
  using assms
proof (induction n arbitrary: q)
  case (Suc n)
  show ?case
  proof (cases "items q")
    case Nil
    with Suc.prems get_none show ?thesis by simp
  next
    case (Cons c cs)
    then obtain q' where "get q = Some (c, q')" "inv q'" "items q' = cs"
      using get_some Suc.prems by blast
    with Suc.IH[of q'] Cons show ?thesis by auto
  qed
qed simp

end

subsection \<open>The ring buffer is a bounded queue\<close>

definition rb_inv :: "ringbuf \<Rightarrow> bool" where
  "rb_inv rb \<longleftrightarrow> length (rb_buf rb) = 4096 \<and> unat (rb_head rb) < 4096 \<and> unat (rb_tail rb) < 4096"

definition rb_len :: "ringbuf \<Rightarrow> nat" where
  "rb_len rb = (if unat (rb_tail rb) \<le> unat (rb_head rb) then unat (rb_head rb) - unat (rb_tail rb)
     else unat (rb_head rb) + 4096 - unat (rb_tail rb))"

definition rb_items :: "ringbuf \<Rightarrow> u8 list" where
  "rb_items rb = map (\<lambda>i. rb_buf rb ! ((unat (rb_tail rb) + i) mod 4096)) [0..<rb_len rb]"

lemma rb_next:
  assumes "unat (x :: u32) < 4096"
  shows "unat ((x + 1) AND 4095) = (unat x + 1) mod 4096"
proof -
  have "(x + 1) AND 4095 = take_bit 12 (x + 1)"
    by (simp add: take_bit_eq_mask mask_eq_exp_minus_1)
  then have "unat ((x + 1) AND 4095) = take_bit 12 (unat (x + 1))"
    by (simp only: unsigned_take_bit_eq)
  moreover have "unat (x + 1) = unat x + 1" using assms by (simp add: unat_word_ariths)
  ultimately show ?thesis by (simp add: take_bit_eq_mod)
qed

lemma wrap_4096: "x < 8192 \<Longrightarrow> x mod 4096 = (if x < 4096 then x else x - 4096)" for x :: nat
  by (simp add: mod_if)

lemma rb_len_less: "rb_inv rb \<Longrightarrow> rb_len rb < 4096"
  by (auto simp: rb_len_def rb_inv_def)

lemma rb_len_0: "rb_inv rb \<Longrightarrow> rb_len rb = 0 \<longleftrightarrow> rb_tail rb = rb_head rb"
  by (auto simp: rb_inv_def rb_len_def word_unat_eq_iff)

lemma rb_full: "rb_inv rb \<Longrightarrow> (rb_head rb + 1) AND 4095 = rb_tail rb \<longleftrightarrow> rb_len rb = 4095"
proof -
  assume a: "rb_inv rb"
  then have "unat (rb_head rb) < 4096" by (simp add: rb_inv_def)
  then have "(rb_head rb + 1) AND 4095 = rb_tail rb \<longleftrightarrow>
      (if unat (rb_head rb) = 4095 then 0 else unat (rb_head rb) + 1) = unat (rb_tail rb)"
    by (simp only: rb_next word_unat_eq_iff) (simp add: wrap_4096)
  then show ?thesis using a by (auto simp: rb_inv_def rb_len_def)
qed

lemma ringbuf_put_ok:
  assumes "rb_inv rb" and "rb_len rb < 4095"
  shows "\<exists>q. ringbuf_put c rb = Some q \<and> rb_inv q \<and> rb_items q = rb_items rb @ [c]"
proof -
  let ?h = "unat (rb_head rb)" and ?t = "unat (rb_tail rb)"
  let ?q = "rb\<lparr>rb_buf := (rb_buf rb)[?h := c], rb_head := (rb_head rb + 1) AND 4095\<rparr>"
  have i: "length (rb_buf rb) = 4096" "?h < 4096" "?t < 4096" using assms by (auto simp: rb_inv_def)
  have nx: "unat ((rb_head rb + 1) AND 4095) = (?h + 1) mod 4096" by (rule rb_next[OF i(2)])
  have "ringbuf_put c rb = Some ?q"
    using rb_full[OF assms(1)] assms(2) by (simp add: ringbuf_put_def Let_def)
  moreover have "rb_inv ?q" using i nx by (simp add: rb_inv_def)
  moreover have l: "rb_len ?q = Suc (rb_len rb)"
    using assms(2) i nx by (auto simp: rb_len_def wrap_4096)
  have e: "(?t + rb_len rb) mod 4096 = ?h" using i by (auto simp: rb_len_def)
  moreover have "rb_items ?q = rb_items rb @ [c]"
  proof (rule nth_equalityI)
    show "length (rb_items ?q) = length (rb_items rb @ [c])" by (simp add: rb_items_def l)
    fix j assume "j < length (rb_items ?q)"
    then have j: "j < Suc (rb_len rb)" by (simp add: rb_items_def l)
    show "rb_items ?q ! j = (rb_items rb @ [c]) ! j"
    proof (cases "j = rb_len rb")
      case True
      then show ?thesis using e i by (simp add: rb_items_def l nth_append)
    next
      case False
      with j have "?t + j < 8192" "?t + j \<noteq> ?h" "?t + j \<noteq> ?h + 4096"
        using i assms(2) by (auto simp: rb_len_def split: if_splits)
      then have "(?t + j) mod 4096 \<noteq> ?h" using i by (auto simp: wrap_4096)
      with j False show ?thesis by (simp add: rb_items_def l nth_append)
    qed
  qed
  ultimately show ?thesis by blast
qed

lemma ringbuf_get_ok:
  assumes "rb_inv rb" and "rb_items rb = c # cs"
  shows "\<exists>q. ringbuf_get rb = Some (c, q) \<and> rb_inv q \<and> rb_items q = cs"
proof -
  let ?h = "unat (rb_head rb)" and ?t = "unat (rb_tail rb)"
  let ?q = "rb\<lparr>rb_tail := (rb_tail rb + 1) AND 4095\<rparr>"
  have i: "length (rb_buf rb) = 4096" "?h < 4096" "?t < 4096" using assms by (auto simp: rb_inv_def)
  have nx: "unat ((rb_tail rb + 1) AND 4095) = (?t + 1) mod 4096" by (rule rb_next[OF i(3)])
  have n0: "rb_len rb \<noteq> 0" using arg_cong[OF assms(2), of length] by (simp add: rb_items_def)
  then obtain n where n: "rb_len rb = Suc n" by (cases "rb_len rb") auto
  have l: "rb_len ?q = n"
    using n i nx by (auto simp: rb_len_def wrap_4096 split: if_splits)
  have "rb_items rb = rb_buf rb ! ?t # rb_items ?q"
  proof -
    have "(?t + Suc i) mod 4096 = ((?t + 1) mod 4096 + i) mod 4096" for i by (simp add: mod_simps)
    then show ?thesis
      using i by (simp add: rb_items_def n l nx map_upt_Suc del: upt_Suc)
  qed
  moreover have "rb_inv ?q" using i nx by (simp add: rb_inv_def)
  moreover have "ringbuf_get rb = Some (rb_buf rb ! ?t, ?q)"
    using rb_len_0[OF assms(1)] n0 by (simp add: ringbuf_get_def)
  ultimately show ?thesis using assms(2) by simp
qed

lemma rb_items_length: "length (rb_items rb) = rb_len rb"
  by (simp add: rb_items_def)

interpretation rb: bounded_queue rb_inv rb_items 4095 ringbuf_put ringbuf_get
proof unfold_locales
  fix q :: ringbuf and c :: u8 and cs
  assume q: "rb_inv q"
  show "length (rb_items q) \<le> 4095" using rb_len_less[OF q] by (simp add: rb_items_length)
  show "ringbuf_put c q = None" if "length (rb_items q) = 4095"
    using that rb_full[OF q] by (simp add: rb_items_length ringbuf_put_def Let_def)
  show "\<exists>q'. ringbuf_put c q = Some q' \<and> rb_inv q' \<and> rb_items q' = rb_items q @ [c]"
    if "length (rb_items q) < 4095"
    using that ringbuf_put_ok[OF q] by (simp add: rb_items_length)
  show "ringbuf_get q = None" if "rb_items q = []"
    using that rb_len_0[OF q] by (simp add: rb_items_def ringbuf_get_def)
  show "\<exists>q'. ringbuf_get q = Some (c, q') \<and> rb_inv q' \<and> rb_items q' = cs" if "rb_items q = c # cs"
    by (rule ringbuf_get_ok[OF q that])
qed

subsection \<open>Reading and writing\<close>

abbreviation st_items :: "stream \<Rightarrow> u8 list" where "st_items s \<equiv> rb_items (st_rb s)"
abbreviation st_inv :: "stream \<Rightarrow> bool" where "st_inv s \<equiv> rb_inv (st_rb s)"

text \<open>Interrupts that only put bytes into the stream, and that do so again and again.\<close>

definition only_feeds :: "(nat \<Rightarrow> stream \<Rightarrow> stream) \<Rightarrow> bool" where
  "only_feeds ev \<longleftrightarrow> (\<forall>k s. st_inv s \<longrightarrow> st_inv (ev k s) \<and> st_flag (ev k s) = st_flag s
     \<and> (\<exists>xs. st_items (ev k s) = st_items s @ xs))"

definition feeds_forever :: "(nat \<Rightarrow> stream \<Rightarrow> stream) \<Rightarrow> bool" where
  "feeds_forever ev \<longleftrightarrow> (\<forall>k. \<exists>j\<ge>k. \<forall>s. st_inv s \<and> st_items s = [] \<longrightarrow> st_items (ev j s) \<noteq> [])"

lemma only_feedsD:
  assumes "only_feeds ev" and "st_inv s"
  shows "st_inv (ev k s)" and "st_flag (ev k s) = st_flag s"
    and "\<exists>xs. st_items (ev k s) = st_items s @ xs"
  using assms by (auto simp: only_feeds_def)

lemma stream_try_read_spec:
  assumes "st_inv s" and "st_flag s AND ST_READ \<noteq> 0"
  shows "\<exists>s'. stream_try_read True n s = (int (min n (length (st_items s))), take n (st_items s), s')
    \<and> st_inv s' \<and> st_flag s' = st_flag s \<and> st_items s' = drop n (st_items s)"
  using rb.drain_spec[OF assms(1), of n] assms(2) by (auto simp: stream_try_read_def min.commute)

text \<open>The bytes that arrive: the interrupts between round \<open>k\<close> and the next deliver \<open>arr k\<close>, never
  more than the buffer holds, and each of these bytes is stored behind the others as long as there
  is room.\<close>

definition feeds :: "(nat \<Rightarrow> u8 list) \<Rightarrow> (nat \<Rightarrow> stream \<Rightarrow> stream) \<Rightarrow> bool" where
  "feeds arr ev \<longleftrightarrow> (\<forall>k. length (arr k) \<le> 4095) \<and> (\<forall>k s. st_inv s \<longrightarrow> st_inv (ev k s)
     \<and> st_flag (ev k s) = st_flag s \<and> st_items (ev k s) = take 4095 (st_items s @ arr k))"

definition arrived :: "(nat \<Rightarrow> u8 list) \<Rightarrow> nat \<Rightarrow> nat \<Rightarrow> u8 list" where
  "arrived arr k k' = concat (map arr [k..<k'])"

lemma arrived_simps [simp]:
  "arrived arr k k = []"
  "k < k' \<Longrightarrow> arrived arr k k' = arr k @ arrived arr (Suc k) k'"
  by (simp_all add: arrived_def upt_rec[of k])

lemma feedsD:
  assumes "feeds arr ev" and "st_inv s"
  shows "st_inv (ev k s)" and "st_flag (ev k s) = st_flag s"
    and "st_items (ev k s) = take 4095 (st_items s @ arr k)" and "length (arr k) \<le> 4095"
  using assms by (simp_all add: feeds_def)

text \<open>Waiting on an empty buffer: the loop goes on until a byte has arrived, and loses none.\<close>

lemma stream_read_wait:
  assumes "feeds arr ev" and "st_inv s" and "st_flag s AND ST_READ \<noteq> 0" and "length got < len"
    and "k \<le> j" and "arr j \<noteq> []"
  shows "\<exists>k' s'. stream_read_loop ev True len got k s = stream_read_loop ev True len got k' s'
    \<and> k \<le> k' \<and> st_inv s' \<and> st_flag s' = st_flag s \<and> st_items s' \<noteq> []
    \<and> st_items s' = st_items s @ arrived arr k k'"
  using assms(2,3,5)
proof (induction "j - k" arbitrary: k s rule: less_induct)
  case less
  show ?case
  proof (cases "st_items s = []")
    case True
    obtain t where t: "stream_try_read True (len - length got) s = (0, [], t)" "st_inv t"
        "st_flag t = st_flag s" "st_items t = []"
      using stream_try_read_spec[OF less.prems(1,2), of "len - length got"] True by auto
    have e: "stream_read_loop ev True len got k s = stream_read_loop ev True len got (Suc k) (ev k t)"
      using assms(4) t(1) by (subst stream_read_loop.simps) simp
    note f = feedsD[OF assms(1) t(2), of k]
    have i: "st_items (ev k t) = arr k" using f(3,4) t(4) by simp
    show ?thesis
    proof (cases "arr k = []")
      case False
      with e f i t True show ?thesis by (intro exI[of _ "Suc k"] exI[of _ "ev k t"]) simp
    next
      case empty: True
      then have "k \<noteq> j" using assms(6) by auto
      then have d: "j - Suc k < j - k" "Suc k \<le> j" using less.prems(3) by linarith+
      from less.hyps[OF d(1) f(1) _ d(2)] f(2) t(3) less.prems(2) obtain k' s' where
        "stream_read_loop ev True len got (Suc k) (ev k t) = stream_read_loop ev True len got k' s'"
        "Suc k \<le> k'" "st_inv s'" "st_flag s' = st_flag s" "st_items s' \<noteq> []"
        "st_items s' = st_items (ev k t) @ arrived arr (Suc k) k'" by auto
      with e i True empty show ?thesis by (intro exI[of _ k'] exI[of _ s']) simp
    qed
  next
    case False
    with less.prems show ?thesis by (intro exI[of _ k] exI[of _ s]) simp
  qed
qed

lemma arrived_trans:
  assumes "k \<le> k1" and "k1 \<le> k2"
  shows "arrived arr k k1 @ arrived arr k1 k2 = arrived arr k k2"
proof -
  obtain d where "k2 = k1 + d" using assms(2) le_Suc_ex by blast
  then have "[k..<k2] = [k..<k1] @ [k1..<k2]" using upt_add_eq_append[OF assms(1), of d] by simp
  then show ?thesis by (simp add: arrived_def)
qed

lemma stream_read_loop_spec:
  assumes "feeds arr ev" and "\<forall>k. \<exists>j\<ge>k. arr j \<noteq> []"
    and "st_inv s" and "st_flag s AND ST_READ \<noteq> 0" and "length got \<le> len"
  shows "\<exists>out k' s'. stream_read_loop ev True len got k s = Some (out, k', s') \<and> length out = len
    \<and> st_inv s' \<and> k \<le> k' \<and> out = take len (got @ st_items s @ arrived arr k k')
    \<and> st_items s' = take 4095 (drop len (got @ st_items s @ arrived arr k k'))"
  using assms(3-5)
proof (induction "len - length got" arbitrary: got k s rule: less_induct)
  case less
  show ?case
  proof (cases "length got = len")
    case True
    with less.prems rb.len_cap[OF less.prems(1)] show ?thesis
      by (subst stream_read_loop.simps) simp
  next
    case False
    then have lt: "length got < len" using less.prems by simp
    obtain j where "k \<le> j" "arr j \<noteq> []" using assms(2) by blast
    from stream_read_wait[OF assms(1) less.prems(1,2) lt this] obtain k1 s1 where
      w: "stream_read_loop ev True len got k s = stream_read_loop ev True len got k1 s1" "k \<le> k1" "st_inv s1"
        "st_flag s1 = st_flag s" "st_items s1 \<noteq> []" and w1: "st_items s1 = st_items s @ arrived arr k k1" by blast
    let ?n = "len - length got"
    have fl: "st_flag s1 AND ST_READ \<noteq> 0" using w less.prems by simp
    obtain t where t: "stream_try_read True ?n s1 = (int (min ?n (length (st_items s1))), take ?n (st_items s1), t)"
        "st_inv t" "st_flag t = st_flag s1" "st_items t = drop ?n (st_items s1)"
      using stream_try_read_spec[OF w(3) fl, of ?n] by blast
    have pos: "0 < min ?n (length (st_items s1))" using lt w(5) by simp
    let ?got = "got @ take ?n (st_items s1)"
    have e: "stream_read_loop ev True len got k s = stream_read_loop ev True len ?got (Suc k1) (ev k1 t)"
      unfolding w(1) using lt t(1) pos by (subst stream_read_loop.simps) simp
    note f = feedsD[OF assms(1) t(2), of k1]
    show ?thesis
    proof (cases "length (st_items s1) < ?n")
      case True
      then have i: "st_items (ev k1 t) = arr k1" "?got = got @ st_items s1" using f(3,4) t(4) by simp_all
      have "0 < length (take ?n (st_items s1))" using pos by simp
      then have "len - length ?got < len - length got" using lt by (simp only: length_append)
      moreover have "st_flag (ev k1 t) AND ST_READ \<noteq> 0" using f(2) t(3) fl by simp
      moreover have "length ?got \<le> len" using lt by simp
      ultimately obtain out k' s' where o: "stream_read_loop ev True len ?got (Suc k1) (ev k1 t) = Some (out, k', s')"
        "length out = len" "st_inv s'" "Suc k1 \<le> k'" "out = take len (?got @ arr k1 @ arrived arr (Suc k1) k')"
        "st_items s' = take 4095 (drop len (?got @ arr k1 @ arrived arr (Suc k1) k'))"
        using less.hyps[of ?got "ev k1 t" "Suc k1"] f(1) i(1) by metis
      have a: "?got @ arr k1 @ arrived arr (Suc k1) k' = got @ st_items s @ arrived arr k k'"
        using arrived_trans[OF w(2), of k' arr] o(4) unfolding i(2) unfolding w1 by simp
      have "k \<le> k'" using w(2) o(4) by simp
      with o(1-3) o(5,6)[unfolded a] show ?thesis unfolding e by blast
    next
      case False
      then have l: "length ?got = len" using lt by simp
      have r: "stream_read_loop ev True len ?got (Suc k1) (ev k1 t) = Some (?got, Suc k1, ev k1 t)"
        using l by (subst stream_read_loop.simps) simp
      have "arrived arr k (Suc k1) = arrived arr k k1 @ arr k1"
        using arrived_trans[OF w(2), of "Suc k1" arr] by simp
      then have a: "got @ st_items s @ arrived arr k (Suc k1) = got @ st_items s1 @ arr k1"
        by (simp add: w1)
      have "?got = take len (got @ st_items s1 @ arr k1)"
        "st_items (ev k1 t) = take 4095 (drop len (got @ st_items s1 @ arr k1))"
        using False lt f(3) t(4) by simp_all
      note this[folded a]
      moreover have "k \<le> Suc k1" using w(2) by simp
      ultimately show ?thesis using r l f(1) unfolding e by blast
    qed
  qed
qed

lemma stream_read_loop_unreadable:
  "stream_read_loop ev dst len got k s = Some y \<Longrightarrow> (\<forall>k s. st_flag (ev k s) = st_flag s) \<longrightarrow>
   \<not> (st_flag s AND ST_READ = 0 \<and> length got < len)"
proof (erule stream_read_loop.raw_induct[of
    "\<lambda>ev dst len got k s y. (\<forall>k s. st_flag (ev k s) = st_flag s) \<longrightarrow> \<not> (st_flag s AND ST_READ = 0 \<and> length got < len)",
    rotated], goal_cases)
  case (1 f ev dst len got k s y)
  show ?case
  proof (intro impI notI, elim conjE)
    assume a: "\<forall>k s. st_flag (ev k s) = st_flag s" "st_flag s AND ST_READ = 0" "length got < len"
    then have "f ev dst len got (Suc k) (ev k s) = Some y"
      using 1(2) by (simp add: stream_try_read_def)
    from 1(1)[OF this] a show False by simp
  qed
qed

lemma stream_put_loop_full:
  "stream_put_loop ev c k s = Some y \<Longrightarrow> only_feeds ev \<longrightarrow> st_inv s \<longrightarrow> length (st_items s) \<noteq> 4095"
proof (erule stream_put_loop.raw_induct[of
    "\<lambda>ev c k s y. only_feeds ev \<longrightarrow> st_inv s \<longrightarrow> length (st_items s) \<noteq> 4095", rotated], goal_cases)
  case (1 f ev c k s y)
  show ?case
  proof (intro impI notI)
    assume a: "only_feeds ev" "st_inv s" "length (st_items s) = 4095"
    let ?t = "s\<lparr>st_overflow := st_overflow s + 1\<rparr>"
    have "ringbuf_put c (st_rb s) = None" using rb.put_full a by blast
    then have "f ev c (Suc k) (ev k ?t) = Some y" using 1(2) by simp
    from 1(1)[OF this] have "length (st_items (ev k ?t)) \<noteq> 4095"
      using a only_feedsD(1)[OF a(1), of ?t k] by simp
    moreover have "st_inv (ev k ?t)" "\<exists>xs. st_items (ev k ?t) = st_items s @ xs"
      using only_feedsD[OF a(1), of ?t k] a(2) by simp_all
    ultimately show False using rb.len_cap[of "st_rb (ev k ?t)"] a(3) by auto
  qed
qed

lemma stream_put_loop_room:
  assumes "st_inv s" and "length (st_items s) < 4095"
  shows "\<exists>s'. stream_put_loop ev c k s = Some (k, s') \<and> st_inv s' \<and> st_items s' = st_items s @ [c]
    \<and> st_flag s' = st_flag s \<and> st_overflow s' = st_overflow s"
  using rb.put_room[OF assms, of c] by (subst stream_put_loop.simps) auto

lemma stream_write_loop_room:
  "st_inv s \<Longrightarrow> length (st_items s) + length bs \<le> 4095 \<Longrightarrow>
   \<exists>s'. stream_write_loop ev bs k s = Some s' \<and> st_inv s' \<and> st_items s' = st_items s @ bs
     \<and> st_flag s' = st_flag s \<and> st_overflow s' = st_overflow s"
proof (induction bs arbitrary: k s)
  case (Cons c bs)
  then have "length (st_items s) < 4095" by simp
  from stream_put_loop_room[OF Cons.prems(1) this, of ev c k] obtain s1 where
    s1: "stream_put_loop ev c k s = Some (k, s1)" "st_inv s1" "st_items s1 = st_items s @ [c]"
      "st_flag s1 = st_flag s" "st_overflow s1 = st_overflow s" by blast
  with Cons.IH[of s1 k] Cons.prems show ?case by auto
qed simp

lemma stream_write_loop_full:
  assumes "only_feeds ev"
  shows "st_inv s \<Longrightarrow> 4095 < length (st_items s) + length bs \<Longrightarrow> stream_write_loop ev bs k s = None"
proof (induction bs arbitrary: k s)
  case Nil
  then show ?case using rb.len_cap[of "st_rb s"] by simp
next
  case (Cons c bs)
  show ?case
  proof (cases "length (st_items s) = 4095")
    case True
    then have "stream_put_loop ev c k s = None"
      using stream_put_loop_full[of ev c k s] assms Cons.prems(1) by (cases "stream_put_loop ev c k s") auto
    then show ?thesis by simp
  next
    case False
    then have "length (st_items s) < 4095" using rb.len_cap[OF Cons.prems(1)] by simp
    from stream_put_loop_room[OF Cons.prems(1) this, of ev c k] obtain s1 where
      "stream_put_loop ev c k s = Some (k, s1)" "st_inv s1" "st_items s1 = st_items s @ [c]" by blast
    with Cons.IH[of s1 k] Cons.prems show ?thesis by auto
  qed
qed

subsection \<open>The properties of streams\<close>

text \<open>C13. Blocking reads are first in, first out and return: on a readable stream, with interrupts
  that deliver the bytes \<open>arr 0\<close>, \<open>arr 1\<close>, \<dots> between the rounds and never stop delivering some,
  \<open>stream_read\<close> returns after some number \<open>k\<close> of rounds with exactly the number of bytes asked for.
  They are the oldest of the bytes that were in the buffer followed by those that arrived, in order;
  the bytes after them are still in the buffer, as many as it holds.\<close>

theorem stream_read_fifo:
  assumes "feeds arr ev" and "\<And>k. \<exists>j\<ge>k. arr j \<noteq> []" and "st_inv s" and "st_flag s AND ST_READ \<noteq> 0"
  shows "\<exists>out s' k. stream_read ev True len s = Some (int len, out, s') \<and> length out = len \<and> st_inv s'
    \<and> out = take len (st_items s @ arrived arr 0 k)
    \<and> st_items s' = take 4095 (drop len (st_items s @ arrived arr 0 k))"
proof -
  obtain out k s' where "stream_read_loop ev True len [] 0 s = Some (out, k, s')" "length out = len"
    "st_inv s'" "out = take len ([] @ st_items s @ arrived arr 0 k)"
    "st_items s' = take 4095 (drop len ([] @ st_items s @ arrived arr 0 k))"
    using stream_read_loop_spec[OF assms(1) _ assms(3,4), of "[]" len 0] assms(2) by auto
  then show ?thesis by (auto simp: stream_read_def)
qed

definition type_a :: "nat \<Rightarrow> stream \<Rightarrow> stream" where
  "type_a k s = (case ringbuf_put 0x61 (st_rb s) of None \<Rightarrow> s | Some rb \<Rightarrow> s\<lparr>st_rb := rb\<rparr>)"

definition demo_stream :: stream where
  "demo_stream = stream_init ST_READ \<lparr>st_rb = \<lparr>rb_buf = replicate 4096 0, rb_head = 7, rb_tail = 9\<rparr>,
     st_flag = 0, st_overflow = 3\<rparr>"

lemma type_a_feeds: "only_feeds type_a" "feeds_forever type_a"
proof -
  show "only_feeds type_a"
    by (auto simp: only_feeds_def type_a_def dest: rb.put_SomeD split: option.splits)
  have "st_items (type_a j s) \<noteq> []" if "st_inv s" "st_items s = []" for j s
    using rb.put_room[OF that(1), of "0x61"] that(2) by (auto simp: type_a_def)
  then show "feeds_forever type_a" by (auto simp: feeds_forever_def)
qed

lemma demo_stream_inv: "st_inv demo_stream" "st_items demo_stream = []"
  by (simp_all add: demo_stream_def stream_init_def rb_inv_def rb_items_def rb_len_def)

text \<open>Keys typed one after the other: the byte that arrives in round \<open>k\<close> is \<open>0x61 + k\<close>.\<close>

definition type_next :: "nat \<Rightarrow> stream \<Rightarrow> stream" where
  "type_next k s = (case ringbuf_put (0x61 + word_of_nat k) (st_rb s) of
     None \<Rightarrow> s | Some rb \<Rightarrow> s\<lparr>st_rb := rb\<rparr>)"

lemma type_next_feeds: "feeds (\<lambda>k. [0x61 + word_of_nat k]) type_next"
proof -
  have "st_inv (type_next k s) \<and> st_flag (type_next k s) = st_flag s
      \<and> st_items (type_next k s) = take 4095 (st_items s @ [0x61 + word_of_nat k])" if "st_inv s" for k s
  proof (cases "ringbuf_put (0x61 + word_of_nat k) (st_rb s)")
    case None
    then show ?thesis using that rb.put_None_iff[OF that] by (simp add: type_next_def)
  next
    case (Some rb)
    with rb.put_SomeD[OF that Some] show ?thesis
      by (cases "4095 - length (st_items s)") (simp_all add: type_next_def)
  qed
  then show ?thesis by (simp add: feeds_def)
qed

lemma demo_stream_readable: "st_flag demo_stream AND ST_READ \<noteq> 0"
  by (simp add: demo_stream_def stream_init_def)

theorem stream_read_fifo_witness:
  "\<exists>s'. stream_read type_next True 3 demo_stream = Some (3, [0x61, 0x62, 0x63], s')"
proof -
  obtain out s' k where r: "stream_read type_next True 3 demo_stream = Some (int 3, out, s')" "length out = 3"
    "out = take 3 (st_items demo_stream @ arrived (\<lambda>k. [0x61 + word_of_nat k]) 0 k)"
    using stream_read_fifo[OF type_next_feeds _ demo_stream_inv(1) demo_stream_readable, of 3] by blast
  have l: "length (arrived (\<lambda>k. [0x61 + word_of_nat k :: u8]) 0 k) = k"
    by (simp add: arrived_def length_concat comp_def sum_list_triv)
  have "3 \<le> k" using r(2,3) demo_stream_inv(2) by (simp add: l min_def split: if_splits)
  then have "out = [0x61, 0x62, 0x63]" using r(3) demo_stream_inv(2) by simp
  with r(1) show ?thesis by simp
qed

text \<open>A stream that was not opened for reading never returns from \<open>stream_read\<close>: the -1 of
  \<open>stream_try_read\<close> is taken for an empty buffer, and the loop halts for ever, whatever the
  interrupts put into the buffer.\<close>

theorem stream_read_unreadable_hangs:
  assumes "\<And>k s. st_flag (ev k s) = st_flag s" and "st_flag s AND ST_READ = 0" and "0 < len"
  shows "stream_read ev dst len s = None"
proof (cases "stream_read_loop ev dst len [] 0 s")
  case (Some y)
  with stream_read_loop_unreadable[OF Some] assms show ?thesis by simp
qed (simp add: stream_read_def)

theorem stream_read_unreadable_hangs_witness:
  "stream_read (\<lambda>k s. s) True 1 (demo_stream\<lparr>st_flag := ST_WRITE\<rparr>) = None"
  by (rule stream_read_unreadable_hangs) simp_all

text \<open>Writing and reading back: bytes that fit are all stored, nothing overflows, and a read
  that does not block gets the old bytes and then the new ones, in order.\<close>

theorem stream_write_read:
  assumes "st_inv s" and "st_flag s AND ST_WRITE \<noteq> 0" and "st_flag s AND ST_READ \<noteq> 0"
    and "length (st_items s) + length bs \<le> 4095"
  shows "\<exists>s' s''. stream_write ev True bs s = Some (int (length bs), s')
    \<and> st_overflow s' = st_overflow s
    \<and> stream_try_read True (length (st_items s) + length bs) s' =
        (int (length (st_items s) + length bs), st_items s @ bs, s'')
    \<and> st_inv s'' \<and> st_items s'' = []"
proof -
  obtain s' where s': "stream_write_loop ev bs 0 s = Some s'" "st_inv s'" "st_items s' = st_items s @ bs"
    "st_flag s' = st_flag s" "st_overflow s' = st_overflow s"
    using stream_write_loop_room[OF assms(1,4), of ev 0] by blast
  have "st_flag s' AND ST_READ \<noteq> 0" using s'(4) assms(3) by simp
  from stream_try_read_spec[OF s'(2) this, of "length (st_items s) + length bs"] s' assms(2)
  show ?thesis by (auto simp: stream_write_def)
qed

theorem stream_write_read_witness:
  "\<exists>s' s''. stream_write type_a True [1, 2] (demo_stream\<lparr>st_flag := 3\<rparr>) = Some (2, s')
    \<and> stream_try_read True 2 s' = (2, [1, 2], s'')"
  using stream_write_read[of "demo_stream\<lparr>st_flag := 3\<rparr>" "[1, 2]" type_a] demo_stream_inv
  by (auto simp: numeral_2_eq_2)

text \<open>A write of more bytes than fit never returns while interrupts only add bytes: the buffer
  holds 4095, nothing in the kernel empties it during the wait.\<close>

theorem stream_write_full_hangs:
  assumes "only_feeds ev" and "st_inv s" and "st_flag s AND ST_WRITE \<noteq> 0"
    and "4095 < length (st_items s) + length bs"
  shows "stream_write ev True bs s = None"
  using stream_write_loop_full[OF assms(1,2,4), of 0] assms(3) by (simp add: stream_write_def)

theorem stream_write_full_hangs_witness:
  "stream_write type_a True (replicate 5000 0) (demo_stream\<lparr>st_flag := ST_WRITE\<rparr>) = None"
  by (rule stream_write_full_hangs[OF type_a_feeds(1)]) (simp_all add: demo_stream_inv)

end
