(* ===== verification/Kernel_Keyboard.thy ===== *)
theory Kernel_Keyboard
  imports Kernel_Stream
begin

text \<open>
  The keyboard interrupt handler of \<open>kernel/driver/keyboard.c\<close>: scan codes in, bytes into the
  ring buffer of the keyboard stream out.  The byte \<open>inb(KB_DATA_PORT)\<close> returns is an argument.
\<close>

subsection \<open>The scan code table\<close>

text \<open>Rows 0 to 57 of \<open>scancode_map\<close>: the plain and the shifted character, 0 where the
  initialiser names none.\<close>

definition scancode_map :: "(u8 \<times> u8) list" where
  "scancode_map =
     [(0, 0), (0, 0), (0x31, 0x21), (0x32, 0x40), (0x33, 0x23), (0x34, 0x24), (0x35, 0x25),
      (0x36, 0x5e), (0x37, 0x26), (0x38, 0x2a), (0x39, 0x28), (0x30, 0x29), (0x2d, 0x5f),
      (0x3d, 0x2b), (0x08, 0x08), (0x09, 0x09),
      (0x71, 0x51), (0x77, 0x57), (0x65, 0x45), (0x72, 0x52), (0x74, 0x54), (0x79, 0x59),
      (0x75, 0x55), (0x69, 0x49), (0x6f, 0x4f), (0x70, 0x50), (0x5b, 0x7b), (0x5d, 0x7d),
      (0x0a, 0x0a), (0, 0),
      (0x61, 0x41), (0x73, 0x53), (0x64, 0x44), (0x66, 0x46), (0x67, 0x47), (0x68, 0x48),
      (0x6a, 0x4a), (0x6b, 0x4b), (0x6c, 0x4c), (0x3b, 0x3a), (0x27, 0x22), (0x60, 0x7e),
      (0, 0), (0x5c, 0x7c),
      (0x7a, 0x5a), (0x78, 0x58), (0x63, 0x43), (0x76, 0x56), (0x62, 0x42), (0x6e, 0x4e),
      (0x6d, 0x4d), (0x2c, 0x3c), (0x2e, 0x3e), (0x2f, 0x3f), (0, 0), (0, 0), (0, 0),
      (0x20, 0x20)]"

definition scancode_at :: "u8 \<Rightarrow> bool \<Rightarrow> u8" where
  "scancode_at code sh = (if sh then snd else fst) (scancode_map ! unat code)"

subsection \<open>The handler\<close>

record kbd =
  kb_stream :: stream
  shift_down :: bool
  caps_down :: bool

definition is_digit :: "u8 \<Rightarrow> bool" where
  "is_digit c \<longleftrightarrow> sint c - 0x30 \<ge> 0 \<and> sint c - 0x30 \<le> 9"

text \<open>The character of a key that is pressed.\<close>

definition kbd_char :: "bool \<Rightarrow> bool \<Rightarrow> u8 \<Rightarrow> u8" where
  "kbd_char sh caps code =
     (let c = scancode_at code sh
      in if is_digit c then c else scancode_at code (sh \<noteq> caps))"

text \<open>\<open>ringbuf_put\<close> with its result ignored, and with a failure counted.\<close>

definition kb_put :: "bool \<Rightarrow> u8 \<Rightarrow> stream \<Rightarrow> stream" where
  "kb_put count c s =
     (case ringbuf_put c (st_rb s) of
        Some rb \<Rightarrow> s\<lparr>st_rb := rb\<rparr>
      | None \<Rightarrow> if count then s\<lparr>st_overflow := st_overflow s + 1\<rparr> else s)"

definition kb_irq_handler :: "u8 \<Rightarrow> kbd \<Rightarrow> kbd" where
  "kb_irq_handler sc k =
     (if sc = 0xe0 then k
      else
        let release = (sc AND 0x80 \<noteq> 0); code = sc AND 0x7f
        in if code = 0x2a \<or> code = 0x36 then k\<lparr>shift_down := \<not> release\<rparr>
           else if code = 0x3a \<and> \<not> release then k\<lparr>caps_down := \<not> caps_down k\<rparr>
           else if code = 0x0e \<and> \<not> release then k\<lparr>kb_stream := kb_put False 0x08 (kb_stream k)\<rparr>
           else if \<not> release \<and> code < 58 \<and> fst (scancode_map ! unat code) \<noteq> 0
             then k\<lparr>kb_stream := kb_put True (kbd_char (shift_down k) (caps_down k) code) (kb_stream k)\<rparr>
           else k)"

text \<open>What \<open>kb_init\<close> does to the stream; the rest of it, which installs the handler, drains the controller and
  unmasks the line, is \<open>kb_setup\<close> in \<open>Kernel_Main\<close>.\<close>

definition kb_init :: "kbd \<Rightarrow> kbd" where
  "kb_init k = k\<lparr>kb_stream := stream_init ST_READ (kb_stream k)\<rparr>"

text \<open>Handling a sequence of scan codes.\<close>

definition kb_run :: "u8 list \<Rightarrow> kbd \<Rightarrow> kbd" where
  "kb_run scs k = fold kb_irq_handler scs k"

subsection \<open>The keyboard\<close>

text \<open>The specification: a PC keyboard with the US layout, from the keys on it.  A row is given by the
  scan code (set 1) of its first key and what is printed on its keys from left to right.\<close>

datatype key = Letter char | Digit char char | Sign char char | Blank char

definition key_row :: "u8 \<Rightarrow> key list \<Rightarrow> (u8 \<times> key) list" where
  "key_row first ks = zip (map (\<lambda>i. first + word_of_nat i) [0..<length ks]) ks"

definition us_keys :: "(u8 \<times> key) list" where
  "us_keys =
     key_row 0x02 (map2 Digit ''1234567890'' ''!@#$%^&*()'')
     @ key_row 0x0c (map2 Sign ''-='' ''_+'')
     @ key_row 0x0e [Blank (CHR 0x08), Blank (CHR 0x09)]
     @ key_row 0x10 (map Letter ''qwertyuiop'')
     @ key_row 0x1a (map2 Sign ''[]'' ''{}'' @ [Blank (CHR 0x0a)])
     @ key_row 0x1e (map Letter ''asdfghjkl'')
     @ key_row 0x27 (map2 Sign [CHR '';'', CHR 0x27, CHR 0x60] [CHR '':'', CHR 0x22, CHR 0x7e])
     @ key_row 0x2b [Sign (CHR 0x5c) (CHR 0x7c)]
     @ key_row 0x2c (map Letter ''zxcvbnm'' @ map2 Sign '',./'' ''<>?'')
     @ key_row 0x39 [Blank (CHR '' '')]"

text \<open>What a key types.  A letter is a capital when exactly one of Shift and Caps Lock is on.  Here
  Caps Lock acts on the other keys as well: it turns Shift round on the keys with a sign, and on a digit
  it takes Shift away.\<close>

fun key_types :: "bool \<Rightarrow> bool \<Rightarrow> key \<Rightarrow> char" where
  "key_types sh caps (Letter c) = (if sh = caps then c else char_of (of_char c - 32 :: nat))"
| "key_types sh caps (Digit c d) = (if sh \<and> \<not> caps then d else c)"
| "key_types sh caps (Sign c d) = (if sh = caps then c else d)"
| "key_types sh caps (Blank c) = c"

text \<open>The modifiers after a history of scan codes: Shift is held when the last event of a Shift key
  was a press, Caps Lock changes with every press of its key.\<close>

definition shift_events :: "u8 list \<Rightarrow> u8 list" where
  "shift_events scs = filter (\<lambda>sc. sc \<in> {0x2a, 0x36, 0xaa, 0xb6}) scs"

definition shift_held :: "bool \<Rightarrow> u8 list \<Rightarrow> bool" where
  "shift_held sh scs = (if shift_events scs = [] then sh else List.last (shift_events scs) \<in> {0x2a, 0x36})"

definition caps_on :: "bool \<Rightarrow> u8 list \<Rightarrow> bool" where
  "caps_on caps scs = (caps \<noteq> odd (count_list scs 0x3a))"

text \<open>The bytes typed: the \<open>i\<close>-th scan code types what its key gives under the modifiers of the
  history before it; releases, prefixes and keys that are not on the layout type nothing.\<close>

definition key_bytes :: "bool \<Rightarrow> bool \<Rightarrow> u8 \<Rightarrow> u8 list" where
  "key_bytes sh caps sc = (case map_of us_keys sc of None \<Rightarrow> [] | Some k \<Rightarrow> [of_char (key_types sh caps k)])"

definition typed :: "bool \<Rightarrow> bool \<Rightarrow> u8 list \<Rightarrow> u8 list" where
  "typed sh caps scs = concat (map (\<lambda>i. key_bytes (shift_held sh (take i scs)) (caps_on caps (take i scs)) (scs ! i))
     [0..<length scs])"

subsection \<open>What the handler types\<close>

text \<open>The table and the rules of the code against the layout, key by key.\<close>

definition code_bytes :: "bool \<Rightarrow> bool \<Rightarrow> u8 \<Rightarrow> u8 list" where
  "code_bytes sh caps sc =
     (if sc \<ge> 0x80 \<or> sc \<in> {0x2a, 0x36, 0x3a} then []
      else if sc = 0x0e then [0x08]
      else if sc < 58 \<and> fst (scancode_map ! unat sc) \<noteq> 0 then [kbd_char sh caps sc]
      else [])"

lemma us_keys_check:
  "list_all (\<lambda>(sc, k). list_all (\<lambda>sh. list_all (\<lambda>caps.
      code_bytes sh caps sc = [of_char (key_types sh caps k)]) [False, True]) [False, True]) us_keys"
  by code_simp

lemma us_keys_codes:
  "map fst us_keys = map word_of_nat ([2..<29] @ [30..<42] @ [43..<54] @ [57])"
  by code_simp

lemma us_keys_none:
  assumes "map_of us_keys sc = None" and "sc < 58"
  shows "sc \<in> {0, 1, 0x1d, 0x2a, 0x36, 0x37, 0x38}"
proof -
  have "sc \<notin> set (map fst us_keys)" using assms(1) by (simp add: map_of_eq_None_iff)
  then have "sc \<notin> word_of_nat ` set ([2..<29] @ [30..<42] @ [43..<54] @ [57])"
    unfolding us_keys_codes set_map .
  moreover have sc: "sc = word_of_nat (unat sc)" by simp
  ultimately have "unat sc \<notin> set ([2..<29] @ [30..<42] @ [43..<54] @ [57])" by (metis image_eqI)
  moreover have "unat sc < 58" using assms(2) by (simp add: word_less_nat_alt)
  ultimately have "unat sc \<in> {0, 1, 29, 42, 54, 55, 56}" 
    unfolding set_append set_upt list.set Un_iff atLeastLessThan_iff insert_iff empty_iff by arith
  then show ?thesis by (auto simp: word_unat_eq_iff)
qed

lemma key_table: "key_bytes sh caps sc = code_bytes sh caps sc"
proof (cases "map_of us_keys sc")
  case (Some k)
  then have "(sc, k) \<in> set us_keys" by (rule map_of_SomeD)
  with us_keys_check have "code_bytes sh caps sc = [of_char (key_types sh caps k)]"
    by (cases sh; cases caps) (auto simp: list_all_iff)
  with Some show ?thesis by (simp add: key_bytes_def)
next
  case None
  have "code_bytes sh caps sc = []"
  proof (cases "sc < 58")
    case True
    from us_keys_none[OF None True] show ?thesis
      by (auto simp: code_bytes_def scancode_map_def)
  qed (auto simp: code_bytes_def)
  with None show ?thesis by (simp add: key_bytes_def)
qed

lemma sc_release: "(sc AND 0x80 \<noteq> 0) = (0x80 \<le> (sc :: u8))"
proof -
  have "unat sc < 256" using unsigned_less[of sc, where ?'a = nat] by simp
  then have "odd (unat sc div 128) \<longleftrightarrow> 128 \<le> unat sc"
    by (cases "unat sc < 128") (simp_all add: div_if)
  moreover have "bit sc 7 \<longleftrightarrow> odd (unat sc div 128)"
    using bit_unsigned_iff[of sc 7, where ?'a = nat] by (simp add: bit_iff_odd)
  ultimately show ?thesis using and_exp_eq_0_iff_not_bit[of sc 7] by (simp add: word_le_nat_alt)
qed

lemma sc_code: "(sc :: u8) AND 0x7f = (if 0x80 \<le> sc then sc - 0x80 else sc)"
proof -
  have "sc AND 0x7f = take_bit 7 sc" by (simp add: take_bit_eq_mask mask_eq_exp_minus_1)
  then have "unat (sc AND 0x7f) = take_bit 7 (unat sc)" by (simp only: unsigned_take_bit_eq)
  then have "unat (sc AND 0x7f) = unat sc mod 128" by (simp add: take_bit_eq_mod)
  moreover have "unat sc < 256" using unsigned_less[of sc, where ?'a = nat] by simp
  moreover have "unat (sc - 0x80) = unat sc - 128" if "0x80 \<le> sc" using that by (simp add: unat_sub)
  ultimately show ?thesis
    by (simp add: word_unat_eq_iff word_le_nat_alt mod_if[of "unat sc"] mod_if[of "unat sc - 128"])
qed

lemma kb_put_spec:
  assumes "st_inv s"
  shows "st_inv (kb_put b c s) \<and> st_flag (kb_put b c s) = st_flag s
    \<and> st_items (kb_put b c s) = take 4095 (st_items s @ [c])"
proof (cases "length (st_items s) = 4095")
  case True
  then show ?thesis using rb.put_full[OF assms, of c] assms by (simp add: kb_put_def)
next
  case False
  then have "length (st_items s) < 4095" using rb.len_cap[OF assms] by simp
  with rb.put_room[OF assms this, of c] show ?thesis by (auto simp: kb_put_def)
qed

text \<open>One scan code: what it does to the modifiers, and the bytes it stores.\<close>

lemma kb_step:
  assumes "st_inv (kb_stream k)"
  shows "st_inv (kb_stream (kb_irq_handler sc k))"
    and "st_flag (kb_stream (kb_irq_handler sc k)) = st_flag (kb_stream k)"
    and "shift_down (kb_irq_handler sc k) = (if sc \<in> {0x2a, 0x36} then True
           else if sc \<in> {0xaa, 0xb6} then False else shift_down k)"
    and "caps_down (kb_irq_handler sc k) = (caps_down k \<noteq> (sc = 0x3a))"
    and "st_items (kb_stream (kb_irq_handler sc k))
      = take 4095 (st_items (kb_stream k) @ key_bytes (shift_down k) (caps_down k) sc)"
proof -
  have l: "take 4095 (st_items (kb_stream k)) = st_items (kb_stream k)" using rb.len_cap[OF assms] by simp
  note p = kb_put_spec[OF assms]
  show "st_inv (kb_stream (kb_irq_handler sc k))"
    "st_flag (kb_stream (kb_irq_handler sc k)) = st_flag (kb_stream k)"
    using p assms by (simp_all add: kb_irq_handler_def Let_def)
  have c: "sc - 0x80 = 0x2a \<longleftrightarrow> sc = 0xaa" "sc - 0x80 = 0x36 \<longleftrightarrow> sc = 0xb6" by (auto simp: diff_eq_eq)
  show "shift_down (kb_irq_handler sc k) = (if sc \<in> {0x2a, 0x36} then True
           else if sc \<in> {0xaa, 0xb6} then False else shift_down k)"
    "caps_down (kb_irq_handler sc k) = (caps_down k \<noteq> (sc = 0x3a))"
    "st_items (kb_stream (kb_irq_handler sc k))
      = take 4095 (st_items (kb_stream k) @ key_bytes (shift_down k) (caps_down k) sc)"
    unfolding kb_irq_handler_def sc_release sc_code Let_def key_table code_bytes_def
    using l p c by auto
qed

lemma shift_held_simps [simp]:
  "shift_held sh [] = sh"
  "shift_held sh (scs @ [sc]) = (if sc \<in> {0x2a, 0x36} then True
     else if sc \<in> {0xaa, 0xb6} then False else shift_held sh scs)"
  by (auto simp: shift_held_def shift_events_def)

lemma caps_on_simps [simp]:
  "caps_on caps [] = caps"
  "caps_on caps (scs @ [sc]) = (caps_on caps scs \<noteq> (sc = 0x3a))"
  by (auto simp: caps_on_def)

lemma typed_simps [simp]:
  "typed sh caps [] = []"
  "typed sh caps (scs @ [sc]) = typed sh caps scs @ key_bytes (shift_held sh scs) (caps_on caps scs) sc"
  by (auto simp: typed_def nth_append intro!: arg_cong[of _ _ concat])

lemma kb_run_typed:
  "st_inv (kb_stream k) \<Longrightarrow>
   length (st_items (kb_stream k)) + length (typed (shift_down k) (caps_down k) scs) \<le> 4095 \<Longrightarrow>
   st_inv (kb_stream (kb_run scs k)) \<and> st_flag (kb_stream (kb_run scs k)) = st_flag (kb_stream k)
   \<and> shift_down (kb_run scs k) = shift_held (shift_down k) scs
   \<and> caps_down (kb_run scs k) = caps_on (caps_down k) scs
   \<and> st_items (kb_stream (kb_run scs k)) = st_items (kb_stream k) @ typed (shift_down k) (caps_down k) scs"
proof (induction scs rule: rev_induct)
  case (snoc sc scs)
  then have h: "st_inv (kb_stream (kb_run scs k))" "st_flag (kb_stream (kb_run scs k)) = st_flag (kb_stream k)"
    "shift_down (kb_run scs k) = shift_held (shift_down k) scs"
    "caps_down (kb_run scs k) = caps_on (caps_down k) scs"
    "st_items (kb_stream (kb_run scs k)) = st_items (kb_stream k) @ typed (shift_down k) (caps_down k) scs"
    by simp_all
  have "kb_run (scs @ [sc]) k = kb_irq_handler sc (kb_run scs k)" by (simp add: kb_run_def)
  then show ?case using kb_step[OF h(1), of sc] h(2-5) snoc.prems(2) by simp
qed (simp add: kb_run_def)

subsection \<open>The properties of the keyboard\<close>

text \<open>C14. The handler is a US keyboard: over any sequence of scan codes Shift and Caps Lock are what
  the history of the sequence makes them, and the bytes behind those that waited in the stream are
  what the keys pressed type under them, in order, as long as what waits fits the buffer.  The
  reference is the layout \<open>us_keys\<close> and the rules of \<open>key_types\<close>, \<open>shift_held\<close> and \<open>caps_on\<close>; neither
  the table nor a function of the code occurs in them.\<close>

theorem keyboard_refines:
  assumes "st_inv (kb_stream k)"
    and "length (st_items (kb_stream k)) + length (typed (shift_down k) (caps_down k) scs) \<le> 4095"
  shows "st_items (kb_stream (kb_run scs k)) = st_items (kb_stream k) @ typed (shift_down k) (caps_down k) scs
    \<and> shift_down (kb_run scs k) = shift_held (shift_down k) scs
    \<and> caps_down (kb_run scs k) = caps_on (caps_down k) scs
    \<and> st_inv (kb_stream (kb_run scs k))"
  using kb_run_typed[OF assms] by simp

definition demo_kbd :: kbd where
  "demo_kbd = \<lparr>kb_stream = demo_stream, shift_down = False, caps_down = False\<rparr>"

text \<open>Shift down, \<open>h\<close>, shift up, \<open>i\<close>, Caps Lock, \<open>9\<close>, \<open>=\<close>, with releases in between.\<close>

lemma demo_typing:
  "typed False False [0x2a, 0x23, 0xa3, 0xaa, 0x17, 0x97, 0x3a, 0xba, 0x0a, 0x0d] = [0x48, 0x69, 0x39, 0x2b]"
  by (simp add: typed_def upt_rec key_table code_bytes_def scancode_map_def kbd_char_def scancode_at_def
      is_digit_def shift_held_def shift_events_def caps_on_def)

theorem keyboard_refines_witness:
  "st_items (kb_stream (kb_run [0x2a, 0x23, 0xa3, 0xaa, 0x17, 0x97, 0x3a, 0xba, 0x0a, 0x0d] demo_kbd))
     = [0x48, 0x69, 0x39, 0x2b]"
proof -
  let ?scs = "[0x2a, 0x23, 0xa3, 0xaa, 0x17, 0x97, 0x3a, 0xba, 0x0a, 0x0d] :: u8 list"
  have d: "shift_down demo_kbd = False" "caps_down demo_kbd = False" "st_inv (kb_stream demo_kbd)"
    "st_items (kb_stream demo_kbd) = []"
    by (simp_all add: demo_kbd_def demo_stream_inv)
  show ?thesis
    using keyboard_refines[OF d(3), of ?scs] unfolding d(1,2,4) demo_typing by simp
qed

text \<open>A full buffer loses the newest byte and nothing else: whatever scan code arrives when 4095
  bytes wait, the waiting bytes and the stream's mode stay, and at most the overflow count changes.\<close>

theorem keyboard_full_keeps:
  assumes "st_inv (kb_stream k)" and "length (st_items (kb_stream k)) = 4095"
  shows "st_items (kb_stream (kb_irq_handler sc k)) = st_items (kb_stream k)
    \<and> st_flag (kb_stream (kb_irq_handler sc k)) = st_flag (kb_stream k)
    \<and> st_overflow (kb_stream (kb_irq_handler sc k)) - st_overflow (kb_stream k) \<in> {0, 1}"
proof -
  have "ringbuf_put c (st_rb (kb_stream k)) = None" for c using rb.put_full[OF assms] .
  then show ?thesis by (simp add: kb_irq_handler_def Let_def kb_put_def)
qed

definition full_kbd :: kbd where
  "full_kbd = \<lparr>kb_stream = \<lparr>st_rb = \<lparr>rb_buf = replicate 4096 0, rb_head = 4095, rb_tail = 0\<rparr>,
     st_flag = ST_READ, st_overflow = 0\<rparr>, shift_down = False, caps_down = False\<rparr>"

lemma full_kbd_inv: "st_inv (kb_stream full_kbd)" "length (st_items (kb_stream full_kbd)) = 4095"
  by (simp_all add: full_kbd_def rb_inv_def rb_items_def rb_len_def)

theorem keyboard_full_keeps_witness:
  "st_items (kb_stream (kb_irq_handler 0x23 full_kbd)) = st_items (kb_stream full_kbd)"
  using keyboard_full_keeps[OF full_kbd_inv] by simp

lemma letter_keys:
  "list_all (\<lambda>code. kbd_char sh caps code =
     (if sh \<noteq> caps then fst (scancode_map ! unat code) - 0x20 else fst (scancode_map ! unat code)))
   ([0x10, 0x11, 0x12, 0x13, 0x14, 0x15, 0x16, 0x17, 0x18, 0x19, 0x1e, 0x1f, 0x20, 0x21, 0x22,
     0x23, 0x24, 0x25, 0x26, 0x2c, 0x2d, 0x2e, 0x2f, 0x30, 0x31, 0x32])"
  by (cases sh; cases caps) (simp_all add: kbd_char_def scancode_at_def scancode_map_def is_digit_def)

text \<open>What the modifiers do: a letter key gives its capital exactly when one of Shift and Caps
  Lock is on, but Caps Lock also shifts every other key except the digits, and with both on a digit
  key gives the digit, not its symbol.\<close>

theorem keyboard_modifiers:
  "(\<forall>code \<in> {0x10, 0x11, 0x12, 0x13, 0x14, 0x15, 0x16, 0x17, 0x18, 0x19, 0x1e, 0x1f, 0x20, 0x21,
      0x22, 0x23, 0x24, 0x25, 0x26, 0x2c, 0x2d, 0x2e, 0x2f, 0x30, 0x31, 0x32}.
      kbd_char sh caps code = fst (scancode_map ! unat code) - (if sh \<noteq> caps then 0x20 else 0))
   \<and> (\<forall>code \<in> {2, 3, 4, 5, 6, 7, 8, 9, 10, 11}. kbd_char True True code = kbd_char False caps code
        \<and> kbd_char True False code = snd (scancode_map ! unat code))
   \<and> kbd_char False True 0x0c = snd (scancode_map ! 0x0c)"
proof (intro conjI)
  show "\<forall>code \<in> {0x10, 0x11, 0x12, 0x13, 0x14, 0x15, 0x16, 0x17, 0x18, 0x19, 0x1e, 0x1f, 0x20, 0x21,
      0x22, 0x23, 0x24, 0x25, 0x26, 0x2c, 0x2d, 0x2e, 0x2f, 0x30, 0x31, 0x32}.
      kbd_char sh caps code = fst (scancode_map ! unat code) - (if sh \<noteq> caps then 0x20 else 0)"
    using letter_keys[of sh caps] by (auto simp: list_all_iff)
  show "\<forall>code \<in> {2, 3, 4, 5, 6, 7, 8, 9, 10, 11}. kbd_char True True code = kbd_char False caps code
        \<and> kbd_char True False code = snd (scancode_map ! unat code)"
    by (cases caps) (simp_all add: kbd_char_def scancode_at_def scancode_map_def is_digit_def)
qed (simp add: kbd_char_def scancode_at_def scancode_map_def is_digit_def)

theorem keyboard_modifiers_witness:
  "kbd_char True True 2 = 0x31 \<and> kbd_char False True 0x0c = 0x5f"
proof -
  have "kbd_char True True 2 = kbd_char False False 2" using keyboard_modifiers[of _ False] by blast
  moreover have "kbd_char False True 0x0c = snd (scancode_map ! 0x0c)" using keyboard_modifiers by blast
  ultimately show ?thesis
    by (simp add: kbd_char_def scancode_at_def scancode_map_def is_digit_def)
qed

end
