(* ===== verification/Kernel_Pmm.thy ===== *)
theory Kernel_Pmm
  imports Prelude
begin

text \<open>
  The physical memory manager of \<open>kernel/memory_paging.c\<close>: one bit per page, built from the UEFI
  memory map.

  Pages are natural numbers, addresses and sizes keep their 64 bits.  The bitmap is the list of
  its bytes; that it lives in the memory it describes only shows in its address.  The descriptors
  of the memory map are read through \<open>bi_desc\<close>, the contents of the memory at \<open>mmap_addr\<close>.
\<close>

subsection \<open>State\<close>

abbreviation (input) PAGE_SIZE :: u64 where "PAGE_SIZE \<equiv> 4096"
abbreviation (input) ConventionalMemory :: u32 where "ConventionalMemory \<equiv> 7"

record pmm =
  pm_addr :: u64
  pm_bitmap :: "u8 list"
  bitmap_bytes :: u64
  total_pages :: u64
  used_pages :: u64
  usable_pages :: u64
  last_alloc :: u64

record mem_desc =
  md_type :: u32
  md_phys :: u64
  md_pages :: u64

record boot_info =
  fb_base :: u64
  fb_size :: u64
  mmap_addr :: u64
  mmap_size :: u64
  mmap_dsize :: u64
  stack_top :: u64
  bi_desc :: "nat \<Rightarrow> mem_desc"

text \<open>The values of the static variables at start-up.\<close>

definition pmm0 :: pmm where
  "pmm0 = \<lparr>pm_addr = 0, pm_bitmap = [], bitmap_bytes = 0, total_pages = 0, used_pages = 0,
     usable_pages = 0, last_alloc = 0\<rparr>"

subsection \<open>The bitmap\<close>

definition bitmap_set :: "nat \<Rightarrow> u8 list \<Rightarrow> u8 list" where
  "bitmap_set p bm = bm[p div 8 := (bm ! (p div 8)) OR push_bit (p mod 8) 1]"

definition bitmap_clear :: "nat \<Rightarrow> u8 list \<Rightarrow> u8 list" where
  "bitmap_clear p bm = bm[p div 8 := (bm ! (p div 8)) AND NOT (push_bit (p mod 8) 1)]"

text \<open>The code returns the shifted byte, and its callers test it against zero.\<close>

definition bitmap_test :: "nat \<Rightarrow> u8 list \<Rightarrow> bool" where
  "bitmap_test p bm \<longleftrightarrow> drop_bit (p mod 8) (bm ! (p div 8)) \<noteq> 0"

definition align_up :: "u64 \<Rightarrow> u64 \<Rightarrow> u64" where
  "align_up v a = (v + a - 1) AND NOT (a - 1)"

subsection \<open>Reserving ranges\<close>

definition reserve_page :: "nat \<Rightarrow> pmm \<Rightarrow> pmm" where
  "reserve_page p m =
     (if \<not> bitmap_test p (pm_bitmap m)
      then m\<lparr>pm_bitmap := bitmap_set p (pm_bitmap m), used_pages := used_pages m + 1\<rparr>
      else m)"

definition reserv_range :: "u64 \<Rightarrow> u64 \<Rightarrow> pmm \<Rightarrow> pmm" where
  "reserv_range start sz m =
     (let first = start div PAGE_SIZE; lst = align_up (start + sz) PAGE_SIZE div PAGE_SIZE
      in fold reserve_page [unat first..<min (unat lst) (unat (total_pages m))] m)"

subsection \<open>Building the bitmap\<close>

definition conventional :: "boot_info \<Rightarrow> mem_desc list" where
  "conventional bi = filter (\<lambda>d. md_type d = ConventionalMemory)
     (map (bi_desc bi) [0..<unat (mmap_size bi div mmap_dsize bi)])"

definition max_addr :: "mem_desc list \<Rightarrow> u64" where
  "max_addr ds = foldl (\<lambda>mx d. let e = md_phys d + md_pages d * PAGE_SIZE
     in if e > mx then e else mx) 0 ds"

text \<open>The start and the number of pages of the largest range.\<close>

definition best_range :: "mem_desc list \<Rightarrow> u64 \<times> u64" where
  "best_range ds = foldl (\<lambda>(b, n) d. if md_pages d > n then (md_phys d, md_pages d) else (b, n))
     (0, 0) ds"

definition clear_range :: "u64 \<Rightarrow> mem_desc \<Rightarrow> u8 list \<Rightarrow> u8 list" where
  "clear_range total_n d bm =
     (let first = md_phys d div PAGE_SIZE
      in fold bitmap_clear [unat first..<min (unat (first + md_pages d)) (unat total_n)] bm)"

text \<open>\<open>kpanic\<close> does not return: \<open>Inl\<close> is its message.\<close>

definition pmm_init :: "u64 \<Rightarrow> u64 \<Rightarrow> boot_info \<Rightarrow> pmm \<Rightarrow> string + pmm" where
  "pmm_init kernel_start kernel_end bi m =
     (if mmap_dsize bi = 0 \<or> mmap_size bi = 0 then Inl ''Memory map is missing''
      else
        let ds = conventional bi; mx = max_addr ds
        in if mx = 0 then Inl ''No convetnional memory found''
        else
          let total_n = mx div PAGE_SIZE;
              bytes = align_up (total_n div 8 + 1) PAGE_SIZE;
              (best, best_pages) = best_range ds;
              addr = align_up best PAGE_SIZE
          in if addr + bytes > best + best_pages * PAGE_SIZE
             then Inl ''Bitmap does not fit into memory''
             else
               let bm = fold (clear_range total_n) ds (replicate (unat bytes) 0xff);
                   m1 = m\<lparr>pm_addr := addr, pm_bitmap := bm, bitmap_bytes := bytes,
                          total_pages := total_n,
                          usable_pages := foldl (\<lambda>n d. n + md_pages d) (usable_pages m) ds\<rparr>;
                   m2 = reserv_range 0 0x100000 m1;
                   m3 = reserv_range 0x400000 0x100000 m2;
                   m4 = reserv_range kernel_start (kernel_end - kernel_start) m3;
                   m5 = reserv_range addr bytes m4;
                   m6 = reserv_range (fb_base bi) (fb_size bi) m5;
                   m7 = reserv_range (stack_top bi - 128 * 1024) (128 * 1024) m6;
                   m8 = reserv_range (mmap_addr bi) (mmap_size bi) m7
               in Inr (reserv_range 0x400000 0x100000 m8))"

subsection \<open>Allocating and freeing\<close>

text \<open>The scan over the pages; the result is the first page and the last page of the run found.\<close>

fun alloc_scan :: "nat \<Rightarrow> u8 list \<Rightarrow> nat list \<Rightarrow> nat \<Rightarrow> nat \<Rightarrow> (nat \<times> nat) option" where
  "alloc_scan pages bm [] run start = None"
| "alloc_scan pages bm (p # ps) run start =
     (if \<not> bitmap_test p bm then
        (let start' = (if run = 0 then p else start)
         in if run + 1 = pages then Some (start', p)
            else alloc_scan pages bm ps (run + 1) start')
      else alloc_scan pages bm ps 0 start)"

definition pmm_alloc_pages :: "u64 \<Rightarrow> pmm \<Rightarrow> u64 \<times> pmm" where
  "pmm_alloc_pages pages m =
     (if pm_addr m = 0 \<or> pages = 0 then (0, m)
      else case alloc_scan (unat pages) (pm_bitmap m) [0..<unat (total_pages m)] 0 0 of
          None \<Rightarrow> (0, m)
        | Some (start, p) \<Rightarrow>
            (word_of_nat start * PAGE_SIZE,
             m\<lparr>pm_bitmap := fold bitmap_set [start..<Suc p] (pm_bitmap m),
               used_pages := used_pages m + pages, last_alloc := word_of_nat p + 1\<rparr>))"

definition pmm_free_page :: "u64 \<Rightarrow> pmm \<Rightarrow> pmm" where
  "pmm_free_page page m =
     (if pm_addr m = 0 then m
      else
        let p = page div PAGE_SIZE
        in if p \<ge> total_pages m \<or> \<not> bitmap_test (unat p) (pm_bitmap m) then m
           else m\<lparr>pm_bitmap := bitmap_clear (unat p) (pm_bitmap m),
                  used_pages := used_pages m - 1,
                  last_alloc := (if p < last_alloc m then p else last_alloc m)\<rparr>)"

definition pmm_usable_pages :: "pmm \<Rightarrow> u64" where
  "pmm_usable_pages m = usable_pages m"

definition pmm_used_pages :: "pmm \<Rightarrow> u64" where
  "pmm_used_pages m = used_pages m"

subsection \<open>Pages and bits\<close>

text \<open>The page's own bit, which is what the bitmap records about it.\<close>

definition page_used :: "nat \<Rightarrow> u8 list \<Rightarrow> bool" where
  "page_used p bm = bit (bm ! (p div 8)) (p mod 8)"

text \<open>What \<open>bitmap_test\<close> reads: the bit of the page or of a later page in the same byte.\<close>

lemma page_index: "q div 8 = p div 8 \<Longrightarrow> q = p \<longleftrightarrow> q mod 8 = p mod 8" for p q :: nat
  by (metis div_mult_mod_eq)

lemma bitmap_test_iff:
  "bitmap_test p bm \<longleftrightarrow> (\<exists>q. q div 8 = p div 8 \<and> p \<le> q \<and> page_used q bm)"
proof
  assume "bitmap_test p bm"
  then obtain k where "bit (drop_bit (p mod 8) (bm ! (p div 8))) k"
    unfolding bitmap_test_def by (metis bit_eqI bit_0_eq bot_apply bot_bool_def)
  then have b: "bit (bm ! (p div 8)) (p mod 8 + k)" by (simp add: bit_drop_bit_eq add.commute)
  then have k: "p mod 8 + k < 8" by (auto dest: bit_imp_le_length)
  have "p + k = 8 * (p div 8) + (p mod 8 + k)" by simp
  then have "(p + k) div 8 = p div 8" "(p + k) mod 8 = p mod 8 + k"
    using k by (simp_all only: div_mult_self4 mod_mult_self4) simp_all
  with b show "\<exists>q. q div 8 = p div 8 \<and> p \<le> q \<and> page_used q bm"
    by (intro exI[of _ "p + k"]) (simp add: page_used_def)
next
  assume "\<exists>q. q div 8 = p div 8 \<and> p \<le> q \<and> page_used q bm"
  then obtain q where q: "q div 8 = p div 8" "p \<le> q" "page_used q bm" by blast
  then have "p mod 8 + (q - p) = q mod 8"
    using div_mult_mod_eq[of p 8] div_mult_mod_eq[of q 8] by linarith
  then have "bit (drop_bit (p mod 8) (bm ! (p div 8))) (q - p)"
    using q by (simp add: page_used_def bit_drop_bit_eq add.commute)
  then show "bitmap_test p bm" unfolding bitmap_test_def by (metis bit_0_eq bot_apply bot_bool_def)
qed

lemma page_used_test: "page_used p bm \<Longrightarrow> bitmap_test p bm"
  by (auto simp: bitmap_test_iff)

lemma length_bitmap [simp]:
  "length (bitmap_set p bm) = length bm" "length (bitmap_clear p bm) = length bm"
  by (simp_all add: bitmap_set_def bitmap_clear_def)

lemma page_used_set:
  assumes "p div 8 < length bm"
  shows "page_used q (bitmap_set p bm) \<longleftrightarrow> q = p \<or> page_used q bm"
proof (cases "q div 8 = p div 8")
  case True
  have "p mod 8 < 8" "q mod 8 < 8" by simp_all
  then show ?thesis
    using True assms
    by (simp add: page_used_def bitmap_set_def bit_or_iff bit_exp_iff page_index[OF True]) auto
next
  case False
  then show ?thesis by (auto simp: page_used_def bitmap_set_def nth_list_update)
qed

lemma page_used_clear:
  assumes "p div 8 < length bm"
  shows "page_used q (bitmap_clear p bm) \<longleftrightarrow> q \<noteq> p \<and> page_used q bm"
proof (cases "q div 8 = p div 8")
  case True
  have "p mod 8 < 8" "q mod 8 < 8" by simp_all
  then show ?thesis
    using True assms
    by (simp add: page_used_def bitmap_clear_def bit_and_iff bit_not_iff bit_exp_iff page_index[OF True]) auto
next
  case False
  then show ?thesis by (auto simp: page_used_def bitmap_clear_def nth_list_update)
qed

subsection \<open>Ranges of pages\<close>

lemma page_used_set_range:
  "\<forall>p \<in> set ps. p div 8 < length bm \<Longrightarrow>
   length (fold bitmap_set ps bm) = length bm
   \<and> (page_used q (fold bitmap_set ps bm) \<longleftrightarrow> q \<in> set ps \<or> page_used q bm)"
  by (induction ps arbitrary: bm) (auto simp: page_used_set)

lemma page_used_clear_range:
  "\<forall>p \<in> set ps. p div 8 < length bm \<Longrightarrow>
   length (fold bitmap_clear ps bm) = length bm
   \<and> (page_used q (fold bitmap_clear ps bm) \<longleftrightarrow> q \<notin> set ps \<and> page_used q bm)"
  by (induction ps arbitrary: bm) (auto simp: page_used_clear)

text \<open>The bitmap has a bit for every page, and the address of every page fits.\<close>

definition pm_ok :: "pmm \<Rightarrow> bool" where
  "pm_ok m \<longleftrightarrow> unat (total_pages m) \<le> 8 * length (pm_bitmap m)"

lemma pm_ok_index: "pm_ok m \<Longrightarrow> p < unat (total_pages m) \<Longrightarrow> p div 8 < length (pm_bitmap m)"
  by (auto simp: pm_ok_def)

text \<open>Reserving only adds to what \<open>bitmap_test\<close> refuses.\<close>

definition pm_grows :: "pmm \<Rightarrow> pmm \<Rightarrow> bool" where
  "pm_grows m m' \<longleftrightarrow> total_pages m' = total_pages m \<and> pm_addr m' = pm_addr m
     \<and> bitmap_bytes m' = bitmap_bytes m
     \<and> length (pm_bitmap m') = length (pm_bitmap m)
     \<and> (\<forall>q. page_used q (pm_bitmap m) \<longrightarrow> page_used q (pm_bitmap m'))"

lemma pm_grows_refl: "pm_grows m m"
  by (simp add: pm_grows_def)

lemma pm_grows_trans [trans]: "pm_grows a b \<Longrightarrow> pm_grows b c \<Longrightarrow> pm_grows a c"
  by (simp add: pm_grows_def)

lemma pm_grows_test: "pm_grows m m' \<Longrightarrow> bitmap_test q (pm_bitmap m) \<Longrightarrow> bitmap_test q (pm_bitmap m')"
  by (auto simp: bitmap_test_iff pm_grows_def)

lemma pm_grows_ok: "pm_grows m m' \<Longrightarrow> pm_ok m \<Longrightarrow> pm_ok m'"
  by (simp add: pm_grows_def pm_ok_def)

lemma reserve_page_grows:
  assumes "p div 8 < length (pm_bitmap m)"
  shows "pm_grows m (reserve_page p m)" and "bitmap_test p (pm_bitmap (reserve_page p m))"
  using assms by (auto simp: reserve_page_def pm_grows_def page_used_set intro: page_used_test)

lemma reserve_pages_grow:
  "\<forall>p \<in> set ps. p div 8 < length (pm_bitmap m) \<Longrightarrow>
   pm_grows m (fold reserve_page ps m) \<and> (\<forall>p \<in> set ps. bitmap_test p (pm_bitmap (fold reserve_page ps m)))"
proof (induction ps arbitrary: m)
  case (Cons p ps)
  have p: "p div 8 < length (pm_bitmap m)" using Cons.prems by simp
  note g = reserve_page_grows[OF p]
  have "\<forall>q \<in> set ps. q div 8 < length (pm_bitmap (reserve_page p m))"
    using Cons.prems g(1) by (simp add: pm_grows_def)
  note ih = Cons.IH[OF this]
  then show ?case using g pm_grows_trans pm_grows_test by auto
qed (simp add: pm_grows_refl)

text \<open>The pages a call of \<open>reserv_range\<close> is about.\<close>

definition range_pages :: "u64 \<Rightarrow> u64 \<Rightarrow> nat set" where
  "range_pages start sz =
     {unat (start div PAGE_SIZE)..<unat (align_up (start + sz) PAGE_SIZE div PAGE_SIZE)}"

lemma reserv_range_grows:
  assumes "pm_ok m"
  shows "pm_grows m (reserv_range start sz m)"
    and "p \<in> range_pages start sz \<Longrightarrow> p < unat (total_pages m) \<Longrightarrow>
      bitmap_test p (pm_bitmap (reserv_range start sz m))"
proof -
  have "\<forall>p \<in> set [unat (start div PAGE_SIZE)..<min (unat (align_up (start + sz) PAGE_SIZE div PAGE_SIZE))
      (unat (total_pages m))]. p div 8 < length (pm_bitmap m)"
    using pm_ok_index[OF assms] by auto
  note r = reserve_pages_grow[OF this]
  then show "pm_grows m (reserv_range start sz m)" by (simp add: reserv_range_def Let_def)
  show "bitmap_test p (pm_bitmap (reserv_range start sz m))"
    if "p \<in> range_pages start sz" "p < unat (total_pages m)"
    using r that by (simp add: reserv_range_def range_pages_def Let_def)
qed

subsection \<open>The scan\<close>

lemma alloc_scan_Some:
  "alloc_scan n bm [a..<t] run start = Some (s, p) \<Longrightarrow> run < n \<Longrightarrow>
   (run > 0 \<Longrightarrow> start + run = a \<and> (\<forall>q. start \<le> q \<and> q < a \<longrightarrow> \<not> bitmap_test q bm)) \<Longrightarrow>
   p < t \<and> s + n = Suc p \<and> (\<forall>q. s \<le> q \<and> q \<le> p \<longrightarrow> \<not> bitmap_test q bm)"
proof (induction "t - a" arbitrary: a run start)
  case 0
  then show ?case by simp
next
  case (Suc d)
  then have u: "[a..<t] = a # [Suc a..<t]" by (simp add: upt_conv_Cons)
  have d: "d = t - Suc a" using Suc.hyps(2) by simp
  show ?case
  proof (cases "bitmap_test a bm")
    case True
    with Suc.prems u have "alloc_scan n bm [Suc a..<t] 0 start = Some (s, p)" by simp
    from Suc.hyps(1)[OF d this] Suc.prems(2) show ?thesis by simp
  next
    case False
    let ?st = "if run = 0 then a else start"
    have st: "?st + run = a" "\<And>q. ?st \<le> q \<Longrightarrow> q < Suc a \<Longrightarrow> \<not> bitmap_test q bm"
      using Suc.prems(3) False by (cases "run = 0"; auto simp: less_Suc_eq)+
    show ?thesis
    proof (cases "run + 1 = n")
      case True
      with False Suc.prems(1) u have "s = ?st" "p = a" by auto
      then show ?thesis using st True Suc.hyps(2) by auto
    next
      case f: False
      with False Suc.prems(1) u have "alloc_scan n bm [Suc a..<t] (run + 1) ?st = Some (s, p)"
        by simp
      from Suc.hyps(1)[OF d this] f Suc.prems(2) st show ?thesis by simp
    qed
  qed
qed

lemma alloc_scan_None:
  "alloc_scan n bm [a..<t] run start = None \<Longrightarrow> run < n \<Longrightarrow> (run > 0 \<Longrightarrow> start + run = a) \<Longrightarrow>
   (if run = 0 then a else start) \<le> s \<Longrightarrow> s + n \<le> t \<Longrightarrow> \<exists>q. s \<le> q \<and> q < s + n \<and> bitmap_test q bm"
proof (induction "t - a" arbitrary: a run start)
  case 0
  then show ?case by (auto split: if_splits)
next
  case (Suc d)
  then have u: "[a..<t] = a # [Suc a..<t]" by (simp add: upt_conv_Cons)
  have d: "d = t - Suc a" using Suc.hyps(2) by simp
  show ?case
  proof (cases "bitmap_test a bm")
    case True
    show ?thesis
    proof (cases "s \<le> a")
      case le: True
      have "a < s + n" using Suc.prems(2-4) by (auto split: if_splits)
      with le True show ?thesis by blast
    next
      case False
      from True Suc.prems(1) u have "alloc_scan n bm [Suc a..<t] 0 start = None" by simp
      from Suc.hyps(1)[OF d this] Suc.prems False show ?thesis by simp
    qed
  next
    case False
    let ?st = "if run = 0 then a else start"
    have f: "run + 1 \<noteq> n" using False Suc.prems(1) u by auto
    with False Suc.prems(1) u have "alloc_scan n bm [Suc a..<t] (run + 1) ?st = None" by simp
    from Suc.hyps(1)[OF d this] f Suc.prems show ?thesis by simp
  qed
qed

subsection \<open>The properties of the page allocator\<close>

lemma pmm_alloc_cases:
  assumes "pm_ok m" and "pm_addr m \<noteq> 0" and "pages \<noteq> 0"
    and "pmm_alloc_pages pages m = (a, m')"
  shows "(\<exists>s. a = word_of_nat s * PAGE_SIZE \<and> s + unat pages \<le> unat (total_pages m)
      \<and> (\<forall>q. s \<le> q \<and> q < s + unat pages \<longrightarrow> \<not> bitmap_test q (pm_bitmap m) \<and> \<not> page_used q (pm_bitmap m))
      \<and> (\<forall>q. page_used q (pm_bitmap m') \<longleftrightarrow> page_used q (pm_bitmap m) \<or> s \<le> q \<and> q < s + unat pages)
      \<and> used_pages m' = used_pages m + pages \<and> pm_ok m')
    \<or> (a = 0 \<and> m' = m \<and> (\<forall>s. s + unat pages \<le> unat (total_pages m) \<longrightarrow>
         (\<exists>q. s \<le> q \<and> q < s + unat pages \<and> bitmap_test q (pm_bitmap m))))"
proof (cases "alloc_scan (unat pages) (pm_bitmap m) [0..<unat (total_pages m)] 0 0")
  case None
  have "0 < unat pages" using assms(3) by (simp add: unat_gt_0)
  with None assms alloc_scan_None[OF None] show ?thesis by (simp add: pmm_alloc_pages_def)
next
  case (Some r)
  obtain s p where r: "r = (s, p)" by (cases r)
  have n: "0 < unat pages" using assms(3) by (simp add: unat_gt_0)
  have sp: "p < unat (total_pages m)" "s + unat pages = Suc p"
    "\<And>q. s \<le> q \<Longrightarrow> q \<le> p \<Longrightarrow> \<not> bitmap_test q (pm_bitmap m)"
    using alloc_scan_Some[OF Some[unfolded r] n] by auto
  have ix: "\<forall>q \<in> set [s..<Suc p]. q div 8 < length (pm_bitmap m)"
    using pm_ok_index[OF assms(1)] sp(1) by auto
  have m': "a = word_of_nat s * PAGE_SIZE" "m' = m\<lparr>pm_bitmap := fold bitmap_set [s..<Suc p] (pm_bitmap m),
       used_pages := used_pages m + pages, last_alloc := word_of_nat p + 1\<rparr>"
    using assms(2-4) Some r by (auto simp: pmm_alloc_pages_def simp del: upt_Suc)
  have "\<forall>q. page_used q (pm_bitmap m') \<longleftrightarrow> page_used q (pm_bitmap m) \<or> s \<le> q \<and> q < s + unat pages"
    using page_used_set_range[OF ix] sp(2) by (auto simp: m' simp del: upt_Suc)
  moreover have "\<forall>q. s \<le> q \<and> q < s + unat pages \<longrightarrow> \<not> bitmap_test q (pm_bitmap m) \<and> \<not> page_used q (pm_bitmap m)"
    using sp(2,3) page_used_test by (metis less_Suc_eq_le)
  moreover have "pm_ok m'" using assms(1) page_used_set_range[OF ix] by (simp add: pm_ok_def m' del: upt_Suc)
  ultimately show ?thesis using m' sp by (intro disjI1 exI[of _ s]) simp
qed

lemma pmm_alloc_run:
  assumes "pm_ok m" and "pm_addr m \<noteq> 0" and "pages \<noteq> 0"
    and "pmm_alloc_pages pages m = (a, m')" and "m' \<noteq> m"
  obtains s where "a = word_of_nat s * PAGE_SIZE" "s + unat pages \<le> unat (total_pages m)"
    "\<forall>q. s \<le> q \<and> q < s + unat pages \<longrightarrow> \<not> bitmap_test q (pm_bitmap m) \<and> \<not> page_used q (pm_bitmap m)"
    "\<forall>q. page_used q (pm_bitmap m') \<longleftrightarrow> page_used q (pm_bitmap m) \<or> s \<le> q \<and> q < s + unat pages"
    "pm_ok m'"
  using pmm_alloc_cases[OF assms(1-4)] assms(5) by blast

text \<open>C11. \<open>pmm_alloc_pages\<close> hands out a run of pages none of which was marked used, marks exactly
  these and counts them, and when it returns NULL for a non-zero request there is no run of that many
  pages for which \<open>bitmap_test\<close> is false.\<close>

theorem pmm_alloc_pages_spec:
  assumes "pm_ok m" and "pm_addr m \<noteq> 0" and "pages \<noteq> 0"
    and "pmm_alloc_pages pages m = (a, m')"
  shows "(\<exists>s. a = word_of_nat s * PAGE_SIZE \<and> s + unat pages \<le> unat (total_pages m)
      \<and> (\<forall>q. s \<le> q \<and> q < s + unat pages \<longrightarrow> \<not> bitmap_test q (pm_bitmap m) \<and> \<not> page_used q (pm_bitmap m))
      \<and> (\<forall>q. page_used q (pm_bitmap m') \<longleftrightarrow> page_used q (pm_bitmap m) \<or> s \<le> q \<and> q < s + unat pages)
      \<and> used_pages m' = used_pages m + pages \<and> pm_ok m')
    \<or> (a = 0 \<and> m' = m \<and> (\<forall>s. s + unat pages \<le> unat (total_pages m) \<longrightarrow>
         (\<exists>q. s \<le> q \<and> q < s + unat pages \<and> bitmap_test q (pm_bitmap m))))"
  by (rule pmm_alloc_cases[OF assms])

definition demo_pmm :: pmm where
  "demo_pmm = \<lparr>pm_addr = 0x200000, pm_bitmap = [0x80, 0x80], bitmap_bytes = 4096, total_pages = 16,
     used_pages = 2, usable_pages = 16, last_alloc = 0\<rparr>"

lemma demo_pmm_fields [simp]:
  "pm_addr demo_pmm = 0x200000" "pm_bitmap demo_pmm = [0x80, 0x80]" "total_pages demo_pmm = 16"
  "used_pages demo_pmm = 2"
  by (simp_all add: demo_pmm_def)

lemma demo_pmm_ok: "pm_ok demo_pmm"
  by (simp add: pm_ok_def)

theorem pmm_alloc_pages_spec_witness:
  "\<exists>a m'. pmm_alloc_pages 1 (demo_pmm\<lparr>pm_bitmap := [0x7f, 0x80]\<rparr>) = (a, m')
     \<and> used_pages m' - used_pages demo_pmm \<in> {0, 1}"
proof -
  let ?m = "demo_pmm\<lparr>pm_bitmap := [0x7f, 0x80]\<rparr>"
  obtain a m' where e: "pmm_alloc_pages 1 ?m = (a, m')" by (cases "pmm_alloc_pages 1 ?m")
  have ok: "pm_ok ?m" by (simp add: pm_ok_def)
  from pmm_alloc_pages_spec[OF ok _ _ e] e show ?thesis by auto
qed

text \<open>Two allocations never overlap: a successful allocation followed by another gives two
  disjoint runs of pages.\<close>

theorem pmm_allocs_disjoint:
  assumes "pm_ok m" and "pm_addr m \<noteq> 0" and "n1 \<noteq> 0" and "n2 \<noteq> 0"
    and "pmm_alloc_pages n1 m = (a1, m1)" and "m1 \<noteq> m"
    and "pmm_alloc_pages n2 m1 = (a2, m2)" and "m2 \<noteq> m1"
  shows "\<exists>s1 s2. a1 = word_of_nat s1 * PAGE_SIZE \<and> a2 = word_of_nat s2 * PAGE_SIZE
    \<and> {s1..<s1 + unat n1} \<inter> {s2..<s2 + unat n2} = {}
    \<and> s1 + unat n1 \<le> unat (total_pages m) \<and> s2 + unat n2 \<le> unat (total_pages m)"
proof -
  have st: "total_pages m1 = total_pages m" "pm_addr m1 = pm_addr m"
    using assms(5) by (auto simp: pmm_alloc_pages_def split: if_splits option.splits)
  obtain s1 where s1: "a1 = word_of_nat s1 * PAGE_SIZE" "s1 + unat n1 \<le> unat (total_pages m)"
    "\<forall>q. page_used q (pm_bitmap m1) \<longleftrightarrow> page_used q (pm_bitmap m) \<or> s1 \<le> q \<and> q < s1 + unat n1" "pm_ok m1"
    by (rule pmm_alloc_run[OF assms(1,2,3,5,6)]) blast
  have "pm_addr m1 \<noteq> 0" using st assms(2) by simp
  then obtain s2 where s2: "a2 = word_of_nat s2 * PAGE_SIZE" "s2 + unat n2 \<le> unat (total_pages m)"
    "\<forall>q. s2 \<le> q \<and> q < s2 + unat n2 \<longrightarrow> \<not> page_used q (pm_bitmap m1)"
    using pmm_alloc_run[OF s1(4) _ assms(4,7,8)] st(1) by metis
  have "q \<notin> {s2..<s2 + unat n2}" if "q \<in> {s1..<s1 + unat n1}" for q
    using that s1(3) s2(3) by auto
  then have "{s1..<s1 + unat n1} \<inter> {s2..<s2 + unat n2} = {}" by blast
  with s1 s2 show ?thesis by blast
qed

theorem pmm_allocs_disjoint_witness:
  "let m = demo_pmm\<lparr>pm_bitmap := [0, 0x80]\<rparr>; (a1, m1) = pmm_alloc_pages 1 m; (a2, m2) = pmm_alloc_pages 1 m1
   in a1 \<noteq> a2 \<or> m1 = m \<or> m2 = m1"
proof -
  let ?m = "demo_pmm\<lparr>pm_bitmap := [0, 0x80]\<rparr>"
  have ok: "pm_ok ?m" by (simp add: pm_ok_def)
  obtain a1 m1 where e1: "pmm_alloc_pages 1 ?m = (a1, m1)" by (cases "pmm_alloc_pages 1 ?m")
  obtain a2 m2 where e2: "pmm_alloc_pages 1 m1 = (a2, m2)" by (cases "pmm_alloc_pages 1 m1")
  have "a1 \<noteq> a2" if ne: "m1 \<noteq> ?m" "m2 \<noteq> m1"
  proof -
    obtain s1 s2 where s: "a1 = word_of_nat s1 * PAGE_SIZE" "a2 = word_of_nat s2 * PAGE_SIZE"
        "{s1..<s1 + unat (1 :: u64)} \<inter> {s2..<s2 + unat (1 :: u64)} = {}"
        "s1 + unat (1 :: u64) \<le> unat (total_pages ?m)" "s2 + unat (1 :: u64) \<le> unat (total_pages ?m)"
      using pmm_allocs_disjoint[OF ok _ _ _ e1 ne(1) e2 ne(2)] by auto
    then have d: "s1 \<noteq> s2" "s1 < 16" "s2 < 16" by auto
    then have "unat a1 = s1 * 4096" "unat a2 = s2 * 4096"
      using s(1,2) by (simp_all add: unat_word_ariths unat_of_nat)
    with d show ?thesis by auto
  qed
  then show ?thesis using e1 e2 by (auto simp: Let_def)
qed

subsection \<open>Start-up\<close>

lemma align_up_ge:
  assumes "unat v + 4095 < 2 ^ 64"
  shows "unat v \<le> unat (align_up v 4096)"
proof -
  let ?x = "v + 4095"
  have m: "(4096 - 1 :: u64) = mask 12" "v + 4096 - 1 = ?x" by (simp_all add: mask_eq_exp_minus_1)
  have "align_up v 4096 = push_bit 12 (drop_bit 12 ?x)"
    unfolding align_up_def m by (rule bit_word_eqI) (auto simp: bit_simps)
  moreover have "unat (push_bit 12 (drop_bit 12 ?x)) = unat ?x div 4096 * 4096"
  proof -
    have d: "unat (drop_bit 12 ?x) = unat ?x div 4096"
      by (simp only: unat_drop_bit_eq drop_bit_eq_div[where ?'a = nat]) simp
    have "unat ?x div 4096 * 4096 \<le> unat ?x" by simp
    then have "unat ?x div 4096 * 4096 < 2 ^ 64" using unsigned_less[of ?x, where ?'a = nat] by simp
    then show ?thesis using d by (simp add: push_bit_eq_mult unat_word_ariths)
  qed
  moreover have "unat ?x = unat v + 4095" using assms by (simp add: unat_word_ariths)
  moreover have "unat v \<le> (unat v + 4095) div 4096 * 4096" by linarith
  ultimately show ?thesis by simp
qed

lemma clear_ranges_length: "length (fold (clear_range t) ds bm) = length bm"
proof (induction ds arbitrary: bm)
  case (Cons d ds)
  have "length (fold bitmap_clear ps bm) = length bm" for ps and bm :: "u8 list"
    by (induction ps arbitrary: bm) simp_all
  with Cons show ?case by (simp add: clear_range_def Let_def)
qed simp

lemma bitmap_covers: "unat (t div PAGE_SIZE) \<le> 8 * unat (align_up (t div PAGE_SIZE div 8 + 1) PAGE_SIZE)"
proof -
  have t: "unat (t div 4096) < 2 ^ 52"
    using unsigned_less[of t, where ?'a = nat] by (simp add: unat_div)
  then have u: "unat (t div 4096 div 8 + 1) = unat (t div 4096) div 8 + 1"
    by (simp add: unat_word_ariths unat_div)
  then have "unat (t div 4096 div 8 + 1) + 4095 < 2 ^ 64" using t by simp
  from align_up_ge[OF this] u show ?thesis by linarith
qed

lemma pmm_init_steps:
  assumes "pmm_init ks ke bi m0 = Inr m"
  obtains m1 where "pm_ok m1" "pm_addr m1 = align_up (fst (best_range (conventional bi))) PAGE_SIZE"
    "bitmap_bytes m1 = align_up (max_addr (conventional bi) div PAGE_SIZE div 8 + 1) PAGE_SIZE"
    "m = reserv_range 0x400000 0x100000
        (reserv_range (mmap_addr bi) (mmap_size bi)
        (reserv_range (stack_top bi - 128 * 1024) (128 * 1024)
        (reserv_range (fb_base bi) (fb_size bi)
        (reserv_range (pm_addr m1) (bitmap_bytes m1)
        (reserv_range ks (ke - ks)
        (reserv_range 0x400000 0x100000 (reserv_range 0 0x100000 m1)))))))"
proof -
  let ?ds = "conventional bi"
  let ?t = "max_addr ?ds div PAGE_SIZE" and ?a = "align_up (fst (best_range ?ds)) PAGE_SIZE"
  let ?b = "align_up (?t div 8 + 1) PAGE_SIZE"
  let ?m1 = "m0\<lparr>pm_addr := ?a, pm_bitmap := fold (clear_range ?t) ?ds (replicate (unat ?b) 0xff),
    bitmap_bytes := ?b, total_pages := ?t,
    usable_pages := foldl (\<lambda>n d. n + md_pages d) (usable_pages m0) ?ds\<rparr>"
  have ok: "pm_ok ?m1" using bitmap_covers[of "max_addr ?ds"] by (simp add: pm_ok_def clear_ranges_length)
  show thesis
    by (rule that[OF ok])
      (use assms in \<open>simp_all add: pmm_init_def Let_def case_prod_beta split: if_splits\<close>)
qed

lemma pmm_init_tests:
  assumes "pmm_init ks ke bi m0 = Inr m" and "p < unat (total_pages m)"
    and "p \<in> range_pages 0 0x100000 \<union> range_pages 0x400000 0x100000 \<union> range_pages ks (ke - ks)
      \<union> range_pages (pm_addr m) (bitmap_bytes m) \<union> range_pages (fb_base bi) (fb_size bi)
      \<union> range_pages (stack_top bi - 128 * 1024) (128 * 1024) \<union> range_pages (mmap_addr bi) (mmap_size bi)"
  shows "bitmap_test p (pm_bitmap m) \<and> pm_ok m"
proof (rule pmm_init_steps[OF assms(1)])
  fix m1 assume ok1: "pm_ok m1"
  let ?m2 = "reserv_range 0 0x100000 m1"
  let ?m3 = "reserv_range 0x400000 0x100000 ?m2"
  let ?m4 = "reserv_range ks (ke - ks) ?m3"
  let ?m5 = "reserv_range (pm_addr m1) (bitmap_bytes m1) ?m4"
  let ?m6 = "reserv_range (fb_base bi) (fb_size bi) ?m5"
  let ?m7 = "reserv_range (stack_top bi - 128 * 1024) (128 * 1024) ?m6"
  let ?m8 = "reserv_range (mmap_addr bi) (mmap_size bi) ?m7"
  let ?m9 = "reserv_range 0x400000 0x100000 ?m8"
  assume m: "m = ?m9"
  note g1 = reserv_range_grows[OF ok1, where start = "0" and sz = "0x100000"] note ok2 = pm_grows_ok[OF g1(1) ok1]
  note g2 = reserv_range_grows[OF ok2, where start = "0x400000" and sz = "0x100000"] note ok3 = pm_grows_ok[OF g2(1) ok2]
  note g3 = reserv_range_grows[OF ok3, where start = "ks" and sz = "ke - ks"] note ok4 = pm_grows_ok[OF g3(1) ok3]
  note g4 = reserv_range_grows[OF ok4, where start = "pm_addr m1" and sz = "bitmap_bytes m1"] note ok5 = pm_grows_ok[OF g4(1) ok4]
  note g5 = reserv_range_grows[OF ok5, where start = "fb_base bi" and sz = "fb_size bi"] note ok6 = pm_grows_ok[OF g5(1) ok5]
  note g6 = reserv_range_grows[OF ok6, where start = "stack_top bi - 128 * 1024" and sz = "128 * 1024"] note ok7 = pm_grows_ok[OF g6(1) ok6]
  note g7 = reserv_range_grows[OF ok7, where start = "mmap_addr bi" and sz = "mmap_size bi"] note ok8 = pm_grows_ok[OF g7(1) ok7]
  note g8 = reserv_range_grows[OF ok8, where start = "0x400000" and sz = "0x100000"] note ok9 = pm_grows_ok[OF g8(1) ok8]
  note h8 = g8(1)
  note h7 = pm_grows_trans[OF g7(1) h8]
  note h6 = pm_grows_trans[OF g6(1) h7]
  note h5 = pm_grows_trans[OF g5(1) h6]
  note h4 = pm_grows_trans[OF g4(1) h5]
  note h3 = pm_grows_trans[OF g3(1) h4]
  note h2 = pm_grows_trans[OF g2(1) h3]
  note h1 = pm_grows_trans[OF g1(1) h2]
  have tot: "total_pages ?m9 = total_pages m1" "pm_addr ?m9 = pm_addr m1" "bitmap_bytes ?m9 = bitmap_bytes m1"
    using h1 by (simp_all add: pm_grows_def)
  have tots: "total_pages ?m2 = total_pages m1" "total_pages ?m3 = total_pages m1" "total_pages ?m4 = total_pages m1"
    "total_pages ?m5 = total_pages m1" "total_pages ?m6 = total_pages m1" "total_pages ?m7 = total_pages m1"
    using h2 h3 h4 h5 h6 h7 tot(1) by (simp_all add: pm_grows_def)
  have p: "p < unat (total_pages m1)" using assms(2) m tot by simp
  have "bitmap_test p (pm_bitmap ?m9)"
    using assms(3) unfolding m tot
  proof (elim UnE)
    show "bitmap_test p (pm_bitmap ?m9)" if "p \<in> range_pages 0 0x100000"
      using pm_grows_test[OF h2] g1(2)[OF that p] .
    show "bitmap_test p (pm_bitmap ?m9)" if "p \<in> range_pages 0x400000 0x100000"
      using pm_grows_test[OF h3] g2(2)[OF that p[folded tots(1)]] .
    show "bitmap_test p (pm_bitmap ?m9)" if "p \<in> range_pages ks (ke - ks)"
      using pm_grows_test[OF h4] g3(2)[OF that p[folded tots(2)]] .
    show "bitmap_test p (pm_bitmap ?m9)" if "p \<in> range_pages (pm_addr m1) (bitmap_bytes m1)"
      using pm_grows_test[OF h5] g4(2)[OF that p[folded tots(3)]] .
    show "bitmap_test p (pm_bitmap ?m9)" if "p \<in> range_pages (fb_base bi) (fb_size bi)"
      using pm_grows_test[OF h6] g5(2)[OF that p[folded tots(4)]] .
    show "bitmap_test p (pm_bitmap ?m9)" if "p \<in> range_pages (stack_top bi - 128 * 1024) (128 * 1024)"
      using pm_grows_test[OF h7] g6(2)[OF that p[folded tots(5)]] .
    show "bitmap_test p (pm_bitmap ?m9)" if "p \<in> range_pages (mmap_addr bi) (mmap_size bi)"
      using pm_grows_test[OF h8] g7(2)[OF that p[folded tots(6)]] .
  qed
  then show ?thesis using ok9 m by simp
qed

lemma reserv_range_total [simp]: "total_pages (reserv_range a b m) = total_pages m"
proof -
  have "total_pages (fold reserve_page ps m) = total_pages m" for ps
    by (induction ps arbitrary: m) (simp_all add: reserve_page_def)
  then show ?thesis by (simp add: reserv_range_def Let_def)
qed

text \<open>The pages counted all lie below the end of the address space, so that page numbers and
  addresses correspond without wrap-around.\<close>

lemma pmm_init_total:
  assumes "pmm_init ks ke bi m0 = Inr m"
  shows "unat (total_pages m) < 2 ^ 52"
proof -
  have "total_pages m = max_addr (conventional bi) div PAGE_SIZE"
    using assms by (auto simp: pmm_init_def Let_def case_prod_beta split: if_splits)
  then have "unat (total_pages m) = unat (max_addr (conventional bi)) div 4096"
    by (simp add: unat_div)
  moreover have "unat (max_addr (conventional bi)) < 2 ^ 64"
    using unsigned_less[of "max_addr (conventional bi)", where ?'a = nat] by simp
  ultimately show ?thesis by (simp add: div_less_iff_less_mult)
qed

text \<open>The bitmap after any number of requests.\<close>

definition alloc_all :: "u64 list \<Rightarrow> pmm \<Rightarrow> pmm" where
  "alloc_all ns m = fold (\<lambda>n m. snd (pmm_alloc_pages n m)) ns m"

lemma alloc_grows: "pm_ok m \<Longrightarrow> pm_grows m (snd (pmm_alloc_pages n m))"
proof (cases "pm_addr m = 0 \<or> n = 0 \<or> snd (pmm_alloc_pages n m) = m")
  case False
  assume ok: "pm_ok m"
  obtain a m' where e: "pmm_alloc_pages n m = (a, m')" by (cases "pmm_alloc_pages n m")
  have l: "length (fold bitmap_set ps bm) = length bm" for ps bm by (induction ps arbitrary: bm) simp_all
  have st: "total_pages m' = total_pages m" "pm_addr m' = pm_addr m" "bitmap_bytes m' = bitmap_bytes m"
    "length (pm_bitmap m') = length (pm_bitmap m)"
    using e by (auto simp: pmm_alloc_pages_def l simp del: upt_Suc split: if_splits option.splits)
  have "\<forall>q. page_used q (pm_bitmap m) \<longrightarrow> page_used q (pm_bitmap m')"
    by (rule pmm_alloc_run[OF ok _ _ e]) (use False e in auto)
  with st e show ?thesis by (simp add: pm_grows_def)
qed (auto simp: pmm_alloc_pages_def pm_grows_refl)

lemma alloc_all_grows: "pm_ok m \<Longrightarrow> pm_grows m (alloc_all ns m)"
proof (induction ns arbitrary: m)
  case (Cons n ns)
  note g = alloc_grows[OF Cons.prems, of n]
  show ?case using pm_grows_trans[OF g Cons.IH[OF pm_grows_ok[OF g Cons.prems]]]
    by (simp add: alloc_all_def)
qed (simp add: alloc_all_def pm_grows_refl)

text \<open>A run of pages handed out is a range of addresses below the end of memory, away from every
  page \<open>bitmap_test\<close> refuses.\<close>

lemma alloc_avoids:
  assumes "pm_ok m" and "unat (total_pages m) < 2 ^ 52" and "bitmap_test p (pm_bitmap m)"
    and "pmm_alloc_pages n m = (a, m')"
  shows "a = 0 \<and> m' = m \<or> unat a + 4096 * unat n \<le> 4096 * unat (total_pages m)
    \<and> (4096 * p + 4096 \<le> unat a \<or> unat a + 4096 * unat n \<le> 4096 * p)"
proof (cases "pm_addr m = 0 \<or> n = 0")
  case True
  then show ?thesis using assms(4) by (auto simp: pmm_alloc_pages_def)
next
  case False
  show ?thesis
  proof (cases "m' = m")
    case True
    with False pmm_alloc_cases[OF assms(1) _ _ assms(4)] show ?thesis
      by (auto simp: unat_eq_0)
  next
    case ne: False
    obtain s where s: "a = word_of_nat s * PAGE_SIZE" "s + unat n \<le> unat (total_pages m)"
      and f: "\<forall>q. s \<le> q \<and> q < s + unat n \<longrightarrow> \<not> bitmap_test q (pm_bitmap m)"
      by (rule pmm_alloc_run[OF assms(1) _ _ assms(4) ne]) (use False in blast)+
    have "s < 2 ^ 52" using s(2) assms(2) by simp
    then have "unat a = s * 4096" by (simp add: s(1) unat_word_ariths unat_of_nat)
    moreover have "p < s \<or> s + unat n \<le> p" using f assms(3) by (meson not_le)
    ultimately show ?thesis using s(2) by auto
  qed
qed

text \<open>C12. After \<open>pmm_init\<close> the bitmap covers every page and refuses the pages the kernel reserves: the
  first megabyte, the megabyte at 4 MiB, the kernel image, the bitmap itself, the frame buffer, the
  boot stack and the memory map.  No allocation, whatever was allocated before it, hands one of them
  out as long as no page is freed: it fails, or the addresses it returns lie inside memory and
  entirely below or entirely above the page.\<close>

theorem pmm_init_reserves:
  assumes "pmm_init ks ke bi m0 = Inr m" and "p < unat (total_pages m)"
    and "p \<in> range_pages 0 0x100000 \<union> range_pages 0x400000 0x100000 \<union> range_pages ks (ke - ks)
      \<union> range_pages (pm_addr m) (bitmap_bytes m) \<union> range_pages (fb_base bi) (fb_size bi)
      \<union> range_pages (stack_top bi - 128 * 1024) (128 * 1024) \<union> range_pages (mmap_addr bi) (mmap_size bi)"
  shows "bitmap_test p (pm_bitmap m) \<and> pm_ok m
    \<and> (\<forall>ns n a m'. pmm_alloc_pages n (alloc_all ns m) = (a, m') \<longrightarrow>
         a = 0 \<and> m' = alloc_all ns m
         \<or> unat a + 4096 * unat n \<le> 4096 * unat (total_pages m)
           \<and> (4096 * p + 4096 \<le> unat a \<or> unat a + 4096 * unat n \<le> 4096 * p))"
proof -
  have t: "bitmap_test p (pm_bitmap m)" and ok: "pm_ok m" using pmm_init_tests[OF assms] by auto
  have "a = 0 \<and> m' = alloc_all ns m \<or> unat a + 4096 * unat n \<le> 4096 * unat (total_pages m)
      \<and> (4096 * p + 4096 \<le> unat a \<or> unat a + 4096 * unat n \<le> 4096 * p)"
    if e: "pmm_alloc_pages n (alloc_all ns m) = (a, m')" for ns n a m'
  proof -
    note g = alloc_all_grows[OF ok, of ns]
    have "total_pages (alloc_all ns m) = total_pages m" using g by (simp add: pm_grows_def)
    with alloc_avoids[OF pm_grows_ok[OF g ok] _ pm_grows_test[OF g t] e] pmm_init_total[OF assms(1)]
    show ?thesis by simp
  qed
  with t ok show ?thesis by blast
qed

text \<open>A machine with sixteen megabytes, all conventional memory.\<close>

definition demo_boot :: boot_info where
  "demo_boot = \<lparr>fb_base = 0x80000000, fb_size = 0x1000, mmap_addr = 0x500000, mmap_size = 48,
     mmap_dsize = 48, stack_top = 0x700000,
     bi_desc = (\<lambda>i. \<lparr>md_type = ConventionalMemory, md_phys = 0, md_pages = 4096\<rparr>)\<rparr>"

lemma demo_boot_init:
  "\<exists>m. pmm_init 0x100000 0x180000 demo_boot pmm0 = Inr m \<and> total_pages m = 4096"
proof -
  have "conventional demo_boot = [\<lparr>md_type = ConventionalMemory, md_phys = 0, md_pages = 4096\<rparr>]"
    by (simp add: conventional_def demo_boot_def)
  then show ?thesis
    by (simp add: pmm_init_def Let_def max_addr_def best_range_def align_up_def)
      (simp add: demo_boot_def)
qed

theorem pmm_init_reserves_witness:
  "\<exists>m. pmm_init 0x100000 0x180000 demo_boot pmm0 = Inr m \<and> bitmap_test 0x101 (pm_bitmap m)
    \<and> (\<forall>a m'. pmm_alloc_pages 3 (alloc_all [1, 2] m) = (a, m') \<longrightarrow>
         m' = alloc_all [1, 2] m \<or> 0x6f1000 \<le> unat a \<or> unat a + 0x3000 \<le> 0x6f0000)"
proof -
  obtain m where m: "pmm_init 0x100000 0x180000 demo_boot pmm0 = Inr m" "total_pages m = 4096"
    using demo_boot_init by blast
  have r: "0x101 \<in> range_pages 0x100000 (0x180000 - 0x100000)"
    "0x6f0 \<in> range_pages (stack_top demo_boot - 128 * 1024) (128 * 1024)"
    by (simp_all add: range_pages_def align_up_def demo_boot_def)
  have "bitmap_test 0x101 (pm_bitmap m)"
    using pmm_init_reserves[OF m(1), of "0x101"] m r by simp
  moreover have "m' = alloc_all [1, 2] m \<or> 0x6f1000 \<le> unat a \<or> unat a + 0x3000 \<le> 0x6f0000"
    if "pmm_alloc_pages 3 (alloc_all [1, 2] m) = (a, m')" for a m'
    using pmm_init_reserves[OF m(1), of "0x6f0"] m r that by force
  ultimately show ?thesis using m(1) by blast
qed

subsection \<open>What the missing mask in \<open>bitmap_test\<close> does\<close>

text \<open>A reservation can be lost: \<open>bitmap_test\<close> reads the bits of later pages of the byte as well, so
  \<open>reserv_range\<close> leaves a free page unmarked when a later page of its byte is in use; freeing that
  later page then makes the reserved page look free, and an allocation returns it.\<close>

theorem pmm_reservation_lost:
  assumes "pm_addr m \<noteq> 0" and "pm_ok m" and "p < q" "q < unat (total_pages m)" "q div 8 = p div 8"
    and "page_used q (pm_bitmap m)"
    and "\<And>r. p \<le> r \<Longrightarrow> r \<noteq> q \<Longrightarrow> r div 8 = p div 8 \<Longrightarrow> \<not> page_used r (pm_bitmap m)"
    and "q < 2 ^ 51"
  shows "reserve_page p m = m \<and> bitmap_test p (pm_bitmap m)
    \<and> \<not> bitmap_test p (pm_bitmap (pmm_free_page (word_of_nat q * PAGE_SIZE) (reserve_page p m)))"
proof -
  have t: "bitmap_test p (pm_bitmap m)" using assms by (auto simp: bitmap_test_iff)
  then have r: "reserve_page p m = m" by (simp add: reserve_page_def)
  have u: "unat (word_of_nat q * PAGE_SIZE :: u64) = q * 4096"
    using assms(8) by (simp add: unat_word_ariths unat_of_nat)
  then have d: "unat ((word_of_nat q * PAGE_SIZE :: u64) div PAGE_SIZE) = q" by (simp add: unat_div)
  then have lt: "\<not> total_pages m \<le> (word_of_nat q * PAGE_SIZE) div PAGE_SIZE"
    using assms(4) by (simp add: word_le_nat_alt)
  have tq: "bitmap_test q (pm_bitmap m)" by (rule page_used_test[OF assms(6)])
  have f: "pm_bitmap (pmm_free_page (word_of_nat q * PAGE_SIZE) m) = bitmap_clear q (pm_bitmap m)"
    using assms(1) lt tq unfolding pmm_free_page_def Let_def d by simp
  have "\<not> bitmap_test p (bitmap_clear q (pm_bitmap m))"
    using assms(7) page_used_clear[OF pm_ok_index[OF assms(2,4)]] by (auto simp: bitmap_test_iff)
  with t r f show ?thesis by simp
qed

theorem pmm_reservation_lost_witness:
  "reserve_page 2 demo_pmm = demo_pmm
    \<and> \<not> bitmap_test 2 (pm_bitmap (pmm_free_page (word_of_nat 7 * PAGE_SIZE) (reserve_page 2 demo_pmm)))"
proof -
  have a: "\<not> page_used r (pm_bitmap demo_pmm)" if "2 \<le> r" "r \<noteq> 7" "r div 8 = 2 div 8" for r
  proof -
    have "r \<in> {2, 3, 4, 5, 6}" using that by auto
    then show ?thesis by (auto simp: page_used_def bit_iff_odd_drop_bit)
  qed
  have b: "page_used 7 (pm_bitmap demo_pmm)" by (simp add: page_used_def bit_iff_odd_drop_bit)
  have "reserve_page 2 demo_pmm = demo_pmm \<and> bitmap_test 2 (pm_bitmap demo_pmm)
    \<and> \<not> bitmap_test 2 (pm_bitmap (pmm_free_page (word_of_nat 7 * PAGE_SIZE) (reserve_page 2 demo_pmm)))"
    by (rule pmm_reservation_lost[OF _ demo_pmm_ok _ _ _ b a]) simp_all
  then show ?thesis by blast
qed

text \<open>Free pages that cannot be allocated: when the last page of every byte of the bitmap is in use,
  no allocation succeeds, although seven pages out of eight may be free.\<close>

theorem pmm_alloc_misses_free:
  assumes "pm_ok m" and "\<And>b. b < length (pm_bitmap m) \<Longrightarrow> page_used (8 * b + 7) (pm_bitmap m)"
  shows "pmm_alloc_pages pages m = (0, m)"
proof (cases "pm_addr m = 0 \<or> pages = 0")
  case False
  obtain a m' where e: "pmm_alloc_pages pages m = (a, m')" by (cases "pmm_alloc_pages pages m")
  have n: "0 < unat pages" using False by (simp add: unat_gt_0)
  have t: "bitmap_test q (pm_bitmap m)" if "q < unat (total_pages m)" for q
  proof -
    have "(8 * (q div 8) + 7) div 8 = q div 8" "q \<le> 8 * (q div 8) + 7" by simp_all
    moreover have "page_used (8 * (q div 8) + 7) (pm_bitmap m)"
      by (rule assms(2)) (rule pm_ok_index[OF assms(1) that])
    ultimately show ?thesis unfolding bitmap_test_iff by blast
  qed
  show ?thesis
  proof (rule ccontr)
    assume "pmm_alloc_pages pages m \<noteq> (0, m)"
    then have "m' \<noteq> m" using pmm_alloc_cases[OF assms(1) _ _ e] False e n by fastforce
    with False obtain s where "s + unat pages \<le> unat (total_pages m)"
      "\<forall>q. s \<le> q \<and> q < s + unat pages \<longrightarrow> \<not> bitmap_test q (pm_bitmap m) \<and> \<not> page_used q (pm_bitmap m)"
      using pmm_alloc_run[OF assms(1) _ _ e] by metis
    with t[of s] n show False by auto
  qed
qed (auto simp: pmm_alloc_pages_def)

theorem pmm_alloc_misses_free_witness:
  "pmm_alloc_pages 1 demo_pmm = (0, demo_pmm) \<and> \<not> page_used 0 (pm_bitmap demo_pmm)"
proof
  have "page_used (8 * b + 7) (pm_bitmap demo_pmm)" if "b < length (pm_bitmap demo_pmm)" for b
    using that by (cases b) (simp_all add: page_used_def bit_iff_odd_drop_bit less_Suc_eq)
  then show "pmm_alloc_pages 1 demo_pmm = (0, demo_pmm)"
    by (rule pmm_alloc_misses_free[OF demo_pmm_ok])
  show "\<not> page_used 0 (pm_bitmap demo_pmm)" by (simp add: page_used_def bit_iff_odd_drop_bit)
qed

end
