(* ===== verification/Kernel_Disk.thy ===== *)
theory Kernel_Disk
  imports Prelude
begin

text \<open>
  The ATA PIO driver of \<open>kernel/driver/disk.c\<close>.

  The hardware behind the I/O ports is a parameter: a \<open>port_io\<close> record of the four port
  instructions over some hardware state.  A driver function is a program over that state and the
  caller's buffer; \<open>return -1\<close> is an error.  The second half of the theory is an ATA drive as
  the standard describes it (28-bit LBA registers, READ, WRITE, FLUSH and IDENTIFY, a data port
  of 16-bit words), on which the driver is run and proved.
\<close>

subsection \<open>Ports\<close>

record 'h port_io =
  p_inb :: "u16 \<Rightarrow> 'h \<Rightarrow> u8 \<times> 'h"
  p_outb :: "u16 \<Rightarrow> u8 \<Rightarrow> 'h \<Rightarrow> 'h"
  p_inw :: "u16 \<Rightarrow> 'h \<Rightarrow> u16 \<times> 'h"
  p_outw :: "u16 \<Rightarrow> u16 \<Rightarrow> 'h \<Rightarrow> 'h"

record 'h dst =
  hw :: 'h
  xbuf :: "u8 list"

type_synonym ('h, 'a) io = "('h dst, unit, 'a) prog"

definition inb :: "'h port_io \<Rightarrow> u16 \<Rightarrow> ('h, u8) io" where
  "inb io p = (\<lambda>s. case p_inb io p (hw s) of (b, h) \<Rightarrow> Some (Inr b, s\<lparr>hw := h\<rparr>))"

definition outb :: "'h port_io \<Rightarrow> u16 \<Rightarrow> u8 \<Rightarrow> ('h, unit) io" where
  "outb io p b = modify (\<lambda>s. s\<lparr>hw := p_outb io p b (hw s)\<rparr>)"

definition inw :: "'h port_io \<Rightarrow> u16 \<Rightarrow> ('h, u16) io" where
  "inw io p = (\<lambda>s. case p_inw io p (hw s) of (w, h) \<Rightarrow> Some (Inr w, s\<lparr>hw := h\<rparr>))"

definition outw :: "'h port_io \<Rightarrow> u16 \<Rightarrow> u16 \<Rightarrow> ('h, unit) io" where
  "outw io w p = modify (\<lambda>s. s\<lparr>hw := p_outw io p w (hw s)\<rparr>)"

subsection \<open>Waiting\<close>

abbreviation (input) ATA_REG_STATUS :: u16 where "ATA_REG_STATUS \<equiv> 7"
abbreviation (input) ATA_LBA28_MAX :: u64 where "ATA_LBA28_MAX \<equiv> 0x0FFFFFFFF"
abbreviation (input) ATA_SPINS :: nat where "ATA_SPINS \<equiv> 10000000"

definition ata_delay400 :: "'h port_io \<Rightarrow> u16 \<Rightarrow> ('h, unit) io" where
  "ata_delay400 io ctrl =
     bnd (inb io ctrl) (\<lambda>_. bnd (inb io ctrl) (\<lambda>_. bnd (inb io ctrl) (\<lambda>_. bnd (inb io ctrl) (\<lambda>_. ret ()))))"

fun wait_bsy :: "'h port_io \<Rightarrow> u16 \<Rightarrow> nat \<Rightarrow> ('h, unit) io" where
  "wait_bsy io p 0 = throw ()"
| "wait_bsy io p (Suc n) =
     bnd (inb io (p + ATA_REG_STATUS)) (\<lambda>st. if st AND 0x80 = 0 then ret () else wait_bsy io p n)"

definition ata_wait_bsy :: "'h port_io \<Rightarrow> u16 \<Rightarrow> ('h, unit) io" where
  "ata_wait_bsy io p = wait_bsy io p ATA_SPINS"

fun wait_drq :: "'h port_io \<Rightarrow> u16 \<Rightarrow> nat \<Rightarrow> ('h, unit) io" where
  "wait_drq io p 0 = throw ()"
| "wait_drq io p (Suc n) =
     bnd (inb io (p + ATA_REG_STATUS)) (\<lambda>st.
     if st AND (0x01 OR 0x20) \<noteq> 0 then throw ()
     else if st AND 0x08 \<noteq> 0 then ret () else wait_drq io p n)"

definition ata_wait_drq :: "'h port_io \<Rightarrow> u16 \<Rightarrow> ('h, unit) io" where
  "ata_wait_drq io p = wait_drq io p ATA_SPINS"

subsection \<open>Identifying drives\<close>

record disk_t =
  dk_sectors :: u64
  dk_io_base :: u16
  dk_ctrl_base :: u16
  dk_drive :: u8

fun inw_many :: "'h port_io \<Rightarrow> u16 \<Rightarrow> nat \<Rightarrow> ('h, u16 list) io" where
  "inw_many io p 0 = ret []"
| "inw_many io p (Suc n) = bnd (inw io p) (\<lambda>w. bnd (inw_many io p n) (\<lambda>ws. ret (w # ws)))"

definition ata_identify :: "'h port_io \<Rightarrow> u16 \<Rightarrow> u16 \<Rightarrow> u8 \<Rightarrow> ('h, u64) io" where
  "ata_identify io p ctrl drive =
     bnd (outb io ctrl 0x02) (\<lambda>_.
     bnd (outb io (p + 6) (0xa0 OR push_bit 4 drive)) (\<lambda>_.
     bnd (ata_delay400 io ctrl) (\<lambda>_.
     bnd (outb io (p + 2) 0) (\<lambda>_.
     bnd (outb io (p + 3) 0) (\<lambda>_.
     bnd (outb io (p + 4) 0) (\<lambda>_.
     bnd (outb io (p + 5) 0) (\<lambda>_.
     bnd (outb io (p + 7) 0xec) (\<lambda>_.
     bnd (ata_delay400 io ctrl) (\<lambda>_.
     bnd (inb io (p + ATA_REG_STATUS)) (\<lambda>st.
     if st = 0 \<or> st = 0xff then throw () else
     bnd (ata_wait_bsy io p) (\<lambda>_.
     bnd (inb io (p + 4)) (\<lambda>l1.
     if l1 \<noteq> 0 then throw () else
     bnd (inb io (p + 5)) (\<lambda>l2.
     if l2 \<noteq> 0 then throw () else
     bnd (ata_wait_drq io p) (\<lambda>_.
     bnd (inw_many io p 256) (\<lambda>id.
     let sectors = push_bit 16 (ucast (id ! 61)) OR ucast (id ! 60) :: u64
     in if sectors = 0 then throw ()
        else ret (if sectors > ATA_LBA28_MAX then ATA_LBA28_MAX else sectors))))))))))))))))"

text \<open>The two channels with two drives each; \<open>DISK_MAX\<close> is 4.  The result is the table \<open>disks\<close>
  of \<open>disk_num\<close> entries.\<close>

definition disk_slots :: "(u16 \<times> u16 \<times> u8) list" where
  "disk_slots = [(0x1f0, 0x3f6, 0), (0x1f0, 0x3f6, 1), (0x170, 0x376, 0), (0x170, 0x376, 1)]"

fun disk_probe :: "'h port_io \<Rightarrow> (u16 \<times> u16 \<times> u8) list \<Rightarrow> disk_t list \<Rightarrow> ('h, disk_t list) io" where
  "disk_probe io [] ds = ret ds"
| "disk_probe io ((p, ctrl, drive) # slots) ds =
     (if length ds \<ge> 4 then ret ds
      else attempt (ata_identify io p ctrl drive) (\<lambda>r.
        case r of
          Inl _ \<Rightarrow> disk_probe io slots ds
        | Inr n \<Rightarrow> disk_probe io slots
            (ds @ [\<lparr>dk_sectors = n, dk_io_base = p, dk_ctrl_base = ctrl, dk_drive = drive\<rparr>])))"

definition disk_init :: "'h port_io \<Rightarrow> ('h, disk_t list) io" where
  "disk_init io = disk_probe io disk_slots []"

definition disk_get :: "disk_t list \<Rightarrow> u32 \<Rightarrow> disk_t option" where
  "disk_get disks dn = (if unat dn < length disks then Some (disks ! unat dn) else None)"

subsection \<open>Reading and writing\<close>

text \<open>16-bit words in memory.\<close>

definition word_bytes :: "u16 \<Rightarrow> u8 list" where
  "word_bytes w = [ucast w, ucast (drop_bit 8 w)]"

definition bytes_of :: "u16 list \<Rightarrow> u8 list" where
  "bytes_of ws = concat (map word_bytes ws)"

definition words_at :: "u8 list \<Rightarrow> nat \<Rightarrow> nat \<Rightarrow> u16 list" where
  "words_at b i n = map (\<lambda>k. rd16 b (i + 2 * k)) [0..<n]"

text \<open>The commands both functions send before the data.\<close>

definition ata_setup :: "'h port_io \<Rightarrow> disk_t \<Rightarrow> u64 \<Rightarrow> u32 \<Rightarrow> u8 \<Rightarrow> ('h, unit) io" where
  "ata_setup io dk lba count cmd =
     (let p = dk_io_base dk; ctrl = dk_ctrl_base dk in
      bnd (ata_wait_bsy io p) (\<lambda>_.
      bnd (outb io (p + 6) (0xe0 OR push_bit 4 (dk_drive dk) OR (ucast (drop_bit 24 lba) AND 0x0f))) (\<lambda>_.
      bnd (ata_delay400 io ctrl) (\<lambda>_.
      bnd (outb io (p + 1) 0) (\<lambda>_.
      bnd (outb io (p + 2) (ucast count)) (\<lambda>_.
      bnd (outb io (p + 3) (ucast lba)) (\<lambda>_.
      bnd (outb io (p + 4) (ucast (drop_bit 8 lba))) (\<lambda>_.
      bnd (outb io (p + 5) (ucast (drop_bit 16 lba))) (\<lambda>_.
      outb io (p + 7) cmd)))))))))"

fun read_sectors :: "'h port_io \<Rightarrow> disk_t \<Rightarrow> nat \<Rightarrow> nat \<Rightarrow> ('h, unit) io" where
  "read_sectors io dk off 0 = ret ()"
| "read_sectors io dk off (Suc n) =
     bnd (ata_wait_bsy io (dk_io_base dk)) (\<lambda>_.
     bnd (ata_wait_drq io (dk_io_base dk)) (\<lambda>_.
     bnd (inw_many io (dk_io_base dk) 256) (\<lambda>ws.
     bnd (modify (\<lambda>s. s\<lparr>xbuf := put_slice (xbuf s) off (bytes_of ws)\<rparr>)) (\<lambda>_.
     bnd (ata_delay400 io (dk_ctrl_base dk)) (\<lambda>_.
     read_sectors io dk (off + 512) n)))))"

fun outw_many :: "'h port_io \<Rightarrow> u16 \<Rightarrow> u16 list \<Rightarrow> ('h, unit) io" where
  "outw_many io p [] = ret ()"
| "outw_many io p (w # ws) = bnd (outw io w p) (\<lambda>_. outw_many io p ws)"

fun write_sectors :: "'h port_io \<Rightarrow> disk_t \<Rightarrow> nat \<Rightarrow> nat \<Rightarrow> ('h, unit) io" where
  "write_sectors io dk off 0 = ret ()"
| "write_sectors io dk off (Suc n) =
     bnd (ata_wait_bsy io (dk_io_base dk)) (\<lambda>_.
     bnd (ata_wait_drq io (dk_io_base dk)) (\<lambda>_.
     bnd (gets (\<lambda>s. words_at (xbuf s) off 256)) (\<lambda>ws.
     bnd (outw_many io (dk_io_base dk) ws) (\<lambda>_.
     bnd (ata_delay400 io (dk_ctrl_base dk)) (\<lambda>_.
     write_sectors io dk (off + 512) n)))))"

text \<open>The guards both functions begin with; the sum is a 64-bit sum.\<close>

definition disk_args_ok :: "disk_t list \<Rightarrow> u32 \<Rightarrow> u64 \<Rightarrow> u32 \<Rightarrow> bool" where
  "disk_args_ok disks dn lba count \<longleftrightarrow> unat dn < length disks \<and> count \<noteq> 0 \<and> count \<le> 255
     \<and> lba + ucast count \<le> dk_sectors (disks ! unat dn)"

definition read_disk :: "'h port_io \<Rightarrow> disk_t list \<Rightarrow> u32 \<Rightarrow> u64 \<Rightarrow> u32 \<Rightarrow> ('h, unit) io" where
  "read_disk io disks dn lba count =
     (if \<not> disk_args_ok disks dn lba count then throw ()
      else
        bnd (ata_setup io (disks ! unat dn) lba count 0x20) (\<lambda>_.
        read_sectors io (disks ! unat dn) 0 (unat count)))"

definition write_disk :: "'h port_io \<Rightarrow> disk_t list \<Rightarrow> u32 \<Rightarrow> u64 \<Rightarrow> u32 \<Rightarrow> ('h, unit) io" where
  "write_disk io disks dn lba count =
     (if \<not> disk_args_ok disks dn lba count then throw ()
      else
        (let dk = disks ! unat dn in
         bnd (ata_setup io dk lba count 0x30) (\<lambda>_.
         bnd (write_sectors io dk 0 (unat count)) (\<lambda>_.
         bnd (ata_wait_bsy io (dk_io_base dk)) (\<lambda>_.
         bnd (outb io (dk_io_base dk + 7) 0xe7) (\<lambda>_.
         ata_wait_bsy io (dk_io_base dk)))))))"

subsection \<open>An ATA drive\<close>

text \<open>What the drive is doing: nothing, stopped with an error, giving out the words of a sector
  (with \<open>n\<close> more sectors to come), or taking in the words of a sector.\<close>

datatype ata_phase =
    Idle
  | Failed
  | Rd nat nat "u16 list"
  | Wr nat nat "u16 list"

record ata =
  media :: "nat \<Rightarrow> u16 list"
  bad :: "nat \<Rightarrow> bool"
  r_count :: u8
  r_lba0 :: u8
  r_lba1 :: u8
  r_lba2 :: u8
  r_drive :: u8
  phase :: ata_phase
  capacity :: u32

definition ata_status :: "ata \<Rightarrow> u8" where
  "ata_status d = (case phase d of Idle \<Rightarrow> 0x40 | Failed \<Rightarrow> 0x41 | Rd _ _ _ \<Rightarrow> 0x48 | Wr _ _ _ \<Rightarrow> 0x48)"

text \<open>The 28-bit address in the registers.\<close>

definition ata_lba :: "ata \<Rightarrow> nat" where
  "ata_lba d = unat (r_lba0 d) + 256 * unat (r_lba1 d) + 65536 * unat (r_lba2 d)
     + 16777216 * (unat (r_drive d) mod 16)"

text \<open>A register count of 0 means 256 sectors.\<close>

definition ata_count :: "ata \<Rightarrow> nat" where
  "ata_count d = (if r_count d = 0 then 256 else unat (r_count d))"

definition identify_words :: "ata \<Rightarrow> u16 list" where
  "identify_words d = (replicate 256 0)[60 := ucast (capacity d), 61 := ucast (drop_bit 16 (capacity d))]"

definition start_read :: "nat \<Rightarrow> nat \<Rightarrow> ata \<Rightarrow> ata_phase" where
  "start_read l n d = (if n = 0 then Idle else if bad d l then Failed else Rd l (n - 1) (media d l))"

definition start_write :: "nat \<Rightarrow> nat \<Rightarrow> ata \<Rightarrow> ata_phase" where
  "start_write l n d = (if n = 0 then Idle else if bad d l then Failed else Wr l (n - 1) [])"

definition ata_command :: "u8 \<Rightarrow> ata \<Rightarrow> ata" where
  "ata_command c d =
     d\<lparr>phase := (if c = 0x20 then start_read (ata_lba d) (ata_count d) d
        else if c = 0x30 then start_write (ata_lba d) (ata_count d) d
        else if c = 0xec then Rd 0 0 (identify_words d)
        else Idle)\<rparr>"

definition ata_inb :: "u16 \<Rightarrow> ata \<Rightarrow> u8 \<times> ata" where
  "ata_inb p d =
     (if p = 0x1f7 \<or> p = 0x3f6 then (ata_status d, d)
      else if p = 0x1f4 then (r_lba1 d, d)
      else if p = 0x1f5 then (r_lba2 d, d)
      else (0xff, d))"

definition ata_outb :: "u16 \<Rightarrow> u8 \<Rightarrow> ata \<Rightarrow> ata" where
  "ata_outb p b d =
     (if p = 0x1f2 then d\<lparr>r_count := b\<rparr>
      else if p = 0x1f3 then d\<lparr>r_lba0 := b\<rparr>
      else if p = 0x1f4 then d\<lparr>r_lba1 := b\<rparr>
      else if p = 0x1f5 then d\<lparr>r_lba2 := b\<rparr>
      else if p = 0x1f6 then d\<lparr>r_drive := b\<rparr>
      else if p = 0x1f7 then ata_command b d
      else d)"

definition ata_inw :: "u16 \<Rightarrow> ata \<Rightarrow> u16 \<times> ata" where
  "ata_inw p d =
     (case phase d of
        Rd l n (w # ws) \<Rightarrow>
          if p = 0x1f0 then
            (w, d\<lparr>phase := (if ws = [] then start_read (l + 1) n d else Rd l n ws)\<rparr>)
          else (0xffff, d)
      | _ \<Rightarrow> (0xffff, d))"

definition ata_outw :: "u16 \<Rightarrow> u16 \<Rightarrow> ata \<Rightarrow> ata" where
  "ata_outw p w d =
     (case phase d of
        Wr l n ws \<Rightarrow>
          if p = 0x1f0 then
            (if length ws = 255
             then (let d' = d\<lparr>media := (media d)(l := ws @ [w])\<rparr>
                   in d'\<lparr>phase := start_write (l + 1) n d'\<rparr>)
             else d\<lparr>phase := Wr l n (ws @ [w])\<rparr>)
          else d
      | _ \<Rightarrow> d)"

definition ata_io :: "ata port_io" where
  "ata_io = \<lparr>p_inb = ata_inb, p_outb = ata_outb, p_inw = ata_inw, p_outw = ata_outw\<rparr>"

subsection \<open>The driver on the drive\<close>

lemma ata_io_simps [simp]:
  "p_inb ata_io = ata_inb" "p_outb ata_io = ata_outb" "p_inw ata_io = ata_inw" "p_outw ata_io = ata_outw"
  by (simp_all add: ata_io_def)

lemma inb_ata: "inb ata_io p s = Some (Inr (fst (ata_inb p (hw s))), s)"
  by (simp add: inb_def ata_inb_def)

lemma delay_ata [simp]: "ata_delay400 ata_io ctrl = ret ()"
  by (rule ext) (simp add: ata_delay400_def bnd_def inb_ata ret_def)

lemma status_at: "fst (ata_inb (0x1f0 + ATA_REG_STATUS) d) = ata_status d"
  by (simp add: ata_inb_def)

lemma not_busy: "ata_status d AND 0x80 = 0"
  by (simp add: ata_status_def split: ata_phase.split)

lemma bsy_ata [simp]: "ata_wait_bsy ata_io 0x1f0 = ret ()"
proof (rule ext)
  fix s :: "ata dst"
  have "wait_bsy ata_io 0x1f0 (Suc n) s = ret () s" for n
    using not_busy[of "hw s"] status_at[of "hw s"] by (simp add: bnd_def inb_ata)
  from this[of 9999999] show "ata_wait_bsy ata_io 0x1f0 s = ret () s" by (simp add: ata_wait_bsy_def del: wait_bsy.simps)
qed

lemma wait_drq_idle: "phase (hw s) = Idle \<Longrightarrow> wait_drq ata_io 0x1f0 n s = throw () s"
  by (induction n) (use status_at[of "hw s"] in \<open>simp_all add: bnd_def inb_ata ata_status_def\<close>)

lemma drq_ata:
  "ata_wait_drq ata_io 0x1f0 s =
     (case phase (hw s) of Rd _ _ _ \<Rightarrow> ret () s | Wr _ _ _ \<Rightarrow> ret () s | _ \<Rightarrow> throw () s)"
proof (cases "phase (hw s) = Idle")
  case True
  then show ?thesis using wait_drq_idle[OF True, of ATA_SPINS] unfolding ata_wait_drq_def by simp
next
  case False
  have "wait_drq ata_io 0x1f0 (Suc n) s =
     (case phase (hw s) of Rd _ _ _ \<Rightarrow> ret () s | Wr _ _ _ \<Rightarrow> ret () s | _ \<Rightarrow> throw () s)" for n
    using False status_at[of "hw s"]
    by (cases "phase (hw s)") (simp_all add: bnd_def inb_ata ata_status_def)
  from this[of 9999999] show ?thesis by (simp add: ata_wait_drq_def del: wait_drq.simps)
qed

text \<open>The first drive of the first channel.\<close>

definition ata_disk :: "u64 \<Rightarrow> disk_t" where
  "ata_disk n = \<lparr>dk_sectors = n, dk_io_base = 0x1f0, dk_ctrl_base = 0x3f6, dk_drive = 0\<rparr>"

lemma ata_disk_simps [simp]:
  "dk_sectors (ata_disk n) = n" "dk_io_base (ata_disk n) = 0x1f0" "dk_ctrl_base (ata_disk n) = 0x3f6"
  "dk_drive (ata_disk n) = 0"
  by (simp_all add: ata_disk_def)

lemma bnd_outb: "bnd (outb io p b) f s = f () (s\<lparr>hw := p_outb io p b (hw s)\<rparr>)"
  by (simp add: bnd_def outb_def modify_def)

lemma outb_run: "outb io p b s = Some (Inr (), s\<lparr>hw := p_outb io p b (hw s)\<rparr>)"
  by (simp add: outb_def modify_def)

lemma setup_ata:
  "ata_setup ata_io (ata_disk n) lba count cmd s = Some (Inr (), s\<lparr>hw := ata_command cmd ((hw s)
     \<lparr>r_drive := 0xe0 OR (ucast (drop_bit 24 lba) AND 0x0f), r_count := ucast count, r_lba0 := ucast lba,
       r_lba1 := ucast (drop_bit 8 lba), r_lba2 := ucast (drop_bit 16 lba)\<rparr>)\<rparr>)"
  by (simp add: ata_setup_def Let_def bnd_outb outb_run ata_outb_def)

lemma lba_registers:
  "ata_lba (d\<lparr>r_drive := 0xe0 OR (ucast (drop_bit 24 lba) AND 0x0f), r_count := c, r_lba0 := ucast lba,
     r_lba1 := ucast (drop_bit 8 lba), r_lba2 := ucast (drop_bit 16 lba)\<rparr>) = unat (lba :: u64) mod 2 ^ 28"
proof -
  have u: "unat (ucast x :: u8) = unat x mod 256" for x :: u64
    by (simp add: unsigned_ucast_eq take_bit_eq_mod)
  have d: "unat (drop_bit k lba) = unat lba div 2 ^ k" for k
    by (simp only: unat_drop_bit_eq drop_bit_eq_div[where ?'a = nat])
  have m: "(0x0f :: u8) = mask 4" by (simp add: mask_eq_exp_minus_1)
  have "(0xe0 OR (x AND 0x0f)) AND 0x0f = x AND 0x0f" for x :: u8
    by (simp add: bit.conj_disj_distrib2 and.assoc)
  then have "take_bit 4 (0xe0 OR (x AND 0x0f)) = take_bit 4 x" for x :: u8
    by (simp add: take_bit_eq_mask flip: m)
  then have "take_bit 4 (unat (0xe0 OR (x AND 0x0f))) = take_bit 4 (unat x)" for x :: u8
    by (metis unsigned_take_bit_eq)
  then have r: "unat (0xe0 OR (x AND 0x0f)) mod 16 = unat x mod 16" for x :: u8
    by (simp add: take_bit_eq_mod)
  have arith: "L mod 256 + 256 * (L div 256 mod 256) + 65536 * (L div 65536 mod 256)
      + 16777216 * (L div 16777216 mod 16) = L mod 268435456" for L :: nat
  proof -
    have "L mod (256 * 1048576) = 256 * (L div 256 mod 1048576) + L mod 256"
      by (rule mod_mult2_eq)
    moreover have "(L div 256) mod (256 * 4096) = 256 * (L div 256 div 256 mod 4096) + L div 256 mod 256"
      by (rule mod_mult2_eq)
    moreover have "(L div 65536) mod (256 * 16) = 256 * (L div 65536 div 256 mod 16) + L div 65536 mod 256"
      by (rule mod_mult2_eq)
    ultimately show ?thesis by (simp add: div_mult2_eq[symmetric])
  qed
  show ?thesis using arith[of "unat lba"] by (simp add: ata_lba_def u d r mod_mod_cancel)
qed

lemma bytes_of_length [simp]: "length (bytes_of ws) = 2 * length ws"
  by (induction ws) (simp_all add: bytes_of_def word_bytes_def)

lemma inw_many_ata:
  "phase (hw s) = Rd l n ws \<Longrightarrow> ws \<noteq> [] \<Longrightarrow>
   inw_many ata_io 0x1f0 (length ws) s = Some (Inr ws, s\<lparr>hw := (hw s)\<lparr>phase := start_read (l + 1) n (hw s)\<rparr>\<rparr>)"
proof (induction ws arbitrary: s)
  case (Cons w ws)
  have i: "inw ata_io 0x1f0 s = Some (Inr w, s\<lparr>hw := (hw s)\<lparr>phase :=
      (if ws = [] then start_read (l + 1) n (hw s) else Rd l n ws)\<rparr>\<rparr>)"
    using Cons.prems by (simp add: inw_def ata_inw_def)
  show ?case
  proof (cases "ws = []")
    case True
    with i show ?thesis by (simp add: bnd_def ret_def)
  next
    case False
    let ?s = "s\<lparr>hw := (hw s)\<lparr>phase := Rd l n ws\<rparr>\<rparr>"
    have "start_read (l + 1) n (hw ?s) = start_read (l + 1) n (hw s)" by (simp add: start_read_def)
    with Cons.IH[of ?s] False i show ?thesis by (simp add: bnd_def ret_def)
  qed
qed simp

text \<open>The drive's contents in bytes.\<close>

definition ata_sector :: "ata \<Rightarrow> nat \<Rightarrow> u8 list" where
  "ata_sector d l = bytes_of (media d l)"

definition ata_inv :: "ata \<Rightarrow> bool" where
  "ata_inv d \<longleftrightarrow> (\<forall>l. length (media d l) = 256)"

lemma ata_sector_length: "ata_inv d \<Longrightarrow> length (ata_sector d l) = 512"
  by (simp add: ata_sector_def ata_inv_def)

lemma put_slice_all: "length xs = length b \<Longrightarrow> put_slice b 0 xs = xs"
  by (simp add: put_slice_def)

lemma put_slice_next:
  "length b = off + (n + m) \<Longrightarrow> length xs = n \<Longrightarrow> length ys = m \<Longrightarrow>
   take (off + n) (put_slice b off xs) @ ys = take off b @ xs @ ys"
  by (simp add: put_slice_def)

lemma read_sectors_ata:
  "ata_inv (hw s) \<Longrightarrow> phase (hw s) = start_read l n (hw s) \<Longrightarrow> length (xbuf s) = off + 512 * n \<Longrightarrow>
   wp (read_sectors ata_io (ata_disk c) off n)
     (\<lambda>_ t. (\<forall>i < n. \<not> bad (hw s) (l + i)) \<and> media (hw t) = media (hw s) \<and> bad (hw t) = bad (hw s)
        \<and> capacity (hw t) = capacity (hw s)
        \<and> xbuf t = take off (xbuf s) @ concat (map (ata_sector (hw s)) [l..<l + n]))
     (\<lambda>_ t. (\<exists>i < n. bad (hw s) (l + i)) \<and> media (hw t) = media (hw s) \<and> bad (hw t) = bad (hw s)
        \<and> capacity (hw t) = capacity (hw s)
        \<and> length (xbuf t) = length (xbuf s) \<and> (bad (hw s) l \<longrightarrow> xbuf t = xbuf s)) s"
proof (induction n arbitrary: s l off)
  case 0
  then show ?case by (simp add: wp_ret)
next
  case (Suc n)
  show ?case
  proof (cases "bad (hw s) l")
    case True
    then have "phase (hw s) = Failed" using Suc.prems(2) by (simp add: start_read_def)
    with True show ?thesis
      by (simp add: wp_bnd[of "ata_wait_drq _ _"]) (auto simp: wp_def drq_ata throw_def intro: exI[of _ 0])
  next
    case False
    then have p: "phase (hw s) = Rd l n (media (hw s) l)" using Suc.prems(2) by (simp add: start_read_def)
    have l: "length (media (hw s) l) = 256" using Suc.prems(1) by (simp add: ata_inv_def)
    let ?t = "s\<lparr>hw := (hw s)\<lparr>phase := start_read (l + 1) n (hw s)\<rparr>,
      xbuf := put_slice (xbuf s) off (ata_sector (hw s) l)\<rparr>"
    have i: "inw_many ata_io 0x1f0 256 s = Some (Inr (media (hw s) l),
        s\<lparr>hw := (hw s)\<lparr>phase := start_read (l + 1) n (hw s)\<rparr>\<rparr>)"
      using inw_many_ata[OF p] l by fastforce
    have r: "read_sectors ata_io (ata_disk c) off (Suc n) s = read_sectors ata_io (ata_disk c) (off + 512) n ?t"
      using p i by (simp add: bnd_def drq_ata ret_def modify_def ata_sector_def)
    have sec: "ata_sector (hw ?t) = ata_sector (hw s)" by (simp add: ata_sector_def fun_eq_iff)
    have "wp (read_sectors ata_io (ata_disk c) (off + 512) n)
     (\<lambda>_ u. (\<forall>i < n. \<not> bad (hw s) (l + 1 + i)) \<and> media (hw u) = media (hw s) \<and> bad (hw u) = bad (hw s)
        \<and> capacity (hw u) = capacity (hw s)
        \<and> xbuf u = take (off + 512) (xbuf ?t) @ concat (map (ata_sector (hw s)) [l + 1..<l + 1 + n]))
     (\<lambda>_ u. (\<exists>i < n. bad (hw s) (l + 1 + i)) \<and> media (hw u) = media (hw s) \<and> bad (hw u) = bad (hw s)
        \<and> capacity (hw u) = capacity (hw s)
        \<and> length (xbuf u) = length (xbuf ?t) \<and> (bad (hw s) (l + 1) \<longrightarrow> xbuf u = xbuf ?t)) ?t"
      using Suc.IH[of ?t "l + 1" "off + 512"] Suc.prems sec by (simp add: ata_inv_def start_read_def)
    then have "wp (read_sectors ata_io (ata_disk c) off (Suc n))
     (\<lambda>_ u. (\<forall>i < n. \<not> bad (hw s) (l + 1 + i)) \<and> media (hw u) = media (hw s) \<and> bad (hw u) = bad (hw s)
        \<and> capacity (hw u) = capacity (hw s)
        \<and> xbuf u = take (off + 512) (xbuf ?t) @ concat (map (ata_sector (hw s)) [l + 1..<l + 1 + n]))
     (\<lambda>_ u. (\<exists>i < n. bad (hw s) (l + 1 + i)) \<and> media (hw u) = media (hw s) \<and> bad (hw u) = bad (hw s)
        \<and> capacity (hw u) = capacity (hw s)
        \<and> length (xbuf u) = length (xbuf ?t) \<and> (bad (hw s) (l + 1) \<longrightarrow> xbuf u = xbuf ?t)) s"
      unfolding wp_def r .
    then show ?thesis
    proof (rule wp_conseq, goal_cases)
      case (1 x u)
      have "take (off + 512) (put_slice (xbuf s) off (ata_sector (hw s) l)) = take off (xbuf s) @ ata_sector (hw s) l"
        using put_slice_next[of "xbuf s" off 512 "512 * n" "ata_sector (hw s) l" "replicate (512 * n) 0"]
          Suc.prems(3) ata_sector_length[OF Suc.prems(1)] by simp
      moreover have "[l..<l + Suc n] = l # [l + 1..<l + 1 + n]" by (simp add: upt_rec)
      moreover have "\<forall>i < Suc n. \<not> bad (hw s) (l + i)"
        using 1 False by (auto simp: less_Suc_eq_0_disj)
      ultimately show ?case using 1 by simp
    next
      case (2 e u)
      then have "\<exists>i < Suc n. bad (hw s) (l + i)" by (metis add_Suc_right add_Suc_shift Suc_less_eq plus_1_eq_Suc add.assoc)
      with 2 False show ?case by simp
    qed
  qed
qed

lemma word_bytes_rd16: "word_bytes (rd16 b i) = [b ! i, b ! (i + 1)]"
proof -
  have "ucast (ucast x OR push_bit 8 (ucast y) :: u16) = x" for x y :: u8
    by (rule bit_word_eqI) (auto simp: bit_simps)
  moreover have "ucast (drop_bit 8 (ucast x OR push_bit 8 (ucast y) :: u16)) = y" for x y :: u8
    by (rule bit_word_eqI) (auto simp: bit_simps dest: bit_imp_le_length)
  ultimately show ?thesis by (simp add: word_bytes_def rd16_def)
qed

lemma words_at_Suc: "words_at b i (Suc n) = rd16 b i # words_at b (i + 2) n"
  by (simp add: words_at_def map_upt_Suc del: upt_Suc)

lemma bytes_of_words_at: "i + 2 * n \<le> length b \<Longrightarrow> bytes_of (words_at b i n) = slice b i (2 * n)"
proof (induction n arbitrary: i)
  case 0
  then show ?case by (simp add: words_at_def bytes_of_def slice_def)
next
  case (Suc n)
  have "bytes_of (words_at b i (Suc n)) = [b ! i, b ! (i + 1)] @ slice b (i + 2) (2 * n)"
    using Suc by (simp add: words_at_Suc bytes_of_def word_bytes_rd16)
  moreover have "drop i b = b ! i # b ! (i + 1) # drop (i + 2) b"
    using Suc.prems by (simp add: Cons_nth_drop_Suc)
  ultimately show ?case by (simp add: slice_def)
qed

lemma words_at_length [simp]: "length (words_at b i n) = n"
  by (simp add: words_at_def)

lemma outw_many_ata:
  "phase (hw s) = Wr l 0 ws \<Longrightarrow> length ws + length vs = 256 \<Longrightarrow> vs \<noteq> [] \<Longrightarrow>
   outw_many ata_io 0x1f0 vs s = Some (Inr (), s\<lparr>hw := (hw s)
     \<lparr>media := (media (hw s))(l := ws @ vs), phase := Idle\<rparr>\<rparr>)"
proof (induction vs arbitrary: s ws)
  case (Cons v vs)
  show ?case
  proof (cases "vs = []")
    case True
    with Cons.prems have "outw ata_io v 0x1f0 s = Some (Inr (), s\<lparr>hw := (hw s)
        \<lparr>media := (media (hw s))(l := ws @ [v]), phase := Idle\<rparr>\<rparr>)"
      by (simp add: outw_def modify_def ata_outw_def Let_def start_write_def)
    with True show ?thesis by (simp add: bnd_def ret_def fun_upd_def)
  next
    case False
    then have "length ws \<noteq> 255" using Cons.prems(2) by (cases vs) auto
    then have o: "outw ata_io v 0x1f0 s = Some (Inr (), s\<lparr>hw := (hw s)\<lparr>phase := Wr l 0 (ws @ [v])\<rparr>\<rparr>)"
      using Cons.prems by (simp add: outw_def modify_def ata_outw_def)
    let ?s = "s\<lparr>hw := (hw s)\<lparr>phase := Wr l 0 (ws @ [v])\<rparr>\<rparr>"
    have "outw_many ata_io 0x1f0 vs ?s = Some (Inr (), ?s\<lparr>hw := (hw ?s)
     \<lparr>media := (media (hw ?s))(l := (ws @ [v]) @ vs), phase := Idle\<rparr>\<rparr>)"
      by (rule Cons.IH) (use Cons.prems(2) False in simp_all)
    with o show ?thesis by (simp add: bnd_def fun_upd_def)
  qed
qed simp

text \<open>The address the drive sees is the low 28 bits of the address the driver was given.\<close>

definition ata_addr :: "u64 \<Rightarrow> nat" where
  "ata_addr lba = unat lba mod 2 ^ 28"

lemma read_disk_ata:
  assumes "ata_inv (hw s)" and "length (xbuf s) = 512 * unat count"
    and "disk_args_ok disks dn lba count" and "disks ! unat dn = ata_disk n"
  shows "wp (read_disk ata_io disks dn lba count)
     (\<lambda>_ t. (\<forall>i < unat count. \<not> bad (hw s) (ata_addr lba + i)) \<and> media (hw t) = media (hw s)
        \<and> bad (hw t) = bad (hw s) \<and> capacity (hw t) = capacity (hw s)
        \<and> xbuf t = concat (map (ata_sector (hw s)) [ata_addr lba..<ata_addr lba + unat count]))
     (\<lambda>_ t. (\<exists>i < unat count. bad (hw s) (ata_addr lba + i)) \<and> media (hw t) = media (hw s)
        \<and> bad (hw t) = bad (hw s) \<and> capacity (hw t) = capacity (hw s)
        \<and> length (xbuf t) = length (xbuf s) \<and> (bad (hw s) (ata_addr lba) \<longrightarrow> xbuf t = xbuf s)) s"
proof -
  let ?d = "(hw s)\<lparr>r_drive := 0xe0 OR (ucast (drop_bit 24 lba) AND 0x0f), r_count := ucast count,
     r_lba0 := ucast lba, r_lba1 := ucast (drop_bit 8 lba), r_lba2 := ucast (drop_bit 16 lba)\<rparr>"
  let ?s = "s\<lparr>hw := ata_command 0x20 ?d\<rparr>"
  have c: "count \<noteq> 0" "unat count \<le> 255" using assms(3) by (simp_all add: disk_args_ok_def word_le_nat_alt)
  have uc: "unat (ucast count :: u8) = unat count"
    using c(2) by (simp add: unsigned_ucast_eq take_bit_nat_eq_self)
  moreover have "unat count \<noteq> 0" using c(1) by (simp add: unat_eq_0)
  ultimately have cnt: "ata_count ?d = unat count" by (auto simp: ata_count_def)
  have ph: "phase (hw ?s) = start_read (ata_addr lba) (unat count) (hw ?s)"
    using lba_registers[where d = "hw s" and lba = lba and c = "ucast count"] cnt
    by (simp add: ata_command_def ata_addr_def start_read_def)
  have sec: "ata_sector (hw ?s) = ata_sector (hw s)" by (simp add: ata_sector_def ata_command_def fun_eq_iff)
  have r: "read_disk ata_io disks dn lba count s = read_sectors ata_io (ata_disk n) 0 (unat count) ?s"
    using assms(3,4) setup_ata[of n lba count "0x20" s] by (simp add: read_disk_def bnd_def)
  have "wp (read_sectors ata_io (ata_disk n) 0 (unat count))
     (\<lambda>_ t. (\<forall>i < unat count. \<not> bad (hw s) (ata_addr lba + i)) \<and> media (hw t) = media (hw s)
        \<and> bad (hw t) = bad (hw s) \<and> capacity (hw t) = capacity (hw s)
        \<and> xbuf t = concat (map (ata_sector (hw s)) [ata_addr lba..<ata_addr lba + unat count]))
     (\<lambda>_ t. (\<exists>i < unat count. bad (hw s) (ata_addr lba + i)) \<and> media (hw t) = media (hw s)
        \<and> bad (hw t) = bad (hw s) \<and> capacity (hw t) = capacity (hw s)
        \<and> length (xbuf t) = length (xbuf s) \<and> (bad (hw s) (ata_addr lba) \<longrightarrow> xbuf t = xbuf s)) ?s"
    using read_sectors_ata[OF _ ph, of 0 n] assms(1,2) sec by (simp add: ata_inv_def ata_command_def)
  then show ?thesis unfolding wp_def r .
qed

lemma write_disk_ata:
  assumes "length (xbuf s) = 512"
    and "disk_args_ok disks dn lba 1" and "disks ! unat dn = ata_disk n"
  shows "wp (write_disk ata_io disks dn lba 1)
     (\<lambda>_ t. \<not> bad (hw s) (ata_addr lba) \<and> xbuf t = xbuf s \<and> bad (hw t) = bad (hw s)
        \<and> capacity (hw t) = capacity (hw s)
        \<and> media (hw t) = (media (hw s))(ata_addr lba := words_at (xbuf s) 0 256))
     (\<lambda>_ t. bad (hw s) (ata_addr lba) \<and> xbuf t = xbuf s \<and> bad (hw t) = bad (hw s)
        \<and> capacity (hw t) = capacity (hw s) \<and> media (hw t) = media (hw s)) s"
proof -
  let ?d = "(hw s)\<lparr>r_drive := 0xe0 OR (ucast (drop_bit 24 lba) AND 0x0f), r_count := 1,
     r_lba0 := ucast lba, r_lba1 := ucast (drop_bit 8 lba), r_lba2 := ucast (drop_bit 16 lba)\<rparr>"
  let ?s = "s\<lparr>hw := ata_command 0x30 ?d\<rparr>"
  have ph: "phase (hw ?s) = start_write (ata_addr lba) 1 (hw s)"
    using lba_registers[where d = "hw s" and lba = lba and c = 1] by (simp add: ata_command_def ata_addr_def ata_count_def start_write_def)
  have st: "ata_setup ata_io (ata_disk n) lba 1 0x30 s = Some (Inr (), ?s)"
    using setup_ata[of n lba 1 "0x30" s] by simp
  show ?thesis
  proof (cases "bad (hw s) (ata_addr lba)")
    case True
    then have "phase (hw ?s) = Failed" using ph by (simp add: start_write_def)
    then have "write_disk ata_io disks dn lba 1 s = Some (Inl (), ?s)"
      using assms(2,3) st by (simp add: write_disk_def Let_def bnd_def ret_def drq_ata throw_def)
    with True show ?thesis by (simp add: wp_def ata_command_def)
  next
    case False
    then have p: "phase (hw ?s) = Wr (ata_addr lba) 0 []" using ph by (simp add: start_write_def)
    let ?t = "?s\<lparr>hw := (hw ?s)\<lparr>media := (media (hw ?s))(ata_addr lba := words_at (xbuf s) 0 256), phase := Idle\<rparr>\<rparr>"
    have l: "words_at (xbuf s) 0 256 \<noteq> []" by (metis words_at_length list.size(3) zero_neq_numeral)
    have o: "outw_many ata_io 0x1f0 (words_at (xbuf s) 0 256) ?s = Some (Inr (), ?t)"
      using outw_many_ata[OF p _ l] by simp
    have w: "write_sectors ata_io (ata_disk n) 0 (Suc 0) ?s = Some (Inr (), ?t)"
      using p o by (simp add: bnd_def gets_def drq_ata ret_def)
    have "write_disk ata_io disks dn lba 1 s = Some (Inr (), ?t\<lparr>hw := ata_outb 0x1f7 0xe7 (hw ?t)\<rparr>)"
      using assms(2,3) st w
      by (simp add: write_disk_def Let_def bnd_def ret_def outb_def modify_def del: write_sectors.simps)
    with False show ?thesis by (simp add: wp_def ata_outb_def ata_command_def)
  qed
qed

subsection \<open>The properties of the disk driver\<close>

lemma disk_args_nat:
  assumes "unat dn < length disks" and "disks ! unat dn = ata_disk n" and "0 < count" and "count \<le> 255"
    and "unat lba + unat count \<le> unat n"
  shows "disk_args_ok disks dn lba count"
proof -
  have "unat (ucast count :: u64) = unat count" by (rule unat_ucast_u64)
  moreover have "unat lba + unat count < 2 ^ 64"
    using assms(5) unsigned_less[of n, where ?'a = nat] by (simp add: le_less_trans)
  ultimately have "unat (lba + ucast count) = unat lba + unat count" by (simp add: unat_word_ariths)
  with assms show ?thesis by (auto simp: disk_args_ok_def word_le_nat_alt)
qed

lemma ata_addr_low: "unat lba < 2 ^ 28 \<Longrightarrow> ata_addr lba = unat lba"
  by (simp add: ata_addr_def)

text \<open>Reading: on a drive of at most 2^28 sectors a read inside the drive returns exactly the
  contents of the sectors asked for, in order, and changes nothing on the drive; it fails exactly
  when one of these sectors cannot be read.\<close>

theorem read_disk_reads:
  assumes "ata_inv (hw s)" and "length (xbuf s) = 512 * unat count"
    and "unat dn < length disks" and "disks ! unat dn = ata_disk n" and "unat n \<le> 2 ^ 28"
    and "0 < count" and "count \<le> 255" and "unat lba + unat count \<le> unat n"
  shows "wp (read_disk ata_io disks dn lba count)
     (\<lambda>_ t. (\<forall>i < unat count. \<not> bad (hw s) (unat lba + i)) \<and> media (hw t) = media (hw s)
        \<and> xbuf t = concat (map (ata_sector (hw s)) [unat lba..<unat lba + unat count]))
     (\<lambda>_ t. (\<exists>i < unat count. bad (hw s) (unat lba + i)) \<and> media (hw t) = media (hw s)) s"
proof -
  have "0 < unat count" using assms(6) by (simp add: word_less_nat_alt)
  then have a: "ata_addr lba = unat lba" using assms(5,8) by (intro ata_addr_low) linarith
  show ?thesis
    using read_disk_ata[OF assms(1,2) disk_args_nat[OF assms(3,4,6,7,8)] assms(4)]
    unfolding a by (rule wp_conseq) auto
qed

definition demo_ata :: ata where
  "demo_ata = \<lparr>media = (\<lambda>l. replicate 256 (word_of_nat l)), bad = (\<lambda>l. l = 7), r_count = 0, r_lba0 = 0,
     r_lba1 = 0, r_lba2 = 0, r_drive = 0, phase = Idle, capacity = 1000\<rparr>"

lemma demo_ata_inv: "ata_inv demo_ata"
  by (simp add: ata_inv_def demo_ata_def)

theorem read_disk_reads_witness:
  "wp (read_disk ata_io [ata_disk 1000] 0 5 1)
     (\<lambda>_ t. xbuf t = ata_sector demo_ata 5) (\<lambda>_ t. False) \<lparr>hw = demo_ata, xbuf = replicate 512 0\<rparr>"
  by (rule wp_conseq[OF read_disk_reads[where n = 1000]])
     (simp_all add: demo_ata_inv, simp_all add: demo_ata_def)

text \<open>C16. Writing: a single sector written inside such a drive replaces that sector and no other; when
  the sector cannot be written nothing on the drive has changed.\<close>

theorem write_disk_writes:
  assumes "length (xbuf s) = 512" and "unat dn < length disks" and "disks ! unat dn = ata_disk n"
    and "unat n \<le> 2 ^ 28" and "unat lba < unat n"
  shows "wp (write_disk ata_io disks dn lba 1)
     (\<lambda>_ t. \<not> bad (hw s) (unat lba) \<and> (\<forall>l. ata_sector (hw t) l = (if l = unat lba then xbuf s else ata_sector (hw s) l)))
     (\<lambda>_ t. bad (hw s) (unat lba) \<and> media (hw t) = media (hw s)) s"
proof -
  have ok: "disk_args_ok disks dn lba 1" by (rule disk_args_nat[OF assms(2,3)]) (use assms(5) in simp_all)
  have a: "ata_addr lba = unat lba" using assms(4,5) by (intro ata_addr_low) linarith
  have b: "bytes_of (words_at (xbuf s) 0 256) = xbuf s"
    using bytes_of_words_at[of 0 256 "xbuf s"] assms(1) by (simp add: slice_def)
  show ?thesis
    using write_disk_ata[OF assms(1) ok assms(3)] unfolding a
    by (rule wp_conseq) (auto simp: ata_sector_def b)
qed

theorem write_disk_writes_witness:
  "wp (write_disk ata_io [ata_disk 1000] 0 5 1)
     (\<lambda>_ t. ata_sector (hw t) 5 = replicate 512 0x41) (\<lambda>_ t. False) \<lparr>hw = demo_ata, xbuf = replicate 512 0x41\<rparr>"
  by (rule wp_conseq[OF write_disk_writes[where n = 1000]]) (simp_all, simp_all add: demo_ata_def)

text \<open>The driver's limit is 2^32 - 1 sectors, the protocol's 2^28: on a larger drive a write inside
  the drive but beyond sector 2^28 overwrites the sector with the same low 28 bits.\<close>

theorem write_disk_aliases:
  assumes "length (xbuf s) = 512" and "unat dn < length disks" and "disks ! unat dn = ata_disk n"
    and "unat lba < unat n" and "\<not> bad (hw s) (unat lba mod 2 ^ 28)"
  shows "wp (write_disk ata_io disks dn lba 1)
     (\<lambda>_ t. ata_sector (hw t) (unat lba mod 2 ^ 28) = xbuf s
        \<and> (\<forall>l. l \<noteq> unat lba mod 2 ^ 28 \<longrightarrow> ata_sector (hw t) l = ata_sector (hw s) l))
     (\<lambda>_ t. False) s"
proof -
  have ok: "disk_args_ok disks dn lba 1" by (rule disk_args_nat[OF assms(2,3)]) (use assms(4) in simp_all)
  have b: "bytes_of (words_at (xbuf s) 0 256) = xbuf s"
    using bytes_of_words_at[of 0 256 "xbuf s"] assms(1) by (simp add: slice_def)
  show ?thesis
    using write_disk_ata[OF assms(1) ok assms(3)] assms(5)
    by (elim wp_conseq) (auto simp: ata_sector_def b ata_addr_def)
qed

theorem write_disk_aliases_witness:
  "wp (write_disk ata_io [ata_disk 0x20000000] 0 0x10000005 1)
     (\<lambda>_ t. ata_sector (hw t) 5 = replicate 512 0x41) (\<lambda>_ t. False) \<lparr>hw = demo_ata, xbuf = replicate 512 0x41\<rparr>"
  by (rule wp_conseq[OF write_disk_aliases[where n = "0x20000000"]]) (simp_all, simp_all add: demo_ata_def)

text \<open>The bounds check adds in 64 bits: for a sector number whose sum with the count wraps around, it
  passes on every drive, however small.\<close>

theorem disk_check_wraps:
  assumes "unat dn < length disks" and "0 < count" and "count \<le> 255" and "unat lba + unat count = 2 ^ 64"
  shows "disk_args_ok disks dn lba count"
proof -
  have "unat (ucast count :: u64) = unat count" by (rule unat_ucast_u64)
  then have "unat (lba + ucast count) = 0" using assms(4) by (simp add: unat_word_ariths)
  then have "lba + ucast count = 0" by (simp only: unat_eq_0)
  with assms show ?thesis by (auto simp: disk_args_ok_def)
qed

theorem disk_check_wraps_witness:
  "disk_args_ok [ata_disk 1] 0 0xffffffffffffffff 1"
  by (rule disk_check_wraps) simp_all

end
