(* ===== verification/Kernel_Gpt.thy ===== *)
theory Kernel_Gpt
  imports Kernel_Disk
begin

text \<open>
  The partition search of \<open>kernel/driver/gpt.c\<close>.  The sector buffer \<open>sec\<close> is the buffer of the
  disk driver; the header pointer \<open>h\<close> points into it, so every use of a header field reads the
  buffer as it is at that moment.  An access to an entry outside the buffer is the error
  \<open>Gpt_bounds\<close>, \<open>return -1\<close> is \<open>Gpt_none\<close>.
\<close>

datatype gpt_err = Gpt_none | Gpt_bounds

record gpt_part =
  first_lba :: u64
  last_lba :: u64

definition esp_type_guid :: "u8 list" where
  "esp_type_guid = [0x28, 0x73, 0x2a, 0xc1, 0x1f, 0xf8, 0xd2, 0x11,
     0xba, 0x4b, 0x00, 0xa0, 0xc9, 0x3e, 0xc9, 0x3b]"

definition gpt_sig :: "u8 list" where
  "gpt_sig = [0x45, 0x46, 0x49, 0x20, 0x50, 0x41, 0x52, 0x54]"

abbreviation (input) h_parts_lba :: "u8 list \<Rightarrow> u64" where "h_parts_lba sec \<equiv> rd64 sec 72"
abbreviation (input) h_parts_count :: "u8 list \<Rightarrow> u32" where "h_parts_count sec \<equiv> rd32 sec 80"
abbreviation (input) h_parts_size :: "u8 list \<Rightarrow> u32" where "h_parts_size sec \<equiv> rd32 sec 84"

definition gpt_read :: "'h port_io \<Rightarrow> disk_t list \<Rightarrow> u32 \<Rightarrow> u64 \<Rightarrow> ('h dst, gpt_err, unit) prog" where
  "gpt_read io disks dn lba =
     attempt (read_disk io disks dn lba 1) (\<lambda>r. case r of Inl _ \<Rightarrow> throw Gpt_none | Inr _ \<Rightarrow> ret ())"

text \<open>The offset of the entry in the buffer: the code multiplies by the number of entries.\<close>

definition entry_offset :: "u64 \<Rightarrow> u64 \<Rightarrow> u8 list \<Rightarrow> nat" where
  "entry_offset i pps sec = unat ((i mod pps) * ucast (h_parts_count sec))"

partial_function (option) gpt_scan ::
  "'h port_io \<Rightarrow> disk_t list \<Rightarrow> u32 \<Rightarrow> u8 list \<Rightarrow> u64 \<Rightarrow> u64 \<Rightarrow> 'h dst \<Rightarrow>
   ((gpt_err + gpt_part) \<times> 'h dst) option" where
  "gpt_scan io disks dn guid pps i s =
     bnd (gets xbuf) (\<lambda>sec.
     if \<not> i < ucast (h_parts_count sec) then throw Gpt_none
     else
       bnd (if i mod pps = 0 then gpt_read io disks dn (h_parts_lba sec + i div pps) else ret ()) (\<lambda>_.
       bnd (gets xbuf) (\<lambda>sec.
       let off = entry_offset i pps sec in
       if off + 16 > 512 then throw Gpt_bounds
       else
         let tg = slice sec off 16 in
         if tg = replicate 16 0 then gpt_scan io disks dn guid pps (i + 1)
         else if tg = guid then
           if off + 48 > 512 then throw Gpt_bounds
           else ret \<lparr>first_lba = rd64 sec (off + 32), last_lba = rd64 sec (off + 40)\<rparr>
         else gpt_scan io disks dn guid pps (i + 1)))) s"

definition gpt_find_partition ::
  "'h port_io \<Rightarrow> disk_t list \<Rightarrow> u32 \<Rightarrow> u8 list \<Rightarrow> ('h dst, gpt_err, gpt_part) prog" where
  "gpt_find_partition io disks dn guid =
     bnd (gpt_read io disks dn 1) (\<lambda>_.
     bnd (gets xbuf) (\<lambda>sec.
     if slice sec 0 8 \<noteq> gpt_sig then throw Gpt_none
     else if h_parts_count sec = 0 \<or> h_parts_count sec > 512 then throw Gpt_none
     else if h_parts_size sec < 128 \<or> h_parts_size sec > 512 then throw Gpt_none
     else gpt_scan io disks dn guid (512 div ucast (h_parts_size sec)) 0))"

definition gpt_find_esp :: "'h port_io \<Rightarrow> disk_t list \<Rightarrow> u32 \<Rightarrow> ('h dst, gpt_err, gpt_part) prog" where
  "gpt_find_esp io disks dn = gpt_find_partition io disks dn esp_type_guid"

subsection \<open>Running the search\<close>

lemma gpt_scan_eq:
  "gpt_scan io disks dn guid pps i =
     bnd (gets xbuf) (\<lambda>sec.
     if \<not> i < ucast (h_parts_count sec) then throw Gpt_none
     else
       bnd (if i mod pps = 0 then gpt_read io disks dn (h_parts_lba sec + i div pps) else ret ()) (\<lambda>_.
       bnd (gets xbuf) (\<lambda>sec.
       let off = entry_offset i pps sec in
       if off + 16 > 512 then throw Gpt_bounds
       else
         let tg = slice sec off 16 in
         if tg = replicate 16 0 then gpt_scan io disks dn guid pps (i + 1)
         else if tg = guid then
           if off + 48 > 512 then throw Gpt_bounds
           else ret \<lparr>first_lba = rd64 sec (off + 32), last_lba = rd64 sec (off + 40)\<rparr>
         else gpt_scan io disks dn guid pps (i + 1))))"
  by (rule ext) (rule gpt_scan.simps)

text \<open>A disk with a valid GPT header in sector 1 and readable first entries.\<close>

definition gpt_disk :: "ata \<Rightarrow> disk_t list \<Rightarrow> u32 \<Rightarrow> u64 \<Rightarrow> bool" where
  "gpt_disk d disks dn n \<longleftrightarrow>
     ata_inv d \<and> unat dn < length disks \<and> disks ! unat dn = ata_disk n \<and> unat n \<le> 2 ^ 28 \<and> 1 < unat n
     \<and> \<not> bad d 1 \<and> slice (ata_sector d 1) 0 8 = gpt_sig
     \<and> 0 < h_parts_count (ata_sector d 1) \<and> h_parts_count (ata_sector d 1) \<le> 512
     \<and> 128 \<le> h_parts_size (ata_sector d 1) \<and> h_parts_size (ata_sector d 1) \<le> 512
     \<and> unat (h_parts_lba (ata_sector d 1)) < unat n \<and> \<not> bad d (unat (h_parts_lba (ata_sector d 1)))"

definition entries_sector :: "ata \<Rightarrow> u8 list" where
  "entries_sector d = ata_sector d (unat (h_parts_lba (ata_sector d 1)))"

lemma gpt_read_ata:
  assumes "ata_inv (hw s)" "length (xbuf s) = 512" "unat dn < length disks" "disks ! unat dn = ata_disk n"
    "unat n \<le> 2 ^ 28" "unat lba < unat n" "\<not> bad (hw s) (unat lba)"
  obtains t where "gpt_read ata_io disks dn lba s = Some (Inr (), t)" "media (hw t) = media (hw s)"
    "bad (hw t) = bad (hw s)" "xbuf t = ata_sector (hw s) (unat lba)"
proof -
  have ok: "disk_args_ok disks dn lba 1" by (rule disk_args_nat[OF assms(3,4)]) (use assms(6) in simp_all)
  have a: "ata_addr lba = unat lba" using assms(5,6) by (intro ata_addr_low) linarith
  have "length (xbuf s) = 512 * unat (1 :: u32)" using assms(2) by simp
  note w = read_disk_ata[OF assms(1) this ok assms(4), unfolded a]
  obtain x t where run: "read_disk ata_io disks dn lba 1 s = Some (x, t)" using wp_returns[OF w] by auto
  show thesis
  proof (cases x)
    case (Inl e)
    then show thesis using wp_InlD[OF w run[unfolded Inl]] assms(7) by auto
  next
    case (Inr u)
    note q = wp_InrD[OF w run[unfolded Inr]]
    show thesis
      by (rule that[of t]) (use run Inr q in \<open>simp_all add: gpt_read_def attempt_def ret_def\<close>)
  qed
qed

text \<open>The search comes down to the scan over the first entries sector.\<close>

lemma gpt_find_start:
  assumes g: "gpt_disk (hw s) disks dn n" and "length (xbuf s) = 512"
  obtains t where "xbuf t = entries_sector (hw s)" "media (hw t) = media (hw s)" "bad (hw t) = bad (hw s)"
    "gpt_find_partition ata_io disks dn guid s =
      (let sec = entries_sector (hw s); pps = 512 div ucast (h_parts_size (ata_sector (hw s) 1)) :: u64;
           tg = slice sec 0 16
       in if tg = replicate 16 0 then gpt_scan ata_io disks dn guid pps 1 t
          else if tg = guid then Some (Inr \<lparr>first_lba = rd64 sec 32, last_lba = rd64 sec 40\<rparr>, t)
          else gpt_scan ata_io disks dn guid pps 1 t)"
proof -
  note G = g[unfolded gpt_disk_def]
  let ?h = "ata_sector (hw s) 1"
  let ?pps = "512 div ucast (h_parts_size ?h) :: u64"
  obtain s1 where s1: "gpt_read ata_io disks dn 1 s = Some (Inr (), s1)" "media (hw s1) = media (hw s)"
    "bad (hw s1) = bad (hw s)" "xbuf s1 = ?h"
    by (rule gpt_read_ata[of s dn disks n 1]) (use G assms(2) in auto)
  have sec: "ata_sector (hw s1) = ata_sector (hw s)" using s1(2) by (simp add: ata_sector_def fun_eq_iff)
  have i1: "ata_inv (hw s1)" using G s1(2) by (simp add: ata_inv_def)
  have l1: "length (xbuf s1) = 512" using s1(4) G ata_sector_length by simp
  obtain t where t: "gpt_read ata_io disks dn (h_parts_lba ?h) s1 = Some (Inr (), t)"
    "media (hw t) = media (hw s1)" "bad (hw t) = bad (hw s1)" "xbuf t = ata_sector (hw s1) (unat (h_parts_lba ?h))"
    by (rule gpt_read_ata[OF i1 l1, of dn disks n "h_parts_lba ?h"]) (use G s1(3) in auto)
  have x: "xbuf t = entries_sector (hw s)" using t(4) sec by (simp add: entries_sector_def)
  have c: "\<not> h_parts_count ?h = 0" "\<not> 512 < h_parts_count ?h" "\<not> h_parts_size ?h < 128" "\<not> 512 < h_parts_size ?h"
    using G by auto
  have "0 < (ucast (h_parts_count ?h) :: u64)"
  proof -
    have "0 < unat (h_parts_count ?h)" using c(1) by (simp add: unat_gt_0)
    then show ?thesis by (simp only: word_less_nat_alt unat_0 unat_ucast_u64)
  qed
  then have scan: "gpt_scan ata_io disks dn guid ?pps 0 s1 =
      (let sec = xbuf t; tg = slice sec 0 16
       in if tg = replicate 16 0 then gpt_scan ata_io disks dn guid ?pps 1 t
          else if tg = guid then Some (Inr \<lparr>first_lba = rd64 sec 32, last_lba = rd64 sec 40\<rparr>, t)
          else gpt_scan ata_io disks dn guid ?pps 1 t)"
    using s1(4) t(1) by (subst gpt_scan_eq) (simp add: bnd_def gets_def ret_def entry_offset_def Let_def)
  have "gpt_find_partition ata_io disks dn guid s = gpt_scan ata_io disks dn guid ?pps 0 s1"
    using s1(1,4) c G by (simp add: gpt_find_partition_def bnd_def gets_def)
  with scan x that[of t] t(2,3) s1(2,3) show thesis by (simp add: Let_def)
qed

subsection \<open>What the search returns\<close>

text \<open>A partition at an entry of the buffer with the wanted type.\<close>

definition gpt_entry_at :: "u8 list \<Rightarrow> u8 list \<Rightarrow> gpt_part \<Rightarrow> bool" where
  "gpt_entry_at guid sec p \<longleftrightarrow>
     (\<exists>off. off + 48 \<le> 512 \<and> slice sec off 16 = guid \<and> guid \<noteq> replicate 16 0
        \<and> p = \<lparr>first_lba = rd64 sec (off + 32), last_lba = rd64 sec (off + 40)\<rparr>)"

lemma gpt_entry_atI:
  "\<not> 464 < off \<Longrightarrow> slice sec off 16 \<noteq> replicate 16 0 \<Longrightarrow>
   gpt_entry_at (slice sec off 16) sec \<lparr>first_lba = rd64 sec (off + 32), last_lba = rd64 sec (off + 40)\<rparr>"
  unfolding gpt_entry_at_def by (rule exI[of _ off]) simp

lemma gpt_scan_sound:
  assumes "gpt_scan io disks dn guid pps i s = Some r"
  shows "case r of (Inl _, _) \<Rightarrow> True | (Inr p, t) \<Rightarrow> gpt_entry_at guid (xbuf t) p"
  using assms
proof (rule gpt_scan.raw_induct[of "\<lambda>io disks dn guid pps i s r.
    case r of (Inl _, _) \<Rightarrow> True | (Inr p, t) \<Rightarrow> gpt_entry_at guid (xbuf t) p", rotated], goal_cases)
  case (1 f io disks dn guid pps i s r)
  show ?case
    using 1(2)
    by (auto simp: bnd_def gets_def ret_def throw_def Let_def intro!: gpt_entry_atI
        split: if_splits option.splits prod.splits sum.splits dest!: 1(1))
qed

text \<open>A disk whose first entries sector starts with an EFI system partition.\<close>

definition demo_gpt_sector :: "u8 list" where
  "demo_gpt_sector = gpt_sig @ replicate 64 0 @ [2, 0, 0, 0, 0, 0, 0, 0] @ [4, 0, 0, 0, 128, 0, 0, 0] @ replicate 424 0"

definition demo_gpt_entries :: "u8 list" where
  "demo_gpt_entries = esp_type_guid @ replicate 16 1 @ [0, 8, 0, 0, 0, 0, 0, 0] @ [255, 15, 0, 0, 0, 0, 0, 0] @ replicate 464 0"

definition demo_gpt_ata :: ata where
  "demo_gpt_ata = demo_ata\<lparr>media := (\<lambda>l. words_at (if l = 1 then demo_gpt_sector else demo_gpt_entries) 0 256)\<rparr>"

lemma demo_gpt_length: "length demo_gpt_sector = 512" "length demo_gpt_entries = 512"
  by (simp_all add: demo_gpt_sector_def demo_gpt_entries_def gpt_sig_def esp_type_guid_def)

lemma demo_gpt_bytes:
  "ata_sector demo_gpt_ata l = (if l = 1 then demo_gpt_sector else demo_gpt_entries)"
  using bytes_of_words_at[of 0 256 demo_gpt_sector] bytes_of_words_at[of 0 256 demo_gpt_entries]
  by (simp add: ata_sector_def demo_gpt_ata_def demo_gpt_length slice_def)

lemma demo_gpt_header: "slice demo_gpt_sector 0 8 = gpt_sig" "h_parts_count demo_gpt_sector = 4"
  "h_parts_size demo_gpt_sector = 128" "h_parts_lba demo_gpt_sector = 2"
  by code_simp+

lemma demo_gpt: "gpt_disk demo_gpt_ata [ata_disk 1000] 0 1000"
  "entries_sector demo_gpt_ata = demo_gpt_entries"
proof -
  have "ata_inv demo_gpt_ata" by (simp add: ata_inv_def demo_gpt_ata_def words_at_def)
  moreover have "\<not> bad demo_gpt_ata 1" "\<not> bad demo_gpt_ata 2" by (simp_all add: demo_gpt_ata_def demo_ata_def)
  ultimately show "gpt_disk demo_gpt_ata [ata_disk 1000] 0 1000"
    by (simp add: gpt_disk_def demo_gpt_bytes demo_gpt_header)
  show "entries_sector demo_gpt_ata = demo_gpt_entries"
    by (simp add: entries_sector_def demo_gpt_bytes demo_gpt_header)
qed

lemma gpt_run_first:
  assumes "gpt_disk (hw s) disks dn n" and "length (xbuf s) = 512"
    and "guid \<noteq> replicate 16 0" and "slice (entries_sector (hw s)) 0 16 = guid"
  shows "\<exists>t. gpt_find_partition ata_io disks dn guid s =
    Some (Inr \<lparr>first_lba = rd64 (entries_sector (hw s)) 32, last_lba = rd64 (entries_sector (hw s)) 40\<rparr>, t)"
  by (rule gpt_find_start[OF assms(1,2), of guid]) (use assms(3,4) in \<open>simp add: Let_def\<close>)

lemma demo_gpt_run:
  "\<exists>t. gpt_find_partition ata_io [ata_disk 1000] 0 esp_type_guid \<lparr>hw = demo_gpt_ata, xbuf = replicate 512 0\<rparr> =
    Some (Inr \<lparr>first_lba = 2048, last_lba = 4095\<rparr>, t)"
proof -
  have "slice demo_gpt_entries 0 16 = esp_type_guid" "rd64 demo_gpt_entries 32 = 2048" "rd64 demo_gpt_entries 40 = 4095"
    "esp_type_guid \<noteq> replicate 16 0" by code_simp+
  then show ?thesis
    using gpt_run_first[of "\<lparr>hw = demo_gpt_ata, xbuf = replicate 512 0\<rparr>" "[ata_disk 1000]" 0 1000 esp_type_guid]
    by (simp add: demo_gpt)
qed

text \<open>Whatever the disk holds and however its ports behave, a partition that the search
  reports is an entry of the sector in the buffer with exactly the wanted type, which is never
  the all-zero type of an unused entry.\<close>

theorem gpt_find_partition_sound:
  assumes "gpt_find_partition io disks dn guid s = Some (Inr p, t)"
  shows "gpt_entry_at guid (xbuf t) p"
proof -
  obtain pps i s1 where "gpt_scan io disks dn guid pps i s1 = Some (Inr p, t)"
    using assms by (auto simp: gpt_find_partition_def bnd_def gets_def throw_def
      split: if_splits option.splits prod.splits sum.splits)
  from gpt_scan_sound[OF this] show ?thesis by simp
qed

theorem gpt_find_partition_sound_witness:
  "\<exists>sec. gpt_entry_at esp_type_guid sec \<lparr>first_lba = 2048, last_lba = 4095\<rparr>"
proof -
  obtain t where "gpt_find_partition ata_io [ata_disk 1000] 0 esp_type_guid \<lparr>hw = demo_gpt_ata, xbuf = replicate 512 0\<rparr> =
    Some (Inr \<lparr>first_lba = 2048, last_lba = 4095\<rparr>, t)" using demo_gpt_run by auto
  from gpt_find_partition_sound[OF this] show ?thesis by blast
qed

text \<open>Searching a healthy disk for an EFI system partition returns the first entry of the
  table with its block range when that entry has the wanted type, whatever the header's entry
  size is.\<close>

theorem gpt_find_first:
  assumes "gpt_disk (hw s) disks dn n" and "length (xbuf s) = 512"
    and "guid \<noteq> replicate 16 0" and "slice (entries_sector (hw s)) 0 16 = guid"
  shows "\<exists>t. gpt_find_partition ata_io disks dn guid s =
    Some (Inr \<lparr>first_lba = rd64 (entries_sector (hw s)) 32, last_lba = rd64 (entries_sector (hw s)) 40\<rparr>, t)"
  using assms by (rule gpt_run_first)

theorem gpt_find_first_witness:
  "\<exists>t. gpt_find_partition ata_io [ata_disk 1000] 0 esp_type_guid \<lparr>hw = demo_gpt_ata, xbuf = replicate 512 0\<rparr> =
    Some (Inr \<lparr>first_lba = 2048, last_lba = 4095\<rparr>, t)"
proof -
  have "slice demo_gpt_entries 0 16 = esp_type_guid" "rd64 demo_gpt_entries 32 = 2048" "rd64 demo_gpt_entries 40 = 4095"
    "esp_type_guid \<noteq> replicate 16 0" by code_simp+
  then show ?thesis
    using gpt_find_first[of "\<lparr>hw = demo_gpt_ata, xbuf = replicate 512 0\<rparr>" "[ata_disk 1000]" 0 1000 esp_type_guid]
    by (simp add: demo_gpt)
qed

text \<open>C18. Only the first entry can be found on a disk whose first entry is an unnamed or
  short-named partition: the header is read from the sector buffer again after the entries have
  replaced it, so bytes 80 to 83 of the first entry, the 13th and 14th characters of its name,
  are taken for the number of entries.  When they are 0 the search ends after one entry.\<close>

theorem gpt_finds_only_first:
  assumes "gpt_disk (hw s) disks dn n" and "length (xbuf s) = 512"
    and "rd32 (entries_sector (hw s)) 80 = 0" and "slice (entries_sector (hw s)) 0 16 \<noteq> guid"
  shows "\<exists>t. gpt_find_partition ata_io disks dn guid s = Some (Inl Gpt_none, t)"
proof (rule gpt_find_start[OF assms(1,2), of guid])
  fix t :: "ata dst"
  assume t: "xbuf t = entries_sector (hw s)"
  have e: "gpt_scan ata_io disks dn guid pps 1 t = Some (Inl Gpt_none, t)" for pps
    by (subst gpt_scan_eq) (simp add: bnd_def gets_def throw_def t assms(3))
  assume "gpt_find_partition ata_io disks dn guid s =
      (let sec = entries_sector (hw s); pps = 512 div ucast (h_parts_size (ata_sector (hw s) 1)) :: u64;
           tg = slice sec 0 16
       in if tg = replicate 16 0 then gpt_scan ata_io disks dn guid pps 1 t
          else if tg = guid then Some (Inr \<lparr>first_lba = rd64 sec 32, last_lba = rd64 sec 40\<rparr>, t)
          else gpt_scan ata_io disks dn guid pps 1 t)"
  then show ?thesis using assms(4) by (simp add: Let_def e)
qed

theorem gpt_finds_only_first_witness:
  "\<exists>t. gpt_find_partition ata_io [ata_disk 1000] 0 (replicate 16 7) \<lparr>hw = demo_gpt_ata, xbuf = replicate 512 0\<rparr> =
    Some (Inl Gpt_none, t)"
proof -
  have "rd32 demo_gpt_entries 80 = 0" "slice demo_gpt_entries 0 16 \<noteq> replicate 16 7" by code_simp+
  then show ?thesis
    using gpt_finds_only_first[of "\<lparr>hw = demo_gpt_ata, xbuf = replicate 512 0\<rparr>" "[ata_disk 1000]" 0 1000 "replicate 16 7"]
    by (simp add: demo_gpt)
qed

end
