(* ===== verification/Kernel_Fat32.thy ===== *)
theory Kernel_Fat32
  imports Fat_Cache Kernel_Disk
begin

text \<open>
  The device side of the glue in \<open>kernel/driver/fat32.c\<close>: the callbacks \<open>fat32_read_sect\<close> and
  \<open>fat32_write_sect\<close> that stand between the FAT driver and the ATA driver.  On a drive of at most
  2^28 sectors they meet the \<open>block_dev\<close> contract, for any partition start, so everything proved
  of the FAT driver over that contract holds of the disk the kernel mounts.
\<close>

subsection \<open>The callbacks\<close>

record 'h glue =
  gl_hw :: 'h
  gl_disks :: "disk_t list"
  g_disk_id :: u32
  g_base_lba :: u32

text \<open>The driver functions always return; \<open>None\<close> cannot occur.\<close>

definition fat32_read_sect :: "'h port_io \<Rightarrow> u8 list \<Rightarrow> u32 \<Rightarrow> 'h glue \<Rightarrow> bool \<times> u8 list \<times> 'h glue" where
  "fat32_read_sect io buf sect g =
     (case read_disk io (gl_disks g) (g_disk_id g) (ucast (g_base_lba g) + ucast sect) 1
             \<lparr>hw = gl_hw g, xbuf = buf\<rparr> of
        Some (r, s) \<Rightarrow> (r = Inr (), xbuf s, g\<lparr>gl_hw := hw s\<rparr>)
      | None \<Rightarrow> (False, buf, g))"

definition fat32_write_sect :: "'h port_io \<Rightarrow> u8 list \<Rightarrow> u32 \<Rightarrow> 'h glue \<Rightarrow> bool \<times> 'h glue" where
  "fat32_write_sect io buf sect g =
     (case write_disk io (gl_disks g) (g_disk_id g) (ucast (g_base_lba g) + ucast sect) 1
             \<lparr>hw = gl_hw g, xbuf = buf\<rparr> of
        Some (r, s) \<Rightarrow> (r = Inr (), g\<lparr>gl_hw := hw s\<rparr>)
      | None \<Rightarrow> (False, g))"

definition fat32_ops :: "'h port_io \<Rightarrow> 'h glue disk_ops" where
  "fat32_ops io = \<lparr>op_read = fat32_read_sect io, op_write = fat32_write_sect io\<rparr>"

subsection \<open>The disk as a block device\<close>

text \<open>Sectors behind the end of the drive cannot be read or written; they count as zeros.\<close>

definition glue_sectors :: "ata glue \<Rightarrow> nat" where
  "glue_sectors g = unat (dk_sectors (gl_disks g ! unat (g_disk_id g)))"

definition ata_content :: "ata glue \<Rightarrow> u32 \<Rightarrow> u8 list" where
  "ata_content g n =
     (if unat (g_base_lba g) + unat n < glue_sectors g
      then ata_sector (gl_hw g) (unat (g_base_lba g) + unat n) else replicate 512 0)"

definition glue_inv :: "ata glue \<Rightarrow> bool" where
  "glue_inv g \<longleftrightarrow> ata_inv (gl_hw g) \<and> unat (g_disk_id g) < length (gl_disks g)
     \<and> (\<exists>k. gl_disks g ! unat (g_disk_id g) = ata_disk k) \<and> glue_sectors g \<le> 2 ^ 28"

lemma glue_lba: "unat (ucast (b :: u32) + ucast (n :: u32) :: u64) = unat b + unat n"
proof -
  have "unat b < 2 ^ 32" "unat n < 2 ^ 32"
    using unsigned_less[of b, where ?'a = nat] unsigned_less[of n, where ?'a = nat] by simp_all
  then show ?thesis by (simp add: unat_word_ariths unat_ucast_u64)
qed

lemma glue_args:
  fixes n :: u32
  assumes "glue_inv g"
  shows "disk_args_ok (gl_disks g) (g_disk_id g) (ucast (g_base_lba g) + ucast n) 1
    \<longleftrightarrow> unat (g_base_lba g) + unat n < glue_sectors g"
proof -
  have "unat (g_base_lba g) < 2 ^ 32" "unat n < 2 ^ 32"
    using unsigned_less[of "g_base_lba g", where ?'a = nat] unsigned_less[of n, where ?'a = nat] by simp_all
  then have "unat ((ucast (g_base_lba g) + ucast n :: u64) + ucast (1 :: u32)) = unat (g_base_lba g) + unat n + 1"
    by (simp add: unat_word_ariths unat_ucast_u64)
  with assms show ?thesis
    by (auto simp: disk_args_ok_def glue_inv_def glue_sectors_def word_le_nat_alt)
qed

lemma glue_addr:
  fixes n :: u32
  assumes "glue_inv g" and "unat (g_base_lba g) + unat n < glue_sectors g"
  shows "ata_addr (ucast (g_base_lba g) + ucast n) = unat (g_base_lba g) + unat n"
  using assms by (simp add: ata_addr_def glue_lba glue_inv_def)

lemma glue_read:
  assumes "glue_inv g" and "length b = 512" and r: "fat32_read_sect ata_io b n g = (ok, b', g')"
  shows "ata_content g' = ata_content g \<and> glue_inv g' \<and> b' = (if ok then ata_content g n else b)"
proof -
  let ?s = "\<lparr>hw = gl_hw g, xbuf = b\<rparr>" and ?l = "ucast (g_base_lba g) + ucast n :: u64"
  obtain k where k: "gl_disks g ! unat (g_disk_id g) = ata_disk k" using assms(1) by (auto simp: glue_inv_def)
  have inv: "glue_inv (g\<lparr>gl_hw := h\<rparr>) \<and> ata_content (g\<lparr>gl_hw := h\<rparr>) = ata_content g"
    if "media h = media (gl_hw g)" for h
    using that assms(1)
    by (auto simp: glue_inv_def ata_inv_def ata_content_def glue_sectors_def ata_sector_def fun_eq_iff)
  show ?thesis
  proof (cases "unat (g_base_lba g) + unat n < glue_sectors g")
    case False
    then have "\<not> disk_args_ok (gl_disks g) (g_disk_id g) ?l 1" using glue_args[OF assms(1)] by simp
    then have "(ok, b', g') = (False, b, g)" using r by (simp add: fat32_read_sect_def read_disk_def throw_def)
    then show ?thesis using assms(1) by simp
  next
    case True
    then have a: "disk_args_ok (gl_disks g) (g_disk_id g) ?l 1" using glue_args[OF assms(1)] by simp
    have "ata_inv (hw ?s)" "length (xbuf ?s) = 512 * unat (1 :: u32)"
      using assms by (simp_all add: glue_inv_def)
    note w = read_disk_ata[OF this a k]
    obtain x t where run: "read_disk ata_io (gl_disks g) (g_disk_id g) ?l 1 ?s = Some (x, t)"
      using wp_returns[OF w] by auto
    then have res: "ok = (x = Inr ())" "b' = xbuf t" "g' = g\<lparr>gl_hw := hw t\<rparr>"
      using r by (auto simp: fat32_read_sect_def)
    show ?thesis
    proof (cases x)
      case (Inl e)
      then have "media (hw t) = media (gl_hw g)" "xbuf t = b"
        using wp_InlD[OF w run[unfolded Inl]] by auto
      with Inl res inv show ?thesis by simp
    next
      case (Inr u)
      then have "media (hw t) = media (gl_hw g)"
        "xbuf t = ata_sector (gl_hw g) (unat (g_base_lba g) + unat n)"
        using wp_InrD[OF w run[unfolded Inr]] glue_addr[OF assms(1) True] by auto
      with Inr res inv True show ?thesis by (simp add: ata_content_def)
    qed
  qed
qed

lemma glue_write:
  assumes "glue_inv g" and "length b = 512" and r: "fat32_write_sect ata_io b n g = (ok, g')"
  shows "ata_content g' = (if ok then (ata_content g)(n := b) else ata_content g) \<and> glue_inv g'"
proof -
  let ?s = "\<lparr>hw = gl_hw g, xbuf = b\<rparr>" and ?l = "ucast (g_base_lba g) + ucast n :: u64"
  obtain k where k: "gl_disks g ! unat (g_disk_id g) = ata_disk k" using assms(1) by (auto simp: glue_inv_def)
  show ?thesis
  proof (cases "unat (g_base_lba g) + unat n < glue_sectors g")
    case False
    then have "\<not> disk_args_ok (gl_disks g) (g_disk_id g) ?l 1" using glue_args[OF assms(1)] by simp
    then have "(ok, g') = (False, g)" using r by (simp add: fat32_write_sect_def write_disk_def throw_def)
    then show ?thesis using assms(1) by simp
  next
    case True
    then have a: "disk_args_ok (gl_disks g) (g_disk_id g) ?l 1" using glue_args[OF assms(1)] by simp
    have "length (xbuf ?s) = 512" using assms by simp
    note w = write_disk_ata[OF this a k]
    obtain x t where run: "write_disk ata_io (gl_disks g) (g_disk_id g) ?l 1 ?s = Some (x, t)"
      using wp_returns[OF w] by auto
    then have res: "ok = (x = Inr ())" "g' = g\<lparr>gl_hw := hw t\<rparr>"
      using r by (auto simp: fat32_write_sect_def)
    show ?thesis
    proof (cases x)
      case (Inl e)
      then have "media (hw t) = media (gl_hw g)" using wp_InlD[OF w run[unfolded Inl]] by auto
      with Inl res assms(1) show ?thesis
        by (auto simp: glue_inv_def ata_inv_def ata_content_def glue_sectors_def ata_sector_def fun_eq_iff)
    next
      case (Inr u)
      then have m: "media (hw t) = (media (gl_hw g))(unat (g_base_lba g) + unat n := words_at b 0 256)"
        using wp_InrD[OF w run[unfolded Inr]] glue_addr[OF assms(1) True] by auto
      have b: "bytes_of (words_at b 0 256) = b"
        using bytes_of_words_at[of 0 256 b] assms(2) by (simp add: slice_def)
      have "ata_content g' m' = ((ata_content g)(n := b)) m'" for m'
        using m b True res by (auto simp: ata_content_def glue_sectors_def ata_sector_def word_unat_eq_iff)
      moreover have "glue_inv g'"
        using m assms(1) res by (auto simp: glue_inv_def ata_inv_def glue_sectors_def)
      ultimately show ?thesis using Inr res by (auto simp: fun_eq_iff)
    qed
  qed
qed

interpretation ata: block_dev "fat32_ops ata_io" ata_content glue_inv
proof unfold_locales
  fix d d' :: "ata glue" and b b' :: "u8 list" and n
  show "length (ata_content d n) = 512" if "glue_inv d"
    using that by (simp add: ata_content_def glue_inv_def ata_sector_length)
  show "b' = ata_content d n \<and> ata_content d' = ata_content d \<and> glue_inv d'"
    if "glue_inv d" "length b = 512" "op_read (fat32_ops ata_io) b n d = (True, b', d')"
    using glue_read[OF that(1,2) that(3)[unfolded fat32_ops_def disk_ops.simps]] by simp
  show "b' = b \<and> ata_content d' = ata_content d \<and> glue_inv d'"
    if "glue_inv d" "length b = 512" "op_read (fat32_ops ata_io) b n d = (False, b', d')"
    using glue_read[OF that(1,2) that(3)[unfolded fat32_ops_def disk_ops.simps]] by simp
  show "ata_content d' = (ata_content d)(n := b) \<and> glue_inv d'"
    if "glue_inv d" "length b = 512" "op_write (fat32_ops ata_io) b n d = (True, d')"
    using glue_write[OF that(1,2) that(3)[unfolded fat32_ops_def disk_ops.simps]] by simp
  show "(\<forall>m. m \<noteq> n \<longrightarrow> ata_content d' m = ata_content d m) \<and> glue_inv d'"
    if "glue_inv d" "length b = 512" "op_write (fat32_ops ata_io) b n d = (False, d')"
    using glue_write[OF that(1,2) that(3)[unfolded fat32_ops_def disk_ops.simps]] by simp
qed

subsection \<open>The cache on the disk\<close>

text \<open>C17. On the disk the kernel mounts the sector cache is transparent: loading a sector leaves what the
  FAT driver sees of the partition unchanged, puts exactly that view of the sector into the buffer,
  and fails only with \<open>FAT_ERR_IO\<close>; afterwards a flush makes the drive hold the whole view.\<close>

theorem ata_cache_transparent:
  assumes "cache_ok (fat32_ops ata_io) ata_content glue_inv v" and "n \<noteq> 0"
  shows "wp (bnd (update_buf n) (\<lambda>_. bnd (gets fat_buf) (\<lambda>b. bnd sync_buf (\<lambda>_. ret b))))
    (\<lambda>b v'. b = lview ata_content v n \<and> lview ata_content v' = lview ata_content v
       \<and> (\<forall>m. m \<noteq> 0 \<longrightarrow> ata_content (dev v') m = lview ata_content v m))
    (\<lambda>e v'. e = FAT_ERR_IO \<and> lview ata_content v' = lview ata_content v) v"
proof (rule wp_bndI[OF ata.update_buf_wp[OF assms]], goal_cases)
  case (1 x v1)
  then have c: "cache_ok (fat32_ops ata_io) ata_content glue_inv v1"
    and l: "lview ata_content v1 = lview ata_content v" by (auto simp: ata.kept_def)
  show ?case
    unfolding wp_bnd[of "gets _"] wp_gets
    by (rule wp_bndI[OF ata.sync_buf_wp[OF c]]) (use 1 l in \<open>auto simp: wp_ret ata.kept_def\<close>)
qed (auto simp: ata.kept_def)

definition demo_glue :: "ata glue" where
  "demo_glue = \<lparr>gl_hw = demo_ata, gl_disks = [ata_disk 1000], g_disk_id = 0, g_base_lba = 64\<rparr>"

definition demo_ata_vol :: "ata glue vol" where
  "demo_ata_vol = \<lparr>fat_next = None, fat_ops = fat32_ops ata_io, clust_msk = 0, clust_cnt = 128,
     info_sect = 1, fat_sect0 = 32, fat_sect1 = 48, data_sect = 64, root_clust = 2,
     last_used = 5, free_cnt = 122, buf_sect = 0, fat_buf = replicate 512 0, fat_flags = 0,
     clust_shift = 0, fat_name_len = 0, fat_name = [], dev = demo_glue\<rparr>"

theorem ata_cache_transparent_witness:
  "wp (bnd (update_buf 5) (\<lambda>_. bnd (gets fat_buf) (\<lambda>b. bnd sync_buf (\<lambda>_. ret b))))
    (\<lambda>b v'. b = ata_sector demo_ata 69) (\<lambda>e v'. e = FAT_ERR_IO) demo_ata_vol"
proof -
  have c: "cache_ok (fat32_ops ata_io) ata_content glue_inv demo_ata_vol"
    by (auto simp: cache_ok_def demo_ata_vol_def buf_dirty_def glue_inv_def demo_glue_def demo_ata_inv
        glue_sectors_def)
  have "lview ata_content demo_ata_vol 5 = ata_sector demo_ata 69"
    by (simp add: lview_def demo_ata_vol_def ata_content_def demo_glue_def glue_sectors_def)
  then show ?thesis
    by (intro wp_conseq[OF ata_cache_transparent[OF c]]) simp_all
qed

end
