(* ===== verification/Kernel_Console.thy ===== *)
theory Kernel_Console
  imports Prelude
begin

text \<open>
  The console of \<open>kernel/driver/image.c\<close>: text drawn with a bitmap font into the linear
  framebuffer.  The framebuffer memory is a function from the index of a 32-bit word behind
  \<open>fb.base\<close>, without an end, so that a store behind the screen would show.  The cursor
  \<open>dsp_x\<close>, \<open>dsp_y\<close> is a \<open>long\<close> in C, which cannot overflow here; everything that is an
  \<open>unsigned int\<close> wraps at 32 bits.
\<close>

subsection \<open>The state\<close>

text \<open>\<open>psf_byte\<close> are the bytes of the font file from its header on.\<close>

record psf_header =
  psf_headersize :: u32
  psf_length :: u32
  psf_charsize :: u32
  psf_height :: u32
  psf_width :: u32
  psf_byte :: "nat \<Rightarrow> u8"

record framebuf_info =
  fb_width :: u32
  fb_height :: u32
  fb_pitch :: u32
  fb_rmask :: u32
  fb_gmask :: u32
  fb_bmask :: u32

record console =
  dsp_y :: int
  dsp_x :: int
  con_font :: psf_header
  con_bg :: u32
  con_fg :: u32
  con_fb :: framebuf_info
  con_mem :: "nat \<Rightarrow> u32"

subsection \<open>Scrolling\<close>

definition fill_words :: "nat list \<Rightarrow> u32 \<Rightarrow> (nat \<Rightarrow> u32) \<Rightarrow> nat \<Rightarrow> u32" where
  "fill_words is c m = fold (\<lambda>i m. m(i := c)) is m"

text \<open>\<open>memmove\<close> of \<open>n\<close> words from word \<open>k\<close> to word 0.\<close>

definition move_words :: "nat \<Rightarrow> nat \<Rightarrow> (nat \<Rightarrow> u32) \<Rightarrow> nat \<Rightarrow> u32" where
  "move_words k n m = (\<lambda>i. if i < n then m (i + k) else m i)"

definition scroll_up :: "console \<Rightarrow> console" where
  "scroll_up s =
     (let fbi = con_fb s; f = con_font s;
          total_fb = ucast (fb_height fbi * fb_pitch fbi div 4) :: u64;
          line = psf_height f * fb_pitch fbi div 4;
          m = move_words (unat line) (unat (total_fb - ucast line)) (con_mem s)
      in s\<lparr>con_mem := fill_words (map (\<lambda>i. unat (total_fb - word_of_nat i)) [1..<unat line + 1]) (con_bg s) m,
           dsp_y := dsp_y s - uint (psf_height f), dsp_x := 0\<rparr>)"

definition check_scroll_or_new_line :: "console \<Rightarrow> console" where
  "check_scroll_or_new_line s =
     (let f = con_font s; fbi = con_fb s;
          s1 = (if dsp_x s + uint (psf_width f) > uint (fb_width fbi)
                then s\<lparr>dsp_y := dsp_y s + uint (psf_height f), dsp_x := 0\<rparr> else s)
      in if dsp_y s1 + uint (psf_height f) > uint (fb_height fbi) then scroll_up s1 else s1)"

definition dsp_clear :: "console \<Rightarrow> console" where
  "dsp_clear s =
     (let fbi = con_fb s; total = fb_pitch fbi div 4 * fb_height fbi
      in s\<lparr>con_mem := fill_words [0..<unat total] (con_bg s) (con_mem s), dsp_x := 0, dsp_y := 0\<rparr>)"

definition dsp_init :: "psf_header \<Rightarrow> framebuf_info \<Rightarrow> console \<Rightarrow> console" where
  "dsp_init f framebuffer s = dsp_clear (s\<lparr>con_font := f, con_fb := framebuffer\<rparr>)"

subsection \<open>Characters\<close>

text \<open>Line \<open>i\<close> of a glyph: one or two bytes, and no pixel at all for a wider font.\<close>

definition glyph_line :: "psf_header \<Rightarrow> u8 \<Rightarrow> u32 \<Rightarrow> u16" where
  "glyph_line f glyph i =
     (let at = (\<lambda>k. psf_byte f (unat (psf_headersize f) + unat (ucast glyph * psf_charsize f) + unat k));
          bytes_per_line = psf_charsize f div psf_height f
      in if bytes_per_line = 1 then ucast (at i)
         else if bytes_per_line = 2 then push_bit 8 (ucast (at (i * 2))) OR ucast (at (i * 2 + 1))
         else 0)"

text \<open>\<open>line & (0x8000 >> j)\<close>.\<close>

definition line_bit :: "u16 \<Rightarrow> nat \<Rightarrow> bool" where
  "line_bit l j \<longleftrightarrow> ucast l AND drop_bit j (0x8000 :: u32) \<noteq> 0"

definition draw_pixel :: "console \<Rightarrow> u8 \<Rightarrow> nat \<times> nat \<Rightarrow> (nat \<Rightarrow> u32) \<Rightarrow> nat \<Rightarrow> u32" where
  "draw_pixel s glyph = (\<lambda>(i, j) m.
     let fbi = con_fb s;
         color = (if line_bit (glyph_line (con_font s) glyph (word_of_nat i)) j then con_fg s else con_bg s);
         screen_x = word_of_int (dsp_x s) + word_of_nat j :: u32;
         screen_y = word_of_int (dsp_y s) + word_of_nat i :: u32
     in if screen_x < fb_width fbi \<and> screen_y < fb_height fbi
        then m(unat (screen_y * (fb_pitch fbi div 4) + screen_x) := color) else m)"

definition draw_glyph :: "u8 \<Rightarrow> console \<Rightarrow> console" where
  "draw_glyph glyph s =
     (let f = con_font s
      in s\<lparr>con_mem := fold (draw_pixel s glyph)
           (List.product [0..<unat (psf_height f)] [0..<unat (psf_width f)]) (con_mem s)\<rparr>)"

definition dsp_putchar :: "u8 \<Rightarrow> console \<Rightarrow> console" where
  "dsp_putchar c s0 =
     (let s = check_scroll_or_new_line s0; f = con_font s; w = uint (psf_width f)
      in if c = 0x0a then s\<lparr>dsp_y := dsp_y s + uint (psf_height f), dsp_x := 0\<rparr>
         else if c = 0x09 then s\<lparr>dsp_x := dsp_x s + uint (psf_width f * 4)\<rparr>
         else
           let is_b = (c = 0x08);
               s = (if is_b \<and> dsp_x s \<ge> w then s\<lparr>dsp_x := dsp_x s - w\<rparr> else s);
               c = (if is_b then 0x20 else c)
           in if c = 0x0d then s\<lparr>dsp_x := 0\<rparr>
              else
                let glyph = (if ucast c \<ge> psf_length f then 0x3f else c);
                    s = draw_glyph glyph s
                in if is_b then s else s\<lparr>dsp_x := dsp_x s + w\<rparr>)"

definition dsp_print :: "u8 list \<Rightarrow> console \<Rightarrow> console" where
  "dsp_print str s = fold dsp_putchar str s"

subsection \<open>Numbers, colours, cursor\<close>

text \<open>The digits in \<open>buffer\<close>, lowest first.\<close>

function dec_digits :: "nat \<Rightarrow> u8 list" where
  "dec_digits k = (0x30 + word_of_nat (k mod 10)) # (if k div 10 > 0 then dec_digits (k div 10) else [])"
  by pat_completeness auto
termination
  by (relation "measure id") auto

declare dec_digits.simps [simp del]

text \<open>\<open>-num\<close> of the smallest \<open>int\<close> wraps.\<close>

definition dsp_print_dec :: "u32 \<Rightarrow> console \<Rightarrow> console" where
  "dsp_print_dec num s =
     (if sint num < 0 then dsp_print (rev (dec_digits (unat (- num)))) (dsp_putchar 0x2d s)
      else dsp_print (rev (dec_digits (unat num))) s)"

definition hex_chars :: "u8 list" where
  "hex_chars = map word_of_nat ([48..<58] @ [97..<103])"

definition hex_digits :: "u64 \<Rightarrow> u8 list" where
  "hex_digits v = map (\<lambda>i. hex_chars ! unat (drop_bit (60 - i * 4) v AND 0xf)) [0..<16]"

definition dsp_print_hex :: "u64 \<Rightarrow> console \<Rightarrow> console" where
  "dsp_print_hex v = dsp_print ([0x30, 0x78] @ hex_digits v)"

definition dsp_set_color :: "u32 \<Rightarrow> u32 \<Rightarrow> console \<Rightarrow> console" where
  "dsp_set_color col_fg col_bg s =
     (let b = con_fb s
      in s\<lparr>con_fg := (col_fg AND fb_rmask b) OR (col_fg AND fb_gmask b) OR (col_fg AND fb_bmask b),
           con_bg := (col_bg AND fb_rmask b) OR (col_bg AND fb_gmask b) OR (col_bg AND fb_bmask b)\<rparr>)"

definition dsp_set_cursor :: "u32 \<Rightarrow> u32 \<Rightarrow> console \<Rightarrow> console" where
  "dsp_set_cursor x y s =
     s\<lparr>dsp_x := (if x \<noteq> 0 then uint (x * psf_width (con_font s)) else dsp_x s),
       dsp_y := (if y \<noteq> 0 then uint (y * psf_height (con_font s)) else dsp_y s)\<rparr>"

subsection \<open>Geometry\<close>

text \<open>The sizes as numbers; \<open>con_pw\<close> is the number of words from one line of pixels to the next.\<close>

abbreviation con_w :: "console \<Rightarrow> nat" where "con_w s \<equiv> unat (fb_width (con_fb s))"
abbreviation con_h :: "console \<Rightarrow> nat" where "con_h s \<equiv> unat (fb_height (con_fb s))"
abbreviation con_fw :: "console \<Rightarrow> nat" where "con_fw s \<equiv> unat (psf_width (con_font s))"
abbreviation con_fh :: "console \<Rightarrow> nat" where "con_fh s \<equiv> unat (psf_height (con_font s))"
abbreviation con_pw :: "console \<Rightarrow> nat" where "con_pw s \<equiv> unat (fb_pitch (con_fb s)) div 4"

definition con_geom :: "console \<Rightarrow> bool" where
  "con_geom s \<longleftrightarrow> 0 < con_fw s \<and> con_fw s \<le> con_w s \<and> 0 < con_fh s \<and> con_fh s \<le> con_h s
     \<and> con_w s \<le> con_pw s \<and> unat (fb_pitch (con_fb s)) mod 4 = 0
     \<and> con_h s * unat (fb_pitch (con_fb s)) < 2 ^ 32"

definition same_geom :: "console \<Rightarrow> console \<Rightarrow> bool" where
  "same_geom s t \<longleftrightarrow> con_fb t = con_fb s \<and> con_font t = con_font s"

lemma same_geom_geom: "same_geom s t \<Longrightarrow> con_geom t = con_geom s"
  by (simp add: same_geom_def con_geom_def)

lemma same_geom_refl [simp]: "same_geom s s"
  by (simp add: same_geom_def)

lemma same_geom_trans: "same_geom s t \<Longrightarrow> same_geom t u \<Longrightarrow> same_geom s u"
  by (simp add: same_geom_def)

lemma con_words:
  assumes "con_geom s" and "n \<le> con_h s"
  shows "unat (word_of_nat n * fb_pitch (con_fb s) div 4 :: u32) = n * con_pw s"
proof -
  define p where "p = unat (fb_pitch (con_fb s))"
  have p: "p mod 4 = 0" "con_h s * p < 2 ^ 32" using assms(1) by (simp_all add: con_geom_def p_def)
  have le: "n * p \<le> con_h s * p" using assms(2) by simp
  then have "n * p < 2 ^ 32" using p(2) by linarith
  then have "unat (word_of_nat n * fb_pitch (con_fb s)) = n * p"
    by (simp add: p_def unat_word_ariths unat_of_nat take_bit_eq_mod mod_simps)
  then have "unat (word_of_nat n * fb_pitch (con_fb s) div 4 :: u32) = n * p div 4" by (simp add: unat_div)
  moreover have "n * p div 4 = n * (p div 4)" using p(1) by (metis div_mult_swap dvd_eq_mod_eq_0)
  ultimately show ?thesis by (simp add: p_def)
qed

lemma con_total:
  assumes "con_geom s"
  shows "unat (fb_height (con_fb s) * fb_pitch (con_fb s) div 4) = con_h s * con_pw s"
    "unat (psf_height (con_font s) * fb_pitch (con_fb s) div 4) = con_fh s * con_pw s"
    "con_h s * con_pw s < 2 ^ 32" "con_fh s * con_pw s \<le> con_h s * con_pw s"
proof -
  have fh: "con_fh s \<le> con_h s" using assms by (simp add: con_geom_def)
  show "unat (fb_height (con_fb s) * fb_pitch (con_fb s) div 4) = con_h s * con_pw s"
    using con_words[OF assms le_refl] by simp
  show "unat (psf_height (con_font s) * fb_pitch (con_fb s) div 4) = con_fh s * con_pw s"
    using con_words[OF assms fh] by simp
  have "con_h s * con_pw s \<le> con_h s * unat (fb_pitch (con_fb s))" by (rule mult_le_mono2) simp
  moreover have "con_h s * unat (fb_pitch (con_fb s)) < 2 ^ 32" using assms by (simp add: con_geom_def)
  ultimately show "con_h s * con_pw s < 2 ^ 32" by linarith
  show "con_fh s * con_pw s \<le> con_h s * con_pw s" using fh by (rule mult_le_mono1)
qed

subsection \<open>Memory\<close>

lemma fill_words_at: "fill_words is c m a = (if a \<in> set is then c else m a)"
  unfolding fill_words_def by (induction "is" arbitrary: m) auto

lemma rows_cut: "(n :: nat) \<le> h \<Longrightarrow> h * p - n * p = (h - n) * p"
  by (simp add: diff_mult_distrib)

lemma scroll_up_mem:
  assumes "con_geom s"
  shows "con_mem (scroll_up s) a =
    (if a < (con_h s - con_fh s) * con_pw s then con_mem s (a + con_fh s * con_pw s)
     else if a < con_h s * con_pw s then con_bg s else con_mem s a)"
proof -
  note t = con_total[OF assms]
  define tot where "tot = con_h s * con_pw s"
  define ln where "ln = con_fh s * con_pw s"
  define T where "T = (ucast (fb_height (con_fb s) * fb_pitch (con_fb s) div 4) :: u64)"
  define L where "L = psf_height (con_font s) * fb_pitch (con_fb s) div 4"
  have T: "unat T = tot" using t(1) by (simp add: T_def tot_def unat_ucast_u64)
  have L: "unat L = ln" using t(2) by (simp add: L_def ln_def)
  have uL: "unat (ucast L :: u64) = ln" using L by (simp add: unat_ucast_u64)
  have le: "ln \<le> tot" "tot < 2 ^ 32" using t(3,4) by (simp_all add: ln_def tot_def)
  have d: "unat (T - ucast L) = tot - ln"
    using le uL T by (simp add: unat_sub word_le_nat_alt)
  have i: "unat (T - word_of_nat k) = tot - k" if "k \<le> ln" for k
  proof -
    have "unat (word_of_nat k :: u64) = k" using that le by (simp add: unat_of_nat take_bit_eq_mod)
    then show ?thesis using that le T by (simp add: unat_sub word_le_nat_alt)
  qed
  define ks where "ks = map (\<lambda>i. unat (T - word_of_nat i)) [1..<ln + 1]"
  have "set ks = (\<lambda>k. tot - k) ` {1..ln}"
    unfolding ks_def set_map set_upt by (rule image_cong) (auto simp: i)
  also have "\<dots> = {tot - ln..<tot}"
  proof
    show "{tot - ln..<tot} \<subseteq> (\<lambda>k. tot - k) ` {1..ln}"
    proof
      fix x assume "x \<in> {tot - ln..<tot}"
      then have "x = tot - (tot - x)" "tot - x \<in> {1..ln}" by auto
      then show "x \<in> (\<lambda>k. tot - k) ` {1..ln}" by blast
    qed
  qed (use le in auto)
  finally have st: "set ks = {tot - ln..<tot}" .
  have c: "tot - ln = (con_h s - con_fh s) * con_pw s"
    using assms rows_cut[of "con_fh s" "con_h s" "con_pw s"] by (simp add: tot_def ln_def con_geom_def)
  have "con_mem (scroll_up s) a = (if a \<in> {tot - ln..<tot} then con_bg s
      else if a < tot - ln then con_mem s (a + ln) else con_mem s a)"
    unfolding scroll_up_def Let_def T_def[symmetric] L_def[symmetric] L d ks_def[symmetric]
    by (simp add: fill_words_at st move_words_def)
  then show ?thesis using le unfolding c[symmetric] tot_def[symmetric] ln_def[symmetric] by auto
qed

lemma scroll_up_fields [simp]:
  "con_fb (scroll_up s) = con_fb s" "con_font (scroll_up s) = con_font s" "con_fg (scroll_up s) = con_fg s"
  "con_bg (scroll_up s) = con_bg s" "dsp_x (scroll_up s) = 0" "dsp_y (scroll_up s) = dsp_y s - int (con_fh s)"
  by (simp_all add: scroll_up_def Let_def)

lemma fold_writes:
  assumes "\<And>k m. k \<in> set ks \<Longrightarrow> g k m a = (if Q k then v else m a)"
  shows "fold g ks m a = (if \<exists>k \<in> set ks. Q k then v else m a)"
  using assms
proof (induction ks arbitrary: m)
  case (Cons k ks)
  have "fold g (k # ks) m a = (if \<exists>k \<in> set ks. Q k then v else g k m a)" using Cons by simp
  then show ?case using Cons.prems[of k m] by auto
qed simp

lemma cell_index:
  assumes "con_geom s" and "(x :: u32) < fb_width (con_fb s)" and "(y :: u32) < fb_height (con_fb s)"
  shows "unat (y * (fb_pitch (con_fb s) div 4) + x) = unat y * con_pw s + unat x"
    "unat y * con_pw s + unat x < con_h s * con_pw s"
proof -
  have xy: "unat x < con_w s" "unat y < con_h s" using assms(2,3) by (simp_all add: word_less_nat_alt)
  have w: "con_w s \<le> con_pw s" using assms(1) by (simp add: con_geom_def)
  have "unat y * con_pw s + con_pw s \<le> con_h s * con_pw s"
    using mult_le_mono1[of "unat y + 1" "con_h s" "con_pw s"] xy(2) by simp
  then show lt: "unat y * con_pw s + unat x < con_h s * con_pw s" using xy(1) w by linarith
  then show "unat (y * (fb_pitch (con_fb s) div 4) + x) = unat y * con_pw s + unat x"
    using con_total(3)[OF assms(1)] by (simp add: unat_word_ariths unat_div mod_simps)
qed

lemma cell_inj:
  assumes "(x :: nat) < p" and "x' < p" and "y * p + x = y' * p + x'"
  shows "x = x' \<and> y = y'"
  using assms by (metis add.commute add_diff_cancel_right' div_mult_self1_is_m div_mult_self3 mod_less mod_mult_self2 mult.commute
      less_nat_zero_code mod_mult_self1)

subsection \<open>Nothing outside the screen is written\<close>

text \<open>The words behind the last line of pixels.\<close>

definition con_frame :: "console \<Rightarrow> console \<Rightarrow> bool" where
  "con_frame s t \<longleftrightarrow> same_geom s t \<and> (\<forall>a \<ge> con_h s * con_pw s. con_mem t a = con_mem s a)"

lemma con_frame_refl [simp]: "con_frame s s"
  by (simp add: con_frame_def)

lemma con_frame_trans: "con_frame s t \<Longrightarrow> con_frame t u \<Longrightarrow> con_frame s u"
  by (auto simp: con_frame_def same_geom_def)

lemma con_frame_geom: "con_frame s t \<Longrightarrow> con_geom s \<Longrightarrow> con_geom t"
  using same_geom_geom unfolding con_frame_def by blast

lemma con_frame_upd [simp]:
  "con_frame s (t\<lparr>dsp_x := x\<rparr>) = con_frame s t" "con_frame s (t\<lparr>dsp_y := y\<rparr>) = con_frame s t"
  "con_frame s (t\<lparr>con_fg := c\<rparr>) = con_frame s t" "con_frame s (t\<lparr>con_bg := c\<rparr>) = con_frame s t"
  "con_frame (s\<lparr>dsp_x := x\<rparr>) t = con_frame s t" "con_frame (s\<lparr>dsp_y := y\<rparr>) t = con_frame s t"
  by (simp_all add: con_frame_def same_geom_def)

lemma scroll_up_frame: "con_geom s \<Longrightarrow> con_frame s (scroll_up s)"
proof -
  assume g: "con_geom s"
  have "(con_h s - con_fh s) * con_pw s \<le> con_h s * con_pw s" by (rule mult_le_mono1) simp
  then have "\<not> a < (con_h s - con_fh s) * con_pw s" if "a \<ge> con_h s * con_pw s" for a using that by linarith
  then show "con_frame s (scroll_up s)"
    using g by (simp add: con_frame_def same_geom_def scroll_up_mem)
qed

lemma check_scroll_frame: "con_geom s \<Longrightarrow> con_frame s (check_scroll_or_new_line s)"
  using scroll_up_frame[of s] scroll_up_frame[of "s\<lparr>dsp_y := dsp_y s + uint (psf_height (con_font s)), dsp_x := 0\<rparr>"]
  by (simp add: check_scroll_or_new_line_def Let_def con_geom_def)

lemma draw_pixel_out: "con_geom s \<Longrightarrow> a \<ge> con_h s * con_pw s \<Longrightarrow> draw_pixel s g k m a = m a"
  using cell_index[of s] by (fastforce simp: draw_pixel_def Let_def split: prod.splits)

lemma draw_glyph_frame: "con_geom s \<Longrightarrow> con_frame s (draw_glyph g s)"
  using fold_writes[of _ "draw_pixel s g" _ "\<lambda>_. False"]
  by (auto simp: con_frame_def same_geom_def draw_glyph_def Let_def draw_pixel_out)

lemma dsp_putchar_frame:
  assumes "con_geom s"
  shows "con_frame s (dsp_putchar c s)"
proof -
  let ?t = "check_scroll_or_new_line s"
  have f: "con_frame s ?t" by (rule check_scroll_frame[OF assms])
  note g = con_frame_geom[OF f assms]
  have d: "con_frame s (draw_glyph k (if b then ?t\<lparr>dsp_x := x\<rparr> else ?t))" for k b x
    by (rule con_frame_trans[OF f]) (use g draw_glyph_frame[of ?t k] draw_glyph_frame[of "?t\<lparr>dsp_x := x\<rparr>" k] in \<open>simp add: con_geom_def\<close>)
  have e: "con_frame s (draw_glyph k ?t)" for k using d[of k False] by simp
  show ?thesis
    using f e d[of _ True] by (simp add: dsp_putchar_def Let_def)
qed

subsection \<open>The screen as a plane of pixels\<close>

record tty =
  t_pix :: "nat \<Rightarrow> nat \<Rightarrow> u32"
  t_x :: nat
  t_y :: nat

text \<open>What a screen of \<open>w\<close> times \<open>h\<close> pixels and a font of \<open>fw\<close> times \<open>fh\<close> pixels does.\<close>

record tty_conf =
  tc_w :: nat
  tc_h :: nat
  tc_font :: psf_header
  tc_fg :: u32
  tc_bg :: u32

abbreviation tc_fw :: "tty_conf \<Rightarrow> nat" where "tc_fw k \<equiv> unat (psf_width (tc_font k))"
abbreviation tc_fh :: "tty_conf \<Rightarrow> nat" where "tc_fh k \<equiv> unat (psf_height (tc_font k))"

text \<open>Pixel \<open>j\<close> of line \<open>i\<close> of a glyph: the bytes of a line from left to right, the highest bit of
  a byte leftmost.  In a font of one byte to the line the byte lands in pixels 8 to 15.\<close>

definition glyph_pix :: "psf_header \<Rightarrow> u8 \<Rightarrow> nat \<Rightarrow> nat \<Rightarrow> bool" where
  "glyph_pix f g i j \<longleftrightarrow>
     (let off = unat (psf_headersize f) + unat g * unat (psf_charsize f);
          bpl = unat (psf_charsize f) div unat (psf_height f)
      in if bpl = 1 then 8 \<le> j \<and> j < 16 \<and> bit (psf_byte f (off + i)) (15 - j)
         else if bpl = 2 then
           (if j < 8 then bit (psf_byte f (off + 2 * i)) (7 - j)
            else j < 16 \<and> bit (psf_byte f (off + 2 * i + 1)) (15 - j))
         else False)"

definition tty_scroll :: "tty_conf \<Rightarrow> tty \<Rightarrow> tty" where
  "tty_scroll k t = t\<lparr>t_pix := (\<lambda>x y. if x < tc_w k \<and> y < tc_h k
       then (if y < tc_h k - tc_fh k then t_pix t x (y + tc_fh k) else tc_bg k) else 0),
     t_x := 0, t_y := t_y t - tc_fh k\<rparr>"

definition tty_fit :: "tty_conf \<Rightarrow> tty \<Rightarrow> tty" where
  "tty_fit k t =
     (let t = (if t_x t + tc_fw k > tc_w k then t\<lparr>t_x := 0, t_y := t_y t + tc_fh k\<rparr> else t)
      in if t_y t + tc_fh k > tc_h k then tty_scroll k t else t)"

definition tty_draw :: "tty_conf \<Rightarrow> u8 \<Rightarrow> tty \<Rightarrow> tty" where
  "tty_draw k g t = t\<lparr>t_pix := (\<lambda>x y.
     if t_x t \<le> x \<and> x < t_x t + tc_fw k \<and> t_y t \<le> y \<and> y < t_y t + tc_fh k
     then (if glyph_pix (tc_font k) g (y - t_y t) (x - t_x t) then tc_fg k else tc_bg k)
     else t_pix t x y)\<rparr>"

definition tty_glyph :: "tty_conf \<Rightarrow> u8 \<Rightarrow> u8" where
  "tty_glyph k c = (if unat c < unat (psf_length (tc_font k)) then c else 0x3f)"

definition tty_put :: "tty_conf \<Rightarrow> u8 \<Rightarrow> tty \<Rightarrow> tty" where
  "tty_put k c t0 =
     (let t = tty_fit k t0
      in if c = 0x0a then t\<lparr>t_x := 0, t_y := t_y t + tc_fh k\<rparr>
         else if c = 0x09 then t\<lparr>t_x := t_x t + 4 * tc_fw k\<rparr>
         else if c = 0x0d then t\<lparr>t_x := 0\<rparr>
         else if c = 0x08 then
           tty_draw k (tty_glyph k 0x20) (if tc_fw k \<le> t_x t then t\<lparr>t_x := t_x t - tc_fw k\<rparr> else t)
         else (let u = tty_draw k (tty_glyph k c) t in u\<lparr>t_x := t_x u + tc_fw k\<rparr>))"

definition con_conf :: "console \<Rightarrow> tty_conf" where
  "con_conf s = \<lparr>tc_w = con_w s, tc_h = con_h s, tc_font = con_font s, tc_fg = con_fg s, tc_bg = con_bg s\<rparr>"

definition con_abs :: "console \<Rightarrow> tty" where
  "con_abs s = \<lparr>t_pix = (\<lambda>x y. if x < con_w s \<and> y < con_h s then con_mem s (y * con_pw s + x) else 0),
     t_x = nat (dsp_x s), t_y = nat (dsp_y s)\<rparr>"

text \<open>The font's glyphs lie below \<open>2 ^ 32\<close>, and the cursor is at a text line: on the screen, or at
  the start of the line behind the last one.\<close>

definition con_ok :: "console \<Rightarrow> bool" where
  "con_ok s \<longleftrightarrow> con_geom s \<and> 256 * unat (psf_charsize (con_font s)) < 2 ^ 32
     \<and> 0 \<le> dsp_x s \<and> 0 \<le> dsp_y s \<and> con_fh s dvd nat (dsp_y s)
     \<and> (nat (dsp_y s) + con_fh s \<le> con_h s \<or> dsp_x s = 0 \<and> nat (dsp_y s) \<le> con_h s)"

text \<open>After the check for the margins a character fits.\<close>

definition con_fits :: "console \<Rightarrow> bool" where
  "con_fits s \<longleftrightarrow> con_ok s \<and> nat (dsp_x s) + con_fw s \<le> con_w s \<and> nat (dsp_y s) + con_fh s \<le> con_h s"

lemma con_conf_simps [simp]:
  "tc_w (con_conf s) = con_w s" "tc_h (con_conf s) = con_h s" "tc_font (con_conf s) = con_font s"
  "tc_fg (con_conf s) = con_fg s" "tc_bg (con_conf s) = con_bg s"
  by (simp_all add: con_conf_def)

lemma con_geom_upd [simp]:
  "con_geom (s\<lparr>dsp_x := x\<rparr>) = con_geom s" "con_geom (s\<lparr>dsp_y := y\<rparr>) = con_geom s"
  by (simp_all add: con_geom_def)

lemma con_abs_upd:
  "0 \<le> x \<Longrightarrow> con_abs (s\<lparr>dsp_x := x\<rparr>) = (con_abs s)\<lparr>t_x := nat x\<rparr>"
  "con_abs (s\<lparr>dsp_y := y\<rparr>) = (con_abs s)\<lparr>t_y := nat y\<rparr>"
  by (simp_all add: con_abs_def fun_eq_iff)

lemma nat_sub_uint: "nat (a - uint (b :: u32)) = nat a - unat b" "0 \<le> a \<Longrightarrow> nat (a + uint b) = nat a + unat b"
  unfolding uint_nat by arith+

lemma con_abs_fields [simp]: "t_x (con_abs s) = nat (dsp_x s)" "t_y (con_abs s) = nat (dsp_y s)"
  by (simp_all add: con_abs_def)

lemma scroll_up_abs:
  assumes "con_geom s"
  shows "con_abs (scroll_up s) = tty_scroll (con_conf s) (con_abs s)"
proof -
  have fh: "con_fh s \<le> con_h s" and w: "con_w s \<le> con_pw s" using assms by (simp_all add: con_geom_def)
  have "con_mem (scroll_up s) (y * con_pw s + x) =
      (if y < con_h s - con_fh s then con_mem s ((y + con_fh s) * con_pw s + x) else con_bg s)"
    if "x < con_w s" "y < con_h s" for x y
  proof -
    have x: "x < con_pw s" using that w by simp
    have le: "y * con_pw s + x < n * con_pw s \<longleftrightarrow> y < n" for n
    proof
      assume "y < n"
      then have "(y + 1) * con_pw s \<le> n * con_pw s" by (intro mult_le_mono1) simp
      then show "y * con_pw s + x < n * con_pw s" using x by (simp add: algebra_simps)
    next
      assume a: "y * con_pw s + x < n * con_pw s"
      have "n * con_pw s \<le> y * con_pw s" if "\<not> y < n" using that by (intro mult_le_mono1) simp
      then show "y < n" using a by linarith
    qed
    show ?thesis unfolding scroll_up_mem[OF assms] le using that(2) by (simp add: algebra_simps)
  qed
  then have "t_pix (con_abs (scroll_up s)) = t_pix (tty_scroll (con_conf s) (con_abs s))"
    using fh by (auto simp: con_abs_def tty_scroll_def fun_eq_iff)
  then have "con_abs (scroll_up s) = (con_abs (scroll_up s))\<lparr>t_pix := t_pix (tty_scroll (con_conf s) (con_abs s))\<rparr>" by simp
  also have "\<dots> = tty_scroll (con_conf s) (con_abs s)" by (simp add: con_abs_def tty_scroll_def nat_sub_uint)
  finally show ?thesis .
qed

lemma check_scroll_abs:
  assumes "con_ok s"
  shows "con_abs (check_scroll_or_new_line s) = tty_fit (con_conf s) (con_abs s)"
    "con_fits (check_scroll_or_new_line s)" "con_conf (check_scroll_or_new_line s) = con_conf s"
proof -
  have g: "con_geom s" and x: "0 \<le> dsp_x s" and y: "0 \<le> dsp_y s" using assms by (simp_all add: con_ok_def)
  let ?s1 = "s\<lparr>dsp_y := dsp_y s + uint (psf_height (con_font s)), dsp_x := 0\<rparr>"
  have c: "dsp_x s + uint (psf_width (con_font s)) > uint (fb_width (con_fb s)) \<longleftrightarrow> nat (dsp_x s) + con_fw s > con_w s"
    "dsp_y s + uint (psf_height (con_font s)) > uint (fb_height (con_fb s)) \<longleftrightarrow> nat (dsp_y s) + con_fh s > con_h s"
    "dsp_y s + uint (psf_height (con_font s)) + uint (psf_height (con_font s)) > uint (fb_height (con_fb s))
      \<longleftrightarrow> nat (dsp_y s) + con_fh s + con_fh s > con_h s"
    using x y unfolding uint_nat by linarith+
  have a: "con_abs ?s1 = (con_abs s)\<lparr>t_x := 0, t_y := nat (dsp_y s) + con_fh s\<rparr>" "con_conf ?s1 = con_conf s"
    using y by (simp_all add: con_abs_def con_conf_def nat_sub_uint fun_eq_iff)
  have e: "check_scroll_or_new_line s =
      (if nat (dsp_x s) + con_fw s > con_w s
       then if nat (dsp_y s) + con_fh s + con_fh s > con_h s then scroll_up ?s1 else ?s1
       else if nat (dsp_y s) + con_fh s > con_h s then scroll_up s else s)"
    using c by (cases "con_w s < nat (dsp_x s) + con_fw s") (simp_all add: check_scroll_or_new_line_def Let_def)
  have ss: "con_abs (scroll_up s) = tty_scroll (con_conf s) (con_abs s)" by (rule scroll_up_abs[OF g])
  have "con_geom ?s1" using g by simp
  from scroll_up_abs[OF this] have ss1: "con_abs (scroll_up ?s1) = tty_scroll (con_conf s) (con_abs ?s1)" unfolding a(2) .
  show "con_abs (check_scroll_or_new_line s) = tty_fit (con_conf s) (con_abs s)"
    unfolding e tty_fit_def Let_def by (simp add: ss ss1[unfolded a(1)] a(1))
  show "con_conf (check_scroll_or_new_line s) = con_conf s" unfolding e by (simp add: con_conf_def)
  have sz: "0 < con_fw s" "con_fw s \<le> con_w s" "0 < con_fh s" "con_fh s \<le> con_h s" "con_fh s dvd nat (dsp_y s)"
    "256 * unat (psf_charsize (con_font s)) < 2 ^ 32"
    "nat (dsp_y s) + con_fh s \<le> con_h s \<or> dsp_x s = 0 \<and> nat (dsp_y s) \<le> con_h s"
    using assms by (simp_all add: con_ok_def con_geom_def)
  have up: "con_fh s \<le> nat (dsp_y s)" if "nat (dsp_y s) + con_fh s > con_h s"
    using sz that by (intro dvd_imp_le) auto
  have sg: "con_geom (scroll_up s)" "con_geom (scroll_up ?s1)"
    using g same_geom_geom[of s "scroll_up s"] same_geom_geom[of s "scroll_up ?s1"] by (simp_all add: same_geom_def)
  have le: "uint (psf_height (con_font s)) \<le> dsp_y s \<longleftrightarrow> con_fh s \<le> nat (dsp_y s)"
    using y unfolding uint_nat by linarith
  show "con_fits (check_scroll_or_new_line s)"
    unfolding e con_fits_def con_ok_def using sz g sg up x y
    by (auto simp: nat_sub_uint le le_diff_conv)
qed

lemma line_bit: "line_bit l j \<longleftrightarrow> j < 16 \<and> bit l (15 - j)"
proof -
  define k where "k = (0x8000 :: u32)"
  have b: "bit k n \<longleftrightarrow> n = 15" for n
  proof -
    have "k = 2 ^ 15" by (simp add: k_def)
    then show ?thesis using bit_exp_iff[of 15 n, where ?'a = u32] by auto
  qed
  have "ucast l AND drop_bit j k = (if j < 16 \<and> bit l (15 - j) then 2 ^ (15 - j) else 0)"
    by (rule bit_word_eqI) (auto simp: bit_and_iff bit_drop_bit_eq b bit_ucast_iff bit_exp_iff, metis diff_add_inverse)
  then show ?thesis by (auto simp: line_bit_def k_def)
qed

lemma glyph_line_pix:
  assumes g: "256 * unat (psf_charsize f) < 2 ^ 32" "0 < unat (psf_height f)" and i: "i < unat (psf_height f)"
  shows "line_bit (glyph_line f c (word_of_nat i)) j = glyph_pix f c i j"
proof -
  have bpl: "psf_charsize f div psf_height f = word_of_nat n \<longleftrightarrow> unat (psf_charsize f) div unat (psf_height f) = n"
    if "n < 256" for n
    using that by (simp add: word_unat_eq_iff unat_div unat_of_nat take_bit_eq_mod)
  have c: "unat c < 256" using unsigned_less[of c, where ?'a = nat] by simp
  then have "unat c * unat (psf_charsize f) \<le> 256 * unat (psf_charsize f)" by (intro mult_le_mono1) simp
  then have lt: "unat c * unat (psf_charsize f) < 2 ^ 32" using g(1) by linarith
  then have off: "unat (ucast c * psf_charsize f :: u32) = unat c * unat (psf_charsize f)"
    using c by (simp add: unat_word_ariths unsigned_ucast_eq take_bit_nat_eq_self)
  have i32: "i < 2 ^ 32" using i unsigned_less[of "psf_height f", where ?'a = nat] by simp
  have i1: "unat (word_of_nat i :: u32) = i" by (rule unat_u32[OF i32])
  have i2: "unat (word_of_nat i * 2 :: u32) = 2 * i \<and> unat (word_of_nat i * 2 + 1 :: u32) = 2 * i + 1"
    if "unat (psf_charsize f) div unat (psf_height f) = 2"
  proof -
    have "2 * unat (psf_height f) \<le> unat (psf_charsize f)" using that
      by (metis div_times_less_eq_dividend mult.commute)
    then have "2 * i + 1 < 2 ^ 32" using i g(1) by linarith
    then have "unat (word_of_nat (2 * i) :: u32) = 2 * i" "unat (word_of_nat (2 * i + 1) :: u32) = 2 * i + 1"
      using unat_u32[of "2 * i"] unat_u32[of "2 * i + 1"] by simp_all
    then show ?thesis by (simp add: mult.commute add.commute)
  qed
  show ?thesis
    using bpl[of 1] bpl[of 2] i1 i2 off
    by (auto simp: line_bit glyph_line_def glyph_pix_def Let_def bit_ucast_iff bit_or_iff bit_push_bit_iff
        dest: bit_imp_le_length)
qed

lemma draw_glyph_abs:
  assumes "con_fits s"
  shows "con_abs (draw_glyph g s) = tty_draw (con_conf s) g (con_abs s)"
proof -
  have g: "con_geom s" and cx: "0 \<le> dsp_x s" "nat (dsp_x s) + con_fw s \<le> con_w s"
    and cy: "0 \<le> dsp_y s" "nat (dsp_y s) + con_fh s \<le> con_h s" and ch: "256 * unat (psf_charsize (con_font s)) < 2 ^ 32"
    using assms by (simp_all add: con_fits_def con_ok_def)
  have fh: "0 < con_fh s" and w: "con_w s \<le> con_pw s" using g by (simp_all add: con_geom_def)
  let ?X = "nat (dsp_x s)" and ?Y = "nat (dsp_y s)"
  define ks where "ks = List.product [0..<con_fh s] [0..<con_fw s]"
  have pos: "unat (word_of_int z + word_of_nat j :: u32) = nat z + j" if "0 \<le> z" "nat z + j < 2 ^ 32" for z j
  proof -
    have "word_of_int z + word_of_nat j = (word_of_nat (nat z + j) :: u32)" using that(1) by simp
    then show ?thesis using that(2) by (simp only: unat_u32)
  qed
  have px: "draw_pixel s g (i, j) m = m((?Y + i) * con_pw s + (?X + j) :=
        if glyph_pix (con_font s) g i j then con_fg s else con_bg s)"
    if "i < con_fh s" "j < con_fw s" for i j m
  proof -
    let ?x = "word_of_int (dsp_x s) + word_of_nat j :: u32" and ?y = "word_of_int (dsp_y s) + word_of_nat i :: u32"
    have "con_w s < 2 ^ 32" "con_h s < 2 ^ 32"
      using unsigned_less[of "fb_width (con_fb s)", where ?'a = nat] unsigned_less[of "fb_height (con_fb s)", where ?'a = nat] by simp_all
    then have u: "unat ?x = ?X + j" "unat ?y = ?Y + i" using pos cx cy that by simp_all
    then have lt: "?x < fb_width (con_fb s)" "?y < fb_height (con_fb s)" using cx cy that by (simp_all add: word_less_nat_alt)
    show ?thesis
      using lt cell_index(1)[OF g lt] glyph_line_pix[OF ch fh that(1), of g j] u by (simp add: draw_pixel_def Let_def)
  qed
  have "con_mem (draw_glyph g s) (y * con_pw s + x) =
      (if ?X \<le> x \<and> x < ?X + con_fw s \<and> ?Y \<le> y \<and> y < ?Y + con_fh s
       then (if glyph_pix (con_font s) g (y - ?Y) (x - ?X) then con_fg s else con_bg s)
       else con_mem s (y * con_pw s + x))"
    if xy: "x < con_w s" "y < con_h s" for x y
  proof -
    define Q where "Q = (\<lambda>(i, j). ?X + j = x \<and> ?Y + i = y)"
    define v where "v = (if glyph_pix (con_font s) g (y - ?Y) (x - ?X) then con_fg s else con_bg s)"
    have "draw_pixel s g k m (y * con_pw s + x) = (if Q k then v else m (y * con_pw s + x))" if k: "k \<in> set ks" for k m
    proof -
      obtain i j where ij: "k = (i, j)" "i < con_fh s" "j < con_fw s" using k by (auto simp: ks_def)
      have "(?Y + i) * con_pw s + (?X + j) = y * con_pw s + x \<longleftrightarrow> ?X + j = x \<and> ?Y + i = y"
        using cell_inj[of "?X + j" "con_pw s" x "?Y + i" y] ij(3) cx(2) w xy(1) by auto
      then show ?thesis using px[OF ij(2,3), of m] ij(1) by (auto simp: Q_def v_def)
    qed
    from fold_writes[of ks "draw_pixel s g", OF this]
    have "con_mem (draw_glyph g s) (y * con_pw s + x) = (if \<exists>k \<in> set ks. Q k then v else con_mem s (y * con_pw s + x))"
      by (simp add: draw_glyph_def Let_def ks_def)
    moreover have "(\<exists>k \<in> set ks. Q k) \<longleftrightarrow> ?X \<le> x \<and> x < ?X + con_fw s \<and> ?Y \<le> y \<and> y < ?Y + con_fh s"
    proof
      assume a: "?X \<le> x \<and> x < ?X + con_fw s \<and> ?Y \<le> y \<and> y < ?Y + con_fh s"
      then have "(y - ?Y, x - ?X) \<in> set ks" "Q (y - ?Y, x - ?X)" by (auto simp: ks_def Q_def)
      then show "\<exists>k \<in> set ks. Q k" by blast
    qed (auto simp: ks_def Q_def)
    ultimately show ?thesis by (simp add: v_def)
  qed
  then have "t_pix (con_abs (draw_glyph g s)) = t_pix (tty_draw (con_conf s) g (con_abs s))"
    using cx(2) cy(2) by (auto simp: con_abs_def tty_draw_def fun_eq_iff draw_glyph_def Let_def)
  then show ?thesis by (simp add: con_abs_def tty_draw_def draw_glyph_def Let_def)
qed

lemma draw_glyph_fields [simp]:
  "con_fb (draw_glyph g s) = con_fb s" "con_font (draw_glyph g s) = con_font s" "con_fg (draw_glyph g s) = con_fg s"
  "con_bg (draw_glyph g s) = con_bg s" "dsp_x (draw_glyph g s) = dsp_x s" "dsp_y (draw_glyph g s) = dsp_y s"
  by (simp_all add: draw_glyph_def Let_def)

lemma con_conf_upd [simp]:
  "con_conf (s\<lparr>dsp_x := x\<rparr>) = con_conf s" "con_conf (s\<lparr>dsp_y := y\<rparr>) = con_conf s"
  "con_conf (draw_glyph g s) = con_conf s"
  by (simp_all add: con_conf_def)

lemma con_geom_draw [simp]: "con_geom (draw_glyph g s) = con_geom s"
  by (simp add: con_geom_def)

lemma con_ok_draw [simp]: "con_ok (draw_glyph g s) = con_ok s"
  by (simp add: con_ok_def)

text \<open>Where the cursor may go from a place a character fits.\<close>

lemma con_fits_ok:
  assumes "con_fits s"
  shows "con_ok s" "0 \<le> x \<Longrightarrow> con_ok (s\<lparr>dsp_x := x\<rparr>)"
    "0 \<le> x \<Longrightarrow> nat x \<le> nat (dsp_x s) \<Longrightarrow> con_fits (s\<lparr>dsp_x := x\<rparr>)"
    "con_ok (s\<lparr>dsp_y := dsp_y s + uint (psf_height (con_font s)), dsp_x := 0\<rparr>)"
  using assms by (auto simp: con_fits_def con_ok_def nat_sub_uint)

lemma put_glyph_code: "(if ucast c \<ge> psf_length (con_font s) then 0x3f else c) = tty_glyph (con_conf s) c"
proof -
  have "unat (ucast c :: u32) = unat c"
    using unsigned_less[of c, where ?'a = nat] by (simp add: unsigned_ucast_eq take_bit_nat_eq_self)
  then show ?thesis by (simp add: tty_glyph_def word_le_nat_alt)
qed

lemma dsp_putchar_abs:
  assumes "con_ok s"
  shows "con_abs (dsp_putchar c s) = tty_put (con_conf s) c (con_abs s) \<and> con_ok (dsp_putchar c s)
    \<and> con_conf (dsp_putchar c s) = con_conf s"
proof -
  define t where "t = check_scroll_or_new_line s"
  have t: "con_abs t = tty_fit (con_conf s) (con_abs s)" "con_fits t" "con_conf t = con_conf s"
    using check_scroll_abs[OF assms] by (simp_all add: t_def)
  have f: "con_font t = con_font s" using t(3) by (simp add: con_conf_def)
  have x: "0 \<le> dsp_x t" and y: "0 \<le> dsp_y t" using t(2) by (simp_all add: con_fits_def con_ok_def)
  have fw: "unat (psf_width (con_font s) * 4) = 4 * con_fw s"
  proof -
    have g: "con_geom s" using assms by (simp add: con_ok_def)
    then have "con_fw s \<le> con_pw s" "1 \<le> con_h s" by (simp_all add: con_geom_def)
    moreover have "unat (fb_pitch (con_fb s)) mod 4 = 0" using g by (simp add: con_geom_def)
    then have "con_pw s * 4 = unat (fb_pitch (con_fb s))" using div_mult_mod_eq[of "unat (fb_pitch (con_fb s))" 4] by linarith
    moreover have "unat (fb_pitch (con_fb s)) < 2 ^ 32" using unsigned_less[of "fb_pitch (con_fb s)", where ?'a = nat] by simp
    ultimately have "con_fw s * 4 < 2 ^ 32" by linarith
    then show ?thesis by (simp add: unat_word_ariths)
  qed
  note ok = con_fits_ok[OF t(2)]
  note ax = con_abs_upd(1) and ay = con_abs_upd(2)
  consider (nl) "c = 0x0a" | (tab) "c = 0x09" | (cr) "c = 0x0d" | (bs) "c = 0x08"
    | (other) "c \<noteq> 0x0a" "c \<noteq> 0x09" "c \<noteq> 0x0d" "c \<noteq> 0x08" by blast
  then show ?thesis
  proof cases
    case nl
    have e: "dsp_putchar c s = t\<lparr>dsp_y := dsp_y t + uint (psf_height (con_font t)), dsp_x := 0\<rparr>"
      by (simp add: nl dsp_putchar_def t_def[symmetric])
    show ?thesis unfolding e using ok(4) t(1,3) f y
      by (simp add: nl tty_put_def t(1)[symmetric] con_abs_upd nat_sub_uint)
  next
    case tab
    have e: "dsp_putchar c s = t\<lparr>dsp_x := dsp_x t + uint (psf_width (con_font t) * 4)\<rparr>"
      by (simp add: tab dsp_putchar_def t_def[symmetric])
    have p: "0 \<le> dsp_x t + uint (psf_width (con_font t) * 4)" using x by simp
    show ?thesis unfolding e using ok(2)[OF p] t(3) f x fw
      by (simp add: tab tty_put_def t(1)[symmetric] con_abs_upd nat_sub_uint)
  next
    case cr
    have e: "dsp_putchar c s = t\<lparr>dsp_x := 0\<rparr>" by (simp add: cr dsp_putchar_def t_def[symmetric] Let_def)
    show ?thesis unfolding e using ok(2)[of 0] t(3)
      by (simp add: cr tty_put_def t(1)[symmetric] con_abs_upd)
  next
    case bs
    let ?u = "if uint (psf_width (con_font t)) \<le> dsp_x t then t\<lparr>dsp_x := dsp_x t - uint (psf_width (con_font t))\<rparr> else t"
    have e: "dsp_putchar c s = draw_glyph (tty_glyph (con_conf s) 0x20) ?u"
      unfolding put_glyph_code[symmetric] by (simp add: bs dsp_putchar_def t_def[symmetric] Let_def f)
    have w: "uint (psf_width (con_font t)) \<le> dsp_x t \<longleftrightarrow> con_fw s \<le> nat (dsp_x t)"
      unfolding f uint_nat using x by linarith
    have u: "con_fits ?u" using ok(3) t(2) by (auto simp: nat_sub_uint)
    have a: "con_abs ?u = (if con_fw s \<le> nat (dsp_x t) then (con_abs t)\<lparr>t_x := nat (dsp_x t) - con_fw s\<rparr> else con_abs t)"
      unfolding w using x f by (simp add: con_abs_upd nat_sub_uint w[unfolded f])
    have k: "con_conf ?u = con_conf s" using t(3) by simp
    have "con_ok ?u" using u by (simp add: con_fits_def)
    then show ?thesis unfolding e draw_glyph_abs[OF u] k using k
      by (simp add: bs tty_put_def t(1)[symmetric] a)
  next
    case other
    have e: "dsp_putchar c s = (draw_glyph (tty_glyph (con_conf s) c) t)\<lparr>dsp_x := dsp_x t + uint (psf_width (con_font s))\<rparr>"
      unfolding put_glyph_code[symmetric] using other by (simp add: dsp_putchar_def t_def[symmetric] Let_def f)
    have p: "0 \<le> dsp_x t + uint (psf_width (con_font s))" using x by simp
    have o: "con_ok (draw_glyph g t\<lparr>dsp_x := dsp_x t + uint (psf_width (con_font s))\<rparr>)" for g
      using ok(2)[OF p] by (simp add: con_ok_def)
    have n: "nat (dsp_x t + uint (psf_width (con_font s))) = nat (dsp_x t) + con_fw s" using x by (simp add: nat_sub_uint)
    show ?thesis unfolding e using o t(3) p
      by (simp add: tty_put_def other t(1)[symmetric] con_abs_upd draw_glyph_abs[OF t(2)] n tty_draw_def Let_def)
  qed
qed

subsection \<open>Runs of the console\<close>

text \<open>The calls the rest of the kernel makes.\<close>

datatype con_op = Putchar u8 | Print "u8 list" | Print_dec u32 | Print_hex u64 | Clear
  | Set_color u32 u32 | Set_cursor u32 u32

fun con_do :: "con_op \<Rightarrow> console \<Rightarrow> console" where
  "con_do (Putchar c) = dsp_putchar c"
| "con_do (Print str) = dsp_print str"
| "con_do (Print_dec n) = dsp_print_dec n"
| "con_do (Print_hex v) = dsp_print_hex v"
| "con_do Clear = dsp_clear"
| "con_do (Set_color f b) = dsp_set_color f b"
| "con_do (Set_cursor x y) = dsp_set_cursor x y"

definition con_run :: "con_op list \<Rightarrow> console \<Rightarrow> console" where
  "con_run ops s = fold con_do ops s"

lemma dsp_print_frame: "con_geom s \<Longrightarrow> con_frame s (dsp_print str s)"
  unfolding dsp_print_def
proof (induction str arbitrary: s)
  case (Cons c str)
  have f: "con_frame s (dsp_putchar c s)" by (rule dsp_putchar_frame[OF Cons.prems])
  show ?case using con_frame_trans[OF f Cons.IH[OF con_frame_geom[OF f Cons.prems]]] by simp
qed simp

lemma clear_words:
  assumes "con_geom s"
  shows "unat (fb_pitch (con_fb s) div 4 * fb_height (con_fb s)) = con_h s * con_pw s"
  using con_total(3)[OF assms] by (simp add: unat_word_ariths unat_div mod_simps mult.commute)

lemma dsp_clear_frame: "con_geom s \<Longrightarrow> con_frame s (dsp_clear s)"
  by (simp add: dsp_clear_def Let_def con_frame_def same_geom_def fill_words_at clear_words)

lemma con_do_frame:
  assumes "con_geom s"
  shows "con_frame s (con_do a s)"
proof (cases a)
  case (Print_dec n)
  have f: "con_frame s (dsp_putchar 0x2d s)" by (rule dsp_putchar_frame[OF assms])
  show ?thesis
    using Print_dec con_frame_trans[OF f dsp_print_frame[OF con_frame_geom[OF f assms]]] dsp_print_frame[OF assms]
    by (simp add: dsp_print_dec_def)
qed (use assms in \<open>simp_all add: dsp_putchar_frame dsp_print_frame dsp_clear_frame dsp_print_hex_def
  dsp_set_color_def dsp_set_cursor_def Let_def\<close>)

lemma con_run_frame: "con_geom s \<Longrightarrow> con_frame s (con_run ops s)"
  unfolding con_run_def
proof (induction ops arbitrary: s)
  case (Cons a ops)
  have f: "con_frame s (con_do a s)" by (rule con_do_frame[OF Cons.prems])
  show ?case using con_frame_trans[OF f Cons.IH[OF con_frame_geom[OF f Cons.prems]]] by simp
qed simp

subsection \<open>Claims\<close>

text \<open>C29. Drawing a character refines the abstract teletype on a plane of pixels: margins, scrolling by one
  text line, control characters, and the glyph's bits as foreground and background pixels at the
  cursor, with every other pixel left alone.  The cursor stays at a text line.\<close>

theorem dsp_putchar_refines:
  assumes "con_ok s"
  shows "con_abs (dsp_putchar c s) = tty_put (con_conf s) c (con_abs s) \<and> con_ok (dsp_putchar c s)
    \<and> con_conf (dsp_putchar c s) = con_conf s"
  using assms by (rule dsp_putchar_abs)

text \<open>C30. Whatever sequence of calls is made, with whatever cursor position, colours and characters, no
  word of memory behind the framebuffer is written.\<close>

theorem console_stays_inside:
  assumes "con_geom s" and "con_h s * con_pw s \<le> a"
  shows "con_mem (con_run ops s) a = con_mem s a"
  using con_run_frame[OF assms(1), of ops] assms(2) by (simp add: con_frame_def)

text \<open>C0. A string of printable characters that fits in the line shows its glyphs side by side from the
  cursor on and moves the cursor behind them; all other pixels are as before.\<close>

definition printable :: "u8 \<Rightarrow> bool" where
  "printable c \<longleftrightarrow> c \<noteq> 0x08 \<and> c \<noteq> 0x09 \<and> c \<noteq> 0x0a \<and> c \<noteq> 0x0d"

lemma put_printable:
  assumes "printable c" and "t_x t + tc_fw k \<le> tc_w k" and "t_y t + tc_fh k \<le> tc_h k"
  shows "tty_put k c t = (tty_draw k (tty_glyph k c) t)\<lparr>t_x := t_x t + tc_fw k\<rparr>"
  using assms by (simp add: tty_put_def tty_fit_def printable_def Let_def tty_draw_def)

definition text_line :: "tty_conf \<Rightarrow> u8 list \<Rightarrow> tty \<Rightarrow> nat \<Rightarrow> nat \<Rightarrow> u32" where
  "text_line k str t x y =
     (if t_x t \<le> x \<and> x < t_x t + length str * tc_fw k \<and> t_y t \<le> y \<and> y < t_y t + tc_fh k
      then (if glyph_pix (tc_font k) (tty_glyph k (str ! ((x - t_x t) div tc_fw k))) (y - t_y t) ((x - t_x t) mod tc_fw k)
            then tc_fg k else tc_bg k)
      else t_pix t x y)"

lemma text_line_Nil: "text_line k [] t = t_pix t"
  by (intro ext) (auto simp: text_line_def)

lemma text_line_Cons:
  assumes "0 < tc_fw k"
  shows "text_line k str ((tty_draw k (tty_glyph k c) t)\<lparr>t_x := t_x t + tc_fw k\<rparr>) = text_line k (c # str) t"
proof (intro ext)
  fix x y
  let ?w = "tc_fw k" and ?X = "t_x t"
  consider "x < ?X" | "?X \<le> x" "x < ?X + ?w" | "?X + ?w \<le> x" by linarith
  then show "text_line k str ((tty_draw k (tty_glyph k c) t)\<lparr>t_x := ?X + ?w\<rparr>) x y = text_line k (c # str) t x y"
  proof cases
    case 3
    then obtain z where z: "x = ?X + ?w + z" using le_Suc_ex by blast
    have d: "(x - ?X) div ?w = Suc ((x - (?X + ?w)) div ?w)" "(x - ?X) mod ?w = (x - (?X + ?w)) mod ?w"
      using assms by (simp_all add: z div_add_self1)
    show ?thesis using 3 unfolding text_line_def d by (auto simp: tty_draw_def)
  next
    case 2
    have l: "?w \<le> length (c # str) * ?w" by simp
    have d: "(x - ?X) div ?w = 0" "(x - ?X) mod ?w = x - ?X" using 2 by auto
    have "x < ?X + length (c # str) * ?w" using 2 l by linarith
    then show ?thesis using 2 unfolding text_line_def d by (auto simp: tty_draw_def)
  qed (auto simp: text_line_def tty_draw_def)
qed

lemma print_line:
  "con_ok s \<Longrightarrow> list_all printable str \<Longrightarrow> nat (dsp_x s) + length str * con_fw s \<le> con_w s \<Longrightarrow>
   nat (dsp_y s) + con_fh s \<le> con_h s \<Longrightarrow>
   con_abs (dsp_print str s) = (con_abs s)\<lparr>t_pix := text_line (con_conf s) str (con_abs s),
     t_x := nat (dsp_x s) + length str * con_fw s\<rparr>"
  unfolding dsp_print_def
proof (induction str arbitrary: s)
  case Nil
  then show ?case by (simp add: text_line_Nil con_abs_def)
next
  case (Cons c str)
  let ?k = "con_conf s" and ?t = "con_abs s" and ?s = "dsp_putchar c s"
  have fit: "nat (dsp_x s) + con_fw s + length str * con_fw s \<le> con_w s" using Cons.prems(3) by simp
  have p: "con_abs ?s = tty_put ?k c ?t" "con_ok ?s" "con_conf ?s = ?k"
    using dsp_putchar_abs[OF Cons.prems(1), of c] by simp_all
  have put: "tty_put ?k c ?t = (tty_draw ?k (tty_glyph ?k c) ?t)\<lparr>t_x := nat (dsp_x s) + con_fw s\<rparr>"
    using put_printable[of c ?t ?k] Cons.prems fit by simp
  have cur: "nat (dsp_x ?s) = nat (dsp_x s) + con_fw s" "nat (dsp_y ?s) = nat (dsp_y s)"
    unfolding con_abs_fields[symmetric] p(1) put by (simp_all add: tty_draw_def)
  have k: "con_font ?s = con_font s" "con_w ?s = con_w s" "con_h ?s = con_h s"
    using p(3) by (auto simp: con_conf_def)
  have "0 < tc_fw ?k" using Cons.prems(1) by (simp add: con_ok_def con_geom_def)
  note tl = text_line_Cons[OF this, where str = str and c = c and t = ?t]
  have "con_abs (fold dsp_putchar str ?s) =
      (con_abs ?s)\<lparr>t_pix := text_line (con_conf ?s) str (con_abs ?s), t_x := nat (dsp_x ?s) + length str * con_fw ?s\<rparr>"
    by (rule Cons.IH) (use p(2) Cons.prems fit cur k in simp_all)
  also have "text_line (con_conf ?s) str (con_abs ?s) = text_line ?k (c # str) ?t"
    using tl unfolding p(1,3) put by simp
  finally show ?case unfolding p(1) put cur k by (simp add: tty_draw_def add.assoc)
qed

theorem dsp_print_line:
  assumes "con_ok s" and "list_all printable str" and "nat (dsp_x s) + length str * con_fw s \<le> con_w s"
    and "nat (dsp_y s) + con_fh s \<le> con_h s"
  shows "con_abs (dsp_print str s) = (con_abs s)\<lparr>t_pix := text_line (con_conf s) str (con_abs s),
     t_x := nat (dsp_x s) + length str * con_fw s\<rparr>"
  using assms by (rule print_line)

text \<open>The number a string of digits denotes.\<close>

definition num_value :: "nat \<Rightarrow> (u8 \<Rightarrow> nat) \<Rightarrow> u8 list \<Rightarrow> nat" where
  "num_value b d ds = foldl (\<lambda>n c. b * n + d c) 0 ds"

definition dec_char :: "u8 \<Rightarrow> nat" where
  "dec_char c = unat c - 48"

definition is_decimal :: "nat \<Rightarrow> u8 list \<Rightarrow> bool" where
  "is_decimal n ds \<longleftrightarrow> num_value 10 dec_char ds = n \<and> list_all (\<lambda>c. 0x30 \<le> c \<and> c \<le> 0x39) ds
     \<and> ds \<noteq> [] \<and> (hd ds = 0x30 \<longrightarrow> ds = [0x30])"

lemma num_value_snoc: "num_value b d (ds @ [c]) = b * num_value b d ds + d c"
  by (simp add: num_value_def)

lemma dec_digit: "n < 10 \<Longrightarrow> unat (0x30 + word_of_nat n :: u8) = 48 + n"
proof -
  assume "n < 10"
  then have "unat (word_of_nat (48 + n) :: u8) = 48 + n" by (simp add: unat_of_nat take_bit_eq_mod del: of_nat_add)
  then show ?thesis by simp
qed

lemma dec_digits_decimal: "is_decimal k (rev (dec_digits k))"
proof (induction k rule: dec_digits.induct)
  case (1 k)
  let ?c = "0x30 + word_of_nat (k mod 10) :: u8"
  have c: "unat ?c = 48 + k mod 10" by (rule dec_digit) simp
  have r: "0x30 \<le> ?c \<and> ?c \<le> 0x39" using c by (simp add: word_le_nat_alt)
  have z: "?c = 0x30 \<longleftrightarrow> k mod 10 = 0" using c by (simp add: word_unat_eq_iff)
  show ?case
  proof (cases "k div 10 > 0")
    case True
    have e: "rev (dec_digits k) = rev (dec_digits (k div 10)) @ [?c]" using True by (subst dec_digits.simps) simp
    have ih: "is_decimal (k div 10) (rev (dec_digits (k div 10)))" by (rule 1[OF True])
    have "rev (dec_digits (k div 10)) \<noteq> [0x30]"
    proof
      assume "rev (dec_digits (k div 10)) = [0x30]"
      then have "k div 10 = 0" using ih by (simp add: is_decimal_def num_value_def dec_char_def)
      then show False using True by simp
    qed
    then show ?thesis using ih c r unfolding e is_decimal_def num_value_snoc by (simp add: dec_char_def hd_append)
  next
    case False
    have e: "rev (dec_digits k) = [?c]" using False by (subst dec_digits.simps) simp
    show ?thesis using c r False unfolding e by (simp add: is_decimal_def num_value_def dec_char_def)
  qed
qed

lemma dsp_print_append: "dsp_print (xs @ ys) s = dsp_print ys (dsp_print xs s)"
  by (simp add: dsp_print_def)

lemma sint_u32: "sint (n :: u32) = uint n - (if bit n 31 then 2 ^ 32 else 0)"
proof -
  have "sint n = take_bit 32 (uint n) - 2 ^ 32 * of_bool (bit (uint n) 31)"
    using signed_take_bit_eq_take_bit_minus[of 31 "uint n"] by (simp add: sint_uint eval_nat_numeral)
  moreover have "take_bit 32 (uint n) = uint n" using uint_lt2p[of n] by (simp add: take_bit_int_eq_self)
  ultimately show ?thesis by (simp add: bit_unsigned_iff)
qed

lemma abs_u32: "nat \<bar>sint (n :: u32)\<bar> = (if sint n < 0 then unat (- n) else unat n)"
proof (cases "bit n 31")
  case True
  have "n \<noteq> 0" using True by auto
  moreover have "uint n mod 2 ^ 32 = uint n" using uint_lt2p[of n] by simp
  ultimately have "uint (- n) = 2 ^ 32 - uint n"
    by (simp add: uint_word_ariths zmod_zminus1_eq_if unsigned_eq_0_iff)
  then show ?thesis using True uint_lt2p[of n] by (simp add: sint_u32 unat_eq_nat_uint)
next
  case False
  then show ?thesis by (simp add: sint_u32)
qed

text \<open>\<open>dsp_print_dec\<close> prints the decimal notation of every \<open>int\<close>, the smallest one included: a
  minus sign for a negative number, then digits without leading zeros that denote its absolute value.\<close>

theorem dsp_print_dec_decimal:
  "\<exists>ds. is_decimal (nat \<bar>sint num\<bar>) ds
     \<and> dsp_print_dec num s = dsp_print (if sint num < 0 then 0x2d # ds else ds) s"
  unfolding abs_u32
  by (intro exI[of _ "rev (dec_digits (if sint num < 0 then unat (- num) else unat num))"])
    (simp add: dec_digits_decimal dsp_print_dec_def dsp_print_def)

text \<open>A backspace at the full right margin erases nothing: the cursor moves to the start of the next
  line first, and the last character of the full line stays on the screen.\<close>

theorem backspace_at_margin:
  assumes "con_ok s" and "con_w s < nat (dsp_x s) + con_fw s" and "nat (dsp_y s) + 2 * con_fh s \<le> con_h s"
  shows "nat (dsp_x (dsp_putchar 0x08 s)) = 0 \<and> nat (dsp_y (dsp_putchar 0x08 s)) = nat (dsp_y s) + con_fh s
    \<and> (\<forall>x y. y < nat (dsp_y s) + con_fh s \<longrightarrow> t_pix (con_abs (dsp_putchar 0x08 s)) x y = t_pix (con_abs s) x y)"
proof -
  have "0 < con_fw s" using assms(1) by (simp add: con_ok_def con_geom_def)
  then have "tty_put (con_conf s) 0x08 (con_abs s) =
      tty_draw (con_conf s) (tty_glyph (con_conf s) 0x20) ((con_abs s)\<lparr>t_x := 0, t_y := nat (dsp_y s) + con_fh s\<rparr>)"
    using assms(2,3) by (simp add: tty_put_def tty_fit_def)
  then have a: "con_abs (dsp_putchar 0x08 s) =
      tty_draw (con_conf s) (tty_glyph (con_conf s) 0x20) ((con_abs s)\<lparr>t_x := 0, t_y := nat (dsp_y s) + con_fh s\<rparr>)"
    using dsp_putchar_abs[OF assms(1), of "0x08"] by simp
  show ?thesis unfolding con_abs_fields[symmetric] a by (simp add: tty_draw_def)
qed

subsection \<open>A small screen\<close>

text \<open>A font of 16 by 2 pixels whose glyphs are full blocks, on a screen of 40 by 6 pixels.\<close>

definition demo_con :: console where
  "demo_con = \<lparr>dsp_y = 0, dsp_x = 0,
     con_font = \<lparr>psf_headersize = 32, psf_length = 128, psf_charsize = 4, psf_height = 2, psf_width = 16,
       psf_byte = (\<lambda>_. 0xff)\<rparr>,
     con_bg = 0, con_fg = 0xffffff,
     con_fb = \<lparr>fb_width = 40, fb_height = 6, fb_pitch = 160, fb_rmask = 0xff0000, fb_gmask = 0xff00, fb_bmask = 0xff\<rparr>,
     con_mem = (\<lambda>_. 7)\<rparr>"

lemma demo_con_ok: "con_ok demo_con" "con_geom demo_con"
  by (simp_all add: con_ok_def con_geom_def demo_con_def)

theorem dsp_putchar_refines_witness:
  "con_abs (dsp_putchar 0x41 demo_con) = tty_put (con_conf demo_con) 0x41 (con_abs demo_con)
   \<and> t_pix (con_abs (dsp_putchar 0x41 demo_con)) 3 1 = 0xffffff
   \<and> t_pix (con_abs (dsp_putchar 0x41 demo_con)) 16 1 = 7"
proof -
  note r = dsp_putchar_refines[OF demo_con_ok(1), of "0x41"]
  have "bit (0xff :: u8) 4" by (simp add: bit_numeral_rec)
  then have "t_pix (tty_put (con_conf demo_con) 0x41 (con_abs demo_con)) 3 1 = 0xffffff"
    "t_pix (tty_put (con_conf demo_con) 0x41 (con_abs demo_con)) 16 1 = 7"
    by (simp_all add: tty_put_def tty_fit_def tty_draw_def con_conf_def con_abs_def demo_con_def glyph_pix_def
        tty_glyph_def Let_def)
  then show ?thesis using r by simp
qed

theorem console_stays_inside_witness:
  "con_mem (con_run [Set_cursor 1000 7, Print [0x41, 0x0a, 0x42], Set_color 5 6, Clear, Print_dec 1234] demo_con) 240 = 7"
  using console_stays_inside[OF demo_con_ok(2), of 240] by (simp add: demo_con_def)

lemma demo_con_glyph: "glyph_pix (con_font demo_con) g i j \<longleftrightarrow> j < 16"
proof -
  have f: "psf_byte (con_font demo_con) k = 0xff" "unat (psf_charsize (con_font demo_con)) div unat (psf_height (con_font demo_con)) = 2" for k
    by (simp_all add: demo_con_def)
  show ?thesis unfolding glyph_pix_def Let_def f bit_0xff by auto
qed

theorem dsp_print_line_witness:
  "nat (dsp_x (dsp_print [0x41, 0x42] demo_con)) = 32
   \<and> t_pix (con_abs (dsp_print [0x41, 0x42] demo_con)) 20 0 = 0xffffff
   \<and> t_pix (con_abs (dsp_print [0x41, 0x42] demo_con)) 32 0 = 7"
proof -
  let ?s = "dsp_print [0x41, 0x42] demo_con"
  have d: "nat (dsp_x demo_con) = 0" "nat (dsp_y demo_con) = 0" "con_fw demo_con = 16" "con_w demo_con = 40"
    "con_fh demo_con = 2" "con_h demo_con = 6" "con_fg demo_con = 0xffffff" "t_pix (con_abs demo_con) 32 0 = 7"
    by (simp_all add: demo_con_def con_abs_def)
  have f: "con_abs ?s = (con_abs demo_con)\<lparr>t_pix := text_line (con_conf demo_con) [0x41, 0x42] (con_abs demo_con), t_x := 32\<rparr>"
    using dsp_print_line[OF demo_con_ok(1), of "[0x41, 0x42]"] d by (simp add: printable_def)
  then have "nat (dsp_x ?s) = 32" unfolding con_abs_fields[symmetric] f by simp
  then show ?thesis unfolding f using d by (simp add: text_line_def demo_con_glyph)
qed

theorem backspace_at_margin_witness:
  "nat (dsp_y (dsp_putchar 0x08 (dsp_print [0x41, 0x42] demo_con))) = 2
   \<and> t_pix (con_abs (dsp_putchar 0x08 (dsp_print [0x41, 0x42] demo_con))) 20 0 = 0xffffff"
proof -
  let ?s = "dsp_print [0x41, 0x42] demo_con"
  have d: "nat (dsp_x demo_con) = 0" "nat (dsp_y demo_con) = 0" "con_fw demo_con = 16" "con_w demo_con = 40"
    "con_fh demo_con = 2" "con_h demo_con = 6" "con_fg demo_con = 0xffffff"
    by (simp_all add: demo_con_def)
  have f: "con_abs ?s = (con_abs demo_con)\<lparr>t_pix := text_line (con_conf demo_con) [0x41, 0x42] (con_abs demo_con), t_x := 32\<rparr>"
    using print_line[OF demo_con_ok(1), of "[0x41, 0x42]"] d by (simp add: printable_def)
  have p: "con_ok ?s \<and> con_conf ?s = con_conf demo_con"
    using dsp_putchar_abs[OF demo_con_ok(1), of "0x41"] dsp_putchar_abs[of "dsp_putchar 0x41 demo_con" "0x42"]
    by (simp add: dsp_print_def)
  then have k: "con_fw ?s = 16" "con_w ?s = 40" "con_fh ?s = 2" "con_h ?s = 6"
    using d by (simp_all add: con_conf_def)
  have x: "nat (dsp_x ?s) = 32" "nat (dsp_y ?s) = 0" unfolding con_abs_fields[symmetric] f by (simp_all add: d)
  have "t_pix (con_abs ?s) 20 0 = 0xffffff" unfolding f using d by (simp add: text_line_def demo_con_glyph)
  then show ?thesis using backspace_at_margin[of ?s] p x k by simp
qed

end
