(* ===== verification/Kernel_Cpu.thy ===== *)
theory Kernel_Cpu
  imports Kernel_Console Kernel_Disk
begin

text \<open>
  Panics and interrupts: \<open>kernel/panic.c\<close>, \<open>kernel/cpu/idt.c\<close> and \<open>kernel/cpu/pic.c\<close>.

  An interrupt handler is a function on the registers and the state of the machine \<open>'s\<close>; the port
  instructions are a \<open>port_io\<close> record over that state.  Code that never returns gives \<open>Halted\<close>.
  The second half is a pair of cascaded 8259 interrupt controllers as their data sheet describes
  them, on which the dispatcher is run.
\<close>

subsection \<open>Panic\<close>

record regs =
  r_r8 :: u64
  r_r9 :: u64
  r_r10 :: u64
  r_r11 :: u64
  r_r12 :: u64
  r_r13 :: u64
  r_r14 :: u64
  r_r15 :: u64
  r_rdi :: u64
  r_rsi :: u64
  r_rbp :: u64
  r_rbx :: u64
  r_rdx :: u64
  r_rcx :: u64
  r_rax :: u64
  r_int_no :: u64
  r_err_code :: u64
  r_rip :: u64
  r_cs :: u64
  r_rflags :: u64
  r_rsp :: u64
  r_ss :: u64

record panic_st =
  p_con :: console
  in_panic :: bool

text \<open>A string literal as the bytes of its characters.\<close>

definition str :: "string \<Rightarrow> u8 list" where
  "str = map (\<lambda>c. word_of_nat (of_char c))"

definition nl :: "u8 list" where "nl = [0x0a]"

definition out_dec :: "u64 \<Rightarrow> con_op list" where
  "out_dec v = [Print (rev (dec_digits (unat v)))]"

definition panic_field :: "string \<Rightarrow> u64 \<Rightarrow> con_op list" where
  "panic_field name v = [Print (str name), Print (str '' = ''), Print_hex v]"

text \<open>The screen when \<open>panic_halt\<close> stops the machine, or \<open>None\<close> to go on: a panic within a panic
  stops at once.\<close>

definition panic_header :: "string \<Rightarrow> con_op list" where
  "panic_header title =
     [Set_color 0xff4444 0x1a1a1a, Clear, Print (nl @ nl @ str '' << TRS PANIC >>'' @ nl), Print (str title), Print nl]"

definition panic_with :: "string \<Rightarrow> con_op list \<Rightarrow> panic_st \<Rightarrow> panic_st" where
  "panic_with title body s =
     (if in_panic s then s
      else s\<lparr>in_panic := True, p_con := con_run (panic_header title @ body) (p_con s)\<rparr>)"

text \<open>\<open>None\<close> is the null pointer.  \<open>line\<close> is an \<open>int\<close>, sign-extended to 64 bits.\<close>

definition kpanic :: "u8 list option \<Rightarrow> u8 list option \<Rightarrow> u32 \<Rightarrow> panic_st \<Rightarrow> panic_st" where
  "kpanic msg file line = panic_with ''--- Kernel panic ---''
     ([Print (str ''  reason: ''), Print (case msg of Some m \<Rightarrow> m | None \<Rightarrow> str ''(no message)''),
       Print (nl @ str '' at ''), Print (case file of Some f \<Rightarrow> f | None \<Rightarrow> str ''???''), Print (str '' : '')]
      @ out_dec (scast line) @ [Print (nl @ nl @ str ''System halted. Reset required'' @ nl)])"

definition kassert_fail :: "u8 list option \<Rightarrow> u8 list option \<Rightarrow> u32 \<Rightarrow> panic_st \<Rightarrow> panic_st" where
  "kassert_fail expr file line = panic_with ''Assertion failed''
     ([Print (str ''  ''), Print (case expr of Some m \<Rightarrow> m | None \<Rightarrow> str ''(null)''),
       Print (nl @ str '' at''), Print (case file of Some f \<Rightarrow> f | None \<Rightarrow> str ''???''), Print (str '' : '')]
      @ out_dec (scast line) @ [Print (nl @ nl @ str ''System halted. Reset required.'' @ nl)])"

text \<open>\<open>cr2\<close> is the control register of that name.\<close>

definition reg_line :: "string \<Rightarrow> u64 \<Rightarrow> con_op list" where
  "reg_line name v = [Print (nl @ str ''  '')] @ panic_field name v"

definition reg_row :: "string \<times> u64 \<Rightarrow> con_op list" where
  "reg_row nv = [Print (str ''  '')] @ panic_field (fst nv) (snd nv) @ [Print nl]"

definition kpanic_regs :: "u64 \<Rightarrow> regs \<Rightarrow> u8 list option \<Rightarrow> panic_st \<Rightarrow> panic_st" where
  "kpanic_regs cr2 reg msg = panic_with ''--- CPU exception ---''
     ([Print (str ''  ''), Print (case msg of Some m \<Rightarrow> m | None \<Rightarrow> str ''unknown exception''), Print nl]
      @ reg_line ''vector'' (r_int_no reg) @ reg_line ''err'' (r_err_code reg) @ [Print nl]
      @ reg_line ''rip'' (r_rip reg) @ reg_line ''cs'' (r_cs reg) @ reg_line ''rflags'' (r_rflags reg)
      @ reg_line ''ss'' (r_ss reg) @ reg_line ''rsp'' (r_rsp reg)
      @ (if r_int_no reg = 14 then reg_line ''cr2'' cr2 else [])
      @ [Print nl, Print (str ''=== registers ==='' @ nl)]
      @ concat (map reg_row [(''rax'', r_rax reg), (''rcx'', r_rcx reg), (''rsi'', r_rsi reg), (''rbp'', r_rbp reg),
          (''rbx'', r_rbx reg), (''rdx'', r_rdx reg), (''rdi'', r_rdi reg), (''r8'', r_r8 reg), (''r9'', r_r9 reg),
          (''r10'', r_r10 reg), (''r11'', r_r11 reg), (''r12'', r_r12 reg), (''r13'', r_r13 reg),
          (''r14'', r_r14 reg), (''r15'', r_r15 reg)])
      @ [Print (nl @ nl @ str ''System halted. Reset required.'' @ nl)])"

subsection \<open>The interrupt descriptor table\<close>

record idt_entry =
  ie_offset_low :: u16
  ie_selector :: u16
  ie_zero :: u8
  ie_flags :: u8
  ie_offset_mid :: u16
  ie_offset_high :: u32
  ie_reserved :: u32

definition idt_gate :: "u64 \<Rightarrow> u8 \<Rightarrow> idt_entry" where
  "idt_gate addr ist =
     \<lparr>ie_offset_low = ucast (addr AND 0xffff), ie_selector = 0x08, ie_zero = ist AND 0x0f, ie_flags = 0x8e,
      ie_offset_mid = ucast (drop_bit 16 addr AND 0xffff), ie_offset_high = ucast (drop_bit 32 addr AND 0xffffffff),
      ie_reserved = 0\<rparr>"

definition idt_set_gate :: "u8 \<Rightarrow> u64 \<Rightarrow> u8 \<Rightarrow> idt_entry list \<Rightarrow> idt_entry list" where
  "idt_set_gate num handler ist idt = idt[unat num := idt_gate handler ist]"

definition zero_gate :: idt_entry where
  "zero_gate = \<lparr>ie_offset_low = 0, ie_selector = 0, ie_zero = 0, ie_flags = 0, ie_offset_mid = 0,
     ie_offset_high = 0, ie_reserved = 0\<rparr>"

text \<open>\<open>stub\<close> is the table of entry points in \<open>idt_asm.asm\<close>.\<close>

type_synonym 's isr_handler = "regs \<Rightarrow> 's \<Rightarrow> regs \<times> 's"

record 's idt_st =
  idt_table :: "idt_entry list"
  idt_limit :: u16
  isr_handlers :: "'s isr_handler option list"
  irq_handlers :: "'s isr_handler option list"

definition idt_init :: "u64 list \<Rightarrow> 's idt_st \<Rightarrow> 's idt_st" where
  "idt_init stub s =
     s\<lparr>idt_table := fold (\<lambda>i. idt_set_gate (word_of_nat i) (stub ! i) (if i = 8 then 1 else 0)) [0..<256]
         (replicate 256 zero_gate),
       idt_limit := 256 * 16 - 1, isr_handlers := replicate 256 None, irq_handlers := replicate 16 None\<rparr>"

definition isr_install :: "u8 \<Rightarrow> 's isr_handler \<Rightarrow> 's idt_st \<Rightarrow> 's idt_st" where
  "isr_install vector handler s = s\<lparr>isr_handlers := (isr_handlers s)[unat vector := Some handler]\<rparr>"

definition irq_install :: "u8 \<Rightarrow> 's isr_handler \<Rightarrow> 's idt_st \<Rightarrow> 's idt_st" where
  "irq_install irq handler s =
     (if irq < 16 then s\<lparr>irq_handlers := (irq_handlers s)[unat irq := Some handler]\<rparr> else s)"

subsection \<open>Dispatching\<close>

abbreviation (input) PIC1_CMD :: u16 where "PIC1_CMD \<equiv> 0x20"
abbreviation (input) PIC1_DATA :: u16 where "PIC1_DATA \<equiv> 0x21"
abbreviation (input) PIC2_CMD :: u16 where "PIC2_CMD \<equiv> 0xa0"
abbreviation (input) PIC2_DATA :: u16 where "PIC2_DATA \<equiv> 0xa1"
abbreviation (input) PIC_EOI :: u8 where "PIC_EOI \<equiv> 0x20"
abbreviation (input) IRQ_BASE :: nat where "IRQ_BASE \<equiv> 0x20"

definition irq_is_spurious :: "'s port_io \<Rightarrow> nat \<Rightarrow> 's \<Rightarrow> bool \<times> 's" where
  "irq_is_spurious io irq s =
     (let cmd = (if irq < 8 then PIC1_CMD else PIC2_CMD);
          (b, s) = p_inb io cmd (p_outb io cmd 0x0b s)
      in (b AND push_bit (irq mod 8) 1 = 0, s))"

datatype 'a outcome = Returned 'a | Halted 'a

definition exc_names :: "string list" where
  "exc_names = [''Division by zero'', ''Debug'', ''NMI'', ''Breakpoint'', ''Overflow'', ''Bound range exceeded'',
     ''Invalid opcode'', ''No FPU'', ''Double fault'', ''Coprocessor segment'', ''Invalid TSS'',
     ''Segment not present'', ''Stack fault'', ''General protection fault'', ''Page fault'', ''Reserved'',
     ''x87 exception'', ''Alignment check'', ''Machine check'', ''SIMD exception''] @ replicate 12 ''Reserved''"

definition call_handler :: "'s isr_handler option \<Rightarrow> regs \<times> 's \<Rightarrow> regs \<times> 's" where
  "call_handler h rs = (case h of None \<Rightarrow> rs | Some f \<Rightarrow> f (fst rs) (snd rs))"

text \<open>\<open>panic\<close> is \<open>kpanic_regs\<close> on the screen of the machine.  The vector is read from the saved registers
  again after the handler has run, which may have changed them.\<close>

definition isr_dispatcher ::
  "'s port_io \<Rightarrow> (regs \<Rightarrow> u8 list option \<Rightarrow> 's \<Rightarrow> 's) \<Rightarrow> 's idt_st \<Rightarrow> regs \<Rightarrow> 's \<Rightarrow> (regs \<times> 's) outcome" where
  "isr_dispatcher io panic idt reg0 s0 =
     (let (reg, s) = call_handler (isr_handlers idt ! unat (r_int_no reg0)) (reg0, s0);
          n = unat (r_int_no reg)
      in if n < 32 then Halted (reg, panic reg (Some (str (exc_names ! n))) s)
         else if n < IRQ_BASE \<or> n \<ge> IRQ_BASE + 16 then Returned (reg, s)
         else
           let irq = n - IRQ_BASE;
               (spurious, s) = (if irq = 7 \<or> irq = 15 then irq_is_spurious io irq s else (False, s))
           in if spurious then Returned (reg, if irq = 15 then p_outb io PIC1_CMD PIC_EOI s else s)
              else
                let (reg, s) = call_handler (irq_handlers idt ! irq) (reg, s);
                    s = (if irq \<ge> 8 then p_outb io PIC2_CMD PIC_EOI s else s)
                in Returned (reg, p_outb io PIC1_CMD PIC_EOI s))"

subsection \<open>Programming the interrupt controllers\<close>

text \<open>The wait is a store to port \<open>0x80\<close>.\<close>

definition out_wait :: "'s port_io \<Rightarrow> u16 \<Rightarrow> u8 \<Rightarrow> 's \<Rightarrow> 's" where
  "out_wait io p b s = p_outb io 0x80 0 (p_outb io p b s)"

definition pic_remap :: "'s port_io \<Rightarrow> u8 \<Rightarrow> 's \<Rightarrow> 's" where
  "pic_remap io off s =
     p_outb io PIC2_DATA 0xff (p_outb io PIC1_DATA 0xfb
       (fold (\<lambda>(p, b). out_wait io p b)
          [(PIC1_CMD, 0x11), (PIC2_CMD, 0x11), (PIC1_DATA, off), (PIC2_DATA, off + 8),
           (PIC1_DATA, 0x04), (PIC2_DATA, 0x02), (PIC1_DATA, 0x01), (PIC2_DATA, 0x01)] s))"

definition pic_port :: "u8 \<Rightarrow> u16" where
  "pic_port line = (if line < 8 then PIC1_DATA else PIC2_DATA)"

definition pic_bit :: "u8 \<Rightarrow> u8" where
  "pic_bit line = push_bit (unat (line AND 7)) 1"

definition pic_unmask :: "'s port_io \<Rightarrow> u8 \<Rightarrow> 's \<Rightarrow> 's" where
  "pic_unmask io line s =
     (let (b, s) = p_inb io (pic_port line) s in p_outb io (pic_port line) (b AND NOT (pic_bit line)) s)"

definition pic_mask :: "'s port_io \<Rightarrow> u8 \<Rightarrow> 's \<Rightarrow> 's" where
  "pic_mask io line s =
     (let (b, s) = p_inb io (pic_port line) s in p_outb io (pic_port line) (b OR pic_bit line) s)"

subsection \<open>A pair of 8259 controllers\<close>

text \<open>\<open>pic_init\<close> counts the initialization words still expected; \<open>pic_read_isr\<close> says which
  register the command port reads, the requests being none here.\<close>

record pic =
  pic_imr :: u8
  pic_isr :: u8
  pic_base :: u8
  pic_icw :: nat
  pic_read_isr :: bool

record 'k pics =
  pic_m :: pic
  pic_s :: pic
  pics_rest :: 'k

text \<open>A non-specific end of interrupt retires the request of highest priority, the lowest number.\<close>

definition pic_retire :: "u8 \<Rightarrow> u8" where
  "pic_retire x = (case find (bit x) [0..<8] of None \<Rightarrow> x | Some i \<Rightarrow> unset_bit i x)"

definition pic_cmd :: "u8 \<Rightarrow> pic \<Rightarrow> pic" where
  "pic_cmd b p =
     (if bit b 4 then p\<lparr>pic_icw := 3, pic_imr := 0, pic_isr := 0, pic_read_isr := False\<rparr>
      else if bit b 3 then (if bit b 1 then p\<lparr>pic_read_isr := bit b 0\<rparr> else p)
      else if b AND 0xe0 = 0x20 then p\<lparr>pic_isr := pic_retire (pic_isr p)\<rparr>
      else p)"

definition pic_data :: "u8 \<Rightarrow> pic \<Rightarrow> pic" where
  "pic_data b p =
     (if pic_icw p = 3 then p\<lparr>pic_icw := 2, pic_base := b AND 0xf8\<rparr>
      else if pic_icw p = 0 then p\<lparr>pic_imr := b\<rparr>
      else p\<lparr>pic_icw := pic_icw p - 1\<rparr>)"

definition pics_out :: "u16 \<Rightarrow> u8 \<Rightarrow> 'k pics \<Rightarrow> 'k pics" where
  "pics_out port b s =
     (if port = PIC1_CMD then s\<lparr>pic_m := pic_cmd b (pic_m s)\<rparr>
      else if port = PIC1_DATA then s\<lparr>pic_m := pic_data b (pic_m s)\<rparr>
      else if port = PIC2_CMD then s\<lparr>pic_s := pic_cmd b (pic_s s)\<rparr>
      else if port = PIC2_DATA then s\<lparr>pic_s := pic_data b (pic_s s)\<rparr>
      else s)"

definition pics_in :: "u16 \<Rightarrow> 'k pics \<Rightarrow> u8 \<times> 'k pics" where
  "pics_in port s =
     (if port = PIC1_CMD then if pic_read_isr (pic_m s) then pic_isr (pic_m s) else 0
      else if port = PIC1_DATA then pic_imr (pic_m s)
      else if port = PIC2_CMD then if pic_read_isr (pic_s s) then pic_isr (pic_s s) else 0
      else if port = PIC2_DATA then pic_imr (pic_s s) else 0xff, s)"

definition pics_io :: "'k pics port_io" where
  "pics_io = \<lparr>p_inb = pics_in, p_outb = pics_out, p_inw = (\<lambda>_ s. (0, s)), p_outw = (\<lambda>_ _ s. s)\<rparr>"

lemma pics_io_simps [simp]: "p_inb pics_io = pics_in" "p_outb pics_io = pics_out"
  by (simp_all add: pics_io_def)

subsection \<open>Masks\<close>

lemma pic_bit_iff: "bit (pic_bit line) n \<longleftrightarrow> n < 8 \<and> n = unat line mod 8"
proof -
  have "line AND 7 = take_bit 3 line" by (simp add: take_bit_eq_mask mask_eq_exp_minus_1)
  then have "unat (line AND 7) = unat line mod 8" by (simp add: take_bit_eq_mod unat_mod)
  then show ?thesis by (auto simp: pic_bit_def bit_simps)
qed

lemma pics_mask:
  assumes "pic_icw (pic_m s) = 0" and "pic_icw (pic_s s) = 0"
  shows "pic_unmask pics_io line s =
      (if line < 8 then s\<lparr>pic_m := (pic_m s)\<lparr>pic_imr := pic_imr (pic_m s) AND NOT (pic_bit line)\<rparr>\<rparr>
       else s\<lparr>pic_s := (pic_s s)\<lparr>pic_imr := pic_imr (pic_s s) AND NOT (pic_bit line)\<rparr>\<rparr>)"
    "pic_mask pics_io line s =
      (if line < 8 then s\<lparr>pic_m := (pic_m s)\<lparr>pic_imr := pic_imr (pic_m s) OR pic_bit line\<rparr>\<rparr>
       else s\<lparr>pic_s := (pic_s s)\<lparr>pic_imr := pic_imr (pic_s s) OR pic_bit line\<rparr>\<rparr>)"
  using assms by (simp_all add: pic_unmask_def pic_mask_def pics_in_def pics_out_def pic_data_def pic_port_def Let_def)

text \<open>The interrupt request lines that can interrupt the processor.\<close>

definition irq_enabled :: "'k pics \<Rightarrow> nat \<Rightarrow> bool" where
  "irq_enabled s irq \<longleftrightarrow>
     (if irq < 8 then \<not> bit (pic_imr (pic_m s)) irq
      else \<not> bit (pic_imr (pic_s s)) (irq - 8) \<and> \<not> bit (pic_imr (pic_m s)) 2)"

definition irq_vector :: "'k pics \<Rightarrow> nat \<Rightarrow> nat" where
  "irq_vector s irq = (if irq < 8 then unat (pic_base (pic_m s)) + irq else unat (pic_base (pic_s s)) + (irq - 8))"

lemma pic_remap_run:
  "pic_remap pics_io off s =
     s\<lparr>pic_m := (pic_m s)\<lparr>pic_icw := 0, pic_imr := 0xfb, pic_isr := 0, pic_read_isr := False, pic_base := off AND 0xf8\<rparr>,
       pic_s := (pic_s s)\<lparr>pic_icw := 0, pic_imr := 0xff, pic_isr := 0, pic_read_isr := False, pic_base := (off + 8) AND 0xf8\<rparr>\<rparr>"
proof -
  have b: "bit (0x11 :: u8) 4" by (simp add: bit_numeral_rec)
  show ?thesis
    by (simp add: pic_remap_def out_wait_def pics_out_def pic_cmd_def pic_data_def b)
qed

lemma and_f8: "unat (x :: u8) mod 8 = 0 \<Longrightarrow> x AND 0xf8 = x"
proof -
  assume a: "unat x mod 8 = 0"
  have "list_all (\<lambda>c. unat c mod 8 = 0 \<longrightarrow> (c :: u8) AND 0xf8 = c) (map word_of_nat [0..<256])" by code_simp
  from byte_cases[of "\<lambda>c. unat c mod 8 = 0 \<longrightarrow> c AND 0xf8 = c" x, OF this] a show ?thesis by blast
qed
lemma bit_0xfb: "bit (0xfb :: u8) n \<longleftrightarrow> n < 8 \<and> n \<noteq> 2"
proof -
  have "list_all (\<lambda>n. bit (0xfb :: u8) n \<longleftrightarrow> n \<noteq> 2) [0..<8]" by code_simp
  then show ?thesis by (cases "n < 8") (auto simp: list_all_iff dest: bit_imp_le_length)
qed
lemma u8_8: "unat off + 16 \<le> 256 \<Longrightarrow> unat (off + 8 :: u8) = unat off + 8"
  by (simp add: unat_word_ariths)
lemma mask_back: "bit (m :: u8) (unat line mod 8) \<Longrightarrow> m AND NOT (pic_bit line) OR pic_bit line = m"
  by (intro bit_word_eqI) (auto simp: bit_and_iff bit_or_iff bit_not_iff pic_bit_iff)

text \<open>C31. After \<open>pic_remap\<close> the sixteen request lines raise sixteen vectors in a row from the base on, all
  masked but the cascade; unmasking a line afterwards enables exactly that line, and masking it again
  gives the masks back.\<close>

theorem pic_remap_lines:
  assumes "unat off mod 8 = 0" and "unat off + 16 \<le> 256" and "irq < 16" and "unat line < 16" and "unat line \<noteq> 2"
  shows "irq_vector (pic_remap pics_io off s) irq = unat off + irq
    \<and> \<not> irq_enabled (pic_remap pics_io off s) irq = (irq \<noteq> 2)
    \<and> irq_enabled (pic_unmask pics_io line (pic_remap pics_io off s)) irq = (irq = 2 \<or> irq = unat line)
    \<and> pic_mask pics_io line (pic_unmask pics_io line (pic_remap pics_io off s)) = pic_remap pics_io off s"
proof -
  let ?t = "pic_remap pics_io off s"
  have b: "off AND 0xf8 = off" "(off + 8) AND 0xf8 = off + 8"
    using assms(1,2) by (auto intro!: and_f8 simp: u8_8)
  have t: "pic_icw (pic_m ?t) = 0" "pic_icw (pic_s ?t) = 0" "pic_imr (pic_m ?t) = 0xfb" "pic_imr (pic_s ?t) = 0xff"
    "pic_base (pic_m ?t) = off" "pic_base (pic_s ?t) = off + 8"
    by (simp_all add: pic_remap_run b)
  have l: "line < 8 \<longleftrightarrow> unat line < 8" by (simp add: word_less_nat_alt)
  have lm: "unat line mod 8 = (if unat line < 8 then unat line else unat line - 8)"
    using assms(4) by (simp add: mod_if)
  have v: "irq_vector ?t irq = unat off + irq" using assms(2) by (simp add: irq_vector_def t u8_8)
  have e: "\<not> irq_enabled ?t irq = (irq \<noteq> 2)" using assms(3) unfolding irq_enabled_def t bit_0xfb bit_0xff by auto
  have bt: "bit (pic_imr (pic_m ?t)) n \<longleftrightarrow> n < 8 \<and> n \<noteq> 2" "bit (pic_imr (pic_s ?t)) n \<longleftrightarrow> n < 8" for n
    unfolding t bit_0xfb bit_0xff by blast+
  have u: "irq_enabled (pic_unmask pics_io line ?t) irq = (irq = 2 \<or> irq = unat line)"
    using assms(3,4,5) l lm
    by (auto simp: irq_enabled_def pics_mask(1)[OF t(1,2)] bt bit_and_iff bit_not_iff pic_bit_iff)
  let ?u = "pic_unmask pics_io line ?t"
  have ui: "pic_icw (pic_m ?u) = 0" "pic_icw (pic_s ?u) = 0" using t(1,2) by (simp_all add: pics_mask(1)[OF t(1,2)])
  have "(0xfb :: u8) AND NOT (pic_bit line) OR pic_bit line = 0xfb" if "unat line < 8"
    by (rule mask_back, rule bit_0xfb[THEN iffD2]) (use that assms(5) in simp)
  moreover have "(0xff :: u8) AND NOT (pic_bit line) OR pic_bit line = 0xff"
    by (rule mask_back, rule bit_0xff[THEN iffD2]) simp
  ultimately have "pic_mask pics_io line ?u = ?t"
    unfolding pics_mask(2)[OF ui] unfolding pics_mask(1)[OF t(1,2)] using l t(3,4)
    by (cases "unat line < 8") simp_all
  then show ?thesis using v e u by blast
qed

text \<open>Both controllers before any programming.\<close>

definition demo_pic :: pic where
  "demo_pic = \<lparr>pic_imr = 0, pic_isr = 0, pic_base = 0, pic_icw = 0, pic_read_isr = False\<rparr>"

definition demo_pics :: "nat pics" where
  "demo_pics = \<lparr>pic_m = demo_pic, pic_s = demo_pic, pics_rest = 0\<rparr>"

theorem pic_remap_lines_witness:
  "irq_enabled (pic_unmask pics_io 1 (pic_remap pics_io 0x20 demo_pics)) 1
   \<and> \<not> irq_enabled (pic_unmask pics_io 1 (pic_remap pics_io 0x20 demo_pics)) 9
   \<and> irq_vector (pic_remap pics_io 0x20 demo_pics) 1 = 0x21"
  using pic_remap_lines[of "0x20" 1 1 demo_pics] pic_remap_lines[of "0x20" 9 1 demo_pics] by simp

subsection \<open>End of interrupt\<close>

text \<open>Request \<open>i\<close> is in service, and none of higher priority.\<close>

definition serving :: "nat \<Rightarrow> u8 \<Rightarrow> bool" where
  "serving i x \<longleftrightarrow> i < 8 \<and> bit x i \<and> (\<forall>j < i. \<not> bit x j)"

lemma pic_retire: "serving i x \<Longrightarrow> pic_retire x = unset_bit i x"
proof -
  assume a: "serving i x"
  then have "find (bit x) [0..<8] = Some i"
    unfolding find_Some_iff serving_def by (intro exI[of _ i]) auto
  then show ?thesis by (simp add: pic_retire_def)
qed

definition ready :: "'k pics \<Rightarrow> bool" where
  "ready s \<longleftrightarrow> pic_icw (pic_m s) = 0 \<and> pic_icw (pic_s s) = 0"

definition same_service :: "'k pics \<Rightarrow> 'k pics \<Rightarrow> bool" where
  "same_service s t \<longleftrightarrow> pic_isr (pic_m t) = pic_isr (pic_m s) \<and> pic_isr (pic_s t) = pic_isr (pic_s s)"

text \<open>How the controllers deliver request \<open>irq\<close>: the slave's requests come through the cascade.\<close>

definition delivered :: "nat \<Rightarrow> 'k pics \<Rightarrow> bool" where
  "delivered irq s \<longleftrightarrow>
     (if irq < 8 then serving irq (pic_isr (pic_m s))
      else irq < 16 \<and> serving 2 (pic_isr (pic_m s)) \<and> serving (irq - 8) (pic_isr (pic_s s)))"

lemma eoi_out:
  "pics_out PIC1_CMD PIC_EOI s = s\<lparr>pic_m := (pic_m s)\<lparr>pic_isr := pic_retire (pic_isr (pic_m s))\<rparr>\<rparr>"
  "pics_out PIC2_CMD PIC_EOI s = s\<lparr>pic_s := (pic_s s)\<lparr>pic_isr := pic_retire (pic_isr (pic_s s))\<rparr>\<rparr>"
proof -
  have "\<not> bit (0x20 :: u8) 4" "\<not> bit (0x20 :: u8) 3" by (simp_all add: bit_numeral_rec)
  then show "pics_out PIC1_CMD PIC_EOI s = s\<lparr>pic_m := (pic_m s)\<lparr>pic_isr := pic_retire (pic_isr (pic_m s))\<rparr>\<rparr>"
    "pics_out PIC2_CMD PIC_EOI s = s\<lparr>pic_s := (pic_s s)\<lparr>pic_isr := pic_retire (pic_isr (pic_s s))\<rparr>\<rparr>"
    by (simp_all add: pics_out_def pic_cmd_def)
qed

lemma and_bit: "(x :: u8) AND push_bit i 1 = 0 \<longleftrightarrow> \<not> (i < 8 \<and> bit x i)"
  using and_exp_eq_0_iff_not_bit[of x i] by (auto simp: push_bit_eq_mult dest: bit_imp_le_length)

lemma spurious_run:
  assumes "irq = 7 \<or> irq = 15"
  shows "\<exists>t. irq_is_spurious pics_io irq s =
     (\<not> bit (if irq = 7 then pic_isr (pic_m s) else pic_isr (pic_s s)) 7, t)
     \<and> same_service s t \<and> pics_rest t = pics_rest s"
proof -
  have b: "\<not> bit (0x0b :: u8) 4" "bit (0x0b :: u8) 3" "bit (0x0b :: u8) 1" "bit (0x0b :: u8) 0"
    by (simp_all add: bit_numeral_rec)
  have o: "pics_out PIC1_CMD 0x0b s = s\<lparr>pic_m := (pic_m s)\<lparr>pic_read_isr := True\<rparr>\<rparr>"
    "pics_out PIC2_CMD 0x0b s = s\<lparr>pic_s := (pic_s s)\<lparr>pic_read_isr := True\<rparr>\<rparr>"
    using b by (simp_all only: pics_out_def pic_cmd_def if_True if_False simp_thms) simp_all
  have x: "x AND push_bit 7 1 = 0 \<longleftrightarrow> \<not> bit x 7" for x :: u8 unfolding and_bit by simp
  then have x: "x AND 128 = 0 \<longleftrightarrow> \<not> bit x 7" for x :: u8 by simp
  from assms show ?thesis
  proof
    assume i: "irq = 7"
    show ?thesis
      by (rule exI[of _ "pics_out PIC1_CMD 0x0b s"])
        (simp add: irq_is_spurious_def i pics_in_def x same_service_def o)
  next
    assume i: "irq = 15"
    show ?thesis
      by (rule exI[of _ "pics_out PIC2_CMD 0x0b s"])
        (simp add: irq_is_spurious_def i pics_in_def x same_service_def o)
  qed
qed

text \<open>C32. For a genuine hardware interrupt, one that the controllers have in service, the dispatcher runs
  the installed handler exactly once, on the registers it was given, and retires exactly that request:
  its bit on the controller it came from, and the cascade bit of the master for the slave's requests.
  The handler must leave the controllers alone.\<close>

theorem irq_dispatch_eoi:
  assumes "delivered irq s" and "unat (r_int_no reg) = 0x20 + irq" and "isr_handlers idt ! (0x20 + irq) = None"
    and "\<And>r u. same_service u (snd (call_handler (irq_handlers idt ! irq) (r, u)))"
  shows "\<exists>s1 u t. same_service s s1 \<and> pics_rest s1 = pics_rest s
    \<and> u = call_handler (irq_handlers idt ! irq) (reg, s1)
    \<and> isr_dispatcher pics_io panic idt reg s = Returned (fst u, t) \<and> pics_rest t = pics_rest (snd u)
    \<and> pic_isr (pic_m t) = unset_bit (if irq < 8 then irq else 2) (pic_isr (pic_m s))
    \<and> pic_isr (pic_s t) = (if irq < 8 then pic_isr (pic_s s) else unset_bit (irq - 8) (pic_isr (pic_s s)))"
proof -
  have irq: "irq < 16" using assms(1) by (auto simp: delivered_def serving_def split: if_splits)
  have "\<exists>s1. (if irq = 7 \<or> irq = 15 then irq_is_spurious pics_io irq s else (False, s)) = (False, s1)
      \<and> same_service s s1 \<and> pics_rest s1 = pics_rest s"
  proof (cases "irq = 7 \<or> irq = 15")
    case True
    then show ?thesis using spurious_run[OF True, of s] assms(1) by (auto simp: delivered_def serving_def)
  qed (simp add: same_service_def)
  then obtain s1 where s1: "(if irq = 7 \<or> irq = 15 then irq_is_spurious pics_io irq s else (False, s)) = (False, s1)"
    "same_service s s1" "pics_rest s1 = pics_rest s" by blast
  obtain r u where u: "call_handler (irq_handlers idt ! irq) (reg, s1) = (r, u)" by fastforce
  have su: "same_service s u" using s1(2) assms(4)[of s1 reg] u by (simp add: same_service_def)
  let ?t = "pics_out PIC1_CMD PIC_EOI (if irq \<ge> 8 then pics_out PIC2_CMD PIC_EOI u else u)"
  have "isr_dispatcher pics_io panic idt reg s = Returned (r, ?t)"
    using s1(1) u irq assms(2,3) by (simp add: isr_dispatcher_def call_handler_def[of None] Let_def split: prod.splits)
  moreover have "pics_rest ?t = pics_rest u" by (simp add: eoi_out)
  moreover have "pic_isr (pic_m ?t) = unset_bit (if irq < 8 then irq else 2) (pic_isr (pic_m s))"
    using su assms(1) by (auto simp: eoi_out same_service_def delivered_def pic_retire)
  moreover have "pic_isr (pic_s ?t) = (if irq < 8 then pic_isr (pic_s s) else unset_bit (irq - 8) (pic_isr (pic_s s)))"
    using su assms(1) by (auto simp: eoi_out same_service_def delivered_def pic_retire)
  ultimately show ?thesis using s1(2,3) u by (metis fst_conv snd_conv)
qed

text \<open>A spurious interrupt reaches no handler.  On line 7 nothing is retired; on line 15 only the
  cascade request of the master is.\<close>

theorem irq_spurious_ignored:
  assumes "unat (r_int_no reg) = 0x20 + irq" and "isr_handlers idt ! (0x20 + irq) = None"
    and "irq = 7 \<and> \<not> bit (pic_isr (pic_m s)) 7 \<or> irq = 15 \<and> \<not> bit (pic_isr (pic_s s)) 7 \<and> serving 2 (pic_isr (pic_m s))"
  shows "\<exists>t. isr_dispatcher pics_io panic idt reg s = Returned (reg, t) \<and> pics_rest t = pics_rest s
    \<and> pic_isr (pic_s t) = pic_isr (pic_s s)
    \<and> pic_isr (pic_m t) = (if irq = 7 then pic_isr (pic_m s) else unset_bit 2 (pic_isr (pic_m s)))"
proof -
  have "irq = 7 \<or> irq = 15" using assms(3) by blast
  from spurious_run[OF this, of s] obtain s1 where s1: "irq_is_spurious pics_io irq s = (True, s1)"
    "same_service s s1" "pics_rest s1 = pics_rest s" using assms(3) by auto
  show ?thesis
    using assms s1 by (auto simp: isr_dispatcher_def call_handler_def Let_def eoi_out same_service_def pic_retire)
qed

text \<open>An exception vector always stops the machine, also when a handler is installed for it and has
  dealt with it; interrupts above the hardware lines run their handler and touch no controller.\<close>

theorem isr_dispatcher_soft:
  assumes "u = call_handler (isr_handlers idt ! unat (r_int_no reg)) (reg, s)" and "r_int_no (fst u) = r_int_no reg"
  shows "(r_int_no reg < 32 \<longrightarrow> isr_dispatcher io panic idt reg s =
        Halted (fst u, panic (fst u) (Some (str (exc_names ! unat (r_int_no reg)))) (snd u)))
    \<and> (r_int_no reg \<ge> 48 \<longrightarrow> isr_dispatcher io panic idt reg s = Returned u)"
proof -
  obtain r v where u: "u = (r, v)" by fastforce
  then show ?thesis
    using assms(2) unfolding isr_dispatcher_def assms(1)[symmetric] by (simp add: word_less_nat_alt word_le_nat_alt)
qed

subsection \<open>Gates\<close>

text \<open>How the processor reads a gate.\<close>

definition gate_offset :: "idt_entry \<Rightarrow> u64" where
  "gate_offset e = ucast (ie_offset_low e) OR push_bit 16 (ucast (ie_offset_mid e)) OR push_bit 32 (ucast (ie_offset_high e))"

definition gate_ist :: "idt_entry \<Rightarrow> nat" where
  "gate_ist e = unat (ie_zero e AND 7)"

lemma idt_gate_offset: "gate_offset (idt_gate addr ist) = addr"
proof (rule bit_word_eqI)
  fix n assume "n < LENGTH(64)"
  have m: "x AND 0xffff = take_bit 16 x" "x AND 0xffffffff = take_bit 32 x" for x :: u64
    by (simp_all add: take_bit_eq_mask mask_eq_exp_minus_1)
  from \<open>n < LENGTH(64)\<close> consider "n < 16" | "16 \<le> n" "n < 32" | "32 \<le> n" "n < 64" by fastforce
  then show "bit (gate_offset (idt_gate addr ist)) n = bit addr n"
    by cases (auto simp: gate_offset_def idt_gate_def m bit_simps)
qed

lemma fold_gates:
  "n \<le> 256 \<Longrightarrow> length t = 256 \<Longrightarrow>
   fold (\<lambda>i. idt_set_gate (word_of_nat i) (stub ! i) (if i = 8 then 1 else 0)) [0..<n] t
     = map (\<lambda>i. if i < n then idt_gate (stub ! i) (if i = 8 then 1 else 0) else t ! i) [0..<256]"
proof (induction n)
  case 0
  then show ?case using map_nth[of t] by simp
next
  case (Suc n)
  then have "unat (word_of_nat n :: u8) = n" by (simp add: unat_of_nat take_bit_eq_mod)
  with Suc show ?case by (auto simp: idt_set_gate_def intro!: nth_equalityI simp: nth_list_update)
qed

text \<open>After \<open>idt_init\<close> every one of the 256 vectors is an interrupt gate of the kernel code segment
  that leads to the entry point of its number, on the stack of its own only for the double fault, and no
  handler is installed.\<close>

theorem idt_init_gates:
  assumes "n < 256"
  shows "gate_offset (idt_table (idt_init stub s) ! n) = stub ! n
    \<and> ie_selector (idt_table (idt_init stub s) ! n) = 8 \<and> ie_flags (idt_table (idt_init stub s) ! n) = 0x8e
    \<and> gate_ist (idt_table (idt_init stub s) ! n) = (if n = 8 then 1 else 0)
    \<and> isr_handlers (idt_init stub s) ! n = None \<and> unat (idt_limit (idt_init stub s)) + 1 = 16 * length (idt_table (idt_init stub s))"
proof -
  have "idt_table (idt_init stub s) = map (\<lambda>i. idt_gate (stub ! i) (if i = 8 then 1 else 0)) [0..<256]"
    using fold_gates[of 256 "replicate 256 zero_gate" stub] by (simp add: idt_init_def cong: map_cong)
  moreover have "gate_ist (idt_gate a 0) = 0" "gate_ist (idt_gate a 1) = 1" for a
    by (simp_all add: gate_ist_def idt_gate_def)
  ultimately show ?thesis
    using assms by (simp add: idt_gate_offset) (simp add: idt_gate_def idt_init_def)
qed

subsection \<open>A small machine\<close>

text \<open>A handler that counts its calls is installed for the request lines 1 and 12 and for the breakpoint
  exception.\<close>

definition count_call :: "nat pics isr_handler" where
  "count_call r s = (r, s\<lparr>pics_rest := pics_rest s + 1\<rparr>)"

definition demo_idt :: "nat pics idt_st" where
  "demo_idt = isr_install 3 count_call (irq_install 12 count_call (irq_install 1 count_call
     (idt_init (map word_of_nat [0..<256]) \<lparr>idt_table = [], idt_limit = 0, isr_handlers = [], irq_handlers = []\<rparr>)))"

definition demo_regs :: "u64 \<Rightarrow> regs" where
  "demo_regs n = \<lparr>r_r8 = 0, r_r9 = 0, r_r10 = 0, r_r11 = 0, r_r12 = 0, r_r13 = 0, r_r14 = 0, r_r15 = 0, r_rdi = 0,
     r_rsi = 0, r_rbp = 0, r_rbx = 0, r_rdx = 0, r_rcx = 0, r_rax = 0, r_int_no = n, r_err_code = 0, r_rip = 0,
     r_cs = 0, r_rflags = 0, r_rsp = 0, r_ss = 0\<rparr>"

lemma demo_idt_fields:
  "isr_handlers demo_idt = (replicate 256 None)[3 := Some count_call]"
  "irq_handlers demo_idt = (replicate 16 None)[1 := Some count_call, 12 := Some count_call]"
  by (simp_all add: demo_idt_def isr_install_def irq_install_def idt_init_def)

lemma demo_quiet: "same_service u (snd (call_handler (irq_handlers demo_idt ! irq) (r, u)))" if "irq < 16"
  using that by (auto simp: demo_idt_fields same_service_def call_handler_def count_call_def nth_list_update)

definition busy_pics :: "u8 \<Rightarrow> u8 \<Rightarrow> nat pics" where
  "busy_pics m n = demo_pics\<lparr>pic_m := demo_pic\<lparr>pic_isr := m\<rparr>, pic_s := demo_pic\<lparr>pic_isr := n\<rparr>\<rparr>"

theorem irq_dispatch_eoi_witness:
  "\<exists>t. isr_dispatcher pics_io (\<lambda>_ _ s. s) demo_idt (demo_regs 0x2c) (busy_pics 4 16) = Returned (demo_regs 0x2c, t)
     \<and> pics_rest t = 1 \<and> pic_isr (pic_m t) = 0 \<and> pic_isr (pic_s t) = 0"
proof -
  have "bit (4 :: u8) 2" "\<not> bit (4 :: u8) 0" "\<not> bit (4 :: u8) 1" "bit (16 :: u8) 4" "\<not> bit (16 :: u8) 0" "\<not> bit (16 :: u8) 1"
    "\<not> bit (16 :: u8) 2" "\<not> bit (16 :: u8) 3" by (simp_all add: bit_numeral_rec)
  then have d: "delivered 12 (busy_pics 4 16)"
    by (simp add: delivered_def serving_def busy_pics_def demo_pics_def demo_pic_def All_less_Suc eval_nat_numeral)
  have n: "unat (r_int_no (demo_regs 0x2c)) = 0x20 + 12" "isr_handlers demo_idt ! (0x20 + 12) = None"
    "irq_handlers demo_idt ! 12 = Some count_call"
    by (simp_all add: demo_regs_def demo_idt_fields)
  have z: "unset_bit 2 (4 :: u8) = 0" "unset_bit 4 (16 :: u8) = 0" by code_simp+
  have h: "same_service u (snd (call_handler (irq_handlers demo_idt ! 12) (r, u)))" for r u by (rule demo_quiet) simp
  from irq_dispatch_eoi[OF d n(1,2) h, of "\<lambda>_ _ s. s"] obtain s1 t where
    "pics_rest s1 = pics_rest (busy_pics 4 16)"
    "isr_dispatcher pics_io (\<lambda>_ _ s. s) demo_idt (demo_regs 0x2c) (busy_pics 4 16)
       = Returned (fst (call_handler (irq_handlers demo_idt ! 12) (demo_regs 0x2c, s1)), t)"
    "pics_rest t = pics_rest (snd (call_handler (irq_handlers demo_idt ! 12) (demo_regs 0x2c, s1)))"
    "pic_isr (pic_m t) = unset_bit 2 (pic_isr (pic_m (busy_pics 4 16)))"
    "pic_isr (pic_s t) = unset_bit 4 (pic_isr (pic_s (busy_pics 4 16)))" by auto
  then show ?thesis by (simp add: n(3) call_handler_def count_call_def busy_pics_def demo_pics_def demo_pic_def z)
qed

theorem irq_spurious_ignored_witness:
  "\<exists>t. isr_dispatcher pics_io (\<lambda>_ _ s. s) demo_idt (demo_regs 0x27) (busy_pics 0 0) = Returned (demo_regs 0x27, t)
     \<and> pics_rest t = 0"
proof -
  have "unat (r_int_no (demo_regs 0x27)) = 0x20 + 7" "isr_handlers demo_idt ! (0x20 + 7) = None"
    "7 = 7 \<and> \<not> bit (pic_isr (pic_m (busy_pics 0 0))) 7"
    by (simp_all add: demo_regs_def demo_idt_fields busy_pics_def)
  then show ?thesis
    using irq_spurious_ignored[of "demo_regs 0x27" 7 demo_idt "busy_pics 0 0" "\<lambda>_ _ s. s"]
    by (auto simp: busy_pics_def demo_pics_def)
qed

theorem isr_dispatcher_soft_witness:
  "\<exists>u. pics_rest (snd u) = 1 \<and> isr_dispatcher pics_io (\<lambda>_ _ s. s) demo_idt (demo_regs 3) demo_pics =
     Halted u"
proof -
  let ?u = "call_handler (isr_handlers demo_idt ! unat (r_int_no (demo_regs 3))) (demo_regs 3, demo_pics)"
  have u: "?u = (demo_regs 3, demo_pics\<lparr>pics_rest := 1\<rparr>)"
    by (simp add: call_handler_def count_call_def demo_idt_fields demo_regs_def demo_pics_def)
  have "exc_names ! 3 = ''Breakpoint''" by (simp add: exc_names_def)
  then show ?thesis
    using isr_dispatcher_soft[OF refl, of demo_idt "demo_regs 3" demo_pics pics_io "\<lambda>_ _ s. s"] u
    by (intro exI[of _ ?u]) (simp add: demo_regs_def)
qed

theorem idt_init_gates_witness:
  "gate_offset (idt_table (idt_init (map word_of_nat [0..<256]) demo_idt) ! 8) = 8
   \<and> gate_ist (idt_table (idt_init (map word_of_nat [0..<256]) demo_idt) ! 8) = 1"
  using idt_init_gates[of 8 "map word_of_nat [0..<256]" demo_idt] by simp


subsection \<open>Panics\<close>

lemma panic_with_frame:
  "con_geom (p_con s) \<Longrightarrow> con_h (p_con s) * con_pw (p_con s) \<le> a \<Longrightarrow>
   con_mem (p_con (panic_with title body s)) a = con_mem (p_con s) a"
  using con_run_frame[of "p_con s" "panic_header title @ body"] by (simp add: panic_with_def con_frame_def)

text \<open>No panic, whatever its message and the registers, writes behind the framebuffer, and a panic during
  a panic leaves the report of the first one on the screen.\<close>

theorem panic_stays_inside:
  assumes "con_geom (p_con s)" and "con_h (p_con s) * con_pw (p_con s) \<le> a"
  shows "con_mem (p_con (kpanic_regs cr2 reg msg s)) a = con_mem (p_con s) a
    \<and> con_mem (p_con (kpanic msg file line s)) a = con_mem (p_con s) a
    \<and> con_mem (p_con (kassert_fail msg file line s)) a = con_mem (p_con s) a
    \<and> kpanic_regs cr2 reg msg (kpanic msg file line s) = kpanic msg file line s"
  using panic_with_frame[OF assms]
  by (simp add: kpanic_regs_def kpanic_def kassert_fail_def) (simp add: panic_with_def)

theorem panic_stays_inside_witness:
  "con_mem (p_con (kpanic None None 7 \<lparr>p_con = demo_con, in_panic = False\<rparr>)) 240 = 7"
  using panic_stays_inside[of "\<lparr>p_con = demo_con, in_panic = False\<rparr>" 240 0 undefined None None 7] demo_con_ok(2)
  by (simp add: demo_con_def)


end
