(* ===== verification/Kernel_Gdt.thy ===== *)
theory Kernel_Gdt
  imports Prelude
begin

text \<open>
  The global descriptor table and the task state segment of \<open>kernel/cpu/gdt.c\<close>, the descriptor formats
  and checks of the processor that reads them, and the loads of the segment registers at the end of
  \<open>gdt_init\<close>.  The addresses of the objects the linker places are parameters.
\<close>

record gdt_entry =
  ge_limit_low :: u16
  ge_base_low :: u16
  ge_base_mid :: u8
  ge_access :: u8
  ge_flags :: u8
  ge_base_high :: u8

record tss =
  tss_rsp0 :: u64
  tss_ist :: "u64 list"
  tss_iomap_base :: u16

record gdt_st =
  gdt_table :: "gdt_entry list"
  gdt_limit :: u16
  gdt_base :: u64
  gdt_tss :: tss

definition gdt_gate :: "u32 \<Rightarrow> u32 \<Rightarrow> u8 \<Rightarrow> u8 \<Rightarrow> gdt_entry" where
  "gdt_gate base limit access flags =
     \<lparr>ge_limit_low = ucast (limit AND 0xffff), ge_base_low = ucast (base AND 0xffff),
      ge_base_mid = ucast (drop_bit 16 base AND 0xff), ge_access = access,
      ge_flags = ucast ((drop_bit 16 limit AND 0x0f) OR (ucast flags AND 0xf0)),
      ge_base_high = ucast (drop_bit 24 base AND 0xff)\<rparr>"

definition gdt_set_gate :: "nat \<Rightarrow> u32 \<Rightarrow> u32 \<Rightarrow> u8 \<Rightarrow> u8 \<Rightarrow> gdt_entry list \<Rightarrow> gdt_entry list" where
  "gdt_set_gate i base limit access flags t = t[i := gdt_gate base limit access flags]"

abbreviation (input) TSS_SIZE :: nat where "TSS_SIZE \<equiv> 104"

text \<open>Two 32-bit stores fill the slot behind the descriptor.\<close>

definition gdt_set_tss :: "u64 \<Rightarrow> nat \<Rightarrow> gdt_entry list \<Rightarrow> gdt_entry list" where
  "gdt_set_tss base i t =
     (let limit = word_of_nat (TSS_SIZE - 1) :: u32; up = ucast (drop_bit 32 base) :: u32
      in t[i := \<lparr>ge_limit_low = ucast (limit AND 0xffff), ge_base_low = ucast (base AND 0xffff),
                 ge_base_mid = ucast (drop_bit 16 base AND 0xff), ge_access = 0x89,
                 ge_flags = ucast (drop_bit 16 limit AND 0x0f), ge_base_high = ucast (drop_bit 24 base AND 0xff)\<rparr>,
           i + 1 := \<lparr>ge_limit_low = ucast up, ge_base_low = ucast (drop_bit 16 up), ge_base_mid = 0,
                     ge_access = 0, ge_flags = 0, ge_base_high = 0\<rparr>])"

definition tss_set_kernel_stack :: "u64 \<Rightarrow> gdt_st \<Rightarrow> gdt_st" where
  "tss_set_kernel_stack rsp0 s = s\<lparr>gdt_tss := (gdt_tss s)\<lparr>tss_rsp0 := rsp0\<rparr>\<rparr>"

definition zero_desc :: gdt_entry where
  "zero_desc = \<lparr>ge_limit_low = 0, ge_base_low = 0, ge_base_mid = 0, ge_access = 0, ge_flags = 0, ge_base_high = 0\<rparr>"

text \<open>\<open>gdt\<close>, \<open>tss\<close> and \<open>df_stack\<close> are the addresses of the static objects of these names.\<close>

definition gdt_init :: "u64 \<Rightarrow> u64 \<Rightarrow> u64 \<Rightarrow> gdt_st" where
  "gdt_init gdt tss df_stack =
     \<lparr>gdt_table =
        gdt_set_tss tss 5
         (gdt_set_gate 4 0 0xffffff 0xf2 0xc0 (gdt_set_gate 3 0 0xffffff 0xfa 0xa0
         (gdt_set_gate 2 0 0xffffff 0x92 0xc0 (gdt_set_gate 1 0 0xffffff 0x9a 0xa0
         (gdt_set_gate 0 0 0 0 0 (replicate 8 zero_desc)))))),
      gdt_limit = 8 * 8 - 1, gdt_base = gdt,
      gdt_tss = \<lparr>tss_rsp0 = 0, tss_ist = (replicate 7 0)[0 := df_stack + 8192], tss_iomap_base = word_of_nat TSS_SIZE\<rparr>\<rparr>"

subsection \<open>What the processor reads\<close>

text \<open>The descriptor formats of the architecture (Intel SDM volume 3, chapters 3 and 8), read from the
  bytes of the table.  A code segment is readable or not, conforming or not and has a mode; a data segment
  is writable or not, grows downwards or not and is a 32-bit one or not; a task state segment is busy or not.\<close>

datatype code_mode = Code16 | Code32 | Code64

datatype seg_type =
    Code bool bool code_mode
  | Data bool bool bool
  | Tss64 bool

record desc =
  d_base :: u64
  d_limit :: nat
  d_type :: seg_type
  d_dpl :: nat

definition desc_base :: "gdt_entry \<Rightarrow> u32" where
  "desc_base e = ucast (ge_base_low e) OR push_bit 16 (ucast (ge_base_mid e)) OR push_bit 24 (ucast (ge_base_high e))"

definition raw_limit :: "gdt_entry \<Rightarrow> u32" where
  "raw_limit e = ucast (ge_limit_low e) OR push_bit 16 (ucast (ge_flags e AND 0x0f))"

text \<open>The offset of the last byte; with the granularity bit the limit counts pages.\<close>

definition desc_limit :: "gdt_entry \<Rightarrow> nat" where
  "desc_limit e = (if bit (ge_flags e) 7 then unat (raw_limit e) * 4096 + 4095 else unat (raw_limit e))"

definition desc_present :: "gdt_entry \<Rightarrow> bool" where "desc_present e = bit (ge_access e) 7"
definition desc_dpl :: "gdt_entry \<Rightarrow> nat" where "desc_dpl e = unat (drop_bit 5 (ge_access e) AND 3)"

text \<open>Bit 4 of the access byte tells segments from system descriptors, of which the 64-bit task state
  segments are known here; L and D together are reserved.\<close>

definition desc_type :: "gdt_entry \<Rightarrow> seg_type option" where
  "desc_type e =
     (let a = ge_access e; long = bit (ge_flags e) 5; d = bit (ge_flags e) 6
      in if bit a 4 then
           (if bit a 3 then
              (if long \<and> d then None
               else Some (Code (bit a 1) (bit a 2) (if long then Code64 else if d then Code32 else Code16)))
            else Some (Data (bit a 1) (bit a 2) d))
         else if a AND 0x0f = 0x9 then Some (Tss64 False)
         else if a AND 0x0f = 0xb then Some (Tss64 True)
         else None)"

definition sys_base :: "gdt_entry \<Rightarrow> gdt_entry \<Rightarrow> u64" where
  "sys_base e u = ucast (desc_base e) OR push_bit 32 (ucast (ge_limit_low u)) OR push_bit 48 (ucast (ge_base_low u))"

text \<open>The descriptor a selector of the global table names: not the null one, inside the limit, present
  and of a valid type; a system descriptor takes two slots, of which the second has type 0.\<close>

definition read_desc :: "gdt_st \<Rightarrow> u16 \<Rightarrow> desc option" where
  "read_desc g sel =
     (let i = unat (drop_bit 3 sel); e = gdt_table g ! i; u = gdt_table g ! (i + 1)
      in if bit sel 2 \<or> i = 0 \<or> 8 * i + 7 > unat (gdt_limit g) \<or> \<not> desc_present e then None
         else case desc_type e of
             None \<Rightarrow> None
           | Some (Tss64 b) \<Rightarrow>
               if 8 * i + 15 > unat (gdt_limit g) \<or> ge_access u AND 0x1f \<noteq> 0 then None
               else Some \<lparr>d_base = sys_base e u, d_limit = desc_limit e, d_type = Tss64 b, d_dpl = desc_dpl e\<rparr>
           | Some t \<Rightarrow> Some \<lparr>d_base = ucast (desc_base e), d_limit = desc_limit e, d_type = t, d_dpl = desc_dpl e\<rparr>)"

subsection \<open>Loading the tables\<close>

text \<open>The assembly at the end of \<open>gdt_init\<close> at privilege level 0, with the checks of the processor;
  \<open>None\<close> is a fault.\<close>

record seg_regs =
  sr_cs :: u16
  sr_ds :: u16
  sr_es :: u16
  sr_ss :: u16
  sr_fs :: u16
  sr_gs :: u16
  sr_tr :: u16

definition null_sel :: "u16 \<Rightarrow> bool" where "null_sel sel = (drop_bit 2 sel = 0)"

definition load_cs :: "gdt_st \<Rightarrow> u16 \<Rightarrow> bool" where
  "load_cs g sel = (case read_desc g sel of
     Some d \<Rightarrow> (case d_type d of Code r c m \<Rightarrow> d_dpl d = 0 \<and> sel AND 3 = 0 | _ \<Rightarrow> False) | None \<Rightarrow> False)"

definition load_ss :: "gdt_st \<Rightarrow> u16 \<Rightarrow> bool" where
  "load_ss g sel = (case read_desc g sel of
     Some d \<Rightarrow> (case d_type d of Data w x b \<Rightarrow> w \<and> d_dpl d = 0 \<and> sel AND 3 = 0 | _ \<Rightarrow> False) | None \<Rightarrow> False)"

definition load_data :: "gdt_st \<Rightarrow> u16 \<Rightarrow> bool" where
  "load_data g sel = (null_sel sel \<or> (case read_desc g sel of
     Some d \<Rightarrow> (case d_type d of Data w x b \<Rightarrow> unat (sel AND 3) \<le> d_dpl d
       | Code r c m \<Rightarrow> r \<and> (c \<or> unat (sel AND 3) \<le> d_dpl d) | Tss64 b \<Rightarrow> False) | None \<Rightarrow> False))"

text \<open>\<open>ltr\<close> wants an available task state segment and marks it busy in the table.\<close>

definition load_tr :: "gdt_st \<Rightarrow> u16 \<Rightarrow> gdt_st option" where
  "load_tr g sel = (case read_desc g sel of
     Some d \<Rightarrow> if d_type d = Tss64 False
       then let i = unat (drop_bit 3 sel); e = gdt_table g ! i
            in Some (g\<lparr>gdt_table := (gdt_table g)[i := e\<lparr>ge_access := ge_access e OR 2\<rparr>]\<rparr>)
       else None
   | None \<Rightarrow> None)"

abbreviation (input) GDT_KERNEL_CODE :: u16 where "GDT_KERNEL_CODE \<equiv> 0x08"
abbreviation (input) GDT_KERNEL_DATA :: u16 where "GDT_KERNEL_DATA \<equiv> 0x10"
abbreviation (input) GDT_TSS :: u16 where "GDT_TSS \<equiv> 0x28"

definition gdt_load :: "gdt_st \<Rightarrow> (seg_regs \<times> gdt_st) option" where
  "gdt_load g =
     (if \<not> load_cs g GDT_KERNEL_CODE then None
      else if \<not> load_data g GDT_KERNEL_DATA then None
      else if \<not> load_ss g GDT_KERNEL_DATA then None
      else if \<not> load_data g 0 then None
      else map_option (\<lambda>g'. (\<lparr>sr_cs = GDT_KERNEL_CODE, sr_ds = GDT_KERNEL_DATA, sr_es = GDT_KERNEL_DATA,
          sr_ss = GDT_KERNEL_DATA, sr_fs = 0, sr_gs = 0, sr_tr = GDT_TSS\<rparr>, g')) (load_tr g GDT_TSS))"

subsection \<open>The descriptors\<close>

lemma low_masks: "x AND 0xffff = take_bit 16 x" "x AND 0xff = take_bit 8 x" "x AND 0x0f = take_bit 4 x"
  for x :: "'a::len word"
  by (simp_all add: take_bit_eq_mask mask_eq_exp_minus_1)

lemma gate_base: "desc_base (gdt_gate base limit access flags) = base"
proof (rule bit_word_eqI)
  fix n assume "n < LENGTH(32)"
  then consider "n < 16" | "16 \<le> n" "n < 24" | "24 \<le> n" "n < 32" by fastforce
  then show "bit (desc_base (gdt_gate base limit access flags)) n = bit base n"
    by cases (auto simp: desc_base_def gdt_gate_def low_masks bit_simps)
qed

lemma tss_base:
  assumes "length t = 8"
  shows "sys_base (gdt_set_tss base 5 t ! 5) (gdt_set_tss base 5 t ! 6) = base"
proof (rule bit_word_eqI)
  fix n assume "n < LENGTH(64)"
  then consider "n < 16" | "16 \<le> n" "n < 24" | "24 \<le> n" "n < 32" | "32 \<le> n" "n < 48" | "48 \<le> n" "n < 64" by fastforce
  then show "bit (sys_base (gdt_set_tss base 5 t ! 5) (gdt_set_tss base 5 t ! 6)) n = bit base n"
    using assms by cases (auto simp: sys_base_def desc_base_def gdt_set_tss_def Let_def low_masks bit_simps)
qed

lemma gate_limit: "raw_limit (gdt_gate base limit access flags) = limit AND 0xfffff"
proof (rule bit_word_eqI)
  fix n assume "n < LENGTH(32)"
  have m: "limit AND 0xfffff = take_bit 20 limit" by (simp add: take_bit_eq_mask mask_eq_exp_minus_1)
  have k: "(0xf0 :: u32) = push_bit 4 (mask 4)" by (simp add: mask_eq_exp_minus_1)
  from \<open>n < LENGTH(32)\<close> consider "n < 16" | "16 \<le> n" "n < 20" | "20 \<le> n" "n < 32" by fastforce
  then show "bit (raw_limit (gdt_gate base limit access flags)) n = bit (limit AND 0xfffff) n"
    unfolding m raw_limit_def gdt_gate_def gdt_entry.simps low_masks k
    by cases (auto simp: bit_unsigned_iff bit_or_iff bit_and_iff
        bit_take_bit_iff bit_drop_bit_eq bit_push_bit_iff bit_mask_iff)
qed

text \<open>What the kernel means its table to be: 4 GiB segments from 0 for code and data at the selectors of
  \<open>gdt.h\<close>, the code ones 64-bit and readable, the data ones writable, those of the programs at
  privilege level 3; the task state segment with all of its 104 bytes, without an I/O bitmap; and
  nothing else.\<close>

definition flat_code :: "nat \<Rightarrow> desc" where
  "flat_code dpl = \<lparr>d_base = 0, d_limit = 0xffffffff, d_type = Code True False Code64, d_dpl = dpl\<rparr>"

definition flat_data :: "nat \<Rightarrow> desc" where
  "flat_data dpl = \<lparr>d_base = 0, d_limit = 0xffffffff, d_type = Data True False True, d_dpl = dpl\<rparr>"

definition tss_desc :: "u64 \<Rightarrow> bool \<Rightarrow> desc" where
  "tss_desc base b = \<lparr>d_base = base, d_limit = 103, d_type = Tss64 b, d_dpl = 0\<rparr>"

definition gdt_good :: "u64 \<Rightarrow> u64 \<Rightarrow> bool \<Rightarrow> gdt_st \<Rightarrow> bool" where
  "gdt_good tss df_stack running g \<longleftrightarrow>
     read_desc g 0x08 = Some (flat_code 0) \<and> read_desc g 0x10 = Some (flat_data 0)
     \<and> read_desc g 0x18 = Some (flat_code 3) \<and> read_desc g 0x20 = Some (flat_data 3)
     \<and> read_desc g 0x28 = Some (tss_desc tss running)
     \<and> (\<forall>sel. drop_bit 3 sel \<notin> {1, 2, 3, 4, 5} \<longrightarrow> read_desc g sel = None)
     \<and> tss_ist (gdt_tss g) ! 0 = df_stack + 8192 \<and> 103 < unat (tss_iomap_base (gdt_tss g))"

lemma gate_flat:
  "desc_limit (gdt_gate 0 0xffffff access flags) = (if bit flags 7 then 0xffffffff else 0xfffff)"
  "desc_base (gdt_gate 0 0xffffff access flags) = 0"
proof -
  have "bit (ge_flags (gdt_gate 0 0xffffff access flags)) 7 = bit flags 7"
    using bit_push_bit_iff[of 4 "0xf :: u8" 7] by (simp add: gdt_gate_def low_masks bit_simps)
  moreover have "(0xffffff :: u32) AND 0xfffff = 0xfffff" by simp
  ultimately show "desc_limit (gdt_gate 0 0xffffff access flags) = (if bit flags 7 then 0xffffffff else 0xfffff)"
    unfolding desc_limit_def gate_limit by simp
qed (rule gate_base)

lemma gate_types:
  "desc_type (gdt_gate 0 0xffffff 0x9a 0xa0) = Some (Code True False Code64)"
  "desc_type (gdt_gate 0 0xffffff 0xfa 0xa0) = Some (Code True False Code64)"
  "desc_type (gdt_gate 0 0xffffff 0x92 0xc0) = Some (Data True False True)"
  "desc_type (gdt_gate 0 0xffffff 0xf2 0xc0) = Some (Data True False True)"
  by (simp_all add: desc_type_def gdt_gate_def Let_def bit_iff_odd_drop_bit)

lemma gate_access:
  "desc_dpl (gdt_gate 0 0xffffff 0x9a f) = 0" "desc_dpl (gdt_gate 0 0xffffff 0xfa f) = 3"
  "desc_dpl (gdt_gate 0 0xffffff 0x92 f) = 0" "desc_dpl (gdt_gate 0 0xffffff 0xf2 f) = 3"
  "desc_present (gdt_gate 0 0xffffff 0x9a f)" "desc_present (gdt_gate 0 0xffffff 0xfa f)"
  "desc_present (gdt_gate 0 0xffffff 0x92 f)" "desc_present (gdt_gate 0 0xffffff 0xf2 f)"
  by (simp_all add: gdt_gate_def desc_dpl_def desc_present_def bit_iff_odd_drop_bit)

lemma tss_type: "desc_type (gdt_set_tss base 5 t ! 5) = Some (Tss64 False)"
    "desc_present (gdt_set_tss base 5 t ! 5)" "desc_dpl (gdt_set_tss base 5 t ! 5) = 0"
    "desc_limit (gdt_set_tss base 5 t ! 5) = 103" "ge_access (gdt_set_tss base 5 t ! 6) = 0"
  if "length t = 8"
  using that by (simp_all add: desc_type_def desc_present_def desc_dpl_def desc_limit_def raw_limit_def
      gdt_set_tss_def Let_def bit_iff_odd_drop_bit)

text \<open>The slots of the table, and the selectors.\<close>

lemma gdt_slots:
  fixes gdt tss df_stack
  defines "g \<equiv> gdt_init gdt tss df_stack"
  shows "gdt_table g ! 0 = zero_desc" "gdt_table g ! 1 = gdt_gate 0 0xffffff 0x9a 0xa0"
    "gdt_table g ! 2 = gdt_gate 0 0xffffff 0x92 0xc0" "gdt_table g ! 3 = gdt_gate 0 0xffffff 0xfa 0xa0"
    "gdt_table g ! 4 = gdt_gate 0 0xffffff 0xf2 0xc0" "gdt_table g ! 7 = zero_desc" "unat (gdt_limit g) = 63"
    "length (gdt_table g) = 8"
  by (simp_all add: g_def gdt_init_def gdt_set_tss_def gdt_set_gate_def Let_def gdt_gate_def zero_desc_def)

lemma gdt_tss_slot:
  fixes gdt tss df_stack
  defines "g \<equiv> gdt_init gdt tss df_stack"
  shows "sys_base (gdt_table g ! 5) (gdt_table g ! 6) = tss" "desc_type (gdt_table g ! 5) = Some (Tss64 False)"
    "desc_present (gdt_table g ! 5)" "desc_dpl (gdt_table g ! 5) = 0" "desc_limit (gdt_table g ! 5) = 103"
    "ge_access (gdt_table g ! 6) = 0"
proof -
  obtain t where t: "gdt_table g = gdt_set_tss tss 5 t" "length t = 8"
    by (auto simp: g_def gdt_init_def gdt_set_gate_def)
  show "sys_base (gdt_table g ! 5) (gdt_table g ! 6) = tss" unfolding t(1) by (rule tss_base[OF t(2)])
  show "desc_type (gdt_table g ! 5) = Some (Tss64 False)" "desc_present (gdt_table g ! 5)"
    "desc_dpl (gdt_table g ! 5) = 0" "desc_limit (gdt_table g ! 5) = 103" "ge_access (gdt_table g ! 6) = 0"
    unfolding t(1) using tss_type[OF t(2)] by simp_all
qed

text \<open>A selector whose index is not one of the five finds nothing: the null selector, the second slot of
  the task state segment, the empty slot at the end, and everything beyond the limit.\<close>

lemma gdt_other_none:
  assumes t: "length (gdt_table g) = 8" "unat (gdt_limit g) = 63"
    and p: "\<not> desc_present (gdt_table g ! 6)" "\<not> desc_present (gdt_table g ! 7)"
    and s: "drop_bit 3 sel \<notin> {1, 2, 3, 4, 5}"
  shows "read_desc g sel = None"
proof -
  let ?i = "unat (drop_bit 3 sel)"
  have "?i \<notin> {1, 2, 3, 4, 5}" using s by (auto simp: word_unat_eq_iff)
  then consider "?i = 0" | "?i = 6" | "?i = 7" | "63 < 8 * ?i + 7" by fastforce
  then show ?thesis using t p by cases (simp_all add: read_desc_def Let_def)
qed

lemma gdt_good_slots:
  assumes t: "length (gdt_table g) = 8" "unat (gdt_limit g) = 63"
    and e: "gdt_table g ! 1 = gdt_gate 0 0xffffff 0x9a 0xa0" "gdt_table g ! 2 = gdt_gate 0 0xffffff 0x92 0xc0"
      "gdt_table g ! 3 = gdt_gate 0 0xffffff 0xfa 0xa0" "gdt_table g ! 4 = gdt_gate 0 0xffffff 0xf2 0xc0"
      "gdt_table g ! 7 = zero_desc"
    and s: "sys_base (gdt_table g ! 5) (gdt_table g ! 6) = tss" "desc_type (gdt_table g ! 5) = Some (Tss64 b)"
      "desc_present (gdt_table g ! 5)" "desc_dpl (gdt_table g ! 5) = 0" "desc_limit (gdt_table g ! 5) = 103"
      "ge_access (gdt_table g ! 6) = 0"
    and i: "tss_ist (gdt_tss g) ! 0 = df_stack + 8192" "103 < unat (tss_iomap_base (gdt_tss g))"
  shows "gdt_good tss df_stack b g"
proof -
  have p: "\<not> desc_present (gdt_table g ! 6)" "\<not> desc_present (gdt_table g ! 7)"
    using s(6) e(5) by (simp_all add: desc_present_def zero_desc_def)
  have "read_desc g 0x08 = Some (flat_code 0)" "read_desc g 0x10 = Some (flat_data 0)"
    "read_desc g 0x18 = Some (flat_code 3)" "read_desc g 0x20 = Some (flat_data 3)"
    by (simp_all add: read_desc_def Let_def t e e(1)[unfolded One_nat_def] gate_flat gate_types gate_access flat_code_def flat_data_def
        bit_iff_odd_drop_bit)
  moreover have "read_desc g 0x28 = Some (tss_desc tss b)"
    by (simp add: read_desc_def Let_def t s tss_desc_def bit_iff_odd_drop_bit)
  ultimately show ?thesis using gdt_other_none[OF t p] i by (simp add: gdt_good_def)
qed

lemma gdt_init_good: "gdt_good tss df_stack False (gdt_init gdt tss df_stack)"
  by (rule gdt_good_slots[OF gdt_slots(8,7,2-6) gdt_tss_slot]) (simp_all add: gdt_init_def)

text \<open>C33. The descriptor table after \<open>gdt_init\<close>, read as the processor reads it, is what the kernel means
  it to be: 4 GiB code and data segments from address 0 at the selectors of \<open>gdt.h\<close>, present, the code
  64-bit, readable and not conforming, the data writable and growing upwards, the user ones at privilege
  level 3; a descriptor of an available task state segment at \<open>0x28\<close> that leads to the whole of the
  segment, whose first interrupt stack is the top of the double fault stack and which has no I/O bitmap;
  every other selector faults.  The loads of the segment and task registers that follow pass the checks
  of the processor, and change nothing but that the task state segment is busy.\<close>

theorem gdt_init_descriptors:
  "gdt_good tss df_stack False (gdt_init gdt tss df_stack)
   \<and> (\<exists>r g. gdt_load (gdt_init gdt tss df_stack) = Some (r, g) \<and> gdt_good tss df_stack True g
       \<and> sr_cs r = 0x08 \<and> sr_ss r = 0x10 \<and> sr_ds r = 0x10 \<and> sr_es r = 0x10 \<and> sr_tr r = 0x28)"
proof -
  let ?g = "gdt_init gdt tss df_stack"
  let ?g' = "?g\<lparr>gdt_table := (gdt_table ?g)[5 := (gdt_table ?g ! 5)\<lparr>ge_access := ge_access (gdt_table ?g ! 5) OR 2\<rparr>]\<rparr>"
  note good = gdt_init_good[of tss df_stack gdt]
  have a: "ge_access (gdt_table ?g ! 5) = 0x89"
    by (simp add: gdt_init_def gdt_set_tss_def gdt_set_gate_def Let_def)
  have l: "gdt_load ?g = Some (\<lparr>sr_cs = 0x08, sr_ds = 0x10, sr_es = 0x10, sr_ss = 0x10, sr_fs = 0, sr_gs = 0,
      sr_tr = 0x28\<rparr>, ?g')"
    using good by (simp add: gdt_load_def load_cs_def load_ss_def load_data_def load_tr_def null_sel_def
        gdt_good_def flat_code_def flat_data_def tss_desc_def Let_def)
  have k: "sys_base (e\<lparr>ge_access := x\<rparr>) u = sys_base e u" "desc_limit (e\<lparr>ge_access := x\<rparr>) = desc_limit e" for e x u
    by (simp_all add: sys_base_def desc_base_def desc_limit_def raw_limit_def)
  have "gdt_good tss df_stack True ?g'"
    by (rule gdt_good_slots)
      (simp_all add: gdt_slots gdt_slots(2)[unfolded One_nat_def] gdt_tss_slot a k, simp_all add: gdt_init_def desc_type_def desc_present_def
        desc_dpl_def Let_def bit_iff_odd_drop_bit)
  with good l show ?thesis by simp
qed

end
