(* ===== verification/Kernel_Files.thy ===== *)
theory Kernel_Files
  imports Fat_Volume Fat_List Kernel_Gpt Kernel_Fat32
begin

text \<open>
  The rest of \<open>kernel/driver/fat32.c\<close>: mounting the EFI system partition, and the table of open
  directories the system calls work on.
\<close>

subsection \<open>Mounting the system partition\<close>

text \<open>\<open>g_fat\<close> is the volume at address 0.  \<open>sec\<close> is what the sector buffer of the partition search
  holds when it starts.\<close>

record 'h fat32_st =
  f_mst :: "'h glue mst"
  g_mounted :: bool

definition dsk_name :: "u8 list" where "dsk_name = [0x64, 0x73, 0x6b]"

definition fat32_init :: "'h port_io \<Rightarrow> u8 list \<Rightarrow> u32 \<Rightarrow> ('h fat32_st, mount_err, unit) prog" where
  "fat32_init io sec disk_id s =
     (let g = m_dev (f_mst s)
      in case gpt_find_esp io (gl_disks g) disk_id \<lparr>hw = gl_hw g, xbuf = sec\<rparr> of
           None \<Rightarrow> None
         | Some (Inl _, t) \<Rightarrow> Some (Inl (Err FAT_ERR_NOFAT), s\<lparr>f_mst := (f_mst s)\<lparr>m_dev := g\<lparr>gl_hw := hw t\<rparr>\<rparr>\<rparr>)
         | Some (Inr esp, t) \<Rightarrow>
             let g = g\<lparr>g_disk_id := disk_id, g_base_lba := ucast (first_lba esp), gl_hw := hw t\<rparr>
             in case fat_mount (fat32_ops io) 0 0 dsk_name ((f_mst s)\<lparr>m_dev := g\<rparr>) of
                  None \<Rightarrow> None
                | Some (Inl e, m) \<Rightarrow> Some (Inl e, s\<lparr>f_mst := m\<rparr>)
                | Some (Inr _, m) \<Rightarrow> Some (Inr (), s\<lparr>f_mst := m, g_mounted := True\<rparr>))"

definition fat32_get :: "'h fat32_st \<Rightarrow> nat option" where
  "fat32_get s = (if g_mounted s then Some 0 else None)"

lemma gpt_run_first_media:
  assumes "gpt_disk (hw s) disks dn n" and "length (xbuf s) = 512"
    and "guid \<noteq> replicate 16 0" and "slice (entries_sector (hw s)) 0 16 = guid"
  obtains t where "gpt_find_partition ata_io disks dn guid s =
      Some (Inr \<lparr>first_lba = rd64 (entries_sector (hw s)) 32, last_lba = rd64 (entries_sector (hw s)) 40\<rparr>, t)"
    "media (hw t) = media (hw s)" "bad (hw t) = bad (hw s)"
  by (rule gpt_find_start[OF assms(1,2), of guid]) (use assms(3,4) in \<open>simp add: Let_def\<close>)

text \<open>The drive after the search: the same sectors, read from the start of the partition on.\<close>

definition esp_dev :: "ata glue \<Rightarrow> u32 \<Rightarrow> ata glue" where
  "esp_dev g disk_id = g\<lparr>g_disk_id := disk_id, g_base_lba := ucast (rd64 (entries_sector (gl_hw g)) 32)\<rparr>"

lemma ata_content_hw:
  "media h = media (gl_hw g) \<Longrightarrow> ata_content (g\<lparr>gl_hw := h\<rparr>) = ata_content g"
  by (auto simp: ata_content_def glue_sectors_def ata_sector_def fun_eq_iff)

lemma glue_inv_hw: "media h = media (gl_hw g) \<Longrightarrow> glue_inv (g\<lparr>gl_hw := h\<rparr>) = glue_inv g"
  by (simp add: glue_inv_def ata_inv_def glue_sectors_def)

lemma esp_dev_inv:
  assumes "gpt_disk (gl_hw g) (gl_disks g) disk_id n"
  shows "glue_inv (esp_dev g disk_id)"
  using assms by (auto simp: glue_inv_def esp_dev_def gpt_disk_def glue_sectors_def)

lemma fat32_init_run:
  assumes g: "gpt_disk (gl_hw g) (gl_disks g) disk_id n" "g = m_dev (f_mst s)" and "length sec = 512"
    and "slice (entries_sector (gl_hw g)) 0 16 = esp_type_guid"
  obtains h where "media h = media (gl_hw g)" "bad h = bad (gl_hw g)"
    "fat32_init ata_io sec disk_id s =
      (case fat_mount (fat32_ops ata_io) 0 0 dsk_name ((f_mst s)\<lparr>m_dev := (esp_dev g disk_id)\<lparr>gl_hw := h\<rparr>\<rparr>) of
         None \<Rightarrow> None
       | Some (Inl e, m) \<Rightarrow> Some (Inl e, s\<lparr>f_mst := m\<rparr>)
       | Some (Inr _, m) \<Rightarrow> Some (Inr (), s\<lparr>f_mst := m, g_mounted := True\<rparr>))"
proof -
  let ?s = "\<lparr>hw = gl_hw g, xbuf = sec\<rparr>"
  have ne: "esp_type_guid \<noteq> replicate 16 0" by code_simp
  have "gpt_disk (hw ?s) (gl_disks g) disk_id n" "length (xbuf ?s) = 512" "slice (entries_sector (hw ?s)) 0 16 = esp_type_guid"
    using assms by simp_all
  from gpt_run_first_media[OF this(1,2) ne this(3)] obtain t where
    t: "gpt_find_esp ata_io (gl_disks g) disk_id ?s =
        Some (Inr \<lparr>first_lba = rd64 (entries_sector (gl_hw g)) 32, last_lba = rd64 (entries_sector (gl_hw g)) 40\<rparr>, t)"
      "media (hw t) = media (gl_hw g)" "bad (hw t) = bad (gl_hw g)" by (auto simp: gpt_find_esp_def)
  show thesis
    by (rule that[of "hw t"]) (use t g(2) in \<open>simp_all add: fat32_init_def Let_def esp_dev_def\<close>)
qed

text \<open>What mounting needs of the partition: its first two sectors are on the drive and readable, the first
  one passes \<open>check_fat\<close>, the second one is a valid \<open>FsInfo\<close>.\<close>

definition esp_ready :: "ata glue \<Rightarrow> bool" where
  "esp_ready g \<longleftrightarrow> unat (g_base_lba g) + 1 < glue_sectors g
     \<and> \<not> bad (gl_hw g) (unat (g_base_lba g)) \<and> \<not> bad (gl_hw g) (unat (g_base_lba g) + 1)
     \<and> check_fat (ata_content g 0) = Some True \<and> fsinfo_ok (ata_content g 1)"

text \<open>A read keeps the sectors of the drive, and succeeds on a sector that is not bad.\<close>

lemma glue_read_media:
  assumes "glue_inv g" and "length b = 512" and r: "fat32_read_sect ata_io b n g = (ok, b', g')"
  shows "media (gl_hw g') = media (gl_hw g) \<and> bad (gl_hw g') = bad (gl_hw g) \<and> g' = g\<lparr>gl_hw := gl_hw g'\<rparr>
    \<and> (unat (g_base_lba g) + unat n < glue_sectors g \<and> \<not> bad (gl_hw g) (unat (g_base_lba g) + unat n) \<longrightarrow> ok)"
proof (cases "unat (g_base_lba g) + unat n < glue_sectors g")
  case False
  then have "\<not> disk_args_ok (gl_disks g) (g_disk_id g) (ucast (g_base_lba g) + ucast n) 1"
    using glue_args[OF assms(1)] by simp
  then have "g' = g" using r by (simp add: fat32_read_sect_def read_disk_def throw_def)
  with False show ?thesis by simp
next
  case True
  let ?s = "\<lparr>hw = gl_hw g, xbuf = b\<rparr>" and ?l = "ucast (g_base_lba g) + ucast n :: u64"
  obtain k where k: "gl_disks g ! unat (g_disk_id g) = ata_disk k" using assms(1) by (auto simp: glue_inv_def)
  have a: "disk_args_ok (gl_disks g) (g_disk_id g) ?l 1" using glue_args[OF assms(1)] True by simp
  have "ata_inv (hw ?s)" "length (xbuf ?s) = 512 * unat (1 :: u32)" using assms by (simp_all add: glue_inv_def)
  note w = read_disk_ata[OF this a k]
  obtain x t where run: "read_disk ata_io (gl_disks g) (g_disk_id g) ?l 1 ?s = Some (x, t)"
    using wp_returns[OF w] by auto
  then have res: "ok = (x = Inr ())" "g' = g\<lparr>gl_hw := hw t\<rparr>" using r by (auto simp: fat32_read_sect_def)
  show ?thesis
  proof (cases x)
    case (Inl e)
    then show ?thesis using wp_InlD[OF w run[unfolded Inl]] res glue_addr[OF assms(1) True] by simp
  next
    case (Inr u)
    then show ?thesis using wp_InrD[OF w run[unfolded Inr]] res by simp
  qed
qed

lemma mount_read_media:
  assumes "mount_read (fat32_ops ata_io) n s = Some (r, t)" and "glue_inv (m_dev s)" and "length (m_buf s) = 512"
  shows "media (gl_hw (m_dev t)) = media (gl_hw (m_dev s)) \<and> glue_inv (m_dev t) \<and> length (m_buf t) = 512"
proof -
  obtain ok b g where r: "fat32_read_sect ata_io (m_buf s) n (m_dev s) = (ok, b, g)" by (metis surj_pair)
  then have t: "m_dev t = g" "m_buf t = b" using assms(1) by (auto simp: mount_read_def fat32_ops_def)
  have l: "length (ata_content (m_dev s) n) = 512" by (rule ata.content_len[OF assms(2)])
  show ?thesis using glue_read[OF assms(2,3) r] glue_read_media[OF assms(2,3) r] l assms(3) t by simp
qed

text \<open>Mounting reads; it writes nowhere.\<close>

definition same_media :: "(nat \<Rightarrow> u16 list) \<Rightarrow> ata glue mst \<Rightarrow> bool" where
  "same_media M s \<longleftrightarrow> media (gl_hw (m_dev s)) = M \<and> glue_inv (m_dev s) \<and> length (m_buf s) = 512"

lemma same_media_read:
  assumes "same_media M s"
  shows "wp (mount_read (fat32_ops ata_io) n) (\<lambda>_. same_media M) (\<lambda>_. same_media M) s"
proof -
  obtain r t where r: "mount_read (fat32_ops ata_io) n s = Some (r, t)"
    by (cases "op_read (fat32_ops ata_io) (m_buf s) n (m_dev s)") (simp add: mount_read_def)
  show ?thesis using mount_read_media[OF r] assms r by (cases r) (auto simp: wp_def same_media_def)
qed

lemma same_media_check: "same_media M s \<Longrightarrow> wp mount_check (\<lambda>_. same_media M) (\<lambda>_. same_media M) s"
  by (auto simp: mount_check_def wp_rules split: option.splits)

lemma same_media_probe:
  assumes "same_media M s"
  shows "wp (probe (fat32_ops ata_io) part) (\<lambda>_. same_media M) (\<lambda>_. same_media M) s"
  unfolding probe_def
proof (rule wp_bndI[OF same_media_read[OF assms]], goal_cases)
  case (1 _ t)
  show ?case
  proof (rule wp_bndI[OF same_media_check[OF 1]], goal_cases)
    case (1 ok u)
    have "wp (bnd (mount_read (fat32_ops ata_io) lba) (\<lambda>_. bnd mount_check
        (\<lambda>ok. if ok then ret lba else throw (Err FAT_ERR_NOFAT)))) (\<lambda>_. same_media M) (\<lambda>_. same_media M) u" for lba
    proof (rule wp_bndI[OF same_media_read[OF 1]], goal_cases)
      case (1 _ w)
      show ?case by (rule wp_bndI[OF same_media_check[OF 1]]) (auto simp: wp_rules)
    qed
    then show ?case using 1 by (auto simp: wp_rules wp_bnd[of "gets _"] split: option.splits)
  qed
qed

lemma fat_mount_media:
  assumes r: "fat_mount (fat32_ops ata_io) part a name s = Some (r, t)" and i: "glue_inv (m_dev s)" "length (m_buf s) = 512"
  shows "media (gl_hw (m_dev t)) = media (gl_hw (m_dev s))"
proof -
  let ?M = "media (gl_hw (m_dev s))"
  have s: "same_media ?M s" using i by (simp add: same_media_def)
  have upd: "same_media ?M (u\<lparr>vols := h\<rparr>) = same_media ?M u" "same_media ?M (u\<lparr>vols := h, g_fat_list := l\<rparr>) = same_media ?M u"
    for u h l by (simp_all add: same_media_def)
  have w: "wp (fat_mount (fat32_ops ata_io) part a name) (\<lambda>_. same_media ?M) (\<lambda>_. same_media ?M) s"
    unfolding fat_mount_def
  proof (rule wp_bndI[OF same_media_probe[OF s]], goal_cases)
    case (1 lba u)
    let ?u = "u\<lparr>vols := (vols u)(a := mount_geometry (m_buf u) lba (vols u a))\<rparr>"
    have u: "same_media ?M ?u" using 1 by (simp add: upd)
    show ?case
      unfolding wp_bnd[of "modify _"] wp_modify wp_bnd[of "gets _"] wp_gets
      by (rule wp_bndI[OF same_media_read[OF u]]) (auto simp: wp_rules upd)
  qed
  show ?thesis using wp_InlD[OF w] wp_InrD[OF w] r by (cases r) (auto simp: same_media_def)
qed

text \<open>On a partition that is ready mounting succeeds.\<close>

lemma fat_mount_ready:
  assumes "esp_ready (m_dev s)" and "glue_inv (m_dev s)" and "length (m_buf s) = 512" and "length name \<le> 32"
    and r: "fat_mount (fat32_ops ata_io) 0 a name s = Some (r, t)"
  shows "r = Inr ()"
proof -
  note R = assms(1)[unfolded esp_ready_def]
  obtain ok b g where g: "fat32_read_sect ata_io (m_buf s) 0 (m_dev s) = (ok, b, g)" by (metis surj_pair)
  note m1 = glue_read[OF assms(2,3) g] note k1 = glue_read_media[OF assms(2,3) g]
  have ok: "ok" "b = ata_content (m_dev s) 0" using k1 m1 R by auto
  have l: "length b = 512" using ok(2) ata.content_len[OF assms(2)] by simp
  have i: "glue_inv g" using m1 by blast
  obtain ok' b' h where h: "fat32_read_sect ata_io b 1 g = (ok', b', h)" by (metis surj_pair)
  note m2 = glue_read[OF i l h] note k2 = glue_read_media[OF i l h]
  have gu: "g = (m_dev s)\<lparr>gl_hw := gl_hw g\<rparr>" using k1 by blast
  have gb: "g_base_lba g = g_base_lba (m_dev s)" "glue_sectors g = glue_sectors (m_dev s)"
    using arg_cong[OF gu, of g_base_lba] arg_cong[OF gu, of glue_sectors] by (simp_all add: glue_sectors_def)
  have ok': "ok'" "b' = ata_content (m_dev s) 1" using k1 k2 m1 m2 R gb by auto
  have c: "check_fat b = Some True" "fsinfo_ok b'" using R ok(2) ok'(2) by simp_all
  have n: "info_sect (mount_geometry b 0 f) = 1" for f :: "ata glue fat"
    using check_fatD(2)[OF c(1)] by (simp add: mount_geometry_def Let_def)
  let ?s1 = "s\<lparr>m_buf := b, m_dev := g\<rparr>"
  let ?s2 = "?s1\<lparr>vols := (vols s)(a := mount_geometry b 0 (vols s a))\<rparr>"
  let ?s3 = "?s2\<lparr>m_buf := b', m_dev := h\<rparr>"
  have "mount_read (fat32_ops ata_io) 0 s = Some (Inr (), ?s1)"
    using g ok(1) by (simp add: mount_read_def fat32_ops_def)
  moreover have "mount_check ?s1 = Some (Inr True, ?s1)"
    using c(1) by (simp add: mount_check_def bnd_def gets_def ret_def)
  ultimately have p: "probe (fat32_ops ata_io) 0 s = Some (Inr 0, ?s1)"
    by (simp add: probe_def bnd_def ret_def)
  have "mount_read (fat32_ops ata_io) 1 ?s2 = Some (Inr (), ?s3)"
    using h ok'(1) by (simp add: mount_read_def fat32_ops_def)
  then show ?thesis
    using r p c(2) assms(4) n by (simp add: fat_mount_def bnd_def gets_def modify_def)
qed

text \<open>C21. On a healthy drive whose first partition entry is the EFI system partition (the entry the search
  can find), \<open>fat32_init\<close> returns and leaves every sector of the drive as it is.  When the first two
  sectors of the partition are readable, a boot sector that passes \<open>check_fat\<close> and a valid \<open>FsInfo\<close>, it
  succeeds.  Success means that the volume \<open>dsk\<close> is mounted from the boot sector of that partition, with
  the layout and the sector cache the FAT driver relies on when the sizes in the boot sector fit; after an
  error nothing is mounted.\<close>

theorem fat32_init_mounts:
  assumes "gpt_disk (gl_hw (m_dev (f_mst s))) (gl_disks (m_dev (f_mst s))) disk_id n" and "length sec = 512"
    and "slice (entries_sector (gl_hw (m_dev (f_mst s)))) 0 16 = esp_type_guid"
    and "length (m_buf (f_mst s)) = 512" and "g_fat_list (f_mst s) = None" and "\<not> g_mounted s"
    and "\<not> buf_dirty (vols (f_mst s) 0)" and "length (fat_buf (vols (f_mst s) 0)) = 512"
    and "length (fat_name (vols (f_mst s) 0)) = 32"
  shows "wp (fat32_init ata_io sec disk_id)
    (\<lambda>_ t. fat32_get t = Some 0 \<and> find_volume (vols (f_mst t)) dsk_name 3 (g_fat_list (f_mst t)) = Some (Some 0)
       \<and> ata_content (m_dev (f_mst t)) = ata_content (esp_dev (m_dev (f_mst s)) disk_id)
       \<and> media (gl_hw (m_dev (f_mst t))) = media (gl_hw (m_dev (f_mst s)))
       \<and> (\<exists>lba. boot_at ata_content (esp_dev (m_dev (f_mst s)) disk_id) 0 lba
            \<and> (bpb_sane (ata_content (esp_dev (m_dev (f_mst s)) disk_id) lba) lba \<longrightarrow>
                 geom_ok (vols (f_mst t) 0) \<and> data_geom (vols (f_mst t) 0)
                 \<and> cache_ok (fat32_ops ata_io) ata_content glue_inv (vol_at (f_mst t) 0))))
    (\<lambda>e t. fat32_get t = None \<and> g_fat_list (f_mst t) = None
       \<and> media (gl_hw (m_dev (f_mst t))) = media (gl_hw (m_dev (f_mst s)))
       \<and> \<not> esp_ready (esp_dev (m_dev (f_mst s)) disk_id)) s"
proof -
  define g where "g = m_dev (f_mst s)"
  note a = assms(1,3)[folded g_def]
  from fat32_init_run[OF a(1) g_def assms(2) a(2)] obtain h where h: "media h = media (gl_hw g)" "bad h = bad (gl_hw g)"
    and run: "fat32_init ata_io sec disk_id s =
      (case fat_mount (fat32_ops ata_io) 0 0 dsk_name ((f_mst s)\<lparr>m_dev := (esp_dev g disk_id)\<lparr>gl_hw := h\<rparr>\<rparr>) of
         None \<Rightarrow> None
       | Some (Inl e, m) \<Rightarrow> Some (Inl e, s\<lparr>f_mst := m\<rparr>)
       | Some (Inr _, m) \<Rightarrow> Some (Inr (), s\<lparr>f_mst := m, g_mounted := True\<rparr>))" .
  let ?d = "(esp_dev g disk_id)\<lparr>gl_hw := h\<rparr>" and ?m = "(f_mst s)\<lparr>m_dev := (esp_dev g disk_id)\<lparr>gl_hw := h\<rparr>\<rparr>"
  have e: "gl_hw (esp_dev g disk_id) = gl_hw g" by (simp add: esp_dev_def)
  have c: "ata_content ?d = ata_content (esp_dev g disk_id)" using h e by (intro ata_content_hw) simp
  have i: "glue_inv ?d" using glue_inv_hw[of h "esp_dev g disk_id"] h e esp_dev_inv[OF a(1)] by simp
  have rd: "esp_ready ?d = esp_ready (esp_dev g disk_id)" using h e c by (simp add: esp_ready_def glue_sectors_def)
  have B: "block_dev (fat32_ops ata_io) ata_content glue_inv" by (rule ata.block_dev_axioms)
  have m: "glue_inv (m_dev ?m)" "length (m_buf ?m) = 512" "vol_list (vols ?m) (g_fat_list ?m) []"
    using i assms(4,5) by simp_all
  note w = mount_wp[OF B m(1,2), of 0 0 dsk_name]
  from wp_returns[OF w] obtain r t where r: "fat_mount (fat32_ops ata_io) 0 0 dsk_name ?m = Some (r, t)" by blast
  have med: "media (gl_hw (m_dev t)) = media (gl_hw g)" using fat_mount_media[OF r m(1,2)] h(1) by simp
  have dn: "length dsk_name \<le> 32" by (simp add: dsk_name_def)
  show ?thesis
  proof (cases r)
    case (Inl x)
    have "\<not> esp_ready ?d" using fat_mount_ready[OF _ m(1,2) dn r] Inl by auto
    then show ?thesis
      using wp_InlD[OF w r[unfolded Inl]] run r Inl assms(5,6) med rd by (simp add: wp_def fat32_get_def g_def)
  next
    case (Inr x)
    have r': "fat_mount (fat32_ops ata_io) 0 0 dsk_name ?m = Some (Inr (), t)" using r Inr by simp
    note q = wp_InrD[OF w r']
    from q obtain lba where b: "boot_at ata_content ?d 0 lba" and mt: "mounted (fat32_ops ata_io) ata_content ?d lba dsk_name (vols ?m 0) (vols t 0)"
      and it: "glue_inv (m_dev t)" by auto
    have fat: "\<not> buf_dirty (vols ?m 0)" "length (fat_buf (vols ?m 0)) = 512" using assms(7,8) by simp_all
    have ok: "geom_ok (vols t 0) \<and> data_geom (vols t 0) \<and> cache_ok (fat32_ops ata_io) ata_content glue_inv (vol_at t 0)"
      if "bpb_sane (ata_content ?d lba) lba"
      using mounted_sound[where content = ata_content and d = ?d and lba = lba and dinv = glue_inv and d' = "m_dev t",
          OF mt b that fat it] unfolding vol_at_def by blast
    have l: "vol_list (vols t) (g_fat_list t) [0]" using q assms(5) by simp
    have "vol_named dsk_name 3 (vols t 0)"
      using mounted_name[OF mt] assms(9) by (simp add: vol_named_def dsk_name_def put_slice_def)
    then have f: "find_volume (vols t) dsk_name 3 (g_fat_list t) = Some (Some 0)" by (simp add: find_volume_list[OF l])
    show ?thesis
      using run r' ok b q c f med by (auto simp: wp_def fat32_get_def boot_at_def g_def)
  qed
qed

definition demo_fat32 :: "ata fat32_st" where
  "demo_fat32 = \<lparr>f_mst = \<lparr>vols = (\<lambda>x. (fat.truncate demo_ata_vol)\<lparr>fat_name := replicate 32 0, fat_next := None\<rparr>),
       g_fat_list = None,
       m_dev = \<lparr>gl_hw = demo_ata\<lparr>media := (\<lambda>l. words_at (if l = 1 then demo_gpt_sector else if l = 2 then demo_gpt_entries
           else if l = 2048 then demo_boot else if l = 2049 then demo_info else replicate 512 0) 0 256)\<rparr>,
         gl_disks = [ata_disk 5000], g_disk_id = 0, g_base_lba = 0\<rparr>,
       m_buf = replicate 512 0\<rparr>, g_mounted = False\<rparr>"

abbreviation demo_esp :: "ata glue" where "demo_esp \<equiv> m_dev (f_mst demo_fat32)"

lemma demo_esp_sector: "ata_sector (gl_hw demo_esp) l = (if l = 1 then demo_gpt_sector else if l = 2 then demo_gpt_entries
    else if l = 2048 then demo_boot else if l = 2049 then demo_info else replicate 512 0)"
  using bytes_of_words_at[of 0 256 demo_gpt_sector] bytes_of_words_at[of 0 256 demo_gpt_entries]
    bytes_of_words_at[of 0 256 demo_boot] bytes_of_words_at[of 0 256 demo_info] bytes_of_words_at[of 0 256 "replicate 512 0"]
  by (simp add: ata_sector_def demo_fat32_def demo_gpt_length demo_boot_facts slice_def)

lemma demo_esp_entries: "slice demo_gpt_entries 0 16 = esp_type_guid" "rd64 demo_gpt_entries 32 = 2048"
  by code_simp+

lemma demo_esp_disk: "gpt_disk (gl_hw demo_esp) (gl_disks demo_esp) 0 5000"
  "entries_sector (gl_hw demo_esp) = demo_gpt_entries"
proof -
  have "ata_inv (gl_hw demo_esp)" by (simp add: ata_inv_def demo_fat32_def words_at_def)
  moreover have "\<not> bad (gl_hw demo_esp) 1" "\<not> bad (gl_hw demo_esp) 2" "gl_disks demo_esp = [ata_disk 5000]"
    by (simp_all add: demo_fat32_def demo_ata_def)
  ultimately show "gpt_disk (gl_hw demo_esp) (gl_disks demo_esp) 0 5000"
    by (simp add: gpt_disk_def demo_esp_sector demo_gpt_header)
  show "entries_sector (gl_hw demo_esp) = demo_gpt_entries"
    by (simp add: entries_sector_def demo_esp_sector demo_gpt_header)
qed

lemma demo_esp_content: "ata_content (esp_dev demo_esp 0) 0 = demo_boot"
proof -
  have "gl_disks (esp_dev demo_esp 0) = [ata_disk 5000]" "g_disk_id (esp_dev demo_esp 0) = 0"
    by (simp_all add: esp_dev_def demo_fat32_def)
  moreover have "g_base_lba (esp_dev demo_esp 0) = 2048" "gl_hw (esp_dev demo_esp 0) = gl_hw demo_esp"
    by (simp_all add: esp_dev_def demo_esp_disk demo_esp_entries)
  ultimately show ?thesis by (simp add: ata_content_def glue_sectors_def demo_esp_sector)
qed

lemma demo_esp_ready: "esp_ready (esp_dev demo_esp 0)"
proof -
  have d: "gl_disks (esp_dev demo_esp 0) = [ata_disk 5000]" "g_disk_id (esp_dev demo_esp 0) = 0"
    by (simp_all add: esp_dev_def demo_fat32_def)
  have b: "g_base_lba (esp_dev demo_esp 0) = 2048" and h: "gl_hw (esp_dev demo_esp 0) = gl_hw demo_esp"
    by (simp_all add: esp_dev_def demo_esp_disk demo_esp_entries)
  have "ata_content (esp_dev demo_esp 0) 1 = demo_info"
    using d b h by (simp add: ata_content_def glue_sectors_def demo_esp_sector)
  moreover have "\<not> bad (gl_hw demo_esp) 2048" "\<not> bad (gl_hw demo_esp) 2049" by (simp_all add: demo_fat32_def demo_ata_def)
  ultimately show ?thesis
    using d b h demo_boot_facts by (simp add: esp_ready_def glue_sectors_def demo_esp_content)
qed

theorem fat32_init_mounts_witness:
  "\<exists>t. fat32_init ata_io (replicate 512 0) 0 demo_fat32 = Some (Inr (), t)
     \<and> fat32_get t = Some 0 \<and> geom_ok (vols (f_mst t) 0)
     \<and> cache_ok (fat32_ops ata_io) ata_content glue_inv (vol_at (f_mst t) 0)"
proof -
  have s: "length (m_buf (f_mst demo_fat32)) = 512" "g_fat_list (f_mst demo_fat32) = None" "\<not> g_mounted demo_fat32"
    "\<not> buf_dirty (vols (f_mst demo_fat32) 0)" "length (fat_buf (vols (f_mst demo_fat32) 0)) = 512"
    "length (fat_name (vols (f_mst demo_fat32) 0)) = 32" "length (replicate 512 (0 :: u8)) = 512"
    by (simp_all add: demo_fat32_def buf_dirty_def fat.truncate_def demo_ata_vol_def)
  have l: "bpb_sane (ata_content (esp_dev demo_esp 0) lba) lba" if "boot_at ata_content (esp_dev demo_esp 0) 0 lba" for lba
  proof -
    have "lba = 0" using that demo_boot_facts by (auto simp: boot_at_def demo_esp_content)
    then show ?thesis by (simp only: demo_esp_content demo_boot_sane)
  qed
  have e: "slice (entries_sector (gl_hw demo_esp)) 0 16 = esp_type_guid" by (simp add: demo_esp_disk demo_esp_entries)
  note w = fat32_init_mounts[OF demo_esp_disk(1) s(7) e s(1-6)]
  from wp_returns[OF w] obtain r t where r: "fat32_init ata_io (replicate 512 0) 0 demo_fat32 = Some (r, t)" by blast
  show ?thesis
  proof (cases r)
    case (Inl e)
    then show ?thesis using wp_InlD[OF w r[unfolded Inl]] demo_esp_ready by simp
  next
    case (Inr u)
    then show ?thesis using wp_InrD[OF w r[unfolded Inr]] r l by auto
  qed
qed

subsection \<open>Open directories\<close>

text \<open>A \<open>DirSlot\<close>; the fields up to \<open>sl_idx\<close> are its \<open>Dir\<close>.\<close>

record dir_slot =
  sl_fat :: bool
  sl_sclust :: u32
  sl_clust :: u32
  sl_sect :: u32
  sl_idx :: u16
  sl_used :: bool
  sl_next :: bool

text \<open>The volume, with the globals of the FAT driver, and the table.\<close>

record 'd kfs =
  k_fat :: "'d fctx"
  k_mounted :: bool
  g_dirs :: "dir_slot list"

abbreviation (input) MAX_OPENDIRS :: nat where "MAX_OPENDIRS \<equiv> 10"

definition load_dir :: "dir_slot \<Rightarrow> ('d, 'z) dctx_scheme \<Rightarrow> ('d, 'z) dctx_scheme" where
  "load_dir sl v = v\<lparr>dir_fat := sl_fat sl, dir_sclust := sl_sclust sl, dir_clust := sl_clust sl,
     dir_sect := sl_sect sl, dir_idx := sl_idx sl\<rparr>"

definition save_dir :: "('d, 'z) dctx_scheme \<Rightarrow> dir_slot \<Rightarrow> dir_slot" where
  "save_dir v sl = sl\<lparr>sl_fat := dir_fat v, sl_sclust := dir_sclust v, sl_clust := dir_clust v,
     sl_sect := dir_sect v, sl_idx := dir_idx v\<rparr>"

text \<open>A call of the FAT driver on the \<open>Dir\<close> of slot \<open>i\<close>.\<close>

definition in_slot :: "nat \<Rightarrow> ('d fctx, 'e, 'a) prog \<Rightarrow> ('d kfs, 'e, 'a) prog" where
  "in_slot i m s =
     (case m (load_dir (g_dirs s ! i) (k_fat s)) of
        None \<Rightarrow> None
      | Some (r, v) \<Rightarrow> Some (r, s\<lparr>k_fat := v, g_dirs := (g_dirs s)[i := save_dir v (g_dirs s ! i)]\<rparr>))"

definition set_slot :: "nat \<Rightarrow> (dir_slot \<Rightarrow> dir_slot) \<Rightarrow> ('d kfs, 'e, unit) prog" where
  "set_slot i f = modify (\<lambda>s. s\<lparr>g_dirs := (g_dirs s)[i := f (g_dirs s ! i)]\<rparr>)"

text \<open>A null path is \<open>None\<close>; \<open>info\<close> is whether the pointer is not null.\<close>

definition fat32_dir_open :: "u8 list option \<Rightarrow> ('d kfs, fat_err, nat) prog" where
  "fat32_dir_open path =
     bnd (gets (\<lambda>s. (k_mounted s, find (\<lambda>i. \<not> sl_used (g_dirs s ! i)) [0..<MAX_OPENDIRS]))) (\<lambda>(mounted, free).
     case path of
       None \<Rightarrow> throw FAT_ERR_PARAM
     | Some p \<Rightarrow>
         if \<not> mounted then throw FAT_ERR_PARAM
         else case free of
             None \<Rightarrow> throw FAT_ERR_FULL
           | Some i \<Rightarrow>
               bnd (in_slot i (fat_dir_open p)) (\<lambda>_.
               bnd (set_slot i (\<lambda>sl. sl\<lparr>sl_used := True, sl_next := False\<rparr>)) (\<lambda>_. ret i)))"

definition slot_bad :: "int \<Rightarrow> 'd kfs \<Rightarrow> bool" where
  "slot_bad slot s \<longleftrightarrow> slot < 0 \<or> slot \<ge> int MAX_OPENDIRS \<or> \<not> sl_used (g_dirs s ! nat slot)"

definition fat32_dir_read :: "int \<Rightarrow> bool \<Rightarrow> ('d kfs, fat_err, dir_info) prog" where
  "fat32_dir_read slot info =
     bnd (gets (\<lambda>s. (slot_bad slot s, sl_next (g_dirs s ! nat slot)))) (\<lambda>(bad, need_next).
     if bad \<or> \<not> info then throw FAT_ERR_PARAM
     else
       bnd (if need_next then in_slot (nat slot) fat_dir_next else ret ()) (\<lambda>_.
       bnd (set_slot (nat slot) (\<lambda>sl. sl\<lparr>sl_next := True\<rparr>)) (\<lambda>_.
       in_slot (nat slot) fat_dir_read)))"

definition zero_slot :: dir_slot where
  "zero_slot = \<lparr>sl_fat = False, sl_sclust = 0, sl_clust = 0, sl_sect = 0, sl_idx = 0, sl_used = False, sl_next = False\<rparr>"

definition fat32_dir_close :: "int \<Rightarrow> ('d kfs, fat_err, unit) prog" where
  "fat32_dir_close slot =
     bnd (gets (slot_bad slot)) (\<lambda>bad.
     if bad then throw FAT_ERR_PARAM else set_slot (nat slot) (\<lambda>_. zero_slot))"

lemma wp_in_slot:
  "wp (in_slot i m) Q E s =
   wp m (\<lambda>x v. Q x (s\<lparr>k_fat := v, g_dirs := (g_dirs s)[i := save_dir v (g_dirs s ! i)]\<rparr>))
        (\<lambda>e v. E e (s\<lparr>k_fat := v, g_dirs := (g_dirs s)[i := save_dir v (g_dirs s ! i)]\<rparr>)) (load_dir (g_dirs s ! i) (k_fat s))"
  by (auto simp: wp_def in_slot_def split: option.splits sum.splits prod.splits)

lemma load_save_dir [simp]: "load_dir (save_dir v sl) v = v" "sl_used (save_dir v sl) = sl_used sl"
  "sl_next (save_dir v sl) = sl_next sl" "sl_fat (save_dir v sl) = dir_fat v"
  by (simp_all add: load_dir_def save_dir_def)


subsection \<open>Listing open directories\<close>

text \<open>The entries that reading slot \<open>i\<close> has still to give.\<close>

definition slot_lists ::
  "'d disk_ops \<Rightarrow> ('d \<Rightarrow> u32 \<Rightarrow> u8 list) \<Rightarrow> ('d \<Rightarrow> bool) \<Rightarrow> 'd kfs \<Rightarrow> nat \<Rightarrow> dir_info list \<Rightarrow> bool" where
  "slot_lists ops content dinv s i ns \<longleftrightarrow>
     i < MAX_OPENDIRS \<and> length (g_dirs s) = MAX_OPENDIRS \<and> sl_used (g_dirs s ! i) \<and> sl_fat (g_dirs s ! i)
     \<and> (\<exists>cs k. dir_at (load_dir (g_dirs s ! i) (k_fat s)) cs k
          \<and> dir_lists ops content dinv cs (if sl_next (g_dirs s ! i) then Suc k else k) ns (k_fat s))"

lemma load_dir_fields [simp]:
  "dir_fat (load_dir sl v) = sl_fat sl" "g_buf (load_dir sl v) = g_buf v" "fat_sect0 (load_dir sl v) = fat_sect0 v"
  "clust_cnt (load_dir sl v) = clust_cnt v" "spc (load_dir sl v) = spc v" "dir_cap (load_dir sl v) cs = dir_cap v cs"
  "ent_sect (load_dir sl v) cs = ent_sect v cs" "ent_clust (load_dir sl v) cs = ent_clust v cs"
  "lview content (load_dir sl v) = lview content v" "geom_ok (load_dir sl v) = geom_ok v"
  "dir_geom (load_dir sl v) = dir_geom v" "cache_ok ops content dinv (load_dir sl v) = cache_ok ops content dinv v"
  using geom_ok_cong[of "load_dir sl v" v]
  by (auto simp: load_dir_def spc_def dir_cap_def ent_sect_def ent_clust_def clust_to_sect_def lview_def dir_geom_def
      data_geom_def cache_ok_def buf_dirty_def fun_eq_iff)

lemma dir_lists_load [simp]:
  "dir_lists ops content dinv cs k ns (load_dir sl v) = dir_lists ops content dinv cs k ns v"
proof -
  have "dir_entry (load_dir sl v) lv cs = dir_entry v lv cs" for lv by (simp add: fun_eq_iff dir_entry_def)
  then show ?thesis by (simp add: dir_lists_def dir_entries_def)
qed

lemma dir_at_load: "dir_at (load_dir sl v) cs k \<longleftrightarrow> k < dir_cap v cs \<and> sl_clust sl = ent_clust v cs k
     \<and> sl_sect sl = ent_sect v cs k \<and> sl_idx sl = ent_idx k"
  unfolding dir_at_def load_dir_fields by (simp add: load_dir_def)

context block_dev
begin

text \<open>Working on one slot keeps what the others have to give.\<close>

lemma slot_lists_frame:
  assumes "slot_lists ops content dinv s j ms" and "j \<noteq> i"
    and w: "walked (load_dir sl (k_fat s)) v" and g: "length (g_buf v) = 512"
  shows "slot_lists ops content dinv (s\<lparr>k_fat := v, g_dirs := (g_dirs s)[i := sl']\<rparr>) j ms"
proof -
  let ?v = "load_dir sl (k_fat s)"
  from assms(1) obtain cs k where p: "dir_at (load_dir (g_dirs s ! j) (k_fat s)) cs k"
    "dir_lists ops content dinv cs (if sl_next (g_dirs s ! j) then Suc k else k) ms (k_fat s)"
    and o: "j < MAX_OPENDIRS" "length (g_dirs s) = MAX_OPENDIRS" "sl_used (g_dirs s ! j)" "sl_fat (g_dirs s ! j)"
    by (auto simp: slot_lists_def)
  have c: "cache_ok ops content dinv ?v" "length (g_buf v) = length (g_buf ?v)" using p(2) g by (simp_all add: dir_lists_def)
  note f = dir_on_walked(2-4)[OF w c(1), simplified]
  have "dir_at (load_dir (g_dirs s ! j) v) cs k" using p(1) by (simp add: dir_at_load f)
  moreover have "dir_lists ops content dinv cs (if sl_next (g_dirs s ! j) then Suc k else k) ms v"
    using dir_lists_walked[OF w c] p(2) by simp
  moreover have "(g_dirs s)[i := sl'] ! j = g_dirs s ! j" using assms(2) by simp
  ultimately show ?thesis using o unfolding slot_lists_def by (auto simp del: if_split intro!: exI[of _ cs] exI[of _ k])
qed

lemma fat32_dir_read_wp:
  assumes "slot_lists ops content dinv s i ns"
  shows "wp (fat32_dir_read (int i) True)
    (\<lambda>x t. (\<exists>ms. ns = x # ms \<and> slot_lists ops content dinv t i ms)
       \<and> (\<forall>j ms. j \<noteq> i \<and> slot_lists ops content dinv s j ms \<longrightarrow> slot_lists ops content dinv t j ms))
    (\<lambda>e t. e = FAT_ERR_IO \<and> \<not> reliable \<or> e = FAT_ERR_EOF \<and> ns = []) s" (is "wp _ ?Q ?E s")
proof -
  let ?sl = "g_dirs s ! i"
  from assms obtain cs k where p: "dir_at (load_dir ?sl (k_fat s)) cs k"
    "dir_lists ops content dinv cs (if sl_next ?sl then Suc k else k) ns (k_fat s)"
    and o: "i < MAX_OPENDIRS" "length (g_dirs s) = MAX_OPENDIRS" "sl_used ?sl" "sl_fat ?sl"
    by (auto simp: slot_lists_def)
  have nb: "slot_bad (int i) s = False" using o by (simp add: slot_bad_def)
  have read: "wp (bnd (set_slot i (\<lambda>sl. sl\<lparr>sl_next := True\<rparr>)) (\<lambda>_. in_slot i fat_dir_read)) ?Q ?E t"
    if t: "length (g_dirs t) = MAX_OPENDIRS" "sl_used (g_dirs t ! i)" "sl_fat (g_dirs t ! i)"
      and at: "dir_at (load_dir (g_dirs t ! i) (k_fat t)) cs m" "dir_lists ops content dinv cs m ns (k_fat t)"
      and fr: "\<And>j ms. j \<noteq> i \<Longrightarrow> slot_lists ops content dinv s j ms \<Longrightarrow> slot_lists ops content dinv t j ms" for t m
  proof -
    let ?tl = "(g_dirs t ! i)\<lparr>sl_next := True\<rparr>"
    have l: "load_dir ?tl v = load_dir (g_dirs t ! i) v" for v :: "'d fctx" by (simp add: load_dir_def)
    have d: "dir_lists ops content dinv cs m ns (load_dir ?tl (k_fat t))" "dir_at (load_dir ?tl (k_fat t)) cs m"
      "dir_fat (load_dir ?tl (k_fat t))" using at t by (simp_all add: l)
    let ?g = "(g_dirs t)[i := ?tl]"
    show ?thesis
      unfolding set_slot_def wp_bnd[of "modify _"] wp_modify wp_in_slot
    proof (rule wp_conseq[where Q' = "\<lambda>x v'. walked (load_dir ?tl (k_fat t)) v' \<and> length (g_buf v') = 512 \<and> (\<exists>ms k'. ns = x # ms
       \<and> dir_at v' cs k' \<and> dir_lists ops content dinv cs (Suc k') ms v')"
       and E' = "\<lambda>e v'. walked (load_dir ?tl (k_fat t)) v' \<and> (e = FAT_ERR_IO \<and> \<not> reliable \<or> e = FAT_ERR_EOF \<and> ns = [])"], goal_cases)
      case 1
      have "(g_dirs t)[i := ?tl] ! i = ?tl" using t o by simp
      then show ?case using fat_dir_read_wp[OF d] by simp
    next
      case (2 x v)
      then obtain ms k' where q: "ns = x # ms" "dir_at v cs k'" "dir_lists ops content dinv cs (Suc k') ms v" and w: "walked (load_dir ?tl (k_fat t)) v" "length (g_buf v) = 512"
        by blast
      let ?sl' = "save_dir v ?tl"
      have "dir_fat v" using walked_fields(11)[OF w(1)] t by simp
      then have "slot_lists ops content dinv (t\<lparr>k_fat := v, g_dirs := (g_dirs t)[i := ?sl']\<rparr>) i ms"
        unfolding slot_lists_def using t o q by (auto intro!: exI[of _ cs] exI[of _ k'])
      moreover have "slot_lists ops content dinv (t\<lparr>k_fat := v, g_dirs := (g_dirs t)[i := ?sl']\<rparr>) j ms'"
        if "j \<noteq> i" "slot_lists ops content dinv s j ms'" for j ms'
        by (rule slot_lists_frame[OF fr[OF that] that(1) w])
      ultimately show ?case using q t o by auto
    next
      case (3 e v)
      then show ?case by blast
    qed
  qed
  show ?thesis
  proof (cases "sl_next ?sl")
    case False
    with read[OF o(2-4)] p nb show ?thesis
      by (simp add: fat32_dir_read_def wp_bnd[of "gets _"] wp_gets)
  next
    case True
    let ?Q' = "\<lambda>_ v'. walked (load_dir ?sl (k_fat s)) v' \<and> length (g_buf v') = 512 \<and> dir_at v' cs (Suc k)"
    have "wp fat_dir_next ?Q' (\<lambda>e v'. walked (load_dir ?sl (k_fat s)) v' \<and> length (g_buf v') = 512 \<and> e = FAT_ERR_IO \<and> \<not> reliable)
        (load_dir ?sl (k_fat s))"
      by (rule fat_dir_next_wp) (use p o True in simp_all)
    then have "wp (bnd (in_slot i fat_dir_next) (\<lambda>_. bnd (set_slot i (\<lambda>sl. sl\<lparr>sl_next := True\<rparr>)) (\<lambda>_. in_slot i fat_dir_read)))
        ?Q ?E s"
      unfolding wp_bnd[of "in_slot _ _"] wp_in_slot
    proof (rule wp_conseq, goal_cases)
      case (1 u v)
      then have w: "walked (load_dir ?sl (k_fat s)) v" "length (g_buf v) = 512" "dir_at v cs (Suc k)" by simp_all
      have c: "cache_ok ops content dinv (load_dir ?sl (k_fat s))" "length (g_buf v) = length (g_buf (load_dir ?sl (k_fat s)))"
        using p(2) w by (simp_all add: dir_lists_def)
      show ?case
      proof (rule read[of _ "Suc k"], goal_cases)
        case 3
        then show ?case using walked_fields(11)[OF w(1)] o by simp
      next
        case 5
        then show ?case using dir_lists_walked[OF w(1) c] p(2) True by simp
      next
        case (6 j ms)
        show ?case by (rule slot_lists_frame[OF 6(2,1) w(1,2)])
      qed (use o w in simp_all)
    qed simp
    with True nb show ?thesis by (simp add: fat32_dir_read_def wp_bnd[of "gets _"] wp_gets)
  qed
qed

end


text \<open>Reading from several open directories in any order.\<close>

fun read_slots :: "nat list \<Rightarrow> ('d kfs, fat_err, (nat \<times> dir_info) list) prog" where
  "read_slots [] = ret []"
| "read_slots (i # is) =
     bnd (fat32_dir_read (int i) True) (\<lambda>x. bnd (read_slots is) (\<lambda>xs. ret ((i, x) # xs)))"

definition infos_of :: "nat \<Rightarrow> (nat \<times> dir_info) list \<Rightarrow> dir_info list" where
  "infos_of i xs = map snd (filter (\<lambda>(j, x). j = i) xs)"

lemma infos_of_Cons: "infos_of i ((j, x) # xs) = (if j = i then x # infos_of i xs else infos_of i xs)"
  by (simp add: infos_of_def)

lemma infos_of_length: "length (infos_of i xs) = count_list (map fst xs) i"
  by (induction xs) (auto simp: infos_of_def)

lemma read_slots_wp:
  assumes B: "block_dev ops content dinv" and "\<forall>i \<in> A. slot_lists ops content dinv s i (ns i)" and "set is \<subseteq> A"
  shows "wp (read_slots is)
    (\<lambda>xs t. map fst xs = is \<and> (\<forall>i \<in> A. ns i = infos_of i xs @ drop (count_list is i) (ns i)
        \<and> slot_lists ops content dinv t i (drop (count_list is i) (ns i))))
    (\<lambda>e t. e = FAT_ERR_IO \<and> \<not> block_dev.reliable ops dinv \<or> e = FAT_ERR_EOF \<and> (\<exists>i \<in> A. length (ns i) < count_list is i)) s"
  using assms(2,3)
proof (induction "is" arbitrary: s ns)
  case Nil
  then show ?case by (simp add: wp_ret infos_of_def)
next
  case (Cons i "is")
  have iA: "i \<in> A" and sub: "set is \<subseteq> A" using Cons.prems by simp_all
  show ?case
    unfolding read_slots.simps
  proof (rule wp_bndI[OF block_dev.fat32_dir_read_wp[OF B Cons.prems(1)[rule_format, OF iA]]], goal_cases)
    case (1 x t)
    then obtain ms where ms: "ns i = x # ms" "slot_lists ops content dinv t i ms" by blast
    let ?ns = "ns(i := ms)"
    have l: "\<forall>j \<in> A. slot_lists ops content dinv t j (?ns j)" using 1 ms Cons.prems by auto
    show ?case
    proof (rule wp_bndI[OF Cons.IH[OF l sub]], goal_cases)
      case (1 xs u)
      show ?case unfolding wp_ret
      proof (intro conjI ballI)
        show "map fst ((i, x) # xs) = i # is" using 1 by simp
      next
        fix j assume "j \<in> A"
        with 1 have *: "?ns j = infos_of j xs @ drop (count_list is j) (?ns j)"
          "slot_lists ops content dinv u j (drop (count_list is j) (?ns j))" by blast+
        show "ns j = infos_of j ((i, x) # xs) @ drop (count_list (i # is) j) (ns j)"
          "slot_lists ops content dinv u j (drop (count_list (i # is) j) (ns j))"
          using * ms by (cases "j = i"; simp add: infos_of_Cons)+
      qed
    next
      case (2 e u)
      then show ?case
      proof
        assume "e = FAT_ERR_EOF \<and> (\<exists>j \<in> A. length (?ns j) < count_list is j)"
        then obtain j where "e = FAT_ERR_EOF" "j \<in> A" "length (?ns j) < count_list is j" by blast
        moreover from this ms have "length (ns j) < count_list (i # is) j" by (cases "j = i") simp_all
        ultimately show ?thesis by blast
      qed simp
    qed
  next
    case (2 e t)
    then show ?case using iA by (auto intro!: bexI[of _ i])
  qed
qed


text \<open>Two slots open on the root directory of the small volume, the second one not read from yet.\<close>

definition demo_slot :: dir_slot where
  "demo_slot = \<lparr>sl_fat = True, sl_sclust = 2, sl_clust = 2, sl_sect = 64, sl_idx = 0, sl_used = True, sl_next = False\<rparr>"

definition demo_kfs :: "ram kfs" where
  "demo_kfs = \<lparr>k_fat = dctx.extend (demo_dctx demo_dir_disk) (fctx.fields False 0 0 0 0 0 0 0 0 0 []),
     k_mounted = True, g_dirs = [demo_slot, zero_slot, demo_slot] @ replicate 7 zero_slot\<rparr>"

lemma dir_lists_extend: "dir_lists ops content dinv cs k ns (dctx.extend v m) = dir_lists ops content dinv cs k ns v"
proof -
  have "dir_entry (dctx.extend v m) lv cs = dir_entry v lv cs" for lv
    by (simp add: fun_eq_iff dir_entry_def ent_sect_def ent_clust_def clust_to_sect_def spc_def dctx.extend_def)
  moreover have "geom_ok (dctx.extend v m) = geom_ok v"
    using geom_ok_cong[of "dctx.extend v m" v] by (simp add: dctx.extend_def)
  moreover have "lview content (dctx.extend v m) = lview content v"
    by (auto simp: lview_def fun_eq_iff dctx.extend_def)
  ultimately show ?thesis
    by (simp add: dir_lists_def dir_entries_def dir_geom_def data_geom_def spc_def dir_cap_def cache_ok_def
        buf_dirty_def) (simp add: dctx.extend_def)
qed

definition demo_infos :: "dir_info list" where
  "demo_infos = name_infos (dir_entries (demo_dctx demo_dir_disk) (ram_data demo_dir_disk) [2]) 0 [demo_name, [0x62]]"

lemma demo_infos_names: "map di_name demo_infos = [demo_name, [0x62]]"
  by (simp add: demo_infos_def)

lemma demo_slot_lists:
  assumes "i = 0 \<or> i = 2"
  shows "slot_lists ram_ops ram_data ram_sound demo_kfs i demo_infos"
proof -
  have s: "g_dirs demo_kfs ! i = demo_slot" using assms by (auto simp: demo_kfs_def)
  have "\<forall>n \<in> set [demo_name, [0x62]]. name_ok n" by (simp add: name_ok_def demo_name_def)
  from entries_at_names[OF demo_names this]
  have l: "dir_lists ram_ops ram_data ram_sound [2] 0 demo_infos (k_fat demo_kfs)"
    using demo_dir_ready unfolding demo_infos_def[symmetric]
    by (simp add: demo_kfs_def dir_lists_extend)
      (simp add: dir_lists_def dir_ready_def demo_dctx_view cache_ok_def ram_sound_def demo_dir_disk_def)
  have "dir_at (load_dir demo_slot (k_fat demo_kfs)) [2] 0"
    by (simp add: dir_at_load demo_kfs_def dctx.extend_def demo_slot_def dir_cap_def spc_def ent_clust_def ent_sect_def
        clust_to_sect_def ent_idx_def)
  moreover have "length (g_dirs demo_kfs) = 10" "i < 10" using assms by (auto simp: demo_kfs_def)
  moreover have "sl_used demo_slot" "sl_fat demo_slot" "\<not> sl_next demo_slot" by (simp_all add: demo_slot_def)
  ultimately show ?thesis unfolding slot_lists_def s using l by auto
qed


subsection \<open>The table of open directories\<close>

text \<open>The calls on the table.  The specification knows which slots are open, and nothing else.\<close>

datatype dir_call = Dir_open "u8 list option" | Dir_read int bool | Dir_close int

fun dir_do :: "dir_call \<Rightarrow> ('d kfs, fat_err, nat) prog" where
  "dir_do (Dir_open p) = fat32_dir_open p"
| "dir_do (Dir_read i x) = bnd (fat32_dir_read i x) (\<lambda>_. ret (nat i))"
| "dir_do (Dir_close i) = bnd (fat32_dir_close i) (\<lambda>_. ret (nat i))"

definition open_slots :: "'d kfs \<Rightarrow> nat set" where
  "open_slots s = {i. i < MAX_OPENDIRS \<and> sl_used (g_dirs s ! i)}"

fun slots_step :: "dir_call \<Rightarrow> fat_err + nat \<Rightarrow> nat set \<Rightarrow> nat set" where
  "slots_step (Dir_open _) (Inr i) A = insert i A"
| "slots_step (Dir_close _) (Inr i) A = A - {i}"
| "slots_step _ _ A = A"

fun call_slot :: "dir_call \<Rightarrow> fat_err + nat \<Rightarrow> nat set" where
  "call_slot (Dir_open _) (Inr i) = {i}"
| "call_slot (Dir_open _) (Inl _) = {}"
| "call_slot (Dir_read i _) _ = {nat i}"
| "call_slot (Dir_close i) _ = {nat i}"

lemma in_slot_Some:
  assumes "in_slot i m s = Some (r, t)"
  obtains v where "t = s\<lparr>k_fat := v, g_dirs := (g_dirs s)[i := save_dir v (g_dirs s ! i)]\<rparr>"
  using assms by (auto simp: in_slot_def split: option.splits)

lemma find_free_slot:
  assumes "find (\<lambda>i. \<not> sl_used (g_dirs s ! i)) [0..<MAX_OPENDIRS] = Some i"
  shows "i < MAX_OPENDIRS" "i \<notin> open_slots s" "{..<i} \<subseteq> open_slots s"
proof -
  from assms obtain k where "k < 10" "i = [0..<10] ! k" "\<not> sl_used (g_dirs s ! i)"
    "\<forall>j<k. sl_used (g_dirs s ! ([0..<10] ! j))" unfolding find_Some_iff by auto
  moreover from this have "i = k" by simp
  ultimately show "i < MAX_OPENDIRS" "i \<notin> open_slots s" "{..<i} \<subseteq> open_slots s" by (auto simp: open_slots_def)
qed

text \<open>Changing slot \<open>i\<close> alone.\<close>

lemma open_slots_upd:
  assumes "i < MAX_OPENDIRS" "length (g_dirs s) = MAX_OPENDIRS" "g_dirs t = (g_dirs s)[i := sl]"
  shows "open_slots t = (if sl_used sl then insert i (open_slots s) else open_slots s - {i})"
  using assms by (auto simp: open_slots_def nth_list_update)

definition slot_frame :: "nat \<Rightarrow> 'd kfs \<Rightarrow> 'd kfs \<Rightarrow> bool" where
  "slot_frame i s t \<longleftrightarrow> (\<exists>sl. g_dirs t = (g_dirs s)[i := sl] \<and> sl_used sl = sl_used (g_dirs s ! i))"

lemma slot_frame_refl: "slot_frame i s s"
  by (auto simp: slot_frame_def intro!: exI[of _ "g_dirs s ! i"])

lemma slot_frame_upd:
  "slot_frame i s t \<Longrightarrow> i < length (g_dirs s) \<Longrightarrow> g_dirs u = (g_dirs t)[i := sl] \<Longrightarrow> sl_used sl = sl_used (g_dirs t ! i)
   \<Longrightarrow> slot_frame i s u"
  by (auto simp: slot_frame_def)

lemma in_slot_frame:
  assumes "slot_frame i s t" "i < length (g_dirs s)" "in_slot i m t = Some (r, u)"
  shows "slot_frame i s u"
  by (rule in_slot_Some[OF assms(3)]) (auto intro: slot_frame_upd[OF assms(1,2)])

lemma slot_frame_open:
  assumes "slot_frame i s t" "i < MAX_OPENDIRS" "length (g_dirs s) = MAX_OPENDIRS"
  shows "open_slots t = open_slots s" "length (g_dirs t) = MAX_OPENDIRS" "j \<noteq> i \<Longrightarrow> g_dirs t ! j = g_dirs s ! j"
proof -
  obtain sl where sl: "g_dirs t = (g_dirs s)[i := sl]" "sl_used sl = sl_used (g_dirs s ! i)"
    using assms(1) by (auto simp: slot_frame_def)
  then show "length (g_dirs t) = MAX_OPENDIRS" "j \<noteq> i \<Longrightarrow> g_dirs t ! j = g_dirs s ! j" using assms by simp_all
  show "open_slots t = open_slots s" using open_slots_upd[OF assms(2,3) sl(1)] sl(2) assms(2) by (auto simp: open_slots_def)
qed

lemma fat32_dir_read_frame:
  assumes "fat32_dir_read i x s = Some (r, t)" and "length (g_dirs s) = MAX_OPENDIRS"
  shows "slot_frame (nat i) s t"
proof (cases "slot_bad i s \<or> \<not> x")
  case True
  then have "t = s" using assms(1) by (auto simp: fat32_dir_read_def bnd_def gets_def throw_def)
  then show ?thesis by (simp add: slot_frame_refl)
next
  case False
  let ?i = "nat i" and ?next = "\<lambda>t :: 'a kfs. t\<lparr>g_dirs := (g_dirs t)[nat i := (g_dirs t ! nat i)\<lparr>sl_next := True\<rparr>]\<rparr>"
  have l: "?i < length (g_dirs s)" using False assms(2) by (auto simp: slot_bad_def)
  have run: "bnd (if sl_next (g_dirs s ! ?i) then in_slot ?i fat_dir_next else ret ())
      (\<lambda>_. bnd (set_slot ?i (\<lambda>sl. sl\<lparr>sl_next := True\<rparr>)) (\<lambda>_. in_slot ?i fat_dir_read)) s = Some (r, t)"
    using assms(1) False by (simp add: fat32_dir_read_def bnd_def gets_def)
  have fin: "slot_frame ?i s t" if "slot_frame ?i s u" "in_slot ?i fat_dir_read (?next u) = Some (r, t)" for u
  proof -
    have "slot_frame ?i s (?next u)" 
      by (rule slot_frame_upd[OF that(1) l, where sl = "(g_dirs u ! ?i)\<lparr>sl_next := True\<rparr>"]) simp_all
    then show ?thesis by (rule in_slot_frame[OF _ l that(2)])
  qed
  show ?thesis
  proof (cases "sl_next (g_dirs s ! ?i)")
    case False
    then show ?thesis using run fin[OF slot_frame_refl] by (simp add: bnd_def ret_def set_slot_def modify_def)
  next
    case True
    then obtain q u where u: "in_slot ?i fat_dir_next s = Some (q, u)" using run by (auto simp: bnd_def split: option.splits)
    note fu = in_slot_frame[OF slot_frame_refl l u]
    show ?thesis
    proof (cases q)
      case Inl
      then show ?thesis using run True u fu by (simp add: bnd_def)
    next
      case Inr
      then show ?thesis using run True u fin[OF fu] by (simp add: bnd_def set_slot_def modify_def)
    qed
  qed
qed

lemma slot_bad_iff: "slot_bad i s \<longleftrightarrow> i < 0 \<or> nat i \<notin> open_slots s"
  by (auto simp: slot_bad_def open_slots_def)

lemma dir_open_table:
  assumes "length (g_dirs s) = MAX_OPENDIRS" and "fat32_dir_open p s = Some (r, t)"
  shows "length (g_dirs t) = MAX_OPENDIRS \<and> open_slots t = slots_step (Dir_open p) r (open_slots s)
    \<and> (\<forall>j \<in> open_slots s - call_slot (Dir_open p) r. g_dirs t ! j = g_dirs s ! j)
    \<and> (\<forall>i. r = Inr i \<longrightarrow> i < MAX_OPENDIRS \<and> i \<notin> open_slots s \<and> {..<i} \<subseteq> open_slots s)"
proof -
  let ?free = "find (\<lambda>i. \<not> sl_used (g_dirs s ! i)) [0..<MAX_OPENDIRS]"
  consider (err) e where "r = Inl e" "t = s"
    | (opened) q i where "?free = Some i" "bnd (in_slot i (fat_dir_open q)) (\<lambda>_.
               bnd (set_slot i (\<lambda>sl. sl\<lparr>sl_used := True, sl_next := False\<rparr>)) (\<lambda>_. ret i)) s = Some (r, t)"
    using assms(2) by (auto simp: fat32_dir_open_def bnd_def gets_def throw_def split: option.splits if_splits)
  then show ?thesis
  proof cases
    case err
    with assms(1) show ?thesis by simp
  next
    case (opened q i)
    note f = find_free_slot[OF opened(1)]
    have l: "i < length (g_dirs s)" using f(1) assms(1) by simp
    from opened(2) obtain x u where u: "in_slot i (fat_dir_open q) s = Some (x, u)"
      by (auto simp: bnd_def split: option.splits)
    note fr = slot_frame_open[OF in_slot_frame[OF slot_frame_refl l u] f(1) assms(1)]
    show ?thesis
    proof (cases x)
      case (Inl e)
      then have "r = Inl e" "t = u" using opened(2) u by (simp_all add: bnd_def)
      moreover have "g_dirs u ! j = g_dirs s ! j" if "j \<in> open_slots s" for j using fr(3)[of j] f(2) that by blast
      ultimately show ?thesis using fr f by auto
    next
      case (Inr y)
      let ?sl = "(g_dirs u ! i)\<lparr>sl_used := True, sl_next := False\<rparr>"
      have r: "r = Inr i" and t: "g_dirs t = (g_dirs u)[i := ?sl]"
        using opened(2) u Inr by (auto simp: bnd_def set_slot_def modify_def ret_def)
      have "open_slots t = insert i (open_slots s)" using open_slots_upd[OF f(1) fr(2) t] fr(1) by simp
      then show ?thesis using r t fr f by (auto simp: nth_list_update)
    qed
  qed
qed

lemma dir_open_full:
  assumes "k_mounted s" and "p \<noteq> None" and "open_slots s = {..<MAX_OPENDIRS}"
  shows "fat32_dir_open p s = Some (Inl FAT_ERR_FULL, s)"
proof -
  have "find (\<lambda>i. \<not> sl_used (g_dirs s ! i)) [0..<MAX_OPENDIRS] = None"
    using assms(3) by (auto simp: find_None_iff open_slots_def)
  then show ?thesis using assms(1,2) by (auto simp: fat32_dir_open_def bnd_def gets_def throw_def)
qed

lemma dir_close_table:
  assumes "length (g_dirs s) = MAX_OPENDIRS" and "fat32_dir_close i s = Some (r, t)"
  shows "if slot_bad i s then r = Inl FAT_ERR_PARAM \<and> t = s
     else r = Inr () \<and> t = s\<lparr>g_dirs := (g_dirs s)[nat i := zero_slot]\<rparr> \<and> open_slots t = open_slots s - {nat i}"
proof (cases "slot_bad i s")
  case True
  with assms(2) show ?thesis by (simp add: fat32_dir_close_def bnd_def gets_def throw_def)
next
  case False
  then have t: "r = Inr ()" "t = s\<lparr>g_dirs := (g_dirs s)[nat i := zero_slot]\<rparr>" and i: "nat i < MAX_OPENDIRS"
    using assms(2) by (auto simp: fat32_dir_close_def bnd_def gets_def set_slot_def modify_def slot_bad_def)
  then show ?thesis using False open_slots_upd[OF i assms(1), of t zero_slot] by (simp add: zero_slot_def)
qed

text \<open>C23. Whatever the disk holds, a call on the table of open directories changes at most the slot it is
  about: a new directory gets the lowest free slot, a failed call opens and closes nothing, closing frees
  exactly its slot, and every other open directory stays at its place.  When all ten slots are in use,
  opening fails with \<open>FAT_ERR_FULL\<close>, and reading or closing a slot that is not open fails with
  \<open>FAT_ERR_PARAM\<close>, both without any effect.\<close>

theorem dir_slots_isolated:
  assumes "length (g_dirs s) = MAX_OPENDIRS" and "dir_do c s = Some (r, t)"
  shows "length (g_dirs t) = MAX_OPENDIRS \<and> open_slots t = slots_step c r (open_slots s)
    \<and> (\<forall>j \<in> open_slots s - call_slot c r. g_dirs t ! j = g_dirs s ! j)
    \<and> (case c of
         Dir_open p \<Rightarrow> (\<forall>i. r = Inr i \<longrightarrow> i < MAX_OPENDIRS \<and> i \<notin> open_slots s \<and> {..<i} \<subseteq> open_slots s)
           \<and> (k_mounted s \<and> p \<noteq> None \<and> open_slots s = {..<MAX_OPENDIRS} \<longrightarrow> r = Inl FAT_ERR_FULL \<and> t = s)
       | Dir_read i _ \<Rightarrow> (i < 0 \<or> nat i \<notin> open_slots s \<longrightarrow> r = Inl FAT_ERR_PARAM \<and> t = s)
       | Dir_close i \<Rightarrow> (i < 0 \<or> nat i \<notin> open_slots s \<longrightarrow> r = Inl FAT_ERR_PARAM \<and> t = s)
           \<and> (0 \<le> i \<and> nat i \<in> open_slots s \<longrightarrow> r = Inr (nat i)))"
proof (cases c)
  case (Dir_close i)
  then obtain q where q: "fat32_dir_close i s = Some (q, t)" "r = (case q of Inl e \<Rightarrow> Inl e | Inr _ \<Rightarrow> Inr (nat i))"
    using assms(2) by (auto simp: bnd_def ret_def split: option.splits sum.splits)
  note u = dir_close_table[OF assms(1) q(1), unfolded slot_bad_iff]
  show ?thesis
    using u q(2) assms(1) Dir_close by (cases "i < 0 \<or> nat i \<notin> open_slots s") auto
next
  case (Dir_read i x)
  then obtain q where q: "fat32_dir_read i x s = Some (q, t)" "r = (case q of Inl e \<Rightarrow> Inl e | Inr _ \<Rightarrow> Inr (nat i))"
    using assms(2) by (auto simp: bnd_def ret_def split: option.splits sum.splits)
  show ?thesis
  proof (cases "slot_bad i s")
    case True
    then have "q = Inl FAT_ERR_PARAM" "t = s" using q(1) by (simp_all add: fat32_dir_read_def bnd_def gets_def throw_def)
    then show ?thesis using q(2) assms(1) Dir_read by simp
  next
    case False
    then have b: "\<not> (i < 0 \<or> nat i \<notin> open_slots s)" by (simp add: slot_bad_iff)
    have i: "nat i < MAX_OPENDIRS" using False by (auto simp: slot_bad_def)
    note f = slot_frame_open[OF fat32_dir_read_frame[OF q(1) assms(1)] i assms(1)]
    have "slots_step c r (open_slots s) = open_slots s" "call_slot c r = {nat i}" using Dir_read by simp_all
    then show ?thesis using f b Dir_read by auto
  qed
next
  case (Dir_open p)
  then have o: "fat32_dir_open p s = Some (r, t)" using assms(2) by simp
  show ?thesis using dir_open_table[OF assms(1) o] dir_open_full[of s p] o Dir_open by auto
qed

text \<open>Slots 0 and 2 are open: the first call goes to no slot, the second frees slot 2.\<close>

theorem dir_slots_isolated_witness:
  "open_slots demo_kfs = {0, 2} \<and> dir_do (Dir_read 1 True) demo_kfs = Some (Inl FAT_ERR_PARAM, demo_kfs)
   \<and> (\<exists>t. dir_do (Dir_close 2) demo_kfs = Some (Inr 2, t) \<and> open_slots t = {0} \<and> g_dirs t ! 0 = demo_slot)"
proof -
  have l: "length (g_dirs demo_kfs) = MAX_OPENDIRS" by (simp add: demo_kfs_def)
  have "sl_used (g_dirs demo_kfs ! i) \<longleftrightarrow> i = 0 \<or> i = 2" if "i < 10" for i
  proof -
    consider "i = 0" | "i = 1" | "i = 2" | j where "i = j + 3" "j < 7" 
    proof (cases "i < 3")
      case False
      then have "i = (i - 3) + 3" "i - 3 < 7" using \<open>i < 10\<close> by linarith+
      then show thesis by (rule that(4))
    qed (use that in linarith)
    then show ?thesis by cases (simp_all add: demo_kfs_def demo_slot_def zero_slot_def)
  qed
  then have o: "open_slots demo_kfs = {0, 2}" by (auto simp: open_slots_def)
  have d: "dir_do (Dir_read 1 True) demo_kfs = Some (Inl FAT_ERR_PARAM, demo_kfs)"
    by (simp add: fat32_dir_read_def slot_bad_iff o bnd_def gets_def throw_def)
  obtain t where t: "dir_do (Dir_close 2) demo_kfs = Some (Inr 2, t)"
    by (simp add: fat32_dir_close_def slot_bad_iff o bnd_def gets_def set_slot_def modify_def ret_def)
  have s: "g_dirs demo_kfs ! 0 = demo_slot" by (simp add: demo_kfs_def)
  show ?thesis using o d t dir_slots_isolated[OF l t] s by auto
qed

end
