(* ===== verification/Kernel_Syscall.thy ===== *)
theory Kernel_Syscall
  imports Kernel_Files Kernel_Cpu Kernel_Keyboard
begin

text \<open>
  The system calls of \<open>kernel/sys.c\<close>.  A program and the kernel share one address space: \<open>k_mem\<close> is
  its memory, and the pointers a program passes in registers are read and written there.  The abstract
  line editor at the end says what the reading of a line amounts to.
\<close>

subsection \<open>Memory and strings\<close>

type_synonym umem = "u64 \<Rightarrow> u8"

definition mem_put :: "u64 \<Rightarrow> u8 list \<Rightarrow> umem \<Rightarrow> umem" where
  "mem_put a bs m = (\<lambda>x. if unat (x - a) < length bs then bs ! unat (x - a) else m x)"

definition mem_get :: "umem \<Rightarrow> u64 \<Rightarrow> nat \<Rightarrow> u8 list" where
  "mem_get m a n = map (\<lambda>i. m (a + word_of_nat i)) [0..<n]"

text \<open>The bytes of a C string up to its NUL; a string without one is read on for ever.\<close>

partial_function (option) mem_str :: "umem \<Rightarrow> u64 \<Rightarrow> u8 list option" where
  "mem_str m a = (if m a = 0 then Some [] else Option.bind (mem_str m (a + 1)) (\<lambda>cs. Some (m a # cs)))"

subsection \<open>State\<close>

text \<open>\<open>k_kb\<close> is the stream of the keyboard and \<open>k_tick\<close> counts the rounds in which the kernel waits for
  it: what the keyboard interrupt stores meanwhile is the argument \<open>ev\<close> of the functions below.\<close>

record 'd kst =
  k_fs :: "'d kfs"
  k_con :: console
  k_kb :: stream
  k_tick :: nat
  k_mem :: umem

abbreviation (input) SYSCALL_VECTOR :: u8 where "SYSCALL_VECTOR \<equiv> 0x77"
abbreviation (input) SYS_WRITE :: u64 where "SYS_WRITE \<equiv> 1"
abbreviation (input) SYS_READ :: u64 where "SYS_READ \<equiv> 2"
abbreviation (input) SYS_CLI_CLEAR :: u64 where "SYS_CLI_CLEAR \<equiv> 3"
abbreviation (input) SYS_SET_COL :: u64 where "SYS_SET_COL \<equiv> 4"
abbreviation (input) SYS_SET_CRSR :: u64 where "SYS_SET_CRSR \<equiv> 5"
abbreviation (input) SYS_OPENDIR :: u64 where "SYS_OPENDIR \<equiv> 6"
abbreviation (input) SYS_CLOSEDIR :: u64 where "SYS_CLOSEDIR \<equiv> 7"
abbreviation (input) SYS_READDIR :: u64 where "SYS_READDIR \<equiv> 8"

abbreviation (input) ABI_NAME_MAX :: nat where "ABI_NAME_MAX \<equiv> 32"

definition con_out :: "u8 list \<Rightarrow> 'd kst \<Rightarrow> 'd kst" where
  "con_out cs s = s\<lparr>k_con := dsp_print cs (k_con s)\<rparr>"

subsection \<open>Reading a line\<close>

text \<open>The loop of \<open>SYS_READ\<close>; the echo of a character is the string \<open>{ch, 0}\<close>.\<close>

partial_function (option) sys_read_loop ::
  "(nat \<Rightarrow> stream \<Rightarrow> stream) \<Rightarrow> u64 \<Rightarrow> u64 \<Rightarrow> u64 \<Rightarrow> 'd kst \<Rightarrow> (u64 \<times> 'd kst) option" where
  "sys_read_loop ev buf len i s =
     (if i + 1 < len then
        case stream_read_loop ev True 1 [] (k_tick s) (k_kb s) of
          None \<Rightarrow> None
        | Some (got, k, kb) \<Rightarrow>
            let ch = hd got; s = s\<lparr>k_tick := k, k_kb := kb\<rparr>
            in if ch = 0x0a then Some (i, s)
               else if ch = 0x08 then
                 (if 0 < i then sys_read_loop ev buf len (i - 1) (con_out [0x08] s) else sys_read_loop ev buf len i s)
               else
                 sys_read_loop ev buf len (i + 1)
                   (con_out (takeWhile (\<lambda>c. c \<noteq> 0) [ch]) (s\<lparr>k_mem := (k_mem s)(buf + i := ch)\<rparr>))
      else Some (i, s))"

definition sys_read :: "(nat \<Rightarrow> stream \<Rightarrow> stream) \<Rightarrow> u64 \<Rightarrow> u64 \<Rightarrow> 'd kst \<Rightarrow> (u64 \<times> 'd kst) option" where
  "sys_read ev buf len s =
     (if buf = 0 \<or> len = 0 then Some (0, s)
      else case sys_read_loop ev buf len 0 s of
             None \<Rightarrow> None
           | Some (i, s) \<Rightarrow> Some (i, s\<lparr>k_mem := (k_mem s)(buf + i := 0)\<rparr>))"

subsection \<open>Directories\<close>

text \<open>A negative \<open>int\<close> in a 64-bit register.  The FAT functions called here do not return the value of an
  uninitialised variable, for which \<open>err_code\<close> has no value.\<close>

definition err_rax :: "fat_err \<Rightarrow> u64" where
  "err_rax e = word_of_int (the (err_code e))"

definition in_fs :: "('d kfs, fat_err, 'a) prog \<Rightarrow> 'd kst \<Rightarrow> ((fat_err + 'a) \<times> 'd kst) option" where
  "in_fs m s = (case m (k_fs s) of None \<Rightarrow> None | Some (r, f) \<Rightarrow> Some (r, s\<lparr>k_fs := f\<rparr>))"

definition sys_opendir :: "u64 \<Rightarrow> 'd kst \<Rightarrow> (u64 \<times> 'd kst) option" where
  "sys_opendir path s =
     (if path = 0 then Some (err_rax FAT_ERR_PARAM, s)
      else case mem_str (k_mem s) path of
             None \<Rightarrow> None
           | Some p \<Rightarrow>
               (case in_fs (fat32_dir_open (Some p)) s of
                  None \<Rightarrow> None
                | Some (Inl e, s) \<Rightarrow> Some (err_rax e, s)
                | Some (Inr i, s) \<Rightarrow> Some (word_of_nat i, s)))"

text \<open>The bytes of an \<open>AbiDirInfo\<close>: the name, padding up to the size at 36, the attributes at 40, and the
  length of the name at 41.\<close>

definition put_abi_info :: "u64 \<Rightarrow> dir_info \<Rightarrow> umem \<Rightarrow> umem" where
  "put_abi_info out info m =
     (let n = (if length (di_name info) > ABI_NAME_MAX then ABI_NAME_MAX else length (di_name info));
          m = mem_put out (replicate 33 0) m;
          m = mem_put out (take n (di_name info)) m;
          m = mem_put (out + 36) (wr32 (replicate 4 0) 0 (di_size info)) m;
          m = mem_put (out + 40) [di_attr info] m
      in mem_put (out + 41) [word_of_nat n] m)"

definition sys_readdir :: "u64 \<Rightarrow> u64 \<Rightarrow> 'd kst \<Rightarrow> (u64 \<times> 'd kst) option" where
  "sys_readdir dx out s =
     (if out = 0 then Some (err_rax FAT_ERR_PARAM, s)
      else case in_fs (fat32_dir_read (sint (ucast dx :: u32)) True) s of
             None \<Rightarrow> None
           | Some (Inl e, s) \<Rightarrow> Some (err_rax e, s)
           | Some (Inr info, s) \<Rightarrow> Some (0, s\<lparr>k_mem := put_abi_info out info (k_mem s)\<rparr>))"

definition sys_closedir :: "u64 \<Rightarrow> 'd kst \<Rightarrow> (u64 \<times> 'd kst) option" where
  "sys_closedir dx s =
     (case in_fs (fat32_dir_close (sint (ucast dx :: u32))) s of
        None \<Rightarrow> None
      | Some (Inl e, s) \<Rightarrow> Some (err_rax e, s)
      | Some (Inr _, s) \<Rightarrow> Some (0, s))"

subsection \<open>The handler\<close>

definition syscall_handler :: "(nat \<Rightarrow> stream \<Rightarrow> stream) \<Rightarrow> regs \<times> 'd kst \<Rightarrow> (regs \<times> 'd kst) option" where
  "syscall_handler ev = (\<lambda>(reg, s).
     let set_rax = map_option (\<lambda>(v, s). (reg\<lparr>r_rax := v\<rparr>, s)); call = r_rax reg
     in if call = SYS_WRITE then
          (if r_rdx reg = 0 then Some (reg, s)
           else map_option (\<lambda>cs. (reg, con_out cs s)) (mem_str (k_mem s) (r_rdx reg)))
        else if call = SYS_READ then set_rax (sys_read ev (r_rdx reg) (r_rdi reg) s)
        else if call = SYS_CLI_CLEAR then Some (reg, s\<lparr>k_con := dsp_clear (k_con s)\<rparr>)
        else if call = SYS_SET_COL then
          Some (reg, s\<lparr>k_con := dsp_set_color (ucast (r_rdx reg)) (ucast (r_rdi reg)) (k_con s)\<rparr>)
        else if call = SYS_SET_CRSR then
          Some (reg, s\<lparr>k_con := dsp_set_cursor (ucast (r_rdx reg)) (ucast (r_rdi reg)) (k_con s)\<rparr>)
        else if call = SYS_OPENDIR then set_rax (sys_opendir (r_rdx reg) s)
        else if call = SYS_READDIR then set_rax (sys_readdir (r_rdx reg) (r_rdi reg) s)
        else if call = SYS_CLOSEDIR then set_rax (sys_closedir (r_rdx reg) s)
        else set_rax (Some (- 1, s)))"


definition syscall_init :: "'s isr_handler \<Rightarrow> 's idt_st \<Rightarrow> 's idt_st" where
  "syscall_init handler idt = isr_install SYSCALL_VECTOR handler idt"

subsection \<open>What reading a line does\<close>

text \<open>The line editor on the characters typed, with room for \<open>len - 1\<close> characters: the line, what it
  shows on the screen, and the characters left over.  \<open>None\<close> means that the line is not finished.\<close>

fun edit_line :: "nat \<Rightarrow> u8 list \<Rightarrow> u8 list \<Rightarrow> (u8 list \<times> u8 list \<times> u8 list) option" where
  "edit_line len acc [] = (if length acc + 1 < len then None else Some (acc, [], []))"
| "edit_line len acc (c # cs) =
     (if \<not> length acc + 1 < len then Some (acc, [], c # cs)
      else if c = 0x0a then Some (acc, [], cs)
      else if c = 0x08 then
        map_option (\<lambda>(l, e, r). (l, (if acc = [] then e else 0x08 # e), r)) (edit_line len (butlast acc) cs)
      else map_option (\<lambda>(l, e, r). (l, takeWhile (\<lambda>c. c \<noteq> 0) [c] @ e, r)) (edit_line len (acc @ [c]) cs))"

lemma stream_read_char:
  assumes "only_feeds ev" and "st_inv s" and "st_flag s AND ST_READ \<noteq> 0" and "st_items s = c # cs"
  obtains s' zs where "stream_read_loop ev True 1 [] k s = Some ([c], Suc k, s')" "st_inv s'" "st_flag s' = st_flag s"
    "st_items s' = cs @ zs"
proof -
  obtain s1 where s1: "stream_try_read True 1 s = (1, [c], s1)" "st_inv s1" "st_flag s1 = st_flag s" "st_items s1 = cs"
    using stream_try_read_spec[OF assms(2,3), of 1] assms(4) by auto
  have "stream_read_loop ev True 1 [] k s = Some ([c], Suc k, ev k s1)"
    by (subst stream_read_loop.simps, simp add: s1(1)[unfolded One_nat_def], subst stream_read_loop.simps, simp)
  moreover from only_feedsD[OF assms(1) s1(2), of k] s1 obtain zs where
    "st_inv (ev k s1)" "st_flag (ev k s1) = st_flag s" "st_items (ev k s1) = cs @ zs" by auto
  ultimately show thesis by (rule that)
qed

lemma con_out_simps [simp]:
  "k_fs (con_out cs s) = k_fs s" "k_mem (con_out cs s) = k_mem s" "k_kb (con_out cs s) = k_kb s"
  "k_tick (con_out cs s) = k_tick s" "k_con (con_out cs s) = dsp_print cs (k_con s)"
  by (simp_all add: con_out_def)

lemma mem_get_Suc: "mem_get m a (Suc n) = mem_get m a n @ [m (a + word_of_nat n)]"
  by (simp add: mem_get_def)

lemma mem_get_length [simp]: "length (mem_get m a n) = n"
  by (simp add: mem_get_def)

lemma unat_u64: "n < 2 ^ 64 \<Longrightarrow> unat (word_of_nat n :: u64) = n"
  by (simp add: unat_of_nat take_bit_eq_mod)

lemma unat_lt_u64: "unat (x :: u64) < 2 ^ 64"
  using unsigned_less[of x, where ?'a = nat] by simp

lemma mem_get_upd:
  "n \<le> i \<Longrightarrow> i < 2 ^ 64 \<Longrightarrow> mem_get (m(a + word_of_nat i := x)) a n = mem_get m a n"
proof -
  assume n: "n \<le> i" "i < 2 ^ 64"
  have "(word_of_nat j :: u64) \<noteq> word_of_nat i" if "j < n" for j
  proof
    assume "(word_of_nat j :: u64) = word_of_nat i"
    then have "unat (word_of_nat j :: u64) = unat (word_of_nat i :: u64)" by simp
    moreover have "unat (word_of_nat j :: u64) = j" "unat (word_of_nat i :: u64) = i" using n that by (auto intro: unat_u64)
    ultimately show False using n that by simp
  qed
  then show ?thesis by (auto simp: mem_get_def)
qed

text \<open>What a reading of at most \<open>len\<close> bytes at \<open>buf\<close> can change.\<close>

definition read_frame :: "u64 \<Rightarrow> u64 \<Rightarrow> 'd kst \<Rightarrow> 'd kst \<Rightarrow> bool" where
  "read_frame buf len s t \<longleftrightarrow> k_fs t = k_fs s \<and> (\<forall>a. len \<le> a - buf \<longrightarrow> k_mem t a = k_mem s a)"

lemma read_frame_trans: "read_frame buf len s t \<Longrightarrow> read_frame buf len t u \<Longrightarrow> read_frame buf len s u"
  by (simp add: read_frame_def)

lemma read_frame_store:
  assumes "i < len" and "k_fs t = k_fs s" and "k_mem t = (k_mem s)(buf + i := c)"
  shows "read_frame buf len s t"
proof -
  have "a \<noteq> buf + i" if "len \<le> a - buf" for a using that assms(1) by (auto simp: not_le)
  then show ?thesis using assms by (simp add: read_frame_def)
qed

lemma room_test:
  assumes "n < unat (len :: u64)"
  shows "word_of_nat n + 1 < len \<longleftrightarrow> n + 1 < unat len"
proof -
  have "n + 1 < 2 ^ 64 \<or> n + 1 = unat len" using assms unat_lt_u64[of len] by linarith
  moreover have "n + 1 \<noteq> 2 ^ 64" using assms unat_lt_u64[of len] by linarith
  ultimately have "unat (word_of_nat (n + 1) :: u64) = n + 1" using unat_lt_u64[of len] by (intro unat_u64) linarith
  then show ?thesis by (simp add: word_less_nat_alt add.commute)
qed

lemma room_pos:
  assumes "n < unat (len :: u64)"
  shows "word_of_nat n < len" "0 < n \<Longrightarrow> 0 < (word_of_nat n :: u64)"
  using assms unat_u64[of n] unat_lt_u64[of len] by (auto simp: word_less_nat_alt)

lemma sys_read_loop_edits:
  assumes ev: "only_feeds ev"
  shows "edit_line (unat len) acc xs = Some (line, e, rest) \<Longrightarrow> length acc < unat len \<Longrightarrow> st_inv (k_kb s) \<Longrightarrow>
    st_flag (k_kb s) AND ST_READ \<noteq> 0 \<Longrightarrow> st_items (k_kb s) = xs @ ys \<Longrightarrow>
    mem_get (k_mem s) buf (length acc) = acc \<Longrightarrow>
    \<exists>t zs. sys_read_loop ev buf len (word_of_nat (length acc)) s = Some (word_of_nat (length line), t)
      \<and> length line < unat len \<and> mem_get (k_mem t) buf (length line) = line \<and> k_con t = dsp_print e (k_con s)
      \<and> st_items (k_kb t) = rest @ zs \<and> read_frame buf len s t"
proof (induction xs arbitrary: acc s line e rest ys)
  case Nil
  then have f: "\<not> length acc + 1 < unat len" "line = acc" "e = []" "rest = []" by (auto split: if_splits)
  have n: "\<not> (word_of_nat (length acc) + 1 < len)" using room_test[OF Nil.prems(2)] f(1) by simp
  then have "sys_read_loop ev buf len (word_of_nat (length acc)) s = Some (word_of_nat (length line), s)"
    by (subst sys_read_loop.simps) (simp add: f)
  then show ?case using Nil.prems f by (auto simp: dsp_print_def read_frame_def)
next
  case (Cons c cs)
  note room = room_test[OF Cons.prems(2)]
  show ?case
  proof (cases "length acc + 1 < unat len")
    case False
    then have f: "line = acc" "e = []" "rest = c # cs" using Cons.prems(1) by auto
    have "sys_read_loop ev buf len (word_of_nat (length acc)) s = Some (word_of_nat (length line), s)"
      by (subst sys_read_loop.simps) (use room False f in simp)
    then show ?thesis using Cons.prems f by (auto simp: dsp_print_def read_frame_def)
  next
    case True
    obtain kb zs where kb: "stream_read_loop ev True 1 [] (k_tick s) (k_kb s) = Some ([c], Suc (k_tick s), kb)"
      "st_inv kb" "st_flag kb = st_flag (k_kb s)" "st_items kb = cs @ ys @ zs"
      using stream_read_char[OF ev Cons.prems(3,4), of c "cs @ ys" "k_tick s"] Cons.prems(5) by auto
    let ?s = "s\<lparr>k_tick := Suc (k_tick s), k_kb := kb\<rparr>" and ?i = "word_of_nat (length acc) :: u64"
    have run: "sys_read_loop ev buf len ?i s =
       (if c = 0x0a then Some (?i, ?s)
        else if c = 0x08 then
          (if 0 < ?i then sys_read_loop ev buf len (?i - 1) (con_out [0x08] ?s) else sys_read_loop ev buf len ?i ?s)
        else sys_read_loop ev buf len (?i + 1)
            (con_out (takeWhile (\<lambda>c. c \<noteq> 0) [c]) (?s\<lparr>k_mem := (k_mem s)(buf + ?i := c)\<rparr>)))"
      by (subst sys_read_loop.simps) (use room True kb(1) in \<open>simp add: Let_def\<close>)
    have kbs: "st_inv (k_kb ?s)" "st_flag (k_kb ?s) AND ST_READ \<noteq> 0" "st_items (k_kb ?s) = cs @ ys @ zs"
      using kb Cons.prems(4) by simp_all
    consider (nl) "c = 0x0a" | (bs0) "c = 0x08" "acc = []" | (bs) "c = 0x08" "acc \<noteq> []" | (ch) "c \<noteq> 0x0a" "c \<noteq> 0x08" by blast
    then show ?thesis
    proof cases
      case nl
      then have "line = acc" "e = []" "rest = cs" using Cons.prems(1) True by auto
      then show ?thesis using run nl kbs Cons.prems(2,6) by (auto simp: dsp_print_def read_frame_def)
    next
      case bs0
      then have "edit_line (unat len) acc cs = Some (line, e, rest)" using Cons.prems(1) True by auto
      from Cons.IH[OF this Cons.prems(2) kbs] Cons.prems(6) run bs0 show ?thesis
        by (auto simp: read_frame_def)
    next
      case bs
      from bs Cons.prems(1) True obtain e' where e': "edit_line (unat len) (butlast acc) cs = Some (line, e', rest)" "e = 0x08 # e'"
        by auto
      have l: "length (butlast acc) < unat len" using Cons.prems(2) by simp
      have i: "0 < ?i" "?i - 1 = word_of_nat (length (butlast acc))"
        using bs(2) room_pos[OF Cons.prems(2)] by (auto simp: of_nat_diff Suc_leI)
      have g: "mem_get (k_mem (con_out [0x08] ?s)) buf (length (butlast acc)) = butlast acc"
        using Cons.prems(6) bs(2) by (cases acc rule: rev_cases) (auto simp: mem_get_Suc)
      obtain t zs' where t: "sys_read_loop ev buf len (word_of_nat (length (butlast acc))) (con_out [0x08] ?s) = Some (word_of_nat (length line), t)"
        "length line < unat len" "mem_get (k_mem t) buf (length line) = line" "k_con t = dsp_print e' (k_con (con_out [0x08] ?s))"
        "st_items (k_kb t) = rest @ zs'" "read_frame buf len (con_out [0x08] ?s) t"
        using Cons.IH[OF e'(1) l _ _ _ g, of "ys @ zs"] kbs by auto
      then show ?thesis
        using run bs(1) i e'(2) by (auto simp: read_frame_def dsp_print_append[of "[8]" e', simplified])
    next
      case ch
      let ?e0 = "takeWhile (\<lambda>c. c \<noteq> 0) [c]"
      let ?u = "con_out ?e0 (?s\<lparr>k_mem := (k_mem s)(buf + ?i := c)\<rparr>)"
      from ch Cons.prems(1) True obtain e' where e': "edit_line (unat len) (acc @ [c]) cs = Some (line, e', rest)" "e = ?e0 @ e'"
        by (auto split: if_splits)
      have l: "length (acc @ [c]) < unat len" using True by simp
      have b: "length acc < 2 ^ 64" using Cons.prems(2) unat_lt_u64[of len] by linarith
      have g: "mem_get (k_mem ?u) buf (length (acc @ [c])) = acc @ [c]"
        using Cons.prems(6) mem_get_upd[OF le_refl b, of "k_mem s" buf c] by (simp add: mem_get_Suc)
      have i: "?i + 1 = word_of_nat (length (acc @ [c]))" by simp
      have fr: "read_frame buf len s ?u"
        by (rule read_frame_store[of ?i]) (use room_pos[OF Cons.prems(2)] in simp_all)
      obtain t zs' where t: "sys_read_loop ev buf len (word_of_nat (length (acc @ [c]))) ?u = Some (word_of_nat (length line), t)"
        "length line < unat len" "mem_get (k_mem t) buf (length line) = line" "k_con t = dsp_print e' (k_con ?u)"
        "st_items (k_kb t) = rest @ zs'" "read_frame buf len ?u t"
        using Cons.IH[OF e'(1) l _ _ _ g, of "ys @ zs"] kbs by auto
      then show ?thesis
        using run ch i read_frame_trans[OF fr t(6)] unfolding e'(2) dsp_print_append by (auto simp del: takeWhile.simps)
    qed
  qed
qed


text \<open>Whatever is typed, and whenever.\<close>

lemma sys_read_loop_frame:
  "sys_read_loop ev buf len i s = Some y \<Longrightarrow> i < len \<longrightarrow> fst y < len \<and> read_frame buf len s (snd y)"
proof (erule sys_read_loop.raw_induct[of "\<lambda>ev buf len i s y. i < len \<longrightarrow> fst y < len \<and> read_frame buf len s (snd y)", rotated], goal_cases)
  case (1 f ev buf len i s y)
  show ?case
  proof
    assume i: "i < len"
    show "fst y < len \<and> read_frame buf len s (snd y)"
    proof (cases "i + 1 < len")
      case False
      then show ?thesis using 1(2) i by (auto simp: read_frame_def)
    next
      case True
      then obtain got k kb where r: "stream_read_loop ev True 1 [] (k_tick s) (k_kb s) = Some (got, k, kb)"
        using 1(2) by (auto split: option.splits)
      let ?s = "s\<lparr>k_tick := k, k_kb := kb\<rparr>" and ?ch = "hd got"
      let ?u = "con_out (takeWhile (\<lambda>c. c \<noteq> 0) [?ch]) (?s\<lparr>k_mem := (k_mem ?s)(buf + i := ?ch)\<rparr>)"
      have y: "(if ?ch = 0x0a then Some (i, ?s)
          else if ?ch = 0x08 then (if 0 < i then f ev buf len (i - 1) (con_out [0x08] ?s) else f ev buf len i ?s)
          else f ev buf len (i + 1) ?u) = Some y"
        using 1(2) unfolding if_P[OF True] r by (simp only: option.case prod.case Let_def)
      have fr: "read_frame buf len s ?s" "read_frame buf len s (con_out [8] ?s)" by (simp_all add: read_frame_def)
      have fu: "read_frame buf len s ?u" by (rule read_frame_store[OF i]) simp_all
      have pred: "i - 1 < len" if "0 < i" 
      proof -
        have "unat (i - 1) = unat i - 1" using that by (simp add: unat_minus_one word_gt_0)
        then show ?thesis using i unfolding word_less_nat_alt by linarith
      qed
      consider "y = (i, ?s)" | "0 < i" "f ev buf len (i - 1) (con_out [8] ?s) = Some y" | "f ev buf len i ?s = Some y"
        | "f ev buf len (i + 1) ?u = Some y" using y by (metis option.inject)
      then show ?thesis
      proof cases
        case 1
        with i fr show ?thesis by simp
      next
        case 2
        with 1(1)[OF 2(2)] pred fr(2) show ?thesis using read_frame_trans by blast
      next
        case 3
        with 1(1)[OF 3] i fr(1) show ?thesis using read_frame_trans by blast
      next
        case 4
        with 1(1)[OF 4] True fu show ?thesis using read_frame_trans by blast
      qed
    qed
  qed
qed

lemma read_frame_self: "k_fs t = k_fs s \<Longrightarrow> k_mem t = k_mem s \<Longrightarrow> read_frame buf len s t"
  by (simp add: read_frame_def)

text \<open>C24. A line that has been typed when a program asks for it is edited and delivered: \<open>SYS_READ\<close> takes
  characters up to the end of the line or until the buffer is full, applies the backspaces, stores the
  line with a NUL behind it in the buffer of the program and nothing elsewhere, returns its length, shows
  the editing on the screen, and leaves the characters typed after it, and those typed meanwhile, for the next
  reading.\<close>

theorem sys_read_line:
  assumes "only_feeds ev" and "st_inv (k_kb s)" and "st_flag (k_kb s) AND ST_READ \<noteq> 0"
    and "r_rax reg = SYS_READ" and "r_rdx reg \<noteq> 0" and "r_rdi reg \<noteq> 0"
    and "edit_line (unat (r_rdi reg)) [] (st_items (k_kb s)) = Some (line, e, rest)"
  shows "\<exists>t zs. syscall_handler ev (reg, s) = Some (reg\<lparr>r_rax := word_of_nat (length line)\<rparr>, t)
    \<and> length line < unat (r_rdi reg) \<and> mem_get (k_mem t) (r_rdx reg) (length line + 1) = line @ [0]
    \<and> (\<forall>a. r_rdi reg \<le> a - r_rdx reg \<longrightarrow> k_mem t a = k_mem s a)
    \<and> k_con t = dsp_print e (k_con s) \<and> st_items (k_kb t) = rest @ zs \<and> k_fs t = k_fs s"
proof -
  let ?buf = "r_rdx reg" and ?len = "r_rdi reg"
  have l0: "length [] < unat ?len" using assms(6) by (simp add: unat_gt_0)
  from sys_read_loop_edits[OF assms(1,7) l0 assms(2,3), of "[]" ?buf] obtain t zs where
    t: "sys_read_loop ev ?buf ?len 0 s = Some (word_of_nat (length line), t)" "length line < unat ?len"
      "mem_get (k_mem t) ?buf (length line) = line" "k_con t = dsp_print e (k_con s)" "st_items (k_kb t) = rest @ zs"
      "read_frame ?buf ?len s t" by (auto simp: mem_get_def)
  let ?m = "(k_mem t)(?buf + word_of_nat (length line) := 0)"
  have b: "length line < 2 ^ 64" using t(2) unat_lt_u64[of ?len] by linarith
  have "mem_get ?m ?buf (length line + 1) = line @ [0]"
    using mem_get_upd[OF le_refl b, of "k_mem t" ?buf 0] t(3) by (simp add: mem_get_Suc)
  moreover have "read_frame ?buf ?len t (t\<lparr>k_mem := ?m\<rparr>)"
    by (rule read_frame_store[OF room_pos(1)[OF t(2)]]) simp_all
  then have "\<forall>a. ?len \<le> a - ?buf \<longrightarrow> ?m a = k_mem s a" "k_fs t = k_fs s"
    using t(6) unfolding read_frame_def by auto
  moreover have "syscall_handler ev (reg, s) = Some (reg\<lparr>r_rax := word_of_nat (length line)\<rparr>, t\<lparr>k_mem := ?m\<rparr>)"
    using assms(4-6) t(1) by (simp add: syscall_handler_def sys_read_def)
  ultimately show ?thesis using t by (intro exI[of _ "t\<lparr>k_mem := ?m\<rparr>"] exI[of _ zs]) simp
qed

text \<open>A stream that holds what has been typed.\<close>

definition typed :: "u8 list \<Rightarrow> stream" where
  "typed xs = \<lparr>st_rb = \<lparr>rb_buf = xs @ replicate (4096 - length xs) 0, rb_head = word_of_nat (length xs), rb_tail = 0\<rparr>,
     st_flag = ST_READ, st_overflow = 0\<rparr>"

lemma typed_items:
  assumes "length xs < 4096"
  shows "st_inv (typed xs)" "st_items (typed xs) = xs"
proof -
  have h: "unat (word_of_nat (length xs) :: u32) = length xs" using assms by (intro unat_u32) simp
  then show "st_inv (typed xs)" using assms by (simp add: rb_inv_def typed_def)
  show "st_items (typed xs) = xs"
    using assms h by (intro nth_equalityI) (simp_all add: rb_items_def rb_len_def typed_def nth_append)
qed

definition demo_regs :: regs where
  "demo_regs = \<lparr>r_r8 = 0, r_r9 = 0, r_r10 = 0, r_r11 = 0, r_r12 = 0, r_r13 = 0, r_r14 = 0, r_r15 = 0, r_rdi = 0, r_rsi = 0,
     r_rbp = 0, r_rbx = 0, r_rdx = 0, r_rcx = 0, r_rax = 0, r_int_no = 0x77, r_err_code = 0, r_rip = 0, r_cs = 8,
     r_rflags = 0, r_rsp = 0, r_ss = 16\<rparr>"

definition demo_kst :: "u8 list \<Rightarrow> ram kst" where
  "demo_kst xs = \<lparr>k_fs = demo_kfs, k_con = demo_con, k_kb = typed xs, k_tick = 0, k_mem = (\<lambda>_. 0x55)\<rparr>"

lemma demo_kst_kb: "k_kb (demo_kst xs) = typed xs" "st_flag (typed xs) AND ST_READ \<noteq> 0"
  by (simp_all add: demo_kst_def typed_def)

text \<open>Typing \<open>a\<close>, \<open>b\<close>, backspace, newline, \<open>c\<close> for a buffer of ten bytes.\<close>

theorem sys_read_line_witness:
  "\<exists>t zs. syscall_handler type_a (demo_regs\<lparr>r_rax := 2, r_rdx := 0x1000, r_rdi := 10\<rparr>, demo_kst [0x61, 0x62, 0x08, 0x0a, 0x63])
     = Some (demo_regs\<lparr>r_rax := 1, r_rdx := 0x1000, r_rdi := 10\<rparr>, t)
   \<and> mem_get (k_mem t) 0x1000 2 = [0x61, 0] \<and> k_mem t 0x100a = 0x55 \<and> st_items (k_kb t) = 0x63 # zs"
proof -
  let ?xs = "[0x61, 0x62, 0x08, 0x0a, 0x63] :: u8 list"
  let ?reg = "demo_regs\<lparr>r_rax := 2, r_rdx := 0x1000, r_rdi := 10\<rparr>"
  have k: "st_inv (k_kb (demo_kst ?xs))" "st_flag (k_kb (demo_kst ?xs)) AND ST_READ \<noteq> 0"
    "st_items (k_kb (demo_kst ?xs)) = ?xs"
    unfolding demo_kst_kb(1) by (rule typed_items demo_kst_kb; simp)+
  have r: "r_rax ?reg = 2" "r_rdx ?reg \<noteq> 0" "r_rdi ?reg \<noteq> 0" by simp_all
  have "edit_line (unat (r_rdi ?reg)) [] (st_items (k_kb (demo_kst ?xs))) = Some ([0x61], [0x61, 0x62, 0x08], [0x63])"
    unfolding k(3) by simp
  from sys_read_line[OF type_a_feeds(1) k(1,2) r this] obtain t zs where
    t: "syscall_handler type_a (?reg, demo_kst ?xs) = Some (?reg\<lparr>r_rax := word_of_nat (length [0x61 :: u8])\<rparr>, t)"
      "mem_get (k_mem t) (r_rdx ?reg) (length [0x61 :: u8] + 1) = [0x61] @ [0]"
      "\<forall>a. r_rdi ?reg \<le> a - r_rdx ?reg \<longrightarrow> k_mem t a = k_mem (demo_kst ?xs) a"
      "st_items (k_kb t) = [0x63] @ zs" by blast
  have "k_mem t 0x100a = 0x55" using t(3)[rule_format, of "0x100a"] by (simp add: demo_kst_def)
  moreover have "length [0x61 :: u8] + 1 = 2" "r_rdx ?reg = 0x1000" by simp_all
  moreover have "?reg\<lparr>r_rax := word_of_nat (length [0x61 :: u8])\<rparr> = demo_regs\<lparr>r_rax := 1, r_rdx := 0x1000, r_rdi := 10\<rparr>" by simp
  ultimately show ?thesis using t(1,2,4) by (intro exI[of _ t] exI[of _ zs]) (simp only: append.simps simp_thms)
qed

text \<open>Whatever is typed and however long it takes, reading a line does not write behind the buffer it
  was given: the length it returns is smaller than the size of the buffer, a NUL stands there, and no
  byte outside the buffer and no open directory is touched.\<close>

theorem sys_read_bounded:
  assumes "len \<noteq> 0" and "buf \<noteq> 0" and "sys_read ev buf len s = Some (n, t)"
  shows "n < len \<and> k_mem t (buf + n) = 0 \<and> k_fs t = k_fs s \<and> (\<forall>a. len \<le> a - buf \<longrightarrow> k_mem t a = k_mem s a)"
proof -
  from assms obtain u where u: "sys_read_loop ev buf len 0 s = Some (n, u)" "t = u\<lparr>k_mem := (k_mem u)(buf + n := 0)\<rparr>"
    by (auto simp: sys_read_def split: option.splits)
  have "0 < len" using assms(1) by (simp add: word_gt_0)
  with sys_read_loop_frame[OF u(1)] have n: "n < len" "read_frame buf len s u" by simp_all
  have "read_frame buf len u t" by (rule read_frame_store[OF n(1)]) (simp_all add: u(2))
  from read_frame_trans[OF n(2) this] show ?thesis using n(1) u(2) by (simp add: read_frame_def)
qed

theorem sys_read_bounded_witness:
  "\<exists>n t. sys_read type_a 0x1000 10 (demo_kst [0x61, 0x0a]) = Some (n, t) \<and> n < 10 \<and> k_mem t 0x100a = 0x55"
proof -
  let ?s = "demo_kst [0x61, 0x0a]"
  have k: "st_inv (k_kb ?s)" "st_flag (k_kb ?s) AND ST_READ \<noteq> 0" "st_items (k_kb ?s) = [0x61, 0x0a] @ []"
    unfolding demo_kst_kb(1) using typed_items[of "[0x61, 0x0a]"] demo_kst_kb(2) by simp_all
  have "edit_line (unat (10 :: u64)) [] [0x61, 0x0a] = Some ([0x61], [0x61], [])" by simp
  from sys_read_loop_edits[OF type_a_feeds(1) this _ k, of "0x1000"] obtain t where
    "sys_read_loop type_a 0x1000 10 0 ?s = Some (1, t)" by (auto simp: mem_get_def)
  then obtain t' where t: "sys_read type_a 0x1000 10 ?s = Some (1, t')" by (simp add: sys_read_def)
  have "k_mem t' 0x100a = 0x55" using sys_read_bounded[OF _ _ t] by (simp add: demo_kst_def)
  then show ?thesis using t by auto
qed

subsection \<open>Strings and structs in memory\<close>

lemma mem_str_simp: "mem_str m a = (if m a = 0 then Some [] else map_option ((#) (m a)) (mem_str m (a + 1)))"
  by (subst mem_str.simps) (auto simp: map_option_case bind_eq_None_conv split: option.split)

lemma mem_str_get: "mem_get m a (length bs) = bs \<Longrightarrow> 0 \<in> set bs \<Longrightarrow> mem_str m a = Some (takeWhile (\<lambda>c. c \<noteq> 0) bs)"
proof (induction bs arbitrary: a)
  case (Cons b bs)
  have "[0..<length (b # bs)] = 0 # map Suc [0..<length bs]" by (simp add: map_Suc_upt upt_conv_Cons del: upt_Suc)
  then have "mem_get m a (length (b # bs)) = m a # mem_get m (a + 1) (length bs)"
    by (simp add: mem_get_def o_def add.assoc)
  then have m: "m a = b" "mem_get m (a + 1) (length bs) = bs" using Cons.prems(1) by simp_all
  show ?case
  proof (cases "b = 0")
    case True
    then show ?thesis using m(1) by (subst mem_str_simp) simp
  next
    case False
    then have "0 \<in> set bs" using Cons.prems(2) by simp
    from Cons.IH[OF m(2) this] show ?thesis using m(1) False by (subst mem_str_simp) simp
  qed
qed simp

lemma mem_put_at: "n < 2 ^ 64 \<Longrightarrow> mem_put a bs m (a + word_of_nat n) = (if n < length bs then bs ! n else m (a + word_of_nat n))"
  by (simp add: mem_put_def unat_u64)

lemma mem_put_off:
  assumes "k + length bs \<le> 2 ^ 64" and "n < 2 ^ 64"
  shows "mem_put (a + word_of_nat k) bs m (a + word_of_nat n) =
    (if k \<le> n \<and> n < k + length bs then bs ! (n - k) else m (a + word_of_nat n))"
proof (cases "bs = []")
  case True
  then show ?thesis by (auto simp: mem_put_def)
next
  case False
  then have k: "k < 2 ^ 64" using assms(1) by (cases bs) auto
  have e: "a + word_of_nat n - (a + word_of_nat k) = (word_of_nat n - word_of_nat k :: u64)" by simp
  show ?thesis
  proof (cases "k \<le> n")
    case True
    then have "(word_of_nat n - word_of_nat k :: u64) = word_of_nat (n - k)" by (simp add: of_nat_diff)
    moreover have "unat (word_of_nat (n - k) :: u64) = n - k" using assms(2) by (intro unat_u64) simp
    ultimately show ?thesis unfolding mem_put_def e using True by auto
  next
    case no: False
    have "unat (word_of_nat n - word_of_nat k :: u64) = 2 ^ 64 - (k - n)"
    proof -
      have "(word_of_nat n - word_of_nat k :: u64) = word_of_nat (2 ^ 64 - (k - n))"
        using no k by (simp add: of_nat_diff)
      then show ?thesis using no k by (simp only:) (intro unat_u64, simp)
    qed
    moreover have "\<not> 2 ^ 64 - (k - n) < length bs" using assms(1) no by linarith
    ultimately show ?thesis unfolding mem_put_def e using no by auto
  qed
qed

text \<open>The bytes of the struct a reading of a directory delivers.\<close>

definition abi_byte :: "dir_info \<Rightarrow> nat \<Rightarrow> u8 option" where
  "abi_byte x n =
     (let nm = take ABI_NAME_MAX (di_name x)
      in if n < 33 then Some (if n < length nm then nm ! n else 0)
         else if 36 \<le> n \<and> n < 40 then Some (wr32 (replicate 4 0) 0 (di_size x) ! (n - 36))
         else if n = 40 then Some (di_attr x)
         else if n = 41 then Some (word_of_nat (length nm))
         else None)"

lemma put_abi_info_byte:
  assumes "n < 2 ^ 64"
  shows "put_abi_info a x m (a + word_of_nat n) = (case abi_byte x n of Some b \<Rightarrow> b | None \<Rightarrow> m (a + word_of_nat n))"
proof -
  let ?n = "if length (di_name x) > ABI_NAME_MAX then ABI_NAME_MAX else length (di_name x)"
  have n: "take (length (take ABI_NAME_MAX (di_name x))) (di_name x) = take ABI_NAME_MAX (di_name x)"
    "?n = length (take ABI_NAME_MAX (di_name x))"
    "length (take ABI_NAME_MAX (di_name x)) \<le> 32" by (auto simp: min_def)
  have r: "length (replicate 33 (0 :: u8)) = 33" "length (wr32 (replicate 4 0) 0 (di_size x)) = 4" by simp_all
  note off = mem_put_off[where a = a and n = n, OF _ assms]
  have o36: "a + 36 = a + word_of_nat 36" "a + 40 = a + word_of_nat 40" "a + 41 = a + word_of_nat 41" by simp_all
  show ?thesis
    unfolding put_abi_info_def Let_def n(2) n(1) o36
    by (subst off, simp, subst off, simp, subst off, simp, subst mem_put_at[OF assms], subst mem_put_at[OF assms])
      (use n(3) in \<open>auto simp: abi_byte_def Let_def r simp del: length_take\<close>)
qed

lemma takeWhile_zeros: "takeWhile (\<lambda>c. c \<noteq> 0) (xs @ replicate n 0) = takeWhile (\<lambda>c. c \<noteq> (0 :: u8)) xs"
  by (induction xs) (simp_all add: takeWhile_replicate)

lemma put_abi_info_reads:
  fixes out :: u64 and x :: dir_info and m :: umem
  defines "m' \<equiv> put_abi_info out x m"
  shows "mem_str m' out = Some (takeWhile (\<lambda>c. c \<noteq> 0) (take ABI_NAME_MAX (di_name x)))"
    "rd32 (mem_get m' (out + 36) 4) 0 = di_size x" "m' (out + 40) = di_attr x"
    "m' (out + 41) = word_of_nat (min ABI_NAME_MAX (length (di_name x)))"
    "33 \<le> a - out \<and> a - out < 36 \<or> 42 \<le> a - out \<Longrightarrow> m' a = m a"
proof -
  note b = put_abi_info_byte[of _ out x m, folded m'_def]
  let ?nm = "take ABI_NAME_MAX (di_name x)"
  let ?bs = "?nm @ replicate (33 - length ?nm) 0"
  have "mem_get m' out 33 = ?bs"
    by (intro nth_equalityI) (simp_all add: mem_get_def b abi_byte_def Let_def nth_append)
  moreover have "length ?bs = 33" "0 \<in> set ?bs" by simp_all
  ultimately have "mem_str m' out = Some (takeWhile (\<lambda>c. c \<noteq> 0) ?bs)" using mem_str_get[of m' out ?bs] by (simp only:)
  moreover have "takeWhile (\<lambda>c. c \<noteq> 0) ?bs = takeWhile (\<lambda>c. c \<noteq> 0) ?nm" by (rule takeWhile_zeros)
  ultimately show "mem_str m' out = Some (takeWhile (\<lambda>c. c \<noteq> 0) ?nm)" by simp
  have "mem_get m' (out + 36) 4 = wr32 (replicate 4 0) 0 (di_size x)"
  proof (rule nth_equalityI, goal_cases)
    case (2 i)
    then have i: "i < 4" by simp
    then have "out + 36 + word_of_nat i = out + word_of_nat (36 + i)" by (simp add: add.assoc)
    then show ?case using b[of "36 + i"] i by (simp add: mem_get_def abi_byte_def Let_def add.assoc)
  qed simp
  then show "rd32 (mem_get m' (out + 36) 4) 0 = di_size x" by (simp add: le_simps)
  show "m' (out + 40) = di_attr x" using b[of 40] by (simp add: abi_byte_def Let_def)
  show "m' (out + 41) = word_of_nat (min ABI_NAME_MAX (length (di_name x)))"
    using b[of 41] by (simp add: abi_byte_def Let_def min.commute)
  assume a: "33 \<le> a - out \<and> a - out < 36 \<or> 42 \<le> a - out"
  have "abi_byte x (unat (a - out)) = None" using a by (auto simp: abi_byte_def Let_def word_le_nat_alt word_less_nat_alt)
  then show "m' a = m a" using b[OF unat_lt_u64[of "a - out"]] by simp
qed

text \<open>C25. Reading an open directory through \<open>SYS_READDIR\<close> delivers the entry in the struct of the program:
  the first 32 bytes of the name as a string that always ends, its length, the size and the attributes;
  no other byte of memory changes, neither around the struct nor in its padding.\<close>

theorem sys_readdir_delivers:
  assumes "r_rax reg = SYS_READDIR" and "r_rdi reg \<noteq> 0"
    and "fat32_dir_read (sint (ucast (r_rdx reg) :: u32)) True (k_fs s) = Some (Inr x, f)"
  shows "\<exists>t. syscall_handler ev (reg, s) = Some (reg\<lparr>r_rax := 0\<rparr>, t) \<and> k_fs t = f \<and> k_con t = k_con s
    \<and> mem_str (k_mem t) (r_rdi reg) = Some (takeWhile (\<lambda>c. c \<noteq> 0) (take ABI_NAME_MAX (di_name x)))
    \<and> rd32 (mem_get (k_mem t) (r_rdi reg + 36) 4) 0 = di_size x \<and> k_mem t (r_rdi reg + 40) = di_attr x
    \<and> k_mem t (r_rdi reg + 41) = word_of_nat (min ABI_NAME_MAX (length (di_name x)))
    \<and> (\<forall>a. 33 \<le> a - r_rdi reg \<and> a - r_rdi reg < 36 \<or> 42 \<le> a - r_rdi reg \<longrightarrow> k_mem t a = k_mem s a)"
proof -
  let ?t = "s\<lparr>k_fs := f, k_mem := put_abi_info (r_rdi reg) x (k_mem s)\<rparr>"
  have "syscall_handler ev (reg, s) = Some (reg\<lparr>r_rax := 0\<rparr>, ?t)"
    using assms by (simp add: syscall_handler_def sys_readdir_def in_fs_def)
  then show ?thesis using put_abi_info_reads[where out = "r_rdi reg" and x = x and m = "k_mem s"] by (intro exI[of _ ?t]) simp
qed

lemma demo_dir_read: "\<exists>x f. fat32_dir_read 0 True demo_kfs = Some (Inr x, f) \<and> di_name x = demo_name"
proof -
  note w = sound.fat32_dir_read_wp[OF demo_slot_lists[of 0, OF disjI1, OF refl]]
  from wp_returns[OF w] obtain r t where r: "fat32_dir_read (int 0) True demo_kfs = Some (r, t)" by blast
  show ?thesis
  proof (cases r)
    case (Inl e)
    have "demo_infos \<noteq> []" using demo_infos_names by auto
    then show ?thesis using wp_InlD[OF w r[unfolded Inl]] sound_reliable by simp
  next
    case (Inr x)
    then obtain ms where ms: "demo_infos = x # ms" using wp_InrD[OF w r[unfolded Inr]] by blast
    have "di_name x = demo_name" using demo_infos_names unfolding ms by simp
    then show ?thesis using r Inr by auto
  qed
qed

theorem sys_readdir_delivers_witness:
  "\<exists>t. syscall_handler type_a (demo_regs\<lparr>r_rax := 8, r_rdi := 0x1000\<rparr>, demo_kst []) = Some (demo_regs\<lparr>r_rax := 0, r_rdi := 0x1000\<rparr>, t)
     \<and> mem_str (k_mem t) 0x1000 = Some demo_name \<and> k_mem t 0x1029 = 5 \<and> k_mem t 0x0fff = 0x55"
proof -
  let ?reg = "demo_regs\<lparr>r_rax := 8, r_rdi := 0x1000\<rparr>"
  have f: "k_fs (demo_kst []) = demo_kfs" "sint (ucast (r_rdx ?reg) :: u32) = 0" by (simp_all add: demo_kst_def demo_regs_def)
  obtain x f where x: "fat32_dir_read (sint (ucast (r_rdx ?reg) :: u32)) True (k_fs (demo_kst [])) = Some (Inr x, f)" "di_name x = demo_name"
    using demo_dir_read unfolding f by blast
  have r: "r_rax ?reg = 8" "r_rdi ?reg \<noteq> 0" by simp_all
  from sys_readdir_delivers[OF r x(1)] obtain t where
    t: "syscall_handler type_a (?reg, demo_kst []) = Some (?reg\<lparr>r_rax := 0\<rparr>, t)"
      "mem_str (k_mem t) (r_rdi ?reg) = Some (takeWhile (\<lambda>c. c \<noteq> 0) (take ABI_NAME_MAX (di_name x)))"
      "k_mem t (r_rdi ?reg + 41) = word_of_nat (min ABI_NAME_MAX (length (di_name x)))"
      "\<forall>a. 33 \<le> a - r_rdi ?reg \<and> a - r_rdi ?reg < 36 \<or> 42 \<le> a - r_rdi ?reg \<longrightarrow> k_mem t a = k_mem (demo_kst []) a"
    by blast
  have "mem_str (k_mem t) 0x1000 = Some demo_name" "k_mem t 0x1029 = 5" using t(2,3) unfolding x(2) by (simp_all add: demo_name_def)
  moreover have "k_mem t 0x0fff = 0x55" using t(4)[rule_format, of "0x0fff"] by (simp add: demo_kst_def)
  ultimately show ?thesis using t(1) by auto
qed

text \<open>The result of a call that is refused.\<close>

definition refused :: "regs \<Rightarrow> 'd kst \<Rightarrow> u64 option" where
  "refused reg s =
     (let slot = sint (ucast (r_rdx reg) :: u32)
      in if r_rax reg = 0 \<or> 8 < r_rax reg then Some (- 1)
         else if r_rax reg = SYS_WRITE \<and> r_rdx reg = 0 then Some SYS_WRITE
         else if r_rax reg = SYS_READ \<and> (r_rdx reg = 0 \<or> r_rdi reg = 0) then Some 0
         else if r_rax reg = SYS_OPENDIR \<and> r_rdx reg = 0 then Some (- 4)
         else if r_rax reg = SYS_READDIR \<and> (r_rdi reg = 0 \<or> slot_bad slot (k_fs s)) then Some (- 4)
         else if r_rax reg = SYS_CLOSEDIR \<and> slot_bad slot (k_fs s) then Some (- 4)
         else None)"



end
