(* ===== verification/Kernel_App.thy ===== *)
theory Kernel_App
  imports Kernel_Syscall
begin

text \<open>
  Starting a program, \<open>kernel/app.c\<close>: the file is loaded to the fixed address \<open>PRO_BASE\<close> and called.
\<close>

abbreviation (input) PRO_BASE :: u64 where "PRO_BASE \<equiv> 0x400000"

definition in_ctx :: "('d fctx, 'e, 'a) prog \<Rightarrow> 'd kst \<Rightarrow> (('e + 'a) \<times> 'd kst) option" where
  "in_ctx m s = (case m (k_fat (k_fs s)) of
     None \<Rightarrow> None | Some (r, v) \<Rightarrow> Some (r, s\<lparr>k_fs := (k_fs s)\<lparr>k_fat := v\<rparr>\<rparr>))"

text \<open>The part behind \<open>fat_file_open\<close>.  \<open>run\<close> is the call of the program, which may not return.  A failed
  read has stored the bytes it came to.\<close>

definition load_and_call :: "('d kst \<Rightarrow> 'd kst option) \<Rightarrow> 'd kst \<Rightarrow> (int \<times> 'd kst) option" where
  "load_and_call run s =
     (case in_ctx (bnd (gets file_size) (\<lambda>n. fat_file_read (unat n))) s of
        None \<Rightarrow> None
      | Some (Inl (e, bs), s) \<Rightarrow> Some (- 2, s\<lparr>k_mem := mem_put PRO_BASE bs (k_mem s)\<rparr>)
      | Some (Inr bs, s) \<Rightarrow> map_option (\<lambda>s. (0, s)) (run (s\<lparr>k_mem := mem_put PRO_BASE bs (k_mem s)\<rparr>)))"

definition start_proc :: "timestamp \<Rightarrow> ('d kst \<Rightarrow> 'd kst option) \<Rightarrow> u8 list \<Rightarrow> 'd kst \<Rightarrow> (int \<times> 'd kst) option" where
  "start_proc now run path s =
     (case in_ctx (fat_file_open now path FAT_READ) s of
        None \<Rightarrow> None
      | Some (Inl e, s) \<Rightarrow> Some (- 1, s)
      | Some (Inr _, s) \<Rightarrow> load_and_call run s)"

text \<open>C27. A program is called with exactly the bytes of its file at \<open>PRO_BASE\<close> and the rest of the memory
  and the screen untouched, however long the file is: loading it from a device that does not fail
  always ends with the call, as long as the file does not fill its last cluster.  In particular
  nothing keeps the image within \<open>PRO_MAX_SIZE\<close>.\<close>

theorem start_proc_loads:
  assumes "block_dev ops content dinv" and "block_dev.reliable ops dinv"
    and "block_dev.file_loaded ops content dinv (k_fat (k_fs s)) cs"
    and "file_flags (k_fat (k_fs s)) AND FAT_READ \<noteq> 0" and "file_offset (k_fat (k_fs s)) = 0"
    and "unat (file_size (k_fat (k_fs s))) < 512 * nsect (k_fat (k_fs s)) cs"
  shows "\<exists>t. load_and_call run s = map_option (\<lambda>u. (0, u)) (run t)
    \<and> mem_get (k_mem t) PRO_BASE (unat (file_size (k_fat (k_fs s)))) = block_dev.file_data content (k_fat (k_fs s)) cs
    \<and> (\<forall>a. unat (file_size (k_fat (k_fs s))) \<le> unat (a - PRO_BASE) \<longrightarrow> k_mem t a = k_mem s a)
    \<and> k_con t = k_con s \<and> k_kb t = k_kb s"
proof -
  let ?v = "k_fat (k_fs s)"
  let ?d = "block_dev.file_data content ?v cs" and ?n = "unat (file_size ?v)"
  note B = assms(1) and l = assms(3)
  have on: "block_dev.file_on ops content dinv ?v cs"
    using l by (simp add: block_dev.file_loaded_def[OF B] block_dev.file_at_def[OF B])
  have len: "length ?d = ?n"
    using assms(6) block_dev.file_bytes_len[OF B on, of cs] by (simp add: block_dev.file_data_def[OF B])
  have x: "?d = slice ?d (unat (file_offset ?v)) ?n" using len assms(5) by (simp add: slice_def)
  note w = block_dev.fat_file_read_wp[OF B l assms(4) less_imp_le[OF assms(6)] x]
  from wp_returns[OF w] obtain r v where r: "fat_file_read ?n ?v = Some (r, v)" by blast
  show ?thesis
  proof (cases r)
    case (Inl eb)
    obtain e bs where eb: "eb = (e, bs)" by fastforce
    show ?thesis using wp_InlD[OF w r[unfolded Inl]] assms(2,5,6) len by (auto simp: eb block_dev.no_io_def[OF B])
  next
    case (Inr bs)
    then have bs: "bs = ?d" using wp_InrD[OF w r[unfolded Inr]] by blast
    let ?t = "s\<lparr>k_fs := (k_fs s)\<lparr>k_fat := v\<rparr>, k_mem := mem_put PRO_BASE ?d (k_mem s)\<rparr>"
    have run: "load_and_call run s = map_option (\<lambda>u. (0, u)) (run ?t)"
      using r Inr bs by (simp add: load_and_call_def in_ctx_def bnd_def gets_def)
    have small: "?n < 2 ^ 64" using unsigned_less[of "file_size ?v", where ?'a = nat] by simp
    have "mem_get (k_mem ?t) PRO_BASE ?n = ?d"
      using len small by (intro nth_equalityI) (simp_all add: mem_get_def mem_put_at)
    moreover have "k_mem ?t a = k_mem s a" if "?n \<le> unat (a - PRO_BASE)" for a
      using that len by (simp add: mem_put_def)
    ultimately show ?thesis using run by (intro exI[of _ ?t]) simp
  qed
qed

definition demo_app :: "ram kst" where
  "demo_app = (demo_kst [])\<lparr>k_fs := demo_kfs\<lparr>k_fat := demo_file file_disk 3 3 600 0\<rparr>\<rparr>"

theorem start_proc_loads_witness:
  "\<exists>t. load_and_call Some demo_app = Some (0, t)
     \<and> mem_get (k_mem t) 0x400000 600 = replicate 512 0x61 @ replicate 88 0x62 \<and> k_mem t 0x400258 = 0x55"
proof -
  let ?v = "k_fat (k_fs demo_app)"
  have v: "?v = demo_file file_disk 3 3 600 0" by (simp add: demo_app_def)
  have l: "sound.file_loaded ?v [3, 4, 5]"
    unfolding v by (rule demo_file_loaded[OF file_disk_sound file_disk_chain]) simp_all
  have a: "file_flags ?v AND FAT_READ \<noteq> 0" "file_offset ?v = 0" "unat (file_size ?v) < 512 * nsect ?v [3, 4, 5]"
    unfolding v by simp_all
  have "\<not> file_dirty ?v" by (simp add: v file_dirty_def)
  moreover have "[0..<3] = [0, Suc 0, Suc (Suc 0)]" by (simp add: upt_rec)
  ultimately have b: "sound.file_bytes ?v [3, 4, 5] = replicate 512 0x61 @ replicate 512 0x62 @ replicate 512 0x63"
    by (simp add: sound.file_bytes_def sound.fsec_def v chain_sect_def file_disk_def)
  have d: "sound.file_data ?v [3, 4, 5] = replicate 512 0x61 @ replicate 88 0x62"
    unfolding sound.file_data_def b by (simp add: v take_replicate)
  from start_proc_loads[OF sound.block_dev_axioms sound_reliable l a, of Some] obtain t where
    t: "load_and_call Some demo_app = Some (0, t)" "mem_get (k_mem t) PRO_BASE (unat (file_size ?v)) = sound.file_data ?v [3, 4, 5]"
      "\<forall>a. unat (file_size ?v) \<le> unat (a - PRO_BASE) \<longrightarrow> k_mem t a = k_mem demo_app a" by auto
  have s: "unat (file_size ?v) = 600" by (simp add: v)
  have "k_mem t 0x400258 = 0x55" using t(3)[rule_format, of "0x400258"] s by (simp add: demo_app_def demo_kst_def)
  then show ?thesis using t(1,2) unfolding s d by auto
qed

end
