(* ===== verification/Libc_String.thy ===== *)
theory Libc_String
  imports Prelude
begin

text \<open>
  The string and memory routines of \<open>libc/string.c\<close>, which the kernel, the driver and the
  terminal share.

  The routines that store work on a memory, a function from addresses to bytes, so that
  overlapping arguments are what they are in C; addresses are natural numbers, since a pointer
  that wraps is outside C.  The routines that only compare or search take the bytes the pointer
  points to as a list, read as 0 behind its end.  Plain \<open>char\<close> is signed on this target.
\<close>

type_synonym mem = "nat \<Rightarrow> u8"

subsection \<open>Blocks of memory\<close>

fun memset :: "nat \<Rightarrow> u8 \<Rightarrow> nat \<Rightarrow> mem \<Rightarrow> mem" where
  "memset d v 0 m = m"
| "memset d v (Suc n) m = memset (Suc d) v n (m(d := v))"

fun copy_bytes :: "nat \<Rightarrow> nat \<Rightarrow> nat \<Rightarrow> mem \<Rightarrow> mem" where
  "copy_bytes d s 0 m = m"
| "copy_bytes d s (Suc n) m = copy_bytes (Suc d) (Suc s) n (m(d := m s))"

text \<open>The first loop of \<open>memcpy\<close>, up to an aligned destination.\<close>

fun copy_head :: "nat \<Rightarrow> nat \<Rightarrow> nat \<Rightarrow> mem \<Rightarrow> nat \<times> nat \<times> nat \<times> mem" where
  "copy_head d s 0 m = (d, s, 0, m)"
| "copy_head d s (Suc n) m =
     (if d mod 4 \<noteq> 0 then copy_head (Suc d) (Suc s) n (m(d := m s)) else (d, s, Suc n, m))"

text \<open>\<open>*d32 = *s32\<close>: four bytes are loaded and then stored.\<close>

definition copy_word :: "nat \<Rightarrow> nat \<Rightarrow> mem \<Rightarrow> mem" where
  "copy_word d s m = m(d := m s, d + 1 := m (s + 1), d + 2 := m (s + 2), d + 3 := m (s + 3))"

definition copy_8_words :: "nat \<Rightarrow> nat \<Rightarrow> mem \<Rightarrow> mem" where
  "copy_8_words d s m = fold (\<lambda>i. copy_word (d + 4 * i) (s + 4 * i)) [0..<8] m"

function copy_blocks :: "nat \<Rightarrow> nat \<Rightarrow> nat \<Rightarrow> mem \<Rightarrow> nat \<times> nat \<times> nat \<times> mem" where
  "copy_blocks d s n m =
     (if n \<ge> 32 then copy_blocks (d + 32) (s + 32) (n - 32) (copy_8_words d s m) else (d, s, n, m))"
  by pat_completeness auto
termination by (relation "measure (\<lambda>(d, s, n, m). n)") auto

function copy_words :: "nat \<Rightarrow> nat \<Rightarrow> nat \<Rightarrow> mem \<Rightarrow> nat \<times> nat \<times> nat \<times> mem" where
  "copy_words d s n m =
     (if n \<ge> 4 then copy_words (d + 4) (s + 4) (n - 4) (copy_word d s m) else (d, s, n, m))"
  by pat_completeness auto
termination by (relation "measure (\<lambda>(d, s, n, m). n)") auto

declare copy_blocks.simps [simp del] copy_words.simps [simp del]

definition memcpy :: "nat \<Rightarrow> nat \<Rightarrow> nat \<Rightarrow> mem \<Rightarrow> mem" where
  "memcpy dst src len m =
     (let (d, s, n, m) = copy_head dst src len m
      in if s mod 4 = 0
         then (let (d, s, n, m) = copy_blocks d s n m; (d, s, n, m) = copy_words d s n m
               in copy_bytes d s n m)
         else copy_bytes d s n m)"

text \<open>The backward loop: \<open>d\<close> and \<open>s\<close> are one past the bytes still to be copied.\<close>

fun copy_back :: "nat \<Rightarrow> nat \<Rightarrow> nat \<Rightarrow> mem \<Rightarrow> mem" where
  "copy_back d s 0 m = m"
| "copy_back d s (Suc n) m = copy_back (d - 1) (s - 1) n (m(d - 1 := m (s - 1)))"

definition memmove :: "nat \<Rightarrow> nat \<Rightarrow> nat \<Rightarrow> mem \<Rightarrow> mem" where
  "memmove dst src len m =
     (if dst > src then copy_back (dst + len) (src + len) len m
      else if dst < src then memcpy dst src len m
      else m)"

fun memcmp :: "nat \<Rightarrow> nat \<Rightarrow> nat \<Rightarrow> mem \<Rightarrow> int" where
  "memcmp a b 0 m = 0"
| "memcmp a b (Suc n) m =
     (if m a \<noteq> m b then uint (m a) - uint (m b) else memcmp (Suc a) (Suc b) n m)"

subsection \<open>Comparing and searching strings\<close>

text \<open>The byte a pointer points to.\<close>

definition peek :: "u8 list \<Rightarrow> u8" where
  "peek s = (case s of [] \<Rightarrow> 0 | c # _ \<Rightarrow> c)"

fun strlen :: "u8 list \<Rightarrow> nat" where
  "strlen [] = 0"
| "strlen (c # s) = (if c \<noteq> 0 then Suc (strlen s) else 0)"

fun strcmp :: "u8 list \<Rightarrow> u8 list \<Rightarrow> int" where
  "strcmp (a # as) (b # bs) =
     (if a \<noteq> 0 \<and> b \<noteq> 0 \<and> a = b then strcmp as bs else uint a - uint b)"
| "strcmp as bs = uint (peek as) - uint (peek bs)"

text \<open>The loop of \<open>strncmp\<close>: \<open>len--\<close> is tested before the characters.\<close>

fun strncmp_loop :: "u8 list \<Rightarrow> u8 list \<Rightarrow> nat \<Rightarrow> int" where
  "strncmp_loop (a # as) (b # bs) (Suc n) =
     (if a \<noteq> 0 \<and> b \<noteq> 0 \<and> a = b then strncmp_loop as bs n else uint a - uint b)"
| "strncmp_loop as bs n = uint (peek as) - uint (peek bs)"

definition strncmp :: "u8 list \<Rightarrow> u8 list \<Rightarrow> nat \<Rightarrow> int" where
  "strncmp a b len = (if len = 0 then 0 else strncmp_loop a b len)"

text \<open>The index of the last match; \<open>*str\<close> is a signed char and \<open>(unsigned char)ch\<close> is not.\<close>

definition char_eq :: "u8 \<Rightarrow> u8 \<Rightarrow> bool" where
  "char_eq c ch \<longleftrightarrow> sint c = uint ch"

fun strrchr_loop :: "u8 list \<Rightarrow> u8 \<Rightarrow> nat \<Rightarrow> nat option \<Rightarrow> nat option" where
  "strrchr_loop [] ch i lst = (if char_eq 0 ch then Some i else lst)"
| "strrchr_loop (c # s) ch i lst =
     (let lst' = (if char_eq c ch then Some i else lst)
      in if c \<noteq> 0 then strrchr_loop s ch (Suc i) lst' else lst')"

definition strrchr :: "u8 list \<Rightarrow> u8 \<Rightarrow> nat option" where
  "strrchr s ch = strrchr_loop s ch 0 None"

subsection \<open>Copying strings\<close>

text \<open>\<open>while((*dst++ = *src++))\<close>; it does not end when it keeps overwriting the terminator.\<close>

partial_function (option) copy_string :: "nat \<Rightarrow> nat \<Rightarrow> mem \<Rightarrow> mem option" where
  "copy_string d s m =
     (let m' = m(d := m s) in if m s = 0 then Some m' else copy_string (Suc d) (Suc s) m')"

partial_function (option) find_nul :: "nat \<Rightarrow> mem \<Rightarrow> nat option" where
  "find_nul d m = (if m d = 0 then Some d else find_nul (Suc d) m)"

text \<open>Address 0 is the null pointer; the result is the returned pointer and the memory.\<close>

definition strcpy :: "nat \<Rightarrow> nat \<Rightarrow> mem \<Rightarrow> (nat \<times> mem) option" where
  "strcpy dst src m =
     (if dst = 0 \<or> src = 0 then Some (0, m) else map_option (Pair dst) (copy_string dst src m))"

definition strcat :: "nat \<Rightarrow> nat \<Rightarrow> mem \<Rightarrow> (nat \<times> mem) option" where
  "strcat dst src m =
     (case find_nul dst m of None \<Rightarrow> None | Some d \<Rightarrow> map_option (Pair dst) (copy_string d src m))"

subsection \<open>Copying is copying\<close>

text \<open>The memory in which \<open>n\<close> bytes from \<open>s\<close> have been copied to \<open>d\<close> at once.\<close>

definition copied :: "nat \<Rightarrow> nat \<Rightarrow> nat \<Rightarrow> mem \<Rightarrow> mem" where
  "copied d s n m = (\<lambda>a. if d \<le> a \<and> a < d + n then m (s + (a - d)) else m a)"

text \<open>The destination does not run into bytes that are still to be read.\<close>

definition forward_ok :: "nat \<Rightarrow> nat \<Rightarrow> nat \<Rightarrow> bool" where
  "forward_ok d s n \<longleftrightarrow> d \<le> s \<or> s + n \<le> d"

lemma copied_0: "copied d s 0 m = m"
  by (auto simp: copied_def fun_eq_iff)

lemma copied_split:
  assumes "forward_ok d s (k + n)"
  shows "copied (d + k) (s + k) n (copied d s k m) = copied d s (k + n) m"
proof (rule ext)
  fix a
  consider "a < d" | "d \<le> a" "a < d + k" | "d + k \<le> a" "a < d + k + n" | "d + k + n \<le> a"
    by linarith
  then show "copied (d + k) (s + k) n (copied d s k m) a = copied d s (k + n) m a"
  proof cases
    case 3
    then obtain i where i: "a = d + k + i" "i < n" by (metis add_less_cancel_left le_iff_add)
    have "\<not> (d \<le> s + k + i \<and> s + k + i < d + k)"
      using i(2) assms by (auto simp: forward_ok_def)
    then show ?thesis using i by (auto simp: copied_def add.assoc)
  qed (auto simp: copied_def)
qed

lemma forward_ok_mono: "forward_ok d s (k + n) \<Longrightarrow> forward_ok (d + k) (s + k) n"
  by (auto simp: forward_ok_def)

lemma copied_1: "m(d := m s) = copied d s 1 m"
  by (auto simp: copied_def fun_eq_iff)

lemma copy_bytes_spec: "forward_ok d s n \<Longrightarrow> copy_bytes d s n m = copied d s n m"
proof (induction n arbitrary: d s m)
  case (Suc n)
  then show ?case
    using Suc.IH[of "Suc d" "Suc s"] forward_ok_mono[of d s 1 n] copied_split[of d s 1 n m]
    by (simp add: copied_1)
qed (simp add: copied_0)

lemma copy_head_spec:
  "forward_ok d s n \<Longrightarrow> copy_head d s n m = (d', s', n', m') \<Longrightarrow>
   \<exists>k. k + n' = n \<and> d' = d + k \<and> s' = s + k \<and> m' = copied d s k m \<and> (n' > 0 \<longrightarrow> d' mod 4 = 0)"
proof (induction n arbitrary: d s m)
  case (Suc n)
  show ?case
  proof (cases "d mod 4 = 0")
    case False
    have f: "forward_ok (Suc d) (Suc s) n" using forward_ok_mono[of d s 1 n] Suc.prems(1) by simp
    have "copy_head (Suc d) (Suc s) n (copied d s 1 m) = (d', s', n', m')"
      using Suc.prems(2) unfolding copy_head.simps(2) if_P[OF False] copied_1 .
    from Suc.IH[OF f this] obtain k where k: "k + n' = n" "d' = Suc d + k" "s' = Suc s + k"
      "m' = copied (Suc d) (Suc s) k (copied d s 1 m)" "n' > 0 \<longrightarrow> d' mod 4 = 0" by (elim exE conjE)
    have "forward_ok d s (1 + k)" using Suc.prems(1) k(1) by (auto simp: forward_ok_def)
    with k copied_split[of d s 1 k m] show ?thesis by (intro exI[of _ "Suc k"]) simp
  qed (use Suc.prems in \<open>auto simp: copied_0\<close>)
qed (auto simp: copied_0)

lemma copy_word_spec: "copy_word d s m = copied d s 4 m"
proof (rule ext)
  fix a
  consider "a < d \<or> d + 4 \<le> a" | "a = d" | "a = d + 1" | "a = d + 2" | "a = d + 3" by linarith
  then show "copy_word d s m a = copied d s 4 m a"
    by cases (auto simp: copy_word_def copied_def)
qed

lemma copy_8_words_prefix:
  "forward_ok d s (4 * n) \<Longrightarrow>
   fold (\<lambda>i. copy_word (d + 4 * i) (s + 4 * i)) [0..<n] m = copied d s (4 * n) m"
proof (induction n)
  case (Suc n)
  have "forward_ok d s (4 * n)" using Suc.prems by (auto simp: forward_ok_def)
  with Suc copied_split[of d s "4 * n" 4 m] show ?case
    by (simp add: copy_word_spec add.commute)
qed (simp add: copied_0)

lemma copy_8_words_spec: "forward_ok d s 32 \<Longrightarrow> copy_8_words d s m = copied d s 32 m"
  using copy_8_words_prefix[of d s 8 m] unfolding copy_8_words_def by simp

lemma copy_blocks_spec:
  "forward_ok d s n \<Longrightarrow> copy_blocks d s n m = (d', s', n', m') \<Longrightarrow>
   \<exists>k. k + n' = n \<and> d' = d + k \<and> s' = s + k \<and> m' = copied d s k m"
proof (induction d s n m rule: copy_blocks.induct)
  case (1 d s n m)
  show ?case
  proof (cases "n \<ge> 32")
    case True
    then have e: "copy_blocks (d + 32) (s + 32) (n - 32) (copy_8_words d s m) = (d', s', n', m')"
      using 1(3) by (simp add: copy_blocks.simps[of d s n m])
    have f: "forward_ok (d + 32) (s + 32) (n - 32)" "forward_ok d s 32"
      using 1(2) True by (auto simp: forward_ok_def)
    obtain k where k: "k + n' = n - 32" "d' = d + 32 + k" "s' = s + 32 + k"
      "m' = copied (d + 32) (s + 32) k (copied d s 32 m)"
      using 1(1)[OF True f(1) e] copy_8_words_spec[OF f(2)] by auto
    have "forward_ok d s (32 + k)" using 1(2) k(1) True by (auto simp: forward_ok_def)
    with k True copied_split[of d s 32 k m] show ?thesis by (intro exI[of _ "32 + k"]) simp
  qed (use 1 in \<open>auto simp: copy_blocks.simps[of d s n m] copied_0\<close>)
qed

lemma copy_words_spec:
  "forward_ok d s n \<Longrightarrow> copy_words d s n m = (d', s', n', m') \<Longrightarrow>
   \<exists>k. k + n' = n \<and> d' = d + k \<and> s' = s + k \<and> m' = copied d s k m"
proof (induction d s n m rule: copy_words.induct)
  case (1 d s n m)
  show ?case
  proof (cases "n \<ge> 4")
    case True
    then have e: "copy_words (d + 4) (s + 4) (n - 4) (copy_word d s m) = (d', s', n', m')"
      using 1(3) by (simp add: copy_words.simps[of d s n m])
    have f: "forward_ok (d + 4) (s + 4) (n - 4)"
      using 1(2) True by (auto simp: forward_ok_def)
    obtain k where k: "k + n' = n - 4" "d' = d + 4 + k" "s' = s + 4 + k"
      "m' = copied (d + 4) (s + 4) k (copied d s 4 m)"
      using 1(1)[OF True f e] copy_word_spec by auto
    have "forward_ok d s (4 + k)" using 1(2) k(1) True by (auto simp: forward_ok_def)
    with k True copied_split[of d s 4 k m] show ?thesis by (intro exI[of _ "4 + k"]) simp
  qed (use 1 in \<open>auto simp: copy_words.simps[of d s n m] copied_0\<close>)
qed

lemma memcpy_spec:
  assumes "forward_ok d s n"
  shows "memcpy d s n m = copied d s n m"
proof -
  obtain d1 s1 n1 m1 where h: "copy_head d s n m = (d1, s1, n1, m1)" by (metis surj_pair)
  from copy_head_spec[OF assms h] obtain k where k: "k + n1 = n" "d1 = d + k" "s1 = s + k"
    "m1 = copied d s k m" by (elim exE conjE)
  have f1: "forward_ok d1 s1 n1" using assms k by (auto simp: forward_ok_def)
  have fin: "copied d1 s1 n1 m1 = copied d s n m"
    using copied_split[of d s k n1 m] assms k by simp
  show ?thesis
  proof (cases "s1 mod 4 = 0")
    case False
    with h fin copy_bytes_spec[OF f1] show ?thesis by (simp add: memcpy_def)
  next
    case True
    obtain d2 s2 n2 m2 where b: "copy_blocks d1 s1 n1 m1 = (d2, s2, n2, m2)" by (metis surj_pair)
    from copy_blocks_spec[OF f1 b] obtain k2 where k2: "k2 + n2 = n1" "d2 = d1 + k2" "s2 = s1 + k2"
      "m2 = copied d1 s1 k2 m1" by (elim exE conjE)
    have f2: "forward_ok d2 s2 n2" using f1 k2 by (auto simp: forward_ok_def)
    obtain d3 s3 n3 m3 where w: "copy_words d2 s2 n2 m2 = (d3, s3, n3, m3)" by (metis surj_pair)
    from copy_words_spec[OF f2 w] obtain k3 where k3: "k3 + n3 = n2" "d3 = d2 + k3" "s3 = s2 + k3"
      "m3 = copied d2 s2 k3 m2" by (elim exE conjE)
    have f3: "forward_ok d3 s3 n3" using f2 k3 by (auto simp: forward_ok_def)
    have "copied d3 s3 n3 m3 = copied d2 s2 n2 m2"
      using copied_split[of d2 s2 k3 n3 m2] f2 k3 by simp
    moreover have "copied d2 s2 n2 m2 = copied d1 s1 n1 m1"
      using copied_split[of d1 s1 k2 n2 m1] f1 k2 by simp
    ultimately show ?thesis
      using True h b w fin copy_bytes_spec[OF f3] by (simp add: memcpy_def)
  qed
qed

lemma copy_back_spec: "s < d \<Longrightarrow> copy_back (d + n) (s + n) n m = copied d s n m"
proof (induction n arbitrary: m)
  case (Suc n)
  have "copy_back (d + Suc n) (s + Suc n) (Suc n) m = copied d s n (m(d + n := m (s + n)))"
    using Suc by simp
  also have "\<dots> = copied d s (Suc n) m"
  proof (rule ext)
    fix a
    consider "a < d" | i where "a = d + i" "i < n" | "a = d + n" | "d + n < a"
      by (metis add_less_cancel_left le_iff_add linorder_neqE_nat not_less)
    then show "copied d s n (m(d + n := m (s + n))) a = copied d s (Suc n) m a"
      using Suc.prems by cases (auto simp: copied_def)
  qed
  finally show ?case .
qed (simp add: copied_0)

lemma memset_spec: "memset d v n m = (\<lambda>a. if d \<le> a \<and> a < d + n then v else m a)"
proof (induction d v n m rule: memset.induct)
  case (2 d v n m)
  show ?case unfolding memset.simps 2 by (auto simp: fun_eq_iff)
qed (auto simp: fun_eq_iff)

text \<open>\<open>memmove\<close> copies: for any two blocks, overlapping or not, the destination ends up with the
  bytes the source had before the call, and nothing else changes.\<close>

theorem memmove_copies:
  "memmove dst src len m = (\<lambda>a. if dst \<le> a \<and> a < dst + len then m (src + (a - dst)) else m a)"
proof -
  have "memmove dst src len m = copied dst src len m"
    using copy_back_spec[of src dst len m] memcpy_spec[of dst src len m]
    by (auto simp: memmove_def forward_ok_def) (auto simp: copied_def fun_eq_iff)
  then show ?thesis by (simp add: copied_def)
qed

text \<open>C15. \<open>memcpy\<close> is the bytewise copy: the version with the aligned head, the unrolled 32-byte blocks,
  the words and the tail gives, for blocks that do not overlap and for a destination that starts
  before its source, the memory a single simultaneous copy gives, for every alignment.\<close>

theorem memcpy_copies:
  assumes "dst \<le> src \<or> src + len \<le> dst"
  shows "memcpy dst src len m = (\<lambda>a. if dst \<le> a \<and> a < dst + len then m (src + (a - dst)) else m a)"
  using memcpy_spec[of dst src len m] assms by (simp add: forward_ok_def copied_def)

theorem memcpy_copies_witness:
  "memcpy 101 300 77 (\<lambda>a. word_of_nat a) 177 = 120"
  using memcpy_copies[of 101 300 77 "\<lambda>a. word_of_nat a"] by simp

subsection \<open>Strings\<close>

text \<open>The string at a pointer: the bytes before the first NUL.\<close>

definition cstr :: "u8 list \<Rightarrow> u8 list" where
  "cstr s = takeWhile (\<lambda>c. c \<noteq> 0) s"

lemma cstr_simps: "cstr [] = []" "cstr (c # s) = (if c \<noteq> 0 then c # cstr s else [])"
  by (simp_all add: cstr_def)

lemma strlen_cstr: "strlen s = length (cstr s)"
  by (induction s) (auto simp: cstr_simps)

text \<open>The order of strings by their bytes.\<close>

fun str_less :: "u8 list \<Rightarrow> u8 list \<Rightarrow> bool" where
  "str_less s [] = False"
| "str_less [] (b # t) = True"
| "str_less (a # s) (b # t) = (a < b \<or> a = b \<and> str_less s t)"

lemma uint_zero_less: "c \<noteq> 0 \<Longrightarrow> 0 < uint (c :: u8)"
  using word_uint_eq_iff[of c 0] unsigned_greater_eq[of c, where ?'a = int] by (simp add: order_less_le)

lemma strcmp_zero: "strcmp a b = 0 \<longleftrightarrow> cstr a = cstr b"
  by (induction a b rule: strcmp.induct)
     (auto simp: cstr_simps peek_def word_uint_eq_iff split: list.splits)

lemma strcmp_neg: "strcmp a b < 0 \<longleftrightarrow> str_less (cstr a) (cstr b)"
proof (induction a b rule: strcmp.induct, goal_cases)
  case (1 a as b bs)
  then show ?case
    by (cases "a = 0"; cases "b = 0") (auto simp: cstr_simps word_less_def uint_zero_less)
next
  case (2 bs)
  then show ?case by (cases bs) (auto simp: cstr_simps peek_def uint_zero_less)
next
  case (3 v)
  then show ?case by (cases v) (auto simp: cstr_simps peek_def)
qed

text \<open>\<open>strcmp\<close> compares: it is zero exactly when the strings are equal and negative exactly when the
  first precedes the second byte by byte, bytes above 127 included.\<close>

theorem strcmp_compares:
  "(strcmp a b = 0 \<longleftrightarrow> cstr a = cstr b) \<and> (strcmp a b < 0 \<longleftrightarrow> str_less (cstr a) (cstr b))"
  using strcmp_zero strcmp_neg by simp

lemma strncmp_loop_prefix:
  "length p = n \<Longrightarrow> 0 \<notin> set p \<Longrightarrow> strncmp_loop (p @ a) (p @ b) n = uint (peek a) - uint (peek b)"
proof (induction p arbitrary: n)
  case (Cons c p)
  then obtain k where "n = Suc k" "length p = k" by (cases n) auto
  with Cons show ?case by simp
qed (cases a; cases b; simp add: peek_def)

text \<open>\<open>strncmp\<close> looks one character too far: when the first \<open>len\<close> characters of both strings are
  equal, the result is the difference of the characters behind them, not zero.\<close>

theorem strncmp_overruns:
  assumes "p \<noteq> []" and "0 \<notin> set p"
  shows "strncmp (p @ a) (p @ b) (length p) = uint (peek a) - uint (peek b)"
  using assms by (simp add: strncmp_def strncmp_loop_prefix)

theorem strncmp_overruns_witness:
  "strncmp [0x61, 0x62, 0x63] [0x61, 0x62, 0x64] (Suc 1) = -1"
  using strncmp_overruns[of "[0x61, 0x62]" "[0x63]" "[0x64]"] by (simp add: peek_def)

lemma sint_byte: "sint (c :: u8) = (if uint c < 128 then uint c else uint c - 256)"
proof -
  have u: "uint c = sint c mod 256" by (simp add: uint_sint take_bit_eq_mod)
  have s: "- 128 \<le> sint c" "sint c < 128" using sint_ge[of c] sint_lt[of c] by simp_all
  show ?thesis
  proof (cases "0 \<le> sint c")
    case True
    with s u show ?thesis by simp
  next
    case False
    with s have "(sint c + 256) mod 256 = sint c + 256" by (intro mod_pos_pos_trivial) simp_all
    with u False s show ?thesis by simp
  qed
qed

lemma char_eq_ascii:
  assumes "ch < 0x80"
  shows "char_eq c ch \<longleftrightarrow> c = ch"
proof -
  have u: "uint ch < 128" "uint c < 256"
    using assms unsigned_less[of c, where ?'a = int] by (simp_all add: word_less_def)
  have "0 \<le> uint ch" by simp
  then have "uint c - 256 \<noteq> uint ch" using u(2) by linarith
  with u show ?thesis by (auto simp: char_eq_def sint_byte word_uint_eq_iff)
qed

lemma char_eq_high: "0x80 \<le> ch \<Longrightarrow> \<not> char_eq c ch"
proof -
  assume "0x80 \<le> ch"
  then have "128 \<le> uint ch" by (simp add: word_le_def)
  moreover have "uint c < 256" using unsigned_less[of c, where ?'a = int] by simp
  ultimately show ?thesis by (simp add: char_eq_def sint_byte)
qed

text \<open>The last index that satisfies a predicate.\<close>

fun last_index :: "(u8 \<Rightarrow> bool) \<Rightarrow> u8 list \<Rightarrow> nat option" where
  "last_index P [] = None"
| "last_index P (c # s) =
     (case last_index P s of Some i \<Rightarrow> Some (Suc i) | None \<Rightarrow> if P c then Some 0 else None)"

lemma strrchr_loop_spec:
  "strrchr_loop s ch i lst = (case last_index (\<lambda>c. char_eq c ch) (cstr s @ [0]) of
     Some k \<Rightarrow> Some (i + k) | None \<Rightarrow> lst)"
  by (induction s ch i lst rule: strrchr_loop.induct)
     (auto simp: cstr_simps Let_def split: option.splits)

lemma last_index_Some:
  "last_index P s = Some i \<Longrightarrow> i < length s \<and> P (s ! i) \<and> (\<forall>j. i < j \<and> j < length s \<longrightarrow> \<not> P (s ! j))"
proof (induction s arbitrary: i)
  case (Cons c s)
  show ?case
  proof (cases "last_index P s")
    case None
    then have "\<forall>j < length s. \<not> P (s ! j)"
      by (induction s) (auto simp: nth_Cons less_Suc_eq_0_disj split: option.splits if_splits)
    with None Cons.prems show ?thesis
      by (auto simp: nth_Cons split: nat.split if_splits)
  next
    case (Some k)
    with Cons show ?thesis by (auto simp: nth_Cons split: nat.split)
  qed
qed simp

lemma last_index_None: "last_index P s = None \<longleftrightarrow> (\<forall>c \<in> set s. \<not> P c)"
  by (induction s) (auto split: option.splits)

text \<open>\<open>strrchr\<close> finds the last occurrence of an ASCII character, the terminator included, and finds
  no character from 128 on, because it compares a signed char with an unsigned one.\<close>

theorem strrchr_last:
  "(ch < 0x80 \<longrightarrow> (case strrchr s ch of
      Some i \<Rightarrow> i \<le> length (cstr s) \<and> (cstr s @ [0]) ! i = ch
        \<and> (\<forall>j. i < j \<and> j \<le> length (cstr s) \<longrightarrow> (cstr s @ [0]) ! j \<noteq> ch)
    | None \<Rightarrow> ch \<notin> set (cstr s @ [0])))
   \<and> (0x80 \<le> ch \<longrightarrow> strrchr s ch = None)"
proof (intro conjI impI)
  assume "ch < 0x80"
  then have "(\<lambda>c. char_eq c ch) = (\<lambda>c. c = ch)" by (simp add: char_eq_ascii)
  then have "strrchr s ch = last_index (\<lambda>c. c = ch) (cstr s @ [0])"
    unfolding strrchr_def strrchr_loop_spec by (simp split: option.splits)
  then show "case strrchr s ch of
      Some i \<Rightarrow> i \<le> length (cstr s) \<and> (cstr s @ [0]) ! i = ch
        \<and> (\<forall>j. i < j \<and> j \<le> length (cstr s) \<longrightarrow> (cstr s @ [0]) ! j \<noteq> ch)
    | None \<Rightarrow> ch \<notin> set (cstr s @ [0])"
    using last_index_Some[of "\<lambda>c. c = ch" "cstr s @ [0]"] last_index_None[of "\<lambda>c. c = ch" "cstr s @ [0]"]
    by (auto split: option.splits)
next
  assume "0x80 \<le> ch"
  then have "last_index (\<lambda>c. char_eq c ch) (cstr s @ [0]) = None"
    unfolding last_index_None by (simp add: char_eq_high)
  then show "strrchr s ch = None" unfolding strrchr_def strrchr_loop_spec by simp
qed

theorem strrchr_last_witness:
  "strrchr [0x61, 0xe9, 0x61] 0x61 \<noteq> None \<and> strrchr [0x61, 0xe9, 0x61] 0xe9 = None"
proof -
  have "(0x61 :: u8) < 0x80" "(0x80 :: u8) \<le> 0xe9" by simp_all
  then show ?thesis
    using strrchr_last[of "0x61" "[0x61, 0xe9, 0x61]"] strrchr_last[of "0xe9" "[0x61, 0xe9, 0x61]"]
    by (auto simp: cstr_simps split: option.splits)
qed

subsection \<open>Copying strings\<close>

text \<open>The NUL-terminated string \<open>xs\<close> stands at address \<open>p\<close>.\<close>

definition str_at :: "mem \<Rightarrow> nat \<Rightarrow> u8 list \<Rightarrow> bool" where
  "str_at m p xs \<longleftrightarrow> (\<forall>i < length xs. m (p + i) = xs ! i) \<and> m (p + length xs) = 0 \<and> 0 \<notin> set xs"

lemma str_at_Cons: "str_at m p (x # xs) \<longleftrightarrow> m p = x \<and> x \<noteq> 0 \<and> str_at m (Suc p) xs"
  by (auto simp: str_at_def nth_Cons All_less_Suc2 split: nat.split)

lemma str_at_Nil: "str_at m p [] \<longleftrightarrow> m p = 0"
  by (simp add: str_at_def)

lemma str_at_cong:
  "(\<And>a. p \<le> a \<Longrightarrow> a \<le> p + length xs \<Longrightarrow> m' a = m a) \<Longrightarrow> str_at m' p xs = str_at m p xs"
  by (auto simp: str_at_def)

lemma copy_string_spec:
  "str_at m s xs \<Longrightarrow> forward_ok d s (Suc (length xs)) \<Longrightarrow>
   copy_string d s m = Some (copied d s (Suc (length xs)) m)"
proof (induction xs arbitrary: d s m)
  case Nil
  then show ?case
    by (subst copy_string.simps) (simp add: str_at_Nil flip: copied_1[simplified])
next
  case (Cons x xs)
  have f: "forward_ok (Suc d) (Suc s) (Suc (length xs))"
    using forward_ok_mono[of d s 1] Cons.prems(2) by simp
  have e: "m(d := x) = copied d s 1 m" using Cons.prems(1) copied_1[of m d s] by (simp add: str_at_Cons)
  have "str_at (m(d := m s)) (Suc s) xs"
    using Cons.prems by (subst str_at_cong[where m = m]) (auto simp: str_at_Cons forward_ok_def)
  from Cons.IH[OF this f] Cons.prems have "copy_string d s m
      = Some (copied (Suc d) (Suc s) (Suc (length xs)) (copied d s 1 m))"
    by (subst copy_string.simps) (simp add: str_at_Cons copied_1 e)
  with copied_split[of d s 1 "Suc (length xs)" m] Cons.prems(2) show ?case by simp
qed

lemma find_nul_spec: "str_at m d xs \<Longrightarrow> find_nul d m = Some (d + length xs)"
proof (induction xs arbitrary: d)
  case Nil
  then show ?case by (subst find_nul.simps) (simp add: str_at_Nil)
next
  case (Cons x xs)
  then show ?case by (subst find_nul.simps) (simp add: str_at_Cons)
qed

lemma str_at_copied:
  assumes "str_at m s xs"
  shows "str_at (copied d s (Suc (length xs)) m) d xs"
  using assms by (auto simp: str_at_def copied_def)

text \<open>\<open>strcat\<close> appends: when the source lies entirely before the end of the destination string, or
  entirely behind the room the result needs, the call returns the destination, which then holds both
  strings one after the other, and exactly the bytes of the copy and its terminator are written.
  Nothing bounds the write: its extent is that of the source string.\<close>

theorem strcat_appends:
  assumes "str_at m dst xs" and "str_at m src ys"
    and "src + length ys < dst \<or> dst + length xs + length ys < src"
  shows "\<exists>m'. strcat dst src m = Some (dst, m') \<and> str_at m' dst (xs @ ys) \<and> str_at m' src ys
    \<and> (\<forall>a. a < dst + length xs \<or> dst + length xs + length ys < a \<longrightarrow> m' a = m a)"
proof -
  let ?e = "dst + length xs"
  let ?m' = "copied ?e src (Suc (length ys)) m"
  have f: "forward_ok ?e src (Suc (length ys))" using assms(3) by (auto simp: forward_ok_def)
  have out: "?m' a = m a" if "a < ?e \<or> ?e + length ys < a" for a
    using that by (auto simp: copied_def)
  have "strcat dst src m = Some (dst, ?m')"
    using find_nul_spec[OF assms(1)] copy_string_spec[OF assms(2) f] by (simp add: strcat_def)
  moreover have "str_at ?m' dst (xs @ ys)"
  proof -
    have y: "str_at ?m' ?e ys" by (rule str_at_copied[OF assms(2)])
    have "?m' (dst + i) = (xs @ ys) ! i" if "i < length (xs @ ys)" for i
    proof (cases "i < length xs")
      case True
      then show ?thesis using out[of "dst + i"] assms(1) by (simp add: str_at_def nth_append)
    next
      case False
      then obtain j where j: "i = length xs + j" by (auto dest!: le_Suc_ex simp: not_less)
      then have "j < length ys" using that by simp
      then have "?m' (?e + j) = ys ! j" using y by (simp add: str_at_def)
      with j \<open>j < length ys\<close> show ?thesis by (simp add: nth_append add.assoc)
    qed
    then show ?thesis using y assms(1) by (auto simp: str_at_def add.assoc)
  qed
  moreover have "str_at ?m' src ys"
    using assms(2,3) by (subst str_at_cong[where m = m]) (auto intro: out)
  ultimately show ?thesis using out by blast
qed

theorem strcat_appends_witness:
  "\<exists>m'. strcat 10 20 (((\<lambda>a. 0)(10 := 0x61))(20 := 0x62, 21 := 0x63)) = Some (10, m') \<and> m' 12 = 0x63"
proof -
  let ?m = "((\<lambda>a. 0)(10 := 0x61))(20 := 0x62, 21 := 0x63) :: mem"
  have "str_at ?m 10 [0x61]" "str_at ?m 20 [0x62, 0x63]" by (simp_all add: str_at_Cons str_at_Nil)
  from strcat_appends[OF this] obtain m' where "strcat 10 20 ?m = Some (10, m')"
    "str_at m' 10 [0x61, 0x62, 0x63]" by auto
  then show ?thesis by (auto simp: str_at_Cons)
qed

text \<open>\<open>strcpy\<close> with a null pointer does nothing and returns NULL; otherwise it copies the string with
  its terminator and nothing else, for any destination outside the string.\<close>

theorem strcpy_copies:
  assumes "dst \<noteq> 0" and "src \<noteq> 0" and "str_at m src xs" and "dst \<le> src \<or> src + length xs < dst"
  shows "\<exists>m'. strcpy dst src m = Some (dst, m') \<and> str_at m' dst xs
    \<and> (\<forall>a. a < dst \<or> dst + length xs < a \<longrightarrow> m' a = m a) \<and> strcpy 0 src m = Some (0, m)"
proof -
  have f: "forward_ok dst src (Suc (length xs))" using assms(4) by (auto simp: forward_ok_def)
  have "strcpy dst src m = Some (dst, copied dst src (Suc (length xs)) m)"
    using copy_string_spec[OF assms(3) f] assms(1,2) by (simp add: strcpy_def)
  then show ?thesis using str_at_copied[OF assms(3), of dst] by (auto simp: strcpy_def copied_def)
qed

theorem strcpy_copies_witness:
  "\<exists>m'. strcpy 10 20 ((\<lambda>a. 0)(20 := 0x62)) = Some (10, m') \<and> m' 10 = 0x62"
proof -
  have "str_at ((\<lambda>a. 0)(20 := 0x62) :: mem) 20 [0x62]" by (simp add: str_at_Cons str_at_Nil)
  from strcpy_copies[OF _ _ this, of 10] show ?thesis by (auto simp: str_at_Cons)
qed

end
