(* ===== verification/Libc_Calls.thy ===== *)
theory Libc_Calls
  imports Kernel_Syscall
begin

text \<open>
  The C library of the programs, as far as it calls the kernel: \<open>libc/syscall.c\<close>, \<open>stdio.c\<close> and
  \<open>dirent.c\<close>, and the allocator of \<open>mem.c\<close>.  At the end the reading of a directory is reduced to values
  (\<open>next_visible\<close>), which is how the terminal uses it.
\<close>

subsection \<open>The system call\<close>

text \<open>What a call needs of the processor: what the keyboard interrupt does meanwhile, and the registers that
  are not arguments.\<close>

type_synonym cpu = "(nat \<Rightarrow> stream \<Rightarrow> stream) \<times> regs"

definition int77 :: "cpu \<Rightarrow> u64 \<Rightarrow> u64 \<Rightarrow> u64 \<Rightarrow> 'd kst \<Rightarrow> (u64 \<times> 'd kst) option" where
  "int77 cpu a d di s = map_option (\<lambda>(reg, s). (r_rax reg, s))
     (syscall_handler (fst cpu) ((snd cpu)\<lparr>r_rax := a, r_rdx := d, r_rdi := di\<rparr>, s))"

text \<open>The 64-bit result is returned as an \<open>unsigned int\<close>.\<close>

definition syscall1 :: "cpu \<Rightarrow> u64 \<Rightarrow> u64 \<Rightarrow> 'd kst \<Rightarrow> (u32 \<times> 'd kst) option" where
  "syscall1 cpu call one s = map_option (\<lambda>(v, s). (ucast v, s)) (int77 cpu call one (r_rdi (snd cpu)) s)"

definition syscall2 :: "cpu \<Rightarrow> u64 \<Rightarrow> u64 \<Rightarrow> u64 \<Rightarrow> 'd kst \<Rightarrow> (u32 \<times> 'd kst) option" where
  "syscall2 cpu call one two s = map_option (\<lambda>(v, s). (ucast v, s)) (int77 cpu call one two s)"

subsection \<open>The console\<close>

definition printf :: "cpu \<Rightarrow> u64 \<Rightarrow> 'd kst \<Rightarrow> 'd kst option" where
  "printf cpu msg s = map_option snd (syscall1 cpu SYS_WRITE msg s)"

definition scanf :: "cpu \<Rightarrow> u64 \<Rightarrow> u64 \<Rightarrow> 'd kst \<Rightarrow> (u32 \<times> 'd kst) option" where
  "scanf cpu buf len s = syscall2 cpu SYS_READ buf len s"

definition cli_clear :: "cpu \<Rightarrow> 'd kst \<Rightarrow> 'd kst option" where
  "cli_clear cpu s = map_option snd (syscall1 cpu SYS_CLI_CLEAR 0 s)"

definition set_color :: "cpu \<Rightarrow> u64 \<Rightarrow> u64 \<Rightarrow> 'd kst \<Rightarrow> 'd kst option" where
  "set_color cpu fg bg s =
     map_option snd (syscall2 cpu SYS_SET_COL (if fg \<noteq> 0 then fg else 0) (if bg \<noteq> 0 then bg else 0) s)"

definition set_crsr :: "cpu \<Rightarrow> u64 \<Rightarrow> u64 \<Rightarrow> 'd kst \<Rightarrow> 'd kst option" where
  "set_crsr cpu x y s =
     map_option snd (syscall2 cpu SYS_SET_CRSR (if x \<noteq> 0 then x else 0) (if y \<noteq> 0 then y else 0) s)"

subsection \<open>Directories\<close>

text \<open>A \<open>DIR\<close> is its descriptor; \<open>None\<close> is the null pointer.  The result comes with the \<open>DIR\<close> afterwards.\<close>

definition opendir :: "cpu \<Rightarrow> int option \<Rightarrow> u64 \<Rightarrow> 'd kst \<Rightarrow> ((int \<times> int option) \<times> 'd kst) option" where
  "opendir cpu dir name s =
     (if dir = None \<or> name = 0 then Some ((- 1, dir), s)
      else map_option (\<lambda>(v, s). let fd = sint v in (if fd < 0 then (fd, dir) else (0, Some fd), s))
             (syscall1 cpu SYS_OPENDIR name s))"

abbreviation (input) ATTR_LABEL :: u8 where "ATTR_LABEL \<equiv> 0x08"
abbreviation (input) ATTR_DIR :: u8 where "ATTR_DIR \<equiv> 0x10"

text \<open>\<open>tmp\<close> is the address of the local \<open>DirInfo\<close>, a struct of 44 bytes.\<close>

definition dots_at :: "umem \<Rightarrow> u64 \<Rightarrow> bool" where
  "dots_at m tmp \<longleftrightarrow> m tmp = 0x2e \<and> (m (tmp + 1) = 0 \<or> m (tmp + 1) = 0x2e \<and> m (tmp + 2) = 0)"

partial_function (option) readdir_loop :: "cpu \<Rightarrow> int \<Rightarrow> u64 \<Rightarrow> 'd kst \<Rightarrow> (int \<times> 'd kst) option" where
  "readdir_loop cpu fd tmp s =
     (case syscall2 cpu SYS_READDIR (word_of_int fd) tmp s of
        None \<Rightarrow> None
      | Some (v, s) \<Rightarrow>
          let rc = sint v
          in if rc \<noteq> 0 then Some (rc, s)
             else if k_mem s (tmp + 40) AND ATTR_LABEL \<noteq> 0 then readdir_loop cpu fd tmp s
             else if dots_at (k_mem s) tmp then readdir_loop cpu fd tmp s
             else Some (0, s))"

definition readdir :: "cpu \<Rightarrow> int option \<Rightarrow> u64 \<Rightarrow> u64 \<Rightarrow> 'd kst \<Rightarrow> (int \<times> 'd kst) option" where
  "readdir cpu dir info tmp s =
     (if dir = None \<or> info = 0 then Some (- 1, s)
      else case readdir_loop cpu (the dir) tmp s of
             None \<Rightarrow> None
           | Some (rc, s) \<Rightarrow>
               if rc \<noteq> 0 then Some (rc, s) else Some (0, s\<lparr>k_mem := mem_put info (mem_get (k_mem s) tmp 44) (k_mem s)\<rparr>))"

definition closedir :: "cpu \<Rightarrow> int option \<Rightarrow> 'd kst \<Rightarrow> ((int \<times> int option) \<times> 'd kst) option" where
  "closedir cpu dir s =
     (case dir of
        None \<Rightarrow> Some ((- 1, None), s)
      | Some fd \<Rightarrow> map_option (\<lambda>(v, s). ((sint v, Some (- 1)), s)) (syscall1 cpu SYS_CLOSEDIR (word_of_int fd) s))"

subsection \<open>Dynamic memory\<close>

text \<open>There is none: every request is answered with the null pointer.\<close>

definition malloc :: "u64 \<Rightarrow> u64" where "malloc n = 0"
definition calloc :: "u64 \<Rightarrow> u64 \<Rightarrow> u64" where "calloc num n = 0"
definition realloc :: "u64 \<Rightarrow> u64 \<Rightarrow> u64" where "realloc ptr n = 0"

subsection \<open>Reading a directory, as values\<close>

text \<open>The visible entries: no volume label, and not the two dot entries.\<close>

definition hidden :: "dir_info \<Rightarrow> bool" where
  "hidden x \<longleftrightarrow> di_attr x AND ATTR_LABEL \<noteq> 0
     \<or> takeWhile (\<lambda>c. c \<noteq> 0) (take ABI_NAME_MAX (di_name x)) \<in> {[0x2e], [0x2e, 0x2e]}"

partial_function (option) next_visible :: "int \<Rightarrow> 'd kfs \<Rightarrow> ((fat_err + dir_info) \<times> 'd kfs) option" where
  "next_visible fd s = bnd (fat32_dir_read fd True) (\<lambda>x. if hidden x then next_visible fd else ret x) s"

lemma next_visible_eq:
  "next_visible fd = bnd (fat32_dir_read fd True) (\<lambda>x. if hidden x then next_visible fd else ret x)"
  by (rule ext) (rule next_visible.simps)

lemma dots_at_str:
  assumes "mem_str m a = Some cs"
  shows "dots_at m a \<longleftrightarrow> cs \<in> {[0x2e], [0x2e, 0x2e]}"
proof (cases "m a = 0x2e")
  case False
  then have "hd cs \<noteq> 0x2e \<or> cs = []" using assms by (subst (asm) mem_str_simp) (auto split: if_splits)
  then show ?thesis using False by (auto simp: dots_at_def)
next
  case True
  then obtain ds where ds: "cs = 0x2e # ds" "mem_str m (a + 1) = Some ds"
    using assms by (subst (asm) mem_str_simp) auto
  show ?thesis
  proof (cases "m (a + 1) = 0x2e")
    case False
    then have "ds = [] \<longleftrightarrow> m (a + 1) = 0" "hd ds \<noteq> 0x2e \<or> ds = []"
      using ds(2) by (subst (asm) mem_str_simp, auto split: if_splits)+
    then show ?thesis using True False ds(1) by (auto simp: dots_at_def)
  next
    case d: True
    then obtain es where es: "ds = 0x2e # es" "mem_str m (a + 1 + 1) = Some es"
      using ds(2) by (subst (asm) mem_str_simp) auto
    have "es = [] \<longleftrightarrow> m (a + 1 + 1) = 0" using es(2) by (subst (asm) mem_str_simp) (auto split: if_splits)
    then show ?thesis using True d ds(1) es(1) by (auto simp: dots_at_def add.assoc)
  qed
qed

lemma put_abi_info_again: "put_abi_info a x (put_abi_info a y m) = put_abi_info a x m"
proof
  fix b
  note byte = put_abi_info_byte[OF unat_lt_u64[of "b - a"], of a]
  have "abi_byte x (unat (b - a)) = None \<longleftrightarrow> abi_byte y (unat (b - a)) = None" by (simp add: abi_byte_def Let_def)
  then show "put_abi_info a x (put_abi_info a y m) b = put_abi_info a x m b"
    using byte[of x] byte[of y] by (auto split: option.splits)
qed

lemma sint_ucast_int:
  assumes "- (2 ^ 31) \<le> k" "k < 2 ^ 31"
  shows "sint (ucast (word_of_int k :: u64) :: u32) = k"
proof -
  have "(ucast (word_of_int k :: u64) :: u32) = word_of_int k" by transfer simp
  moreover have "sint (word_of_int k :: u32) = k"
    using assms by (simp add: signed_of_int signed_take_bit_int_eq_self)
  ultimately show ?thesis by simp
qed

text \<open>One round of the loop.\<close>

lemma readdir_call:
  assumes "tmp \<noteq> 0" and "- (2 ^ 31) \<le> fd" "fd < 2 ^ 31"
  shows "syscall2 cpu SYS_READDIR (word_of_int fd) tmp s =
    (case fat32_dir_read fd True (k_fs s) of
       None \<Rightarrow> None
     | Some (Inl e, f) \<Rightarrow> Some (ucast (err_rax e), s\<lparr>k_fs := f\<rparr>)
     | Some (Inr x, f) \<Rightarrow> Some (0, s\<lparr>k_fs := f, k_mem := put_abi_info tmp x (k_mem s)\<rparr>))"
proof -
  have "sint (ucast (word_of_int fd :: u64) :: u32) = fd" by (rule sint_ucast_int[OF assms(2,3)])
  then show ?thesis
    using assms(1) by (auto simp: syscall2_def int77_def syscall_handler_def sys_readdir_def in_fs_def
        split: option.splits sum.splits prod.splits)
qed

lemma err_rax_int:
  assumes "\<And>fl. e \<noteq> FAT_RET_FLAGS fl"
  shows "sint (ucast (err_rax e) :: u32) = the (err_code e)" "the (err_code e) < 0"
proof -
  have c: "- 8 \<le> the (err_code e) \<and> the (err_code e) < 0" by (cases e) (use assms in auto)
  then show "the (err_code e) < 0" by simp
  show "sint (ucast (err_rax e) :: u32) = the (err_code e)"
    unfolding err_rax_def by (rule sint_ucast_int) (use c in simp_all)
qed

text \<open>The loop over memory computes the loop over values.\<close>

lemma hidden_at: "k_mem s (tmp + 40) = di_attr x \<Longrightarrow>
    mem_str (k_mem s) tmp = Some (takeWhile (\<lambda>c. c \<noteq> 0) (take ABI_NAME_MAX (di_name x))) \<Longrightarrow>
    hidden x \<longleftrightarrow> k_mem s (tmp + 40) AND ATTR_LABEL \<noteq> 0 \<or> dots_at (k_mem s) tmp"
  by (simp add: hidden_def dots_at_str)

definition tmp_frame :: "u64 \<Rightarrow> umem \<Rightarrow> umem \<Rightarrow> bool" where
  "tmp_frame tmp m m' \<longleftrightarrow> (\<forall>a. 42 \<le> a - tmp \<longrightarrow> m' a = m a)"

text \<open>The reading \<open>y\<close> of values and the one of memory from the state \<open>s\<close> agree.\<close>

definition reads_same :: "cpu \<Rightarrow> u64 \<Rightarrow> int \<Rightarrow> (fat_err + dir_info) \<times> 'd kfs \<Rightarrow> 'd kst \<Rightarrow> bool" where
  "reads_same cpu tmp fd y s \<longleftrightarrow>
     (case y of
        (Inr x, f') \<Rightarrow> readdir_loop cpu fd tmp s = Some (0, s\<lparr>k_fs := f', k_mem := put_abi_info tmp x (k_mem s)\<rparr>)
      | (Inl e, f') \<Rightarrow> (\<forall>fl. e \<noteq> FAT_RET_FLAGS fl) \<longrightarrow>
          (\<exists>m. readdir_loop cpu fd tmp s = Some (the (err_code e), s\<lparr>k_fs := f', k_mem := m\<rparr>) \<and> tmp_frame tmp (k_mem s) m))"

lemma readdir_loop_same:
  assumes t: "tmp \<noteq> 0"
  shows "next_visible fd f = Some y \<Longrightarrow> - (2 ^ 31) \<le> fd \<longrightarrow> fd < 2 ^ 31 \<longrightarrow> (\<forall>s. k_fs s = f \<longrightarrow> reads_same cpu tmp fd y s)"
proof (erule next_visible.raw_induct[of "\<lambda>fd f y. - (2 ^ 31) \<le> fd \<longrightarrow> fd < 2 ^ 31 \<longrightarrow> (\<forall>s. k_fs s = f \<longrightarrow> reads_same cpu tmp fd y s)", rotated], goal_cases)
  case (1 loop fd f y)
  show ?case
  proof (intro impI allI)
    fix s :: "'a kst" assume fd: "- (2 ^ 31) \<le> fd" "fd < 2 ^ 31" and f: "k_fs s = f"
    note call = readdir_call[OF t fd, of cpu s, unfolded f]
    note eq = readdir_loop.simps[of cpu fd tmp s, unfolded call]
    from 1(2) obtain r g where r: "fat32_dir_read fd True f = Some (r, g)" by (auto simp: bnd_def split: option.splits)
    show "reads_same cpu tmp fd y s"
    proof (cases r)
      case (Inl e)
      then have y: "y = (Inl e, g)" using 1(2) r by (simp add: bnd_def)
      show ?thesis
        unfolding reads_same_def y using err_rax_int[of e] eq r Inl
        by (auto simp: Let_def tmp_frame_def intro!: exI[of _ "k_mem s"])
    next
      case (Inr x)
      let ?u = "s\<lparr>k_fs := g, k_mem := put_abi_info tmp x (k_mem s)\<rparr>"
      have h: "hidden x \<longleftrightarrow> k_mem ?u (tmp + 40) AND ATTR_LABEL \<noteq> 0 \<or> dots_at (k_mem ?u) tmp"
        by (rule hidden_at) (simp_all add: put_abi_info_reads)
      have run: "readdir_loop cpu fd tmp s = (if hidden x then readdir_loop cpu fd tmp ?u else Some (0, ?u))"
        unfolding h eq r Inr by (simp add: Let_def)
      show ?thesis
      proof (cases "hidden x")
        case False
        then have "y = (Inr x, g)" using 1(2) r Inr by (simp add: bnd_def ret_def)
        then show ?thesis using run False by (simp add: reads_same_def)
      next
        case True
        then have "loop fd g = Some y" using 1(2) r Inr by (simp add: bnd_def)
        from 1(1)[OF this] fd have ih: "reads_same cpu tmp fd y ?u" by simp
        have fr: "tmp_frame tmp (k_mem s) m" if "tmp_frame tmp (k_mem ?u) m" for m
          using that by (simp add: tmp_frame_def put_abi_info_reads)
        show ?thesis using ih fr True run
          by (auto simp: reads_same_def put_abi_info_again split: prod.splits sum.splits)
      qed
    qed
  qed
qed

text \<open>The first visible entry of a directory.\<close>

lemma next_visible_wp:
  assumes "block_dev ops content dinv"
  shows "slot_lists ops content dinv s i xs \<Longrightarrow>
   wp (next_visible (int i))
     (\<lambda>x t. \<exists>hs ms. xs = hs @ x # ms \<and> list_all hidden hs \<and> \<not> hidden x \<and> slot_lists ops content dinv t i ms)
     (\<lambda>e t. e = FAT_ERR_IO \<and> \<not> block_dev.reliable ops dinv \<or> e = FAT_ERR_EOF \<and> list_all hidden xs) s"
proof (induction xs arbitrary: s)
  case Nil
  show ?case
    by (subst next_visible_eq, rule wp_bndI[OF block_dev.fat32_dir_read_wp[OF assms Nil]]) auto
next
  case (Cons y xs)
  show ?case
  proof (subst next_visible_eq, rule wp_bndI[OF block_dev.fat32_dir_read_wp[OF assms Cons.prems]], goal_cases)
    case (1 x t)
    then have x: "x = y" "slot_lists ops content dinv t i xs" by auto
    show ?case
    proof (cases "hidden y")
      case True
      have "wp (next_visible (int i))
         (\<lambda>z t. \<exists>hs ms. y # xs = hs @ z # ms \<and> list_all hidden hs \<and> \<not> hidden z \<and> slot_lists ops content dinv t i ms)
         (\<lambda>e t. e = FAT_ERR_IO \<and> \<not> block_dev.reliable ops dinv \<or> e = FAT_ERR_EOF \<and> list_all hidden (y # xs)) t"
      proof (rule wp_conseq[OF Cons.IH[OF x(2)]], goal_cases)
        case (1 z u)
        then obtain hs ms where "xs = hs @ z # ms" "list_all hidden hs" "\<not> hidden z" "slot_lists ops content dinv u i ms" by blast
        then have "y # xs = (y # hs) @ z # ms \<and> list_all hidden (y # hs) \<and> \<not> hidden z \<and> slot_lists ops content dinv u i ms"
          using True by simp
        then show ?case by blast
      qed (use True in auto)
      then show ?thesis using True x by simp
    next
      case False
      then have "y # xs = [] @ x # xs \<and> list_all hidden [] \<and> \<not> hidden x \<and> slot_lists ops content dinv t i xs"
        using x by simp
      then show ?thesis using False x(1) unfolding wp_if wp_ret by (simp only: if_False) blast
    qed
  qed auto
qed

lemma mem_put_get:
  assumes "length bs < 2 ^ 64"
  shows "mem_get (mem_put a bs m) a (length bs) = bs"
  using assms by (intro nth_equalityI) (simp_all add: mem_get_def mem_put_at)

lemma mem_str_prefix:
  "mem_str m a = Some cs \<Longrightarrow> length cs < n \<Longrightarrow> mem_get m' b n = mem_get m a n \<Longrightarrow> mem_str m' b = Some cs"
proof (induction cs arbitrary: a b n)
  case Nil
  have "m a = 0" using Nil.prems(1)[unfolded mem_str_simp[of m a]] by (auto split: if_splits)
  moreover have "\<forall>j < n. m' (b + word_of_nat j) = m (a + word_of_nat j)" using Nil.prems(3) by (simp add: mem_get_def)
  from this[rule_format, of 0] have "m' b = m a" using Nil.prems(2) by simp
  ultimately show ?case by (subst mem_str_simp) simp
next
  case (Cons c cs)
  have c: "m a = c" "c \<noteq> 0" "mem_str m (a + 1) = Some cs"
    using Cons.prems(1)[unfolded mem_str_simp[of m a]] by (auto split: if_splits)
  have "\<forall>j < n. m' (b + word_of_nat j) = m (a + word_of_nat j)" using Cons.prems(3) by (simp add: mem_get_def)
  note e = this[rule_format]
  have "m' b = m a" using e[of 0] Cons.prems(2) by simp
  moreover have "m' (b + 1 + word_of_nat j) = m (a + 1 + word_of_nat j)" if "j < n - 1" for j
    using e[of "Suc j"] that by (simp add: add.assoc)
  then have "mem_get m' (b + 1) (n - 1) = mem_get m (a + 1) (n - 1)" by (simp add: mem_get_def)
  ultimately have "m' b = m a" "mem_get m' (b + 1) (n - 1) = mem_get m (a + 1) (n - 1)" .
  then show ?case using Cons.IH[OF c(3), of "n - 1" "b + 1"] Cons.prems(2) c by (subst mem_str_simp) simp
qed


lemma demo_first_info:
  obtains x y where "demo_infos = [x, y]" "di_name x = demo_name" "di_attr x = 0x20" "di_name y = [0x62]"
proof -
  let ?es = "dir_entries (demo_dctx demo_dir_disk) (ram_data demo_dir_disk) [2]"
  have l: "0 + lfn_count (length demo_name) = 1" by (simp add: demo_name_def lfn_count_def)
  have "demo_root ! 43 = 0x20" by code_simp
  moreover have "?es ! 1 = slice demo_root 32 32" using demo_dir_entry[of 1] by simp
  ultimately have a: "?es ! 1 ! 11 = 0x20" by (simp add: nth_slice)
  obtain y where y: "demo_infos = [entry_info (?es ! 1) demo_name, y]" "di_name y = [0x62]"
    unfolding demo_infos_def by (simp add: l[simplified])
  then show thesis using a by (intro that[OF y(1)]) (simp_all add: entry_info_def)
qed


end
