(* ===== verification/Libc_Mutex.thy ===== *)
theory Libc_Mutex
  imports Prelude
begin

text \<open>
  The spin lock of \<open>libc/mutex.c\<close>, used by any number of threads whose steps interleave.  The lock byte is
  changed only by the atomic operations of the three functions; each of them is one step.
\<close>

subsection \<open>The operations\<close>

text \<open>\<open>__atomic_exchange_n(&locked, 1)\<close>: the old byte and the new one.\<close>

definition exchange_locked :: "u8 \<Rightarrow> u8 \<times> u8" where
  "exchange_locked l = (l, 1)"

text \<open>One test of the loop of \<open>spin_lock\<close>: whether the loop goes on.\<close>

definition spin_lock_test :: "u8 \<Rightarrow> bool \<times> u8" where
  "spin_lock_test l = (case exchange_locked l of (old, l') \<Rightarrow> (old \<noteq> 0, l'))"

definition spin_trylock :: "u8 \<Rightarrow> bool \<times> u8" where
  "spin_trylock l = (case exchange_locked l of (old, l') \<Rightarrow> (old = 0, l'))"

definition spin_unlock :: "u8 \<Rightarrow> u8" where
  "spin_unlock l = 0"

subsection \<open>Threads\<close>

datatype place = Outside | Spinning | Inside

record spin_sys =
  locked :: u8
  at :: "nat \<Rightarrow> place"

inductive spin_step :: "nat \<Rightarrow> spin_sys \<Rightarrow> spin_sys \<Rightarrow> bool" where
  call: "at s t = Outside \<Longrightarrow> spin_step t s (s\<lparr>at := (at s)(t := Spinning)\<rparr>)"
| again: "at s t = Spinning \<Longrightarrow> spin_lock_test (locked s) = (True, l) \<Longrightarrow> spin_step t s (s\<lparr>locked := l\<rparr>)"
| enter: "at s t = Spinning \<Longrightarrow> spin_lock_test (locked s) = (False, l) \<Longrightarrow>
    spin_step t s (s\<lparr>locked := l, at := (at s)(t := Inside)\<rparr>)"
| try_once: "at s t = Outside \<Longrightarrow> spin_trylock (locked s) = (ok, l) \<Longrightarrow>
    spin_step t s (s\<lparr>locked := l, at := (at s)(t := (if ok then Inside else Outside))\<rparr>)"
| leave: "at s t = Inside \<Longrightarrow> spin_step t s (s\<lparr>locked := spin_unlock (locked s), at := (at s)(t := Outside)\<rparr>)"

text \<open>A lock that starts with a zero byte and no thread in it.\<close>

inductive spin_reach :: "spin_sys \<Rightarrow> bool" where
  start: "spin_reach \<lparr>locked = 0, at = (\<lambda>_. Outside)\<rparr>"
| step: "spin_reach s \<Longrightarrow> spin_step t s s' \<Longrightarrow> spin_reach s'"

inductive_cases spin_stepE: "spin_step t s s'"

definition spin_inv :: "spin_sys \<Rightarrow> bool" where
  "spin_inv s \<longleftrightarrow> (locked s \<noteq> 0 \<longleftrightarrow> (\<exists>t. at s t = Inside)) \<and> (\<forall>t u. at s t = Inside \<and> at s u = Inside \<longrightarrow> t = u)"

lemma spin_inv_step: "spin_step t s s' \<Longrightarrow> spin_inv s \<Longrightarrow> spin_inv s'"
  by (erule spin_stepE;
      auto simp: spin_inv_def spin_lock_test_def spin_trylock_def spin_unlock_def exchange_locked_def split: if_splits;
      metis place.distinct)

lemma spin_reach_inv: "spin_reach s \<Longrightarrow> spin_inv s"
proof (induction rule: spin_reach.induct)
  case start
  show ?case by (simp add: spin_inv_def)
next
  case (step s t s')
  then show ?case using spin_inv_step by blast
qed

text \<open>C34. However the steps of the threads interleave, at most one of them is inside the lock at any time,
  and the lock byte tells whether one is.  A waiting thread gets in with its next step as soon as no
  thread is inside, and a thread that only tries never waits.\<close>

theorem spin_lock_excludes:
  assumes "spin_reach s"
  shows "(at s t = Inside \<and> at s u = Inside \<longrightarrow> t = u) \<and> (locked s \<noteq> 0 \<longleftrightarrow> (\<exists>t. at s t = Inside))
    \<and> (at s t = Spinning \<and> (\<forall>u. at s u \<noteq> Inside) \<longrightarrow> (\<forall>s'. spin_step t s s' \<longrightarrow> at s' t = Inside))
    \<and> (at s t \<noteq> Inside \<longrightarrow> (\<exists>s'. spin_step t s s'))"
proof -
  have i: "spin_inv s" by (rule spin_reach_inv[OF assms])
  have "at s' t = Inside" if "at s t = Spinning" "\<forall>u. at s u \<noteq> Inside" "spin_step t s s'" for s'
  proof -
    have "locked s = 0" using i that(2) by (auto simp: spin_inv_def)
    with that(3,1) show ?thesis by (auto elim!: spin_stepE simp: spin_lock_test_def exchange_locked_def)
  qed
  moreover have "\<exists>s'. spin_step t s s'" if "at s t \<noteq> Inside"
  proof (cases "at s t")
    case Outside
    then show ?thesis using spin_step.call by blast
  next
    case Spinning
    obtain b l where "spin_lock_test (locked s) = (b, l)" by fastforce
    with spin_step.again[OF Spinning] spin_step.enter[OF Spinning] show ?thesis by (cases b) auto
  qed (use that in simp)
  ultimately show ?thesis using i by (auto simp: spin_inv_def)
qed

theorem spin_lock_excludes_witness:
  "\<exists>s. spin_reach s \<and> at s 1 = Spinning \<and> at s 2 = Inside \<and> locked s \<noteq> 0"
proof -
  let ?a = "\<lparr>locked = 0, at = (\<lambda>_. Outside)\<rparr>"
  let ?b = "?a\<lparr>at := (at ?a)(1 := Spinning)\<rparr>"
  let ?c = "?b\<lparr>locked := 1, at := (at ?b)(2 := Inside)\<rparr>"
  have "spin_step 1 ?a ?b" by (rule spin_step.call) simp
  moreover have "spin_step 2 ?b (?b\<lparr>locked := 1, at := (at ?b)(2 := (if True then Inside else Outside))\<rparr>)"
    by (rule spin_step.try_once) (simp_all add: spin_trylock_def exchange_locked_def)
  ultimately have r: "spin_reach ?c" using spin_reach.step[OF spin_reach.step[OF spin_reach.start]] by simp
  have "at ?c 2 = Inside" by simp
  then have "locked ?c \<noteq> 0" using spin_lock_excludes[OF r, of 1 1] by blast
  then show ?thesis using r by (intro exI[of _ ?c]) simp
qed

end
