(* ===== verification/Terminal_Words.thy ===== *)
theory Terminal_Words
  imports Libc_String
begin

text \<open>
  The splitting of a command line into words, the first part of \<open>command_parser\<close> in \<open>terminal/tmain.c\<close>,
  and the specification of the words of a text (\<open>tokens\<close>).
\<close>

subsection \<open>Words\<close>

definition is_space :: "u8 \<Rightarrow> bool" where "is_space c \<longleftrightarrow> c = 0x20 \<or> c = 0x09 \<or> c = 0x0a"
definition is_end :: "u8 \<Rightarrow> bool" where "is_end c \<longleftrightarrow> is_space c \<or> c = 0x0d"

text \<open>\<open>while(P(*com)) com++\<close>\<close>

definition scan_while :: "(u8 \<Rightarrow> bool) \<Rightarrow> u8 list \<Rightarrow> nat \<Rightarrow> nat" where
  "scan_while P buf i = i + length (takeWhile P (drop i buf))"

text \<open>The loop of \<open>command_parser\<close>; \<open>argv\<close> holds places in the array.\<close>

function parse_args :: "u8 list \<Rightarrow> nat \<Rightarrow> nat list \<Rightarrow> u8 list \<times> nat list" where
  "parse_args buf i argv =
     (if buf ! i = 0 \<or> \<not> length argv < 16 then (buf, argv)
      else
        let i = scan_while is_space buf i
        in if buf ! i = 0 then (buf, argv)
           else
             let start = (if buf ! i = 0x22 then i + 1 else i);
                 e = (if buf ! i = 0x22 then scan_while (\<lambda>c. c \<noteq> 0 \<and> c \<noteq> 0x22) buf start
                      else scan_while (\<lambda>c. c \<noteq> 0 \<and> \<not> is_end c) buf start)
             in if buf ! e \<noteq> 0 then parse_args (buf[e := 0]) (e + 1) (argv @ [start])
                else parse_args buf e (argv @ [start]))"
  by pat_completeness auto
termination
  by (relation "measure (\<lambda>(buf, i, argv). 16 - length argv)") auto

declare parse_args.simps [simp del]


subsection \<open>The words of a line\<close>

text \<open>The words of a text, at most \<open>n\<close>: separated by blanks, and quotes keep blanks.\<close>

definition word_chars :: "u8 \<Rightarrow> u8 \<Rightarrow> bool" where
  "word_chars c = (if c = 0x22 then (\<lambda>x. x \<noteq> 0x22) else (\<lambda>x. \<not> is_end x))"

fun tokens :: "nat \<Rightarrow> u8 list \<Rightarrow> u8 list list" where
  "tokens 0 xs = []"
| "tokens (Suc n) xs =
     (case dropWhile is_space xs of
        [] \<Rightarrow> []
      | c # ys \<Rightarrow>
          let us = (if c = 0x22 then ys else c # ys)
          in takeWhile (word_chars c) us # tokens n (tl (dropWhile (word_chars c) us)))"

lemma scan_while_text:
  assumes "0 \<notin> set us" and "\<not> P 0" and "\<And>c. c \<in> set us \<Longrightarrow> P c \<longleftrightarrow> Q c"
  shows "scan_while P (p @ us @ 0 # zs) (length p) = length p + length (takeWhile Q us)"
proof -
  have "takeWhile P (us @ 0 # zs) = takeWhile Q us" using assms by (induction us) auto
  then show ?thesis by (simp add: scan_while_def)
qed

lemma tokens_Nil [simp]: "tokens n [] = []"
  by (cases n) simp_all

text \<open>One round of the loop.\<close>

lemma parse_args_unfold:
  assumes "length argv < 16" "buf ! i \<noteq> 0" "scan_while is_space buf i = j" "buf ! j = c" "c \<noteq> 0"
    and "st = (if c = 0x22 then j + 1 else j)" "scan_while (\<lambda>x. x \<noteq> 0 \<and> word_chars c x) buf st = e"
  shows "parse_args buf i argv =
     (if buf ! e \<noteq> 0 then parse_args (buf[e := 0]) (e + 1) (argv @ [st]) else parse_args buf e (argv @ [st]))"
  using assms by (cases "c = 0x22"; subst parse_args.simps) (simp_all add: Let_def word_chars_def)

lemma parse_args_step:
  assumes xs: "dropWhile is_space xs = c # ys" and z: "0 \<notin> set xs" and n: "length argv < 16"
  defines "us \<equiv> (if c = 0x22 then ys else c # ys)" and "ind \<equiv> (if c = 0x22 then [c] else [])"
  shows "\<exists>p. length p + length us = length xs \<and> parse_args (pre @ xs @ 0 # zs) (length pre) argv =
      parse_args (pre @ p @ takeWhile (word_chars c) us @ 0 # tl (dropWhile (word_chars c) us @ 0 # zs))
        (length pre + length p + length (takeWhile (word_chars c) us)
          + (if dropWhile (word_chars c) us = [] then 0 else 1)) (argv @ [length pre + length p])"
proof -
  let ?sp = "takeWhile is_space xs" and ?Q = "word_chars c"
  define tok ws where "tok = takeWhile ?Q us" and "ws = dropWhile ?Q us"
  have xs': "xs = ?sp @ c # ys" unfolding xs[symmetric] by simp
  have us: "us = tok @ ws" by (simp add: tok_def ws_def)
  have cs: "c # ys = ind @ us" by (simp add: us_def ind_def)
  have c: "c \<noteq> 0" using z xs' by (metis in_set_conv_decomp)
  have z': "0 \<notin> set us" "0 \<notin> set tok" "0 \<notin> set ws"
    using z xs' cs us by (metis Un_iff set_append)+
  let ?buf = "pre @ xs @ 0 # zs" and ?i = "length pre + length ?sp"
  have buf: "?buf = (pre @ ?sp @ ind) @ us @ 0 # zs" using xs' cs by simp
  have b0: "?buf ! length pre \<noteq> 0" using z xs' by (cases xs) auto
  have i: "scan_while is_space ?buf (length pre) = ?i"
    using scan_while_text[of xs is_space is_space pre zs] z by (simp add: is_space_def)
  have bi: "?buf ! ?i = c" unfolding buf using cs by (metis append.assoc append_Cons length_append nth_append_length)
  let ?st = "?i + length ind"
  have e: "scan_while (\<lambda>x. x \<noteq> 0 \<and> ?Q x) ?buf ?st = ?st + length tok"
    unfolding buf tok_def using scan_while_text[of us "\<lambda>x. x \<noteq> 0 \<and> ?Q x" ?Q "pre @ ?sp @ ind" zs] z'(1)
    by (metis (no_types, lifting) add.assoc length_append)
  have be: "?buf ! (?st + length tok) = (case ws of [] \<Rightarrow> 0 | w # _ \<Rightarrow> w)"
    unfolding buf us by (cases ws) (simp_all add: nth_append)
  have up: "?buf[?st + length tok := 0] = pre @ (?sp @ ind) @ tok @ 0 # tl (ws @ 0 # zs)"
    unfolding buf us by (cases ws) (simp_all add: list_update_append)
  have "parse_args ?buf (length pre) argv =
     (if ?buf ! (?st + length tok) \<noteq> 0 then parse_args (?buf[?st + length tok := 0]) (?st + length tok + 1) (argv @ [?st])
      else parse_args ?buf (?st + length tok) (argv @ [?st]))"
    by (rule parse_args_unfold[OF n b0 i bi c _ e]) (simp add: ind_def)
  also have "\<dots> = parse_args (pre @ (?sp @ ind) @ tok @ 0 # tl (ws @ 0 # zs))
      (length pre + length (?sp @ ind) + length tok + (if ws = [] then 0 else 1)) (argv @ [length pre + length (?sp @ ind)])"
  proof (cases ws)
    case Nil
    then have "?buf = pre @ (?sp @ ind) @ tok @ 0 # tl (ws @ 0 # zs)" unfolding buf us by simp
    then show ?thesis using be Nil by (simp only: add.assoc length_append) simp
  next
    case (Cons w ws')
    then have "w \<noteq> 0" using z'(3) by auto
    then show ?thesis using be up Cons by (simp add: add.assoc)
  qed
  finally show ?thesis
    using arg_cong[OF xs', of length] unfolding cs tok_def ws_def by (intro exI[of _ "?sp @ ind"] conjI) simp_all
qed

lemma parse_args_rest:
  "0 \<notin> set xs \<Longrightarrow> length argv + n = 16 \<Longrightarrow> \<exists>rest starts.
     parse_args (pre @ xs @ 0 # zs) (length pre) argv = (pre @ rest, argv @ starts)
     \<and> length rest = length xs + Suc (length zs) \<and> map (\<lambda>j. Libc_String.cstr (drop j (pre @ rest))) starts = tokens n xs
     \<and> (\<forall>j \<in> set starts. 0 \<in> set (drop j (pre @ rest)))"
proof (induction n arbitrary: pre xs argv zs)
  case 0
  then show ?case by (subst parse_args.simps) simp
next
  case (Suc n)
  show ?case
  proof (cases "dropWhile is_space xs")
    case Nil
    then have "takeWhile is_space xs = xs" by (metis append_Nil2 takeWhile_dropWhile_id)
    with scan_while_text[OF Suc.prems(1), of is_space is_space pre zs] have "scan_while is_space (pre @ xs @ 0 # zs) (length pre) = length pre + length xs"
      by (simp add: is_space_def[of 0])
    moreover have "(pre @ xs @ 0 # zs) ! (length pre + length xs) = 0" by (simp add: nth_append)
    ultimately have "parse_args (pre @ xs @ 0 # zs) (length pre) argv = (pre @ xs @ 0 # zs, argv)"
      by (subst parse_args.simps) (simp add: Let_def)
    moreover have "tokens (Suc n) xs = []" by (simp only: tokens.simps Nil list.case)
    ultimately show ?thesis by (intro exI[of _ "xs @ 0 # zs"] exI[of _ "[]"]) simp
  next
    case (Cons c ys)
    let ?us = "if c = 0x22 then ys else c # ys" and ?Q = "word_chars c"
    define tok ws where "tok = takeWhile ?Q ?us" and "ws = dropWhile ?Q ?us"
    have us: "tok @ ws = ?us" by (simp add: tok_def ws_def)
    have "x \<in> set xs" if "x \<in> set ?us" for x
      by (rule set_dropWhileD[of x is_space xs]) (use that Cons in \<open>auto split: if_splits\<close>)
    then have "0 \<notin> set ?us" using Suc.prems(1) by blast
    then have z: "0 \<notin> set tok" "0 \<notin> set ws" unfolding us[symmetric] by simp_all
    have n: "length argv < 16" using Suc.prems(2) by simp
    from parse_args_step[OF Cons Suc.prems(1) n, of pre zs] obtain p where
      p: "length p + length ?us = length xs" "parse_args (pre @ xs @ 0 # zs) (length pre) argv = parse_args (pre @ p @ tok @ 0 # tl (ws @ 0 # zs))
        (length pre + length p + length tok + (if ws = [] then 0 else 1)) (argv @ [length pre + length p])"
      unfolding tok_def ws_def by blast
    let ?a = "argv @ [length pre + length p]"
    have tk: "tokens (Suc n) xs = tok # tokens n (tl ws)" using Cons by (simp add: tok_def ws_def Let_def)
    have first: "Libc_String.cstr (drop (length pre + length p) (pre @ p @ tok @ 0 # r)) = tok" for r
      using z(1) by (simp add: Libc_String.cstr_def) (subst takeWhile_append2; auto)
    have "\<exists>r starts. parse_args (pre @ xs @ 0 # zs) (length pre) argv = (pre @ p @ tok @ 0 # r, ?a @ starts)
       \<and> length r + Suc (length tok) + length p = length xs + Suc (length zs)
       \<and> map (\<lambda>j. Libc_String.cstr (drop j (pre @ p @ tok @ 0 # r))) starts = tokens n (tl ws)
       \<and> (\<forall>j \<in> set starts. 0 \<in> set (drop j (pre @ p @ tok @ 0 # r)))"
    proof (cases ws)
      case Nil
      have "(pre @ p @ tok @ 0 # zs) ! (length pre + length p + length tok) = 0" by (simp add: nth_append)
      then have "parse_args (pre @ p @ tok @ 0 # zs) (length pre + length p + length tok) ?a = (pre @ p @ tok @ 0 # zs, ?a)"
        by (subst parse_args.simps) simp
      then show ?thesis using p us Nil by (intro exI[of _ zs] exI[of _ "[]"]) (auto simp: tokens_Nil)
    next
      case (Cons w ws')
      let ?pre = "pre @ p @ tok @ [0]"
      have "0 \<notin> set ws'" "length ?a + n = 16" using z(2) Cons Suc.prems(2) by auto
      from Suc.IH[OF this, of ?pre zs] obtain r starts where
        r: "parse_args (?pre @ ws' @ 0 # zs) (length ?pre) ?a = (?pre @ r, ?a @ starts)" "length r = length ws' + Suc (length zs)"
          "map (\<lambda>j. Libc_String.cstr (drop j (?pre @ r))) starts = tokens n ws'"
          "\<forall>j \<in> set starts. 0 \<in> set (drop j (?pre @ r))"
        by blast
      have "length ?us = length tok + Suc (length ws')" unfolding us[symmetric] by (simp add: Cons)
      then show ?thesis using p r Cons by (intro exI[of _ r] exI[of _ starts]) (simp add: add.assoc)
    qed
    then obtain r starts where "parse_args (pre @ xs @ 0 # zs) (length pre) argv = (pre @ p @ tok @ 0 # r, ?a @ starts)"
       "length r + Suc (length tok) + length p = length xs + Suc (length zs)"
       "map (\<lambda>j. Libc_String.cstr (drop j (pre @ p @ tok @ 0 # r))) starts = tokens n (tl ws)"
       "\<forall>j \<in> set starts. 0 \<in> set (drop j (pre @ p @ tok @ 0 # r))" by blast
    then show ?thesis using first[of r] tk
      by (intro exI[of _ "p @ tok @ 0 # r"] exI[of _ "(length pre + length p) # starts"]) simp
  qed
qed

text \<open>C35. The word splitter of the terminal: in a line that ends with a zero byte it finds the first 16 words,
  separated by blanks, with blanks kept between double quotes (a word unquoted also ends at a carriage return), and
  the strings at the places it returns are these words; the array keeps its size.\<close>

theorem parse_args_tokens:
  assumes "0 \<notin> set xs"
  shows "case parse_args (xs @ 0 # zs) 0 [] of (buf, argv) \<Rightarrow>
    length buf = length (xs @ 0 # zs) \<and> map (\<lambda>j. Libc_String.cstr (drop j buf)) argv = tokens 16 xs"
  using parse_args_rest[OF assms, of "[]" 16 "[]" zs] by auto

theorem parse_args_tokens_witness:
  "case parse_args [0x20, 0x63, 0x64, 0x09, 0x22, 0x61, 0x20, 0x62, 0x22, 0x0d, 0x0a, 0, 0x78] 0 [] of (buf, argv) \<Rightarrow>
    length buf = 13 \<and> map (\<lambda>j. Libc_String.cstr (drop j buf)) argv = [[0x63, 0x64], [0x61, 0x20, 0x62], []]"
proof -
  let ?xs = "[0x20, 0x63, 0x64, 0x09, 0x22, 0x61, 0x20, 0x62, 0x22, 0x0d, 0x0a] :: u8 list"
  have "tokens 16 ?xs = [[0x63, 0x64], [0x61, 0x20, 0x62], []]" by code_simp
  then show ?thesis using parse_args_tokens[of ?xs "[0x78]"] by (simp split: prod.splits)
qed

end
