(* ===== verification/Terminal.thy ===== *)
theory Terminal
  imports Libc_Calls Terminal_Words
begin

text \<open>
  The terminal program, \<open>terminal/tmain.c\<close> and \<open>comands.c\<close>: the commands, what they do to the screen, the
  open directories and the current directory, and the loop.  Character arrays are byte lists of their size; a store behind
  the end of an array ends the run with \<open>Overflow\<close>.  The library functions are used on the contents of strings;
  the lemmas of the first section say that this is what the system calls do with the addresses.
\<close>

subsection \<open>Library calls on contents\<close>

text \<open>\<open>current\<close> is the array of that name.\<close>

record 'd tst =
  t_k :: "'d kst"
  current :: "u8 list"

datatype term_err = Overflow

type_synonym ('d, 'a) tprog = "('d tst, term_err, 'a) prog"

definition on_con :: "(console \<Rightarrow> console) \<Rightarrow> ('d, unit) tprog" where
  "on_con f = modify (\<lambda>t. t\<lparr>t_k := (t_k t)\<lparr>k_con := f (k_con (t_k t))\<rparr>\<rparr>)"

definition say :: "u8 list \<Rightarrow> ('d, unit) tprog" where
  "say msg = on_con (dsp_print (Libc_String.cstr msg))"

definition color :: "u32 \<Rightarrow> u32 \<Rightarrow> ('d, unit) tprog" where
  "color fg bg = on_con (dsp_set_color fg bg)"

definition in_files :: "('d kfs, fat_err, 'a) prog \<Rightarrow> ('d, fat_err + 'a) tprog" where
  "in_files m t = (case in_fs m (t_k t) of None \<Rightarrow> None | Some (r, s) \<Rightarrow> Some (Inr r, t\<lparr>t_k := s\<rparr>))"

text \<open>\<open>strcpy\<close> to place \<open>i\<close> of an array; \<open>None\<close> when the string does not fit.\<close>

definition put_str :: "u8 list \<Rightarrow> nat \<Rightarrow> u8 list \<Rightarrow> u8 list option" where
  "put_str arr i s = (if i + strlen s < length arr then Some (put_slice arr i (Libc_String.cstr s @ [0])) else None)"

definition set_current :: "u8 list option \<Rightarrow> ('d, unit) tprog" where
  "set_current arr = (case arr of None \<Rightarrow> throw Overflow | Some a \<Rightarrow> modify (\<lambda>t. t\<lparr>current := a\<rparr>))"

abbreviation (input) Yantar :: u32 where "Yantar \<equiv> 0xffbf00"
abbreviation (input) TermBG :: u32 where "TermBG \<equiv> 0x181513"
abbreviation (input) Sapphire :: u32 where "Sapphire \<equiv> 0x74c7ec"
abbreviation (input) Peach :: u32 where "Peach \<equiv> 0xfab387"
abbreviation (input) Blue :: u32 where "Blue \<equiv> 0x89b4fa"
abbreviation (input) Red :: u32 where "Red \<equiv> 0xf38ba8"

text \<open>What the wrappers do with the addresses; \<open>readdir\<close> is reduced to \<open>next_visible\<close> in \<open>Libc_Calls\<close>.\<close>

lemma printf_says: "a \<noteq> 0 \<Longrightarrow> mem_str (k_mem s) a = Some cs \<Longrightarrow> printf cpu a s = Some (con_out cs s)"
  by (simp add: printf_def syscall1_def int77_def syscall_handler_def)

lemma console_wrappers:
  "cli_clear cpu s = Some (s\<lparr>k_con := dsp_clear (k_con s)\<rparr>)"
  "set_color cpu fg bg s = Some (s\<lparr>k_con := dsp_set_color (ucast fg) (ucast bg) (k_con s)\<rparr>)"
  "set_crsr cpu x y s = Some (s\<lparr>k_con := dsp_set_cursor (ucast x) (ucast y) (k_con s)\<rparr>)"
  by (simp_all add: cli_clear_def set_color_def set_crsr_def syscall1_def syscall2_def int77_def syscall_handler_def)

lemma opendir_opens:
  assumes "name \<noteq> 0" and "mem_str (k_mem s) name = Some p" and "fat32_dir_open (Some p) (k_fs s) = Some (Inr i, f)" and "i < MAX_OPENDIRS"
  shows "opendir cpu (Some d) name s = Some ((0, Some (int i)), s\<lparr>k_fs := f\<rparr>)"
proof -
  have "sint (ucast (word_of_int (int i) :: u64) :: u32) = int i" by (rule sint_ucast_int) (use assms(4) in simp_all)
  then show ?thesis using assms
    by (simp add: opendir_def syscall1_def int77_def syscall_handler_def sys_opendir_def in_fs_def)
qed

subsection \<open>Commands\<close>

definition statue :: "u8 list list" where
  "statue =
    [[0x20, 0x20, 0x20, 0x20, 0x25, 0x25, 0x25],
     [0x20, 0x20, 0x20, 0x3d, 0x3d, 0x3d, 0x3d, 0x3d],
     [0x20, 0x20, 0x26, 0x25, 0x26, 0x25, 0x25, 0x25, 0x26],
     [0x20, 0x20, 0x25, 0x26, 0x20, 0x3c, 0x20, 0x3c, 0x25, 0x20],
     [0x20, 0x20, 0x20, 0x26, 0x5c, 0x5f, 0x5f, 0x2f],
     [0x20, 0x20, 0x20, 0x20, 0x5c, 0x20, 0x7c, 0x5f, 0x5f, 0x5f, 0x5f],
     [0x20, 0x20, 0x20, 0x2e, 0x27, 0x2c, 0x20, 0x2c, 0x20, 0x20, 0x28, 0x29],
     [0x20, 0x20, 0x2f, 0x20, 0x2d, 0x2e, 0x20, 0x20, 0x5f, 0x29, 0x7c, 0x20],
     [0x20, 0x7c, 0x5f, 0x28, 0x5f, 0x2e, 0x20, 0x20, 0x20, 0x20, 0x7c],
     [0x20, 0x27, 0x2d, 0x27, 0x5c, 0x20, 0x20, 0x29, 0x20, 0x20, 0x7c],
     [0x20, 0x74, 0x72, 0x73, 0x20, 0x29, 0x20, 0x20, 0x20, 0x20, 0x7c],
     [0x20, 0x20, 0x20, 0x20, 0x2f, 0x20, 0x20, 0x2e, 0x20, 0x20, 0x29, 0x2e],
     [0x20, 0x20, 0x20, 0x2f, 0x20, 0x20, 0x20, 0x20, 0x5f, 0x2e, 0x20, 0x7c],
     [0x20, 0x2f, 0x27, 0x2d, 0x2d, 0x2d, 0x27, 0x3a, 0x2e, 0x2d, 0x27, 0x7c],
     [0x28, 0x5f, 0x5f, 0x2e, 0x27, 0x20, 0x2f, 0x20, 0x20, 0x20, 0x20, 0x2f],
     [0x20, 0x5c, 0x20, 0x20, 0x20, 0x28, 0x20, 0x2f, 0x20, 0x20, 0x2f],
     [0x20, 0x20, 0x5c, 0x20, 0x2f, 0x20, 0x20, 0x5f, 0x20, 0x20, 0x7c, 0x20],
     [0x20, 0x20, 0x20, 0x5c, 0x20, 0x20, 0x7c, 0x20, 0x20, 0x27, 0x7c],
     [0x20, 0x20, 0x20, 0x7c, 0x20, 0x2e, 0x20, 0x5c, 0x20, 0x20, 0x7c],
     [0x20, 0x20, 0x20, 0x7c, 0x28, 0x20, 0x20, 0x20, 0x20, 0x20, 0x7c, 0x20],
     [0x20, 0x20, 0x20, 0x7c, 0x20, 0x20, 0x5c, 0x20, 0x5c, 0x20, 0x7c],
     [0x20, 0x20, 0x20, 0x20, 0x5c, 0x20, 0x20, 0x29, 0x5c, 0x20, 0x7c],
     [0x20, 0x20, 0x20, 0x5f, 0x5f, 0x29, 0x2f, 0x20, 0x2f, 0x20, 0x5c],
     [0x2d, 0x2d, 0x22, 0x2d, 0x2d, 0x28, 0x5f, 0x2e, 0x4f, 0x6f, 0x6f, 0x27, 0x2d, 0x2d, 0x2d, 0x2d]]"

definition comand_name :: "u8 list list" where
  "comand_name = map str [''help'', ''view'', ''pwd'', ''clr'', ''wh'']"

definition comand_disc :: "u8 list list" where
  "comand_disc = map (\<lambda>s. str s @ nl) [''show this text'', ''show represent'', ''print work directory'', ''clear console'',
     ''what`s here - info abot current directory'']"

fun run_all :: "('d, unit) tprog list \<Rightarrow> ('d, unit) tprog" where
  "run_all [] = ret ()"
| "run_all (m # ms) = bnd m (\<lambda>_. run_all ms)"

definition view :: "('d, unit) tprog" where
  "view =
     bnd (on_con dsp_clear) (\<lambda>_.
     bnd (run_all (concat (map (\<lambda>l. [on_con (dsp_set_cursor 55 0), color Red TermBG, say l, say nl]) statue))) (\<lambda>_.
     bnd (say (replicate 126 0x3d)) (\<lambda>_. color Yantar TermBG)))"

definition help_text :: "('d, unit) tprog" where
  "help_text =
     bnd (say (nl @ str ''>> W3lc0m3 t0 t3rm h3lp <<'' @ nl @ str ''------------------------------------------------------'' @ nl)) (\<lambda>_.
     run_all (concat (map (\<lambda>(n, d). [say (str ''- ''), say n, say (0x09 # str '' # ''), say d]) (zip comand_name comand_disc))))"

definition wh_entry :: "dir_info \<Rightarrow> ('d, unit) tprog" where
  "wh_entry x =
     bnd (if di_attr x AND ATTR_DIR \<noteq> 0 then color Blue TermBG else color Peach TermBG) (\<lambda>_.
     bnd (say (nl @ [0x09])) (\<lambda>_. say (take ABI_NAME_MAX (di_name x))))"

partial_function (option) wh_loop :: "int \<Rightarrow> 'd tst \<Rightarrow> ((term_err + unit) \<times> 'd tst) option" where
  "wh_loop fd t =
     bnd (in_files (next_visible fd)) (\<lambda>r.
     case r of Inl _ \<Rightarrow> ret () | Inr x \<Rightarrow> bnd (wh_entry x) (\<lambda>_. wh_loop fd)) t"

definition wh :: "u8 list \<Rightarrow> ('d, unit) tprog" where
  "wh cur =
     bnd (in_files (fat32_dir_open (Some (Libc_String.cstr cur)))) (\<lambda>r.
     case r of
       Inl _ \<Rightarrow> say (str ''wh: cannot open directory'' @ nl)
     | Inr fd \<Rightarrow>
         bnd (wh_loop (int fd)) (\<lambda>_.
         bnd (color Yantar TermBG) (\<lambda>_.
         bnd (in_files (fat32_dir_close (int fd))) (\<lambda>_. ret ()))))"

text \<open>The array \<open>path[128]\<close> of the command \<open>wh\<close>.\<close>

definition wh_path :: "u8 list \<Rightarrow> u8 list option" where
  "wh_path s = (let path = str ''/dsk/'' @ replicate 123 0 in put_str path (strlen path) s)"

definition cd :: "u8 list option \<Rightarrow> ('d, unit) tprog" where
  "cd arg =
     bnd (gets current) (\<lambda>cur.
     case arg of
       None \<Rightarrow> set_current (put_str cur 0 (str ''space/user''))
     | Some trgt \<Rightarrow>
         if strlen trgt = 1 \<and> trgt ! 0 = 0x2e then ret ()
         else if strcmp trgt (str ''..'') = 0 then
           (case strrchr cur 0x2f of None \<Rightarrow> ret () | Some i \<Rightarrow> set_current (Some (cur[i := 0])))
         else if trgt ! 0 = 0x2f then
           (if strlen trgt < length cur then set_current (put_str cur 0 (tl trgt)) else say (str ''t3rm: path too long''))
         else if strlen cur + 1 + strlen trgt < length cur then
           bnd (if strlen cur > 0 \<and> cur ! (strlen cur - 1) \<noteq> 0x2f then set_current (put_str cur (strlen cur) [0x2f])
                else ret ()) (\<lambda>_.
           bnd (gets current) (\<lambda>cur. set_current (put_str cur (strlen cur) trgt)))
         else ret ())"

definition too_many :: "('d, unit) tprog" where
  "too_many = say (str ''t3rm: too many arguments'')"

text \<open>The commands; \<open>args\<close> are the strings at \<open>argv\<close>.\<close>

definition run_command :: "u8 list list \<Rightarrow> ('d, unit) tprog" where
  "run_command args =
     (let argc = length args
      in if argc = 0 then ret ()
         else if strcmp (args ! 0) (str ''view'') = 0 then (if argc > 1 then too_many else view)
         else if strcmp (args ! 0) (str ''clr'') = 0 then (if argc > 1 then too_many else on_con dsp_clear)
         else if strcmp (args ! 0) (str ''pwd'') = 0 then
           (if argc > 1 then too_many
            else bnd (color Sapphire TermBG) (\<lambda>_. bnd (say (nl @ [0x09])) (\<lambda>_.
                 bnd (gets current) (\<lambda>cur. bnd (say cur) (\<lambda>_. color Yantar TermBG)))))
         else if strcmp (args ! 0) (str ''wh'') = 0 then
           bnd (gets current) (\<lambda>cur.
           case wh_path (if argc > 1 then args ! 1 else cur) of None \<Rightarrow> throw Overflow | Some path \<Rightarrow> wh path)
         else if strcmp (args ! 0) (str ''cd'') = 0 then cd (if argc < 2 then None else Some (args ! 1))
         else if strcmp (args ! 0) (str ''help'') = 0 then (if argc > 1 then too_many else bnd (say nl) (\<lambda>_. help_text))
         else say (nl @ str ''t3rm: unknown command''))"

definition command_parser :: "u8 list \<Rightarrow> ('d, unit) tprog" where
  "command_parser com =
     (if com ! 0 = 0 then ret ()
      else let (buf, argv) = parse_args com 0 [] in run_command (map (\<lambda>j. drop j buf) argv))"

subsection \<open>The loop\<close>

text \<open>One round; \<open>buf\<close> is the address of the array \<open>command[256]\<close>.\<close>

definition term_scanf :: "(nat \<Rightarrow> stream \<Rightarrow> stream) \<Rightarrow> u64 \<Rightarrow> ('d, u8 list) tprog" where
  "term_scanf ev buf t =
     (case sys_read ev buf 256 (t_k t) of
        None \<Rightarrow> None
      | Some (_, s) \<Rightarrow> Some (Inr (mem_get (k_mem s) buf 256), t\<lparr>t_k := s\<rparr>))"

definition term_round :: "(nat \<Rightarrow> stream \<Rightarrow> stream) \<Rightarrow> u64 \<Rightarrow> ('d, unit) tprog" where
  "term_round ev buf =
     bnd (gets current) (\<lambda>cur.
     bnd (say cur) (\<lambda>_.
     bnd (say (str '' * '')) (\<lambda>_.
     bnd (term_scanf ev buf) (\<lambda>command.
     bnd (command_parser command) (\<lambda>_. say nl)))))"

definition term_init :: "'d kst \<Rightarrow> 'd tst" where
  "term_init s = \<lparr>t_k = s, current = str ''space/user'' @ replicate 90 0\<rparr>"

fun term_rounds :: "(nat \<Rightarrow> stream \<Rightarrow> stream) \<Rightarrow> u64 \<Rightarrow> nat \<Rightarrow> ('d, unit) tprog" where
  "term_rounds ev buf 0 = ret ()"
| "term_rounds ev buf (Suc n) = bnd (term_round ev buf) (\<lambda>_. term_rounds ev buf n)"

definition term_main :: "(nat \<Rightarrow> stream \<Rightarrow> stream) \<Rightarrow> u64 \<Rightarrow> nat \<Rightarrow> ('d, unit) tprog" where
  "term_main ev buf n =
     bnd (say (str ''>> ts3zaR t3rm1nal has start3d <<'' @ nl)) (\<lambda>_.
     bnd (say (str ''  -----------------------------'' @ nl)) (\<lambda>_.
     bnd (say (str ''>>> W3lc0m3 t0 TRS || Y0u ar3 b3st t0day <3'' @ nl @ nl @ nl)) (\<lambda>_. term_rounds ev buf n)))"

subsection \<open>The current directory\<close>

text \<open>The array holds a string.\<close>

definition cur_ok :: "'d tst \<Rightarrow> bool" where
  "cur_ok t \<longleftrightarrow> length (current t) = 100 \<and> strlen (current t) < 100"

text \<open>The path a \<open>cd\<close> leads to, on texts.\<close>

definition parent_path :: "u8 list \<Rightarrow> u8 list" where
  "parent_path cur = (if 0x2f \<in> set cur then rev (tl (dropWhile (\<lambda>c. c \<noteq> 0x2f) (rev cur))) else cur)"

definition cd_path :: "u8 list \<Rightarrow> u8 list option \<Rightarrow> u8 list" where
  "cd_path cur arg =
     (case arg of
        None \<Rightarrow> str ''space/user''
      | Some to \<Rightarrow>
          if to = [0x2e] then cur
          else if to = [0x2e, 0x2e] then parent_path cur
          else if take 1 to = [0x2f] then (if length to < 100 then tl to else cur)
          else if length cur + 1 + length to < 100
               then (if cur = [] \<or> last cur = 0x2f then cur @ to else cur @ 0x2f # to)
               else cur)"

lemma cstr_text: "0 \<notin> set xs \<Longrightarrow> Libc_String.cstr (xs @ 0 # zs) = xs"
  by (induction xs) (auto simp: cstr_simps)

lemma cstr_no_nul: "0 \<notin> set (Libc_String.cstr s)"
  by (induction s) (auto simp: cstr_simps)

lemma cstr_take: "i \<le> strlen arr \<Longrightarrow> take i arr = take i (Libc_String.cstr arr)"
  by (induction arr arbitrary: i) (auto simp: cstr_simps take_Cons split: nat.split)

lemma cstr_nth: "0 \<in> set arr \<Longrightarrow> i \<le> strlen arr \<Longrightarrow> arr ! i = (Libc_String.cstr arr @ [0]) ! i"
  by (induction arr arbitrary: i) (auto simp: cstr_simps nth_Cons split: nat.split)

lemma cstr_put_str:
  assumes "i + strlen s < length arr" and "i \<le> strlen arr"
  shows "\<exists>a. put_str arr i s = Some a \<and> Libc_String.cstr a = take i (Libc_String.cstr arr) @ Libc_String.cstr s \<and> length a = length arr"
proof -
  let ?s = "Libc_String.cstr s" and ?p = "take i (Libc_String.cstr arr)"
  have p: "put_slice arr i (?s @ [0]) = (?p @ ?s) @ 0 # drop (i + length ?s + 1) arr"
    using assms by (simp add: put_slice_def strlen_cstr cstr_take[OF assms(2)])
  have "0 \<notin> set (?p @ ?s)" using cstr_no_nul[of arr] cstr_no_nul[of s] by (auto dest: in_set_takeD)
  from cstr_text[OF this] have "Libc_String.cstr (put_slice arr i (?s @ [0])) = ?p @ ?s" unfolding p .
  then show ?thesis using assms by (simp add: put_str_def)
qed

lemma cstr_cut:
  assumes "i \<le> strlen arr" and "i < length arr"
  shows "Libc_String.cstr (arr[i := 0]) = take i (Libc_String.cstr arr)"
proof -
  have "0 \<notin> set (take i (Libc_String.cstr arr))" using cstr_no_nul[of arr] by (auto dest: in_set_takeD)
  from cstr_text[OF this] show ?thesis using assms(2) by (simp add: upd_conv_take_nth_drop cstr_take[OF assms(1)])
qed

lemma last_slash:
  assumes "(0x2f :: u8) \<notin> set ys"
  shows "rev (tl (dropWhile (\<lambda>c. c \<noteq> 0x2f) (rev (xs @ 0x2f # ys)))) = xs"
proof -
  have "dropWhile (\<lambda>c. c \<noteq> 0x2f) (rev ys @ 0x2f # rev xs) = 0x2f # rev xs"
    using assms by (subst dropWhile_append2) auto
  then show ?thesis by simp
qed

lemma strrchr_slash:
  "case strrchr arr 0x2f of
     None \<Rightarrow> 0x2f \<notin> set (Libc_String.cstr arr)
   | Some i \<Rightarrow> i < strlen arr \<and> take i (Libc_String.cstr arr) = parent_path (Libc_String.cstr arr)"
proof -
  let ?cs = "Libc_String.cstr arr"
  have e: "strrchr arr 0x2f = last_index (\<lambda>c. c = 0x2f) (?cs @ [0])"
    unfolding strrchr_def strrchr_loop_spec by (simp add: char_eq_ascii split: option.splits)
  show ?thesis
  proof (cases "strrchr arr 0x2f")
    case None
    then show ?thesis using last_index_None[of "\<lambda>c. c = 0x2f" "?cs @ [0]"] by (auto simp: e)
  next
    case (Some i)
    note l = last_index_Some[OF Some[unfolded e]]
    then have i: "i < length ?cs" by (auto simp: nth_append split: if_splits)
    have "?cs ! i = 0x2f" "\<forall>j. i < j \<and> j < length ?cs \<longrightarrow> ?cs ! j \<noteq> 0x2f"
      using l i by (auto simp: nth_append)
    then have s: "?cs = take i ?cs @ 0x2f # drop (Suc i) ?cs" "0x2f \<notin> set (drop (Suc i) ?cs)"
      using id_take_nth_drop[OF i] by (auto simp: in_set_conv_nth)
    have "0x2f \<in> set ?cs" by (subst s(1)) simp
    then have "take i ?cs = parent_path ?cs"
      using last_slash[OF s(2), of "take i ?cs"] unfolding s(1)[symmetric] by (simp add: parent_path_def)
    then show ?thesis using i Some by (simp add: strlen_cstr)
  qed
qed

lemma str_dots: "str ''..'' = [0x2e, 0x2e]" "str ''space/user'' = [0x73, 0x70, 0x61, 0x63, 0x65, 0x2f, 0x75, 0x73, 0x65, 0x72]"
  by (simp_all add: str_def)

lemma cstr_head: "0 \<in> set x \<Longrightarrow> x ! 0 = (case Libc_String.cstr x of [] \<Rightarrow> 0 | c # _ \<Rightarrow> c)"
  by (cases x) (auto simp: cstr_simps)

lemma cstr_tl: "x ! 0 \<noteq> 0 \<Longrightarrow> x \<noteq> [] \<Longrightarrow> Libc_String.cstr (tl x) = tl (Libc_String.cstr x) \<and> strlen (tl x) = strlen x - 1"
  by (cases x) (auto simp: cstr_simps)

text \<open>An argument of \<open>cd\<close> is a string.\<close>

definition is_str :: "u8 list option \<Rightarrow> bool" where
  "is_str arg \<longleftrightarrow> (\<forall>x. arg = Some x \<longrightarrow> 0 \<in> set x)"

definition cd_post :: "'d tst \<Rightarrow> u8 list \<Rightarrow> 'd tst \<Rightarrow> bool" where
  "cd_post t p u \<longleftrightarrow> cur_ok u \<and> Libc_String.cstr (current u) = p \<and> k_fs (t_k u) = k_fs (t_k t) \<and> k_mem (t_k u) = k_mem (t_k t)"

lemma wp_set_current_put:
  assumes "cur_ok t" and "i + strlen s < 100" and "i \<le> strlen (current t)"
  shows "wp (set_current (put_str (current t) i s)) (\<lambda>_. cd_post t (take i (Libc_String.cstr (current t)) @ Libc_String.cstr s)) (\<lambda>_ _. False) t"
proof -
  have "i + strlen s < length (current t)" using assms(1,2) by (simp add: cur_ok_def)
  from cstr_put_str[OF this assms(3)] obtain a where
    a: "put_str (current t) i s = Some a" "Libc_String.cstr a = take i (Libc_String.cstr (current t)) @ Libc_String.cstr s"
      "length a = length (current t)" by blast
  have "strlen a < 100" using a(2) assms(2,3) by (simp add: strlen_cstr)
  then show ?thesis using a assms(1) by (simp add: set_current_def wp_modify cd_post_def cur_ok_def)
qed

lemma cd_join:
  assumes "cur_ok t" and "strlen (current t) + 1 + strlen trgt < 100"
  shows "wp (bnd (if strlen (current t) > 0 \<and> current t ! (strlen (current t) - 1) \<noteq> 0x2f
                  then set_current (put_str (current t) (strlen (current t)) [0x2f]) else ret ())
            (\<lambda>_. bnd (gets current) (\<lambda>cur. set_current (put_str cur (strlen cur) trgt))))
     (\<lambda>_. cd_post t (if Libc_String.cstr (current t) = [] \<or> last (Libc_String.cstr (current t)) = 0x2f
        then Libc_String.cstr (current t) @ Libc_String.cstr trgt
        else Libc_String.cstr (current t) @ 0x2f # Libc_String.cstr trgt)) (\<lambda>_ _. False) t"
proof -
  let ?cur = "current t"
  let ?cs = "Libc_String.cstr ?cur"
  have step: "wp (bnd (gets current) (\<lambda>cur. set_current (put_str cur (strlen cur) trgt)))
      (\<lambda>_. cd_post t (Libc_String.cstr (current u) @ Libc_String.cstr trgt)) (\<lambda>_ _. False) u"
    if "cd_post t p u" "strlen (current u) + strlen trgt < 100" for u p
    using wp_set_current_put[of u "strlen (current u)" trgt] that
    by (auto simp: wp_bnd wp_gets cd_post_def strlen_cstr elim!: wp_conseq)
  have l: "?cur ! (length ?cs - Suc 0) = last ?cs" if "?cs \<noteq> []"
  proof -
    have "length ?cs \<le> length ?cur" unfolding Libc_String.cstr_def by (rule length_takeWhile_le)
    have "?cur ! i = ?cs ! i" if "i < length ?cs" for i using that by (simp add: Libc_String.cstr_def takeWhile_nth)
    then show ?thesis using that by (simp add: last_conv_nth)
  qed
  show ?thesis
  proof (cases "?cs = [] \<or> last ?cs = 0x2f")
    case True
    then have "\<not> (strlen ?cur > 0 \<and> ?cur ! (strlen ?cur - 1) \<noteq> 0x2f)"
      using l by (cases "?cs = []") (simp_all add: strlen_cstr)
    then show ?thesis using step[of ?cs t] assms True by (simp only: wp_bnd wp_ret if_False) (simp add: cd_post_def)
  next
    case False
    then have c: "strlen ?cur > 0 \<and> ?cur ! (strlen ?cur - 1) \<noteq> 0x2f" using l by (auto simp: strlen_cstr)
    have "wp (set_current (put_str ?cur (strlen ?cur) [0x2f])) (\<lambda>_. cd_post t (?cs @ [0x2f])) (\<lambda>_ _. False) t"
      using wp_set_current_put[of t "strlen ?cur" "[0x2f]"] assms by (simp add: strlen_cstr cstr_simps)
    then show ?thesis
      unfolding if_P[OF c]
    proof (rule wp_bndI, goal_cases)
      case (1 x u)
      then have "strlen (current u) + strlen trgt < 100" using assms(2) by (simp add: cd_post_def strlen_cstr)
      from step[OF 1 this] show ?case using 1 False by (simp add: cd_post_def)
    qed
  qed
qed

lemma run_gets: "bnd (gets f) g s = g (f s) s"
  by (simp add: bnd_def gets_def)

lemma cd_wp:
  assumes "cur_ok t" and "is_str arg"
  shows "wp (cd arg) (\<lambda>_. cd_post t (cd_path (Libc_String.cstr (current t)) (map_option Libc_String.cstr arg))) (\<lambda>_ _. False) t"
proof (cases arg)
  case None
  then show ?thesis
    using wp_set_current_put[OF assms(1), of 0 "str ''space/user''"]
    by (simp add: cd_def wp_bnd wp_gets cd_path_def str_dots cstr_simps)
next
  case (Some x)
  let ?cur = "current t"
  let ?cs = "Libc_String.cstr ?cur" and ?to = "Libc_String.cstr x"
  have z: "0 \<in> set x" using assms(2) Some by (simp add: is_str_def)
  note h = cstr_head[OF z]
  have dot: "strlen x = 1 \<and> x ! 0 = 0x2e \<longleftrightarrow> ?to = [0x2e]"
    unfolding h strlen_cstr by (cases ?to) auto
  have dots: "strcmp x (str ''..'') = 0 \<longleftrightarrow> ?to = [0x2e, 0x2e]" by (simp add: strcmp_zero str_dots cstr_simps)
  have slash: "x ! 0 = 0x2f \<longleftrightarrow> take 1 ?to = [0x2f]" unfolding h by (cases ?to) auto
  have same: "cd_post t ?cs t" using assms(1) by (simp add: cd_post_def)
  have len: "length ?cur = 100" using assms(1) by (simp add: cur_ok_def)
  consider "?to = [0x2e]" | "?to = [0x2e, 0x2e]" | "take 1 ?to = [0x2f]" | "?to \<noteq> [0x2e]" "?to \<noteq> [0x2e, 0x2e]" "take 1 ?to \<noteq> [0x2f]"
    by blast
  then show ?thesis
  proof cases
    case 1
    then show ?thesis using Some dot same by (simp add: cd_def wp_bnd wp_gets wp_ret cd_path_def)
  next
    case 2
    then show ?thesis
    proof (cases "strrchr ?cur 0x2f")
      case None
      then show ?thesis using 2 Some dot dots same strrchr_slash[of ?cur]
        by (simp add: cd_def wp_bnd wp_gets wp_ret cd_path_def parent_path_def)
    next
      case (Some i)
      then have i: "i < strlen ?cur" "take i ?cs = parent_path ?cs" using strrchr_slash[of ?cur] by simp_all
      have "i < length ?cur" using i(1) assms(1) by (simp add: cur_ok_def)
      then have c: "Libc_String.cstr (?cur[i := 0]) = parent_path ?cs" using cstr_cut[of i ?cur] i by simp
      have "strlen (?cur[i := 0]) < 100" using i(1) assms(1) unfolding strlen_cstr c i(2)[symmetric] by (simp add: cur_ok_def strlen_cstr)
      then have post: "cd_post t (parent_path ?cs) (t\<lparr>current := ?cur[i := 0]\<rparr>)" using c len by (simp add: cd_post_def cur_ok_def)
      have "cd arg t = Some (Inr (), t\<lparr>current := ?cur[i := 0]\<rparr>)"
        using 2 Some \<open>arg = Some x\<close> dot dots
        by (simp add: cd_def run_gets dot dots del: One_nat_def) (simp add: set_current_def modify_def)
      then show ?thesis using post 2 \<open>arg = Some x\<close> by (simp add: wp_def cd_path_def)
    qed
  next
    case 3
    then have "x ! 0 \<noteq> 0" "x \<noteq> []" using slash z by auto
    note tl = cstr_tl[OF this]
    have t: "take 1 ?to \<noteq> []" "?to \<noteq> [0x2e]" "?to \<noteq> [0x2e, 0x2e]" using 3 by auto
    then have cd: "cd arg t = (if strlen x < 100 then set_current (put_str ?cur 0 (tl x)) else say (str ''t3rm: path too long'')) t"
      using 3 by (simp only: cd_def run_gets Some option.case dot dots slash len t refl if_False if_True)
    have path: "cd_path ?cs (Some ?to) = (if strlen x < 100 then tl ?to else ?cs)"
      using t 3 by (simp add: cd_path_def strlen_cstr)
    show ?thesis
    proof (cases "strlen x < 100")
      case True
      then show ?thesis
        using wp_set_current_put[OF assms(1), of 0 "tl x"] tl cd path Some by (simp add: wp_def)
    next
      case False
      then show ?thesis using cd path Some same by (simp add: wp_def say_def on_con_def modify_def cd_post_def cur_ok_def)
    qed
  next
    case 4
    then have cd: "cd arg t = (if strlen ?cur + 1 + strlen x < 100 then
        bnd (if strlen ?cur > 0 \<and> ?cur ! (strlen ?cur - 1) \<noteq> 0x2f
                  then set_current (put_str ?cur (strlen ?cur) [0x2f]) else ret ())
            (\<lambda>_. bnd (gets current) (\<lambda>cur. set_current (put_str cur (strlen cur) x))) else ret ()) t"
      by (simp only: cd_def run_gets Some option.case dot dots slash len if_False)
    have path: "cd_path ?cs (Some ?to) = (if strlen ?cur + 1 + strlen x < 100 then
         (if ?cs = [] \<or> last ?cs = 0x2f then ?cs @ ?to else ?cs @ 0x2f # ?to) else ?cs)"
      using 4 by (simp add: cd_path_def strlen_cstr)
    show ?thesis
    proof (cases "strlen ?cur + 1 + strlen x < 100")
      case True
      then show ?thesis using cd_join[OF assms(1) True] cd path Some by (simp only: wp_def if_True option.map)
    next
      case False
      then show ?thesis using cd path Some same by (simp add: wp_def ret_def)
    qed
  qed
qed

subsection \<open>Listing a directory\<close>

text \<open>What a visible entry looks like on the screen.\<close>

definition wh_shows :: "dir_info \<Rightarrow> console \<Rightarrow> console" where
  "wh_shows x con = dsp_print (Libc_String.cstr (take ABI_NAME_MAX (di_name x))) (dsp_print [0x0a, 0x09]
     (dsp_set_color (if di_attr x AND ATTR_DIR \<noteq> 0 then Blue else Peach) TermBG con))"

lemma wp_in_files:
  assumes "wp m Q E (k_fs (t_k t))"
  shows "wp (in_files m) (\<lambda>r u. \<exists>f. u = t\<lparr>t_k := (t_k t)\<lparr>k_fs := f\<rparr>\<rparr>
     \<and> (case r of Inl e \<Rightarrow> E e f | Inr x \<Rightarrow> Q x f)) F t"
  using assms by (auto simp: wp_def in_files_def in_fs_def split: option.splits sum.splits)

lemma wh_entry_run: "wh_entry x t = Some (Inr (), t\<lparr>t_k := (t_k t)\<lparr>k_con := wh_shows x (k_con (t_k t))\<rparr>\<rparr>)"
  by (simp add: wh_entry_def color_def say_def on_con_def modify_def bnd_def wh_shows_def nl_def cstr_simps)

lemma wh_loop_eq: "wh_loop fd = bnd (in_files (next_visible fd)) (\<lambda>r.
     case r of Inl _ \<Rightarrow> ret () | Inr x \<Rightarrow> bnd (wh_entry x) (\<lambda>_. wh_loop fd))"
  by (rule ext) (rule wh_loop.simps)

lemma slot_frame_trans:
  "slot_frame i s t \<Longrightarrow> slot_frame i t u \<Longrightarrow> i < length (g_dirs s) \<Longrightarrow> slot_frame i s u"
  by (auto simp: slot_frame_def)

lemma next_visible_frame:
  "next_visible fd s = Some y \<Longrightarrow> length (g_dirs s) = MAX_OPENDIRS \<longrightarrow> nat fd < MAX_OPENDIRS \<longrightarrow> slot_frame (nat fd) s (snd y)"
proof (erule next_visible.raw_induct[of "\<lambda>fd s y. length (g_dirs s) = MAX_OPENDIRS \<longrightarrow> nat fd < MAX_OPENDIRS \<longrightarrow> slot_frame (nat fd) s (snd y)", rotated], goal_cases)
  case (1 loop fd s y)
  show ?case
  proof (intro impI)
    assume l: "length (g_dirs s) = MAX_OPENDIRS" "nat fd < MAX_OPENDIRS"
    from 1(2) obtain r t where r: "fat32_dir_read fd True s = Some (r, t)" by (auto simp: bnd_def split: option.splits)
    note fr = fat32_dir_read_frame[OF r l(1)]
    show "slot_frame (nat fd) s (snd y)"
    proof (cases "\<exists>x. r = Inr x \<and> hidden x")
      case True
      then have "loop fd t = Some y" using 1(2) r by (auto simp: bnd_def)
      from 1(1)[OF this] have "slot_frame (nat fd) t (snd y)" using slot_frame_open(2)[OF fr l(2,1)] l by simp
      from slot_frame_trans[OF fr this] l show ?thesis by simp
    next
      case False
      then have "snd y = t" using 1(2) r by (auto simp: bnd_def ret_def split: sum.splits)
      then show ?thesis using fr by simp
    qed
  qed
qed

lemma next_visible_frame_wp:
  assumes "block_dev ops content dinv" and "slot_lists ops content dinv s i xs"
  shows "wp (next_visible (int i))
     (\<lambda>x t. slot_frame i s t \<and> (\<exists>hs ms. xs = hs @ x # ms \<and> list_all hidden hs \<and> \<not> hidden x \<and> slot_lists ops content dinv t i ms))
     (\<lambda>e t. slot_frame i s t \<and> (e = FAT_ERR_IO \<and> \<not> block_dev.reliable ops dinv \<or> e = FAT_ERR_EOF \<and> list_all hidden xs)) s"
proof -
  have l: "length (g_dirs s) = MAX_OPENDIRS" "i < MAX_OPENDIRS" using assms(2) by (simp_all add: slot_lists_def)
  note nv = next_visible_wp[OF assms]
  from wp_returns[OF nv] obtain r t where r: "next_visible (int i) s = Some (r, t)" by blast
  then have "wp (next_visible (int i)) (\<lambda>_. slot_frame i s) (\<lambda>_. slot_frame i s) s"
    using next_visible_frame[OF r] l by (cases r) (simp_all add: wp_def)
  from wp_conj[OF this nv] show ?thesis .
qed

lemma wh_loop_wp:
  assumes "block_dev ops content dinv" and "block_dev.reliable ops dinv"
  shows "slot_lists ops content dinv (k_fs (t_k t)) i xs \<Longrightarrow>
    wp (wh_loop (int i)) (\<lambda>_ u. \<exists>f. slot_frame i (k_fs (t_k t)) f \<and> u = t\<lparr>t_k := (t_k t)\<lparr>k_fs := f,
        k_con := fold wh_shows (filter (\<lambda>x. \<not> hidden x) xs) (k_con (t_k t))\<rparr>\<rparr>) (\<lambda>_ _. False) t"
proof (induction "length xs" arbitrary: xs t rule: less_induct)
  case less
  note nv = wp_in_files[OF next_visible_frame_wp[OF assms(1) less.prems], where F = "\<lambda>_ _. False"]
  show ?case
  proof (subst wh_loop_eq, rule wp_bndI[OF nv], goal_cases)
    case (1 r u)
    show ?case
    proof (cases r)
      case (Inl e)
      then obtain f where u: "u = t\<lparr>t_k := (t_k t)\<lparr>k_fs := f\<rparr>\<rparr>" and fr: "slot_frame i (k_fs (t_k t)) f"
        and "list_all hidden xs" using 1 assms(2) by auto
      then have n: "filter (\<lambda>x. \<not> hidden x) xs = []" using \<open>list_all hidden xs\<close> by (simp add: filter_empty_conv list_all_iff)
      show ?thesis using Inl u n fr by (auto simp: wp_ret)
    next
      case (Inr x)
      with 1 obtain f hs ms where u: "u = t\<lparr>t_k := (t_k t)\<lparr>k_fs := f\<rparr>\<rparr>" and fr: "slot_frame i (k_fs (t_k t)) f"
        and x: "xs = hs @ x # ms" "list_all hidden hs" "\<not> hidden x" "slot_lists ops content dinv f i ms"
        by (simp only: sum.case) blast
      have n: "filter (\<lambda>x. \<not> hidden x) xs = x # filter (\<lambda>x. \<not> hidden x) ms"
        using x by (simp add: filter_empty_conv list_all_iff)
      let ?v = "u\<lparr>t_k := (t_k u)\<lparr>k_con := wh_shows x (k_con (t_k u))\<rparr>\<rparr>"
      have "slot_lists ops content dinv (k_fs (t_k ?v)) i ms" using x(4) u by simp
      from less.hyps[OF _ this] have "wp (wh_loop (int i)) (\<lambda>_ w. \<exists>f. slot_frame i (k_fs (t_k ?v)) f \<and> w = ?v\<lparr>t_k := (t_k ?v)\<lparr>k_fs := f,
          k_con := fold wh_shows (filter (\<lambda>x. \<not> hidden x) ms) (k_con (t_k ?v))\<rparr>\<rparr>) (\<lambda>_ _. False) ?v" using x(1) by simp
      moreover have "slot_frame i (k_fs (t_k t)) g" if "slot_frame i f g" for g
        using slot_frame_trans[OF fr that] less.prems by (simp add: slot_lists_def)
      ultimately show ?thesis unfolding Inr n by (auto simp: wp_def bnd_def wh_entry_run u split: option.splits sum.splits)
    qed
  qed simp
qed

text \<open>The path of the root directory of a volume.\<close>

definition root_path :: "u8 list \<Rightarrow> u8 list \<Rightarrow> bool" where
  "root_path nm path \<longleftrightarrow> nm \<noteq> [] \<and> 0 \<notin> set nm \<and> SLASH \<notin> set nm \<and> (\<exists>n. path = SLASH # nm @ replicate n SLASH)"

lemma skip_only_slashes: "skip_slashes (replicate n SLASH) = []"
  by (induction n) auto

lemma open_root:
  assumes "root_path nm path" and "unat (fat_name_len v) = length nm" and "take (length nm) (fat_name v) = nm"
  shows "fat_dir_open path v = Some (Inr (), v\<lparr>dir_fat := True, dir_sclust := root_clust v, dir_clust := root_clust v,
     dir_sect := clust_to_sect v (root_clust v), dir_idx := 0\<rparr>)"
proof -
  obtain n where p: "path = SLASH # nm @ replicate n SLASH" and nm: "nm \<noteq> []" "\<forall>c \<in> set nm. c \<noteq> 0 \<and> c \<noteq> SLASH"
    using assms(1) by (auto simp: root_path_def)
  have "takeWhile (\<lambda>c. c \<noteq> 0 \<and> c \<noteq> SLASH) (nm @ replicate n SLASH) = nm"
    using nm(2) by (subst takeWhile_append2) (auto simp: takeWhile_eq_Nil_iff)
  then have len: "subpath_len (nm @ replicate n SLASH) = length nm" by (simp add: subpath_len_takeWhile)
  show ?thesis
    using nm(1) assms(2,3) len
    by (simp add: p fat_dir_open_def path_err_def follow_path_def attempt_def bnd_def gets_def modify_def ret_def
        dir_enter_def dir_at_clust_def Let_def follow_loop.simps skip_only_slashes dir_at_root_def clust_to_sect_def)
qed

text \<open>The root directory of a mounted volume, with its entries.\<close>

definition root_lists ::
  "'d disk_ops \<Rightarrow> ('d \<Rightarrow> u32 \<Rightarrow> u8 list) \<Rightarrow> ('d \<Rightarrow> bool) \<Rightarrow> 'd kfs \<Rightarrow> u8 list \<Rightarrow> dir_info list \<Rightarrow> bool" where
  "root_lists ops content dinv s nm xs \<longleftrightarrow>
     k_mounted s \<and> unat (fat_name_len (k_fat s)) = length nm \<and> take (length nm) (fat_name (k_fat s)) = nm
     \<and> length (g_dirs s) = MAX_OPENDIRS
     \<and> (\<exists>cs. cs \<noteq> [] \<and> hd cs = root_clust (k_fat s) \<and> dir_lists ops content dinv cs 0 xs (k_fat s))"

lemma open_root_slot:
  assumes "root_lists ops content dinv s nm xs" and "root_path nm path" and "open_slots s \<noteq> {..<MAX_OPENDIRS}"
  shows "\<exists>i t. fat32_dir_open (Some path) s = Some (Inr i, t) \<and> slot_lists ops content dinv t i xs
    \<and> i < MAX_OPENDIRS \<and> i \<notin> open_slots s \<and> open_slots t = insert i (open_slots s)"
proof -
  from assms(1) obtain cs where s: "k_mounted s" "unat (fat_name_len (k_fat s)) = length nm"
    "take (length nm) (fat_name (k_fat s)) = nm" "length (g_dirs s) = MAX_OPENDIRS" "cs \<noteq> []"
    "hd cs = root_clust (k_fat s)" "dir_lists ops content dinv cs 0 xs (k_fat s)" by (auto simp: root_lists_def)
  let ?free = "find (\<lambda>i. \<not> sl_used (g_dirs s ! i)) [0..<MAX_OPENDIRS]"
  obtain i where i: "?free = Some i"
    using assms(3) by (cases ?free) (auto simp: find_None_iff open_slots_def)
  note f = find_free_slot[OF i]
  let ?r = "root_clust (k_fat s)"
  let ?sl = "\<lparr>sl_fat = True, sl_sclust = ?r, sl_clust = ?r, sl_sect = clust_to_sect (k_fat s) ?r, sl_idx = 0,
     sl_used = True, sl_next = False\<rparr>"
  let ?v = "load_dir ?sl (k_fat s)"
  let ?t = "s\<lparr>k_fat := ?v, g_dirs := (g_dirs s)[i := ?sl]\<rparr>"
  have "fat_dir_open path (load_dir (g_dirs s ! i) (k_fat s)) = Some (Inr (), ?v)"
    using open_root[OF assms(2), of "load_dir (g_dirs s ! i) (k_fat s)"] s(2,3)
    by (simp add: load_dir_def clust_to_sect_def)
  moreover have "(save_dir ?v sl)\<lparr>sl_used := True, sl_next := False\<rparr> = ?sl" for sl
    by (cases sl) (simp add: save_dir_def load_dir_def)
  ultimately have run: "fat32_dir_open (Some path) s = Some (Inr i, ?t)"
    using s(1,4) f(1) i by (simp add: fat32_dir_open_def bnd_def gets_def in_slot_def set_slot_def modify_def ret_def)
  have "dir_lists ops content dinv cs 0 xs ?v" using s(7) by simp
  moreover have "dir_at (load_dir ?sl ?v) cs 0"
    using s(5,6) by (cases cs) (simp_all add: dir_at_load dir_cap_def ent_clust_def ent_sect_def ent_idx_def)
  ultimately have "slot_lists ops content dinv ?t i xs"
    unfolding slot_lists_def using s(4) f(1) by (auto simp del: dir_lists_load intro!: exI[of _ cs] exI[of _ 0])
  moreover have "open_slots ?t = insert i (open_slots s)"
    using open_slots_upd[OF f(1) s(4), of ?t ?sl] by simp
  ultimately show ?thesis using run f by blast
qed


lemma demo_root_lists: "root_lists ram_ops ram_data ram_sound demo_kfs [0x64, 0x73, 0x6b] demo_infos"
proof -
  have "\<forall>n \<in> set [demo_name, [0x62]]. name_ok n" by (simp add: name_ok_def demo_name_def)
  from entries_at_names[OF demo_names this]
  have l: "dir_lists ram_ops ram_data ram_sound [2] 0 demo_infos (k_fat demo_kfs)"
    using demo_dir_ready unfolding demo_infos_def[symmetric]
    by (simp add: demo_kfs_def dir_lists_extend)
      (simp add: dir_lists_def dir_ready_def demo_dctx_view cache_ok_def ram_sound_def demo_dir_disk_def)
  show ?thesis
    unfolding root_lists_def by (intro conjI exI[of _ "[2]"] l) (simp_all add: demo_kfs_def dctx.extend_def demo_dctx_def)
qed


subsection \<open>Commands that only write to the screen\<close>

definition only_con :: "('d, unit) tprog \<Rightarrow> bool" where
  "only_con m \<longleftrightarrow> (\<forall>t. \<exists>c. m t = Some (Inr (), t\<lparr>t_k := (t_k t)\<lparr>k_con := c\<rparr>\<rparr>))"

lemma only_con_on [intro]: "only_con (on_con f)"
  by (simp add: only_con_def on_con_def modify_def) blast

lemma only_con_say [intro]: "only_con (say msg)" "only_con (color fg bg)" "only_con too_many"
  by (auto simp: say_def color_def too_many_def)

lemma only_con_ret [intro]: "only_con (ret ())"
  unfolding only_con_def
proof
  fix t :: "'a tst"
  show "\<exists>c. ret () t = Some (Inr (), t\<lparr>t_k := (t_k t)\<lparr>k_con := c\<rparr>\<rparr>)" by (rule exI[of _ "k_con (t_k t)"]) (simp add: ret_def)
qed

lemma only_con_bnd [intro]:
  assumes "only_con m" and "only_con n"
  shows "only_con (bnd m (\<lambda>_. n))"
  unfolding only_con_def
proof
  fix t :: "'a tst"
  obtain c where c: "m t = Some (Inr (), t\<lparr>t_k := (t_k t)\<lparr>k_con := c\<rparr>\<rparr>)" using assms(1) by (auto simp: only_con_def)
  obtain d where "n (t\<lparr>t_k := (t_k t)\<lparr>k_con := c\<rparr>\<rparr>) = Some (Inr (), t\<lparr>t_k := (t_k t)\<lparr>k_con := d\<rparr>\<rparr>)"
    using assms(2)[unfolded only_con_def, rule_format, of "t\<lparr>t_k := (t_k t)\<lparr>k_con := c\<rparr>\<rparr>"] by auto
  then show "\<exists>c. bnd m (\<lambda>_. n) t = Some (Inr (), t\<lparr>t_k := (t_k t)\<lparr>k_con := c\<rparr>\<rparr>)"
    using c by (intro exI[of _ d]) (simp add: bnd_def)
qed

lemma only_con_gets [intro]: "(\<And>x. only_con (m x)) \<Longrightarrow> only_con (bnd (gets f) m)"
  by (simp add: only_con_def run_gets)

lemma only_con_run_all: "list_all only_con ms \<Longrightarrow> only_con (run_all ms)"
  by (induction ms) auto

lemma only_con_view: "only_con view"
  unfolding view_def by (intro only_con_bnd only_con_on only_con_say only_con_run_all) (auto simp: list_all_iff)

lemma only_con_help: "only_con help_text"
  unfolding help_text_def by (intro only_con_bnd only_con_on only_con_say only_con_run_all) (auto simp: list_all_iff)

lemma only_con_pwd: "only_con (bnd (color Sapphire TermBG) (\<lambda>_. bnd (say (nl @ [0x09])) (\<lambda>_.
    bnd (gets current) (\<lambda>cur. bnd (say cur) (\<lambda>_. color Yantar TermBG)))))"
  by (intro only_con_gets only_con_bnd only_con_say)

lemma only_con_wp: "only_con m \<Longrightarrow> cur_ok t \<Longrightarrow> wp m (\<lambda>_. cd_post t (Libc_String.cstr (current t))) E t"
  by (auto simp: only_con_def wp_def cd_post_def cur_ok_def dest!: spec[of _ t])

subsection \<open>A command line\<close>

lemma wh_path_fits: "wh_path s = (if strlen s < 123 then Some (put_slice (str ''/dsk/'' @ replicate 123 0) 5 (Libc_String.cstr s @ [0])) else None)"
proof -
  have "strlen (str ''/dsk/'' @ replicate 123 0) = 5" by (simp add: str_def strlen_cstr cstr_simps) (simp add: Libc_String.cstr_def)
  moreover have "length (str ''/dsk/'') = 5" by (simp add: str_def)
  ultimately show ?thesis by (simp add: wh_path_def put_str_def)
qed

text \<open>The directory after the command with the words \<open>ws\<close>.\<close>

definition after_command :: "u8 list list \<Rightarrow> u8 list \<Rightarrow> u8 list" where
  "after_command ws cur = (case ws of
     w # as \<Rightarrow> if w = str ''cd'' then cd_path cur (case as of [] \<Rightarrow> None | a # _ \<Rightarrow> Some a) else cur
   | [] \<Rightarrow> cur)"

lemma command_names:
  "str ''view'' = [0x76, 0x69, 0x65, 0x77]" "str ''clr'' = [0x63, 0x6c, 0x72]" "str ''pwd'' = [0x70, 0x77, 0x64]"
  "str ''wh'' = [0x77, 0x68]" "str ''cd'' = [0x63, 0x64]" "str ''help'' = [0x68, 0x65, 0x6c, 0x70]"
  by (simp_all add: str_def)

lemma strcmp_word: "strcmp a (str w) = 0 \<longleftrightarrow> Libc_String.cstr a = str w" if "0 \<notin> set (str w)" for w
proof -
  have "Libc_String.cstr (str w) = str w" using that unfolding Libc_String.cstr_def takeWhile_eq_all_conv by metis
  then show ?thesis by (simp add: strcmp_zero)
qed

lemma strcmp_names:
  "strcmp a (str ''view'') = 0 \<longleftrightarrow> Libc_String.cstr a = str ''view''"
  "strcmp a (str ''clr'') = 0 \<longleftrightarrow> Libc_String.cstr a = str ''clr''"
  "strcmp a (str ''pwd'') = 0 \<longleftrightarrow> Libc_String.cstr a = str ''pwd''"
  "strcmp a (str ''wh'') = 0 \<longleftrightarrow> Libc_String.cstr a = str ''wh''"
  "strcmp a (str ''cd'') = 0 \<longleftrightarrow> Libc_String.cstr a = str ''cd''"
  "strcmp a (str ''help'') = 0 \<longleftrightarrow> Libc_String.cstr a = str ''help''"
  by (rule strcmp_word, simp add: command_names)+

lemma names_differ:
  "str ''cd'' \<noteq> str ''view''" "str ''cd'' \<noteq> str ''clr''" "str ''cd'' \<noteq> str ''pwd''" "str ''cd'' \<noteq> str ''wh''"
  "str ''wh'' \<noteq> str ''view''" "str ''wh'' \<noteq> str ''clr''" "str ''wh'' \<noteq> str ''pwd''" "str ''wh'' \<noteq> str ''cd''"
  by (simp_all add: command_names)

text \<open>The words of the line are the arguments.\<close>

lemma command_parser_words:
  assumes "0 \<notin> set xs"
  obtains args where "command_parser (xs @ 0 # zs) = run_command args" "map Libc_String.cstr args = tokens 16 xs"
    "\<forall>a \<in> set args. 0 \<in> set a"
proof (cases xs)
  case Nil
  then have "command_parser (xs @ 0 # zs) = run_command []" by (simp add: command_parser_def run_command_def)
  then show thesis using Nil by (intro that[of "[]"]) simp_all
next
  case (Cons x ys)
  then have "(xs @ 0 # zs) ! 0 \<noteq> 0" using assms by auto
  moreover obtain buf argv where p: "parse_args (xs @ 0 # zs) 0 [] = (buf, argv)"
    "map (\<lambda>j. Libc_String.cstr (drop j buf)) argv = tokens 16 xs" "\<forall>j \<in> set argv. 0 \<in> set (drop j buf)"
    using parse_args_rest[OF assms, of "[]" 16 "[]" zs] by auto
  ultimately have "command_parser (xs @ 0 # zs) = run_command (map (\<lambda>j. drop j buf) argv)"
    by (simp only: command_parser_def if_False p(1) Let_def prod.case)
  then show thesis using p(2,3) by (intro that) (auto simp: comp_def)
qed

lemma cd_command_wp:
  assumes "cur_ok t" and "\<forall>a \<in> set args. 0 \<in> set a" and "take 1 (map Libc_String.cstr args) \<noteq> [str ''wh'']"
  shows "wp (run_command args) (\<lambda>_. cd_post t (after_command (map Libc_String.cstr args) (Libc_String.cstr (current t)))) (\<lambda>_ _. False) t"
proof (cases args)
  case Nil
  then show ?thesis using assms(1) by (simp add: run_command_def wp_ret cd_post_def after_command_def)
next
  case (Cons x as)
  show ?thesis
  proof (cases "Libc_String.cstr x = str ''cd''")
    case True
    let ?arg = "if length args < 2 then None else Some (args ! 1)"
    have "run_command args = (cd ?arg :: ('a, unit) tprog)"
      using Cons True by (simp add: run_command_def strcmp_names names_differ)
    moreover have "is_str ?arg" using assms(2) Cons by (cases as) (auto simp: is_str_def)
    moreover have "map_option Libc_String.cstr ?arg = (case map Libc_String.cstr as of [] \<Rightarrow> None | a # _ \<Rightarrow> Some a)"
      using Cons by (cases as) simp_all
    ultimately show ?thesis using cd_wp[OF assms(1), of ?arg] Cons True by (simp add: after_command_def)
  next
    case False
    have "only_con (run_command args)"
      using Cons False assms(3) unfolding run_command_def
      by (auto simp: strcmp_names Let_def intro!: only_con_view only_con_help only_con_pwd)
    from only_con_wp[OF this assms(1)] show ?thesis using Cons False by (simp add: after_command_def)
  qed
qed

text \<open>C36. Every command line, however it is split into words, except for \<open>wh\<close> (which may open a directory), is
  carried out without an error and leaves the open directories and the memory as they are; the array
  \<open>current\<close> keeps its size and its terminating zero byte, and the directory changes by \<open>cd\<close> only: back to the start
  without an argument, nowhere for a dot, one component up for two dots, to the rest of an absolute path, and to the
  path joined with a slash otherwise, where a path that does not fit leaves the directory as it is.\<close>

theorem command_keeps_current:
  assumes "length (current t) = 100" and "strlen (current t) < 100" and "0 \<notin> set xs"
    and "take 1 (tokens 16 xs) \<noteq> [str ''wh'']"
  shows "wp (command_parser (xs @ 0 # zs))
    (\<lambda>_ u. Libc_String.cstr (current u) = after_command (tokens 16 xs) (Libc_String.cstr (current t))
       \<and> length (current u) = 100 \<and> strlen (current u) < 100 \<and> k_fs (t_k u) = k_fs (t_k t) \<and> k_mem (t_k u) = k_mem (t_k t))
    (\<lambda>_ _. False) t"
proof -
  have ok: "cur_ok t" using assms(1,2) by (simp add: cur_ok_def)
  let ?cs = "Libc_String.cstr (current t)"
  obtain args where a: "(command_parser (xs @ 0 # zs) :: ('a, unit) tprog) = run_command args" "map Libc_String.cstr args = tokens 16 xs"
    "\<forall>a \<in> set args. 0 \<in> set a" by (rule command_parser_words[OF assms(3)])
  show ?thesis
    unfolding a(1)
  proof (rule wp_conseq[OF cd_command_wp[OF ok a(3)]])
    show "take 1 (map Libc_String.cstr args) \<noteq> [str ''wh'']" using assms(4) a(2) by simp
  qed (auto simp: cd_post_def cur_ok_def a(2))
qed

text \<open>C38. A \<open>wh\<close> with an argument of 123 characters or more, which a line has room for, writes behind the array
  \<open>path\<close> of 128 bytes; a shorter argument, and the current directory, fit.\<close>

theorem wh_argument_overflows:
  assumes "0 \<notin> set xs" and "tokens 16 xs = str ''wh'' # a # ws" and "123 \<le> length a"
  shows "command_parser (xs @ 0 # zs) t = Some (Inl Overflow, t)"
proof -
  obtain args where r: "(command_parser (xs @ 0 # zs) :: ('a, unit) tprog) = run_command args" "map Libc_String.cstr args = tokens 16 xs"
    by (rule command_parser_words[OF assms(1)])
  then obtain x y as where args: "args = x # y # as" "Libc_String.cstr x = str ''wh''" "Libc_String.cstr y = a"
    unfolding assms(2) by (auto simp: map_eq_Cons_conv)
  have "wh_path y = None" using assms(3) args(3) by (simp add: wh_path_fits strlen_cstr)
  then show ?thesis
    using args unfolding r(1) by (simp add: run_command_def strcmp_names names_differ run_gets throw_def)
qed

theorem command_keeps_current_witness:
  "wp (command_parser ([0x63, 0x64, 0x20, 0x2e, 0x2e] @ 0 # [0x20])) (\<lambda>_ u. Libc_String.cstr (current u) = str ''space'')
     (\<lambda>_ _. False) (term_init (demo_kst []))"
proof -
  let ?t = "term_init (demo_kst [])" and ?xs = "[0x63, 0x64, 0x20, 0x2e, 0x2e] :: u8 list"
  have c: "Libc_String.cstr (current ?t) = str ''space/user''"
    by (simp add: term_init_def str_dots cstr_simps) (simp add: Libc_String.cstr_def)
  then have t: "length (current ?t) = 100" "strlen (current ?t) < 100" by (simp_all add: strlen_cstr term_init_def str_dots)
  have k: "tokens 16 ?xs = [str ''cd'', [0x2e, 0x2e]]" unfolding command_names by code_simp
  have "0 \<notin> set ?xs" "take 1 (tokens 16 ?xs) \<noteq> [str ''wh'']" unfolding k by (simp_all add: command_names)
  from command_keeps_current[OF t this, of "[0x20]"] show ?thesis
    by (rule wp_conseq) (simp_all add: c k after_command_def cd_path_def parent_path_def str_def)
qed

theorem wh_argument_overflows_witness:
  "command_parser (([0x77, 0x68, 0x20] @ replicate 123 0x61) @ 0 # []) (term_init (demo_kst [])) = Some (Inl Overflow, term_init (demo_kst []))"
proof -
  have "tokens 16 ([0x77, 0x68, 0x20] @ replicate 123 0x61) = str ''wh'' # replicate 123 0x61 # []"
    unfolding command_names by code_simp
  from wh_argument_overflows[OF _ this] show ?thesis by simp
qed

end
