(* ===== verification/Kernel_Main.thy ===== *)
theory Kernel_Main
  imports Kernel_App Kernel_Gdt Kernel_Pmm
begin

text \<open>
  The start of the kernel, \<open>kmain\<close> in \<open>kernel/kernel.c\<close>, and the device part of \<open>kb_init\<close>: the
  components are set up one after the other, with a line on the screen for each, and then the terminal is loaded.
  What the linker, the assembler and the hardware supply is the record \<open>image\<close>.
\<close>

subsection \<open>The machine\<close>

text \<open>Port instructions, addresses of the static objects, interrupt entry points, the font, the two ends of
  the kernel, the handlers, the contents of an uninitialised sector buffer, and the file and line that the
  preprocessor puts into a panic of each message.\<close>

record ('h, 's) image =
  im_io :: "'h port_io"
  im_gdt :: u64
  im_tss :: u64
  im_df_stack :: u64
  im_stub :: "u64 list"
  im_font :: psf_header
  im_start :: u64
  im_end :: u64
  im_kbd :: "'s isr_handler"
  im_sys :: "'s isr_handler"
  im_sec :: "u8 list"
  im_where :: "string \<Rightarrow> u8 list \<times> u32"

text \<open>The hardware is behind the disk of the FAT glue; \<open>mc_row\<close> is the local \<open>i\<close> of \<open>kmain\<close>.\<close>

record ('h, 's) machine =
  mc_panic :: panic_st
  mc_gdt :: gdt_st
  mc_idt :: "'s idt_st"
  mc_kbd :: kbd
  mc_pmm :: pmm
  mc_fat :: "'h fat32_st"
  mc_row :: nat

text \<open>A panic ends the run with an error.\<close>

type_synonym ('h, 's, 'a) kprog = "(('h, 's) machine, unit, 'a) prog"

definition hw_of :: "('h, 's) machine \<Rightarrow> 'h" where
  "hw_of s = gl_hw (m_dev (f_mst (mc_fat s)))"

definition set_hw :: "'h \<Rightarrow> ('h, 's) machine \<Rightarrow> ('h, 's) machine" where
  "set_hw h s = s\<lparr>mc_fat := (mc_fat s)\<lparr>f_mst := (f_mst (mc_fat s))\<lparr>m_dev := (m_dev (f_mst (mc_fat s)))\<lparr>gl_hw := h\<rparr>\<rparr>\<rparr>\<rparr>"

definition on_hw :: "('h \<Rightarrow> 'h) \<Rightarrow> ('h, 's, unit) kprog" where
  "on_hw f = modify (\<lambda>s. set_hw (f (hw_of s)) s)"

definition show_ops :: "con_op list \<Rightarrow> ('h, 's, unit) kprog" where
  "show_ops ops = modify (\<lambda>s. s\<lparr>mc_panic := (mc_panic s)\<lparr>p_con := con_run ops (p_con (mc_panic s))\<rparr>\<rparr>)"

definition panic_at :: "('h, 's) image \<Rightarrow> string \<Rightarrow> ('h, 's, unit) kprog" where
  "panic_at im msg =
     bnd (modify (\<lambda>s. s\<lparr>mc_panic := kpanic (Some (str msg)) (Some (fst (im_where im msg))) (snd (im_where im msg)) (mc_panic s)\<rparr>))
       (\<lambda>_. throw ())"

abbreviation (input) Crust :: u32 where "Crust \<equiv> 0x11111b"
abbreviation (input) Lavender :: u32 where "Lavender \<equiv> 0xb4befe"
abbreviation (input) Sapphire :: u32 where "Sapphire \<equiv> 0x74c7ec"
abbreviation (input) Peach :: u32 where "Peach \<equiv> 0xfab387"
abbreviation (input) Red :: u32 where "Red \<equiv> 0xf38ba8"
abbreviation (input) Yantar :: u32 where "Yantar \<equiv> 0xffbf00"
abbreviation (input) TermBG :: u32 where "TermBG \<equiv> 0x181513"

definition kernel_statue :: "u8 list list" where
  "kernel_statue =
    [[0x20, 0x20, 0x20, 0x20, 0x25, 0x25, 0x25],
     [0x20, 0x20, 0x20, 0x3d, 0x3d, 0x3d, 0x3d, 0x3d],
     [0x20, 0x20, 0x26, 0x25, 0x26, 0x25, 0x25, 0x25, 0x26],
     [0x20, 0x20, 0x25, 0x26, 0x20, 0x3c, 0x20, 0x3c, 0x25, 0x20],
     [0x20, 0x20, 0x20, 0x26, 0x5c, 0x5f, 0x5f, 0x2f],
     [0x20, 0x20, 0x20, 0x20, 0x5c, 0x20, 0x7c, 0x5f, 0x5f, 0x5f, 0x5f],
     [0x20, 0x20, 0x20, 0x2e, 0x27, 0x2c, 0x20, 0x2c, 0x20, 0x20, 0x28, 0x29],
     [0x20, 0x20, 0x2f, 0x20, 0x2d, 0x2e, 0x20, 0x20, 0x5f, 0x29, 0x7c, 0x20],
     [0x20, 0x7c, 0x5f, 0x28, 0x5f, 0x2e, 0x20, 0x20, 0x20, 0x20, 0x7c],
     [0x20, 0x27, 0x2d, 0x27, 0x5c, 0x20, 0x20, 0x29, 0x20, 0x20, 0x7c],
     [0x20, 0x74, 0x72, 0x73, 0x20, 0x29, 0x20, 0x20, 0x20, 0x20, 0x7c],
     [0x20, 0x20, 0x20, 0x20, 0x2f, 0x20, 0x20, 0x2e, 0x20, 0x20, 0x29, 0x2e],
     [0x20, 0x20, 0x20, 0x2f, 0x20, 0x20, 0x20, 0x20, 0x5f, 0x2e, 0x20, 0x7c],
     [0x20, 0x2f, 0x27, 0x2d, 0x2d, 0x2d, 0x27, 0x3a, 0x2e, 0x2d, 0x27, 0x7c],
     [0x28, 0x5f, 0x5f, 0x2e, 0x27, 0x20, 0x2f, 0x20, 0x20, 0x20, 0x20, 0x2f],
     [0x20, 0x5c, 0x20, 0x20, 0x20, 0x28, 0x20, 0x2f, 0x20, 0x20, 0x2f],
     [0x20, 0x20, 0x5c, 0x20, 0x2f, 0x20, 0x20, 0x5f, 0x20, 0x20, 0x7c, 0x20],
     [0x20, 0x20, 0x20, 0x5c, 0x20, 0x20, 0x7c, 0x20, 0x20, 0x27, 0x7c],
     [0x20, 0x20, 0x20, 0x7c, 0x20, 0x2e, 0x20, 0x5c, 0x20, 0x20, 0x7c],
     [0x20, 0x20, 0x20, 0x7c, 0x28, 0x20, 0x20, 0x20, 0x20, 0x20, 0x7c, 0x20],
     [0x20, 0x20, 0x20, 0x7c, 0x20, 0x20, 0x5c, 0x20, 0x5c, 0x20, 0x7c],
     [0x20, 0x20, 0x20, 0x20, 0x5c, 0x20, 0x20, 0x29, 0x5c, 0x20, 0x7c],
     [0x20, 0x20, 0x20, 0x5f, 0x5f, 0x29, 0x2f, 0x20, 0x2f, 0x20, 0x5c],
     [0x2d, 0x2d, 0x22, 0x2d, 0x2d, 0x28, 0x5f, 0x2e, 0x4f, 0x6f, 0x6f, 0x27, 0x2d, 0x2d, 0x2d, 0x2d]]"

text \<open>The macros \<open>PRINT_STATUE\<close> and \<open>YES\<close>.\<close>

definition print_statue :: "('h, 's, unit) kprog" where
  "print_statue =
     bnd (gets mc_row) (\<lambda>i.
     bnd (show_ops [Set_color Red Crust, Print (kernel_statue ! i)]) (\<lambda>_.
     bnd (modify (\<lambda>s. s\<lparr>mc_row := i + 1\<rparr>)) (\<lambda>_.
     show_ops [Set_cursor 30 0, Set_color Sapphire Crust])))"

definition yes :: "con_op list" where
  "yes = [Set_color Peach Crust, Print (str ''[+]'' @ nl)]"

subsection \<open>The keyboard\<close>

text \<open>\<open>while(inb(KB_COM_PORT) & 1) inb(KB_DATA_PORT)\<close>\<close>

partial_function (option) kb_flush :: "'h port_io \<Rightarrow> 'h \<Rightarrow> 'h option" where
  "kb_flush io h =
     (case p_inb io 0x64 h of
        (st, h) \<Rightarrow> if st AND 1 \<noteq> 0 then kb_flush io (snd (p_inb io 0x60 h)) else Some h)"

definition kb_setup :: "('h, 's) image \<Rightarrow> ('h, 's, unit) kprog" where
  "kb_setup im =
     bnd (modify (\<lambda>s. s\<lparr>mc_kbd := kb_init (mc_kbd s), mc_idt := irq_install 1 (im_kbd im) (mc_idt s)\<rparr>)) (\<lambda>_ s.
     case kb_flush (im_io im) (hw_of s) of
       None \<Rightarrow> None
     | Some h \<Rightarrow> on_hw (pic_unmask (im_io im) 1) (set_hw h s))"

subsection \<open>Setting up\<close>

definition mem_setup :: "('h, 's) image \<Rightarrow> boot_info \<Rightarrow> ('h, 's, unit) kprog" where
  "mem_setup im bi =
     bnd (gets (\<lambda>s. pmm_init (im_start im) (im_end im) bi (mc_pmm s))) (\<lambda>r.
     case r of Inl msg \<Rightarrow> panic_at im msg | Inr m \<Rightarrow> modify (\<lambda>s. s\<lparr>mc_pmm := m\<rparr>))"

text \<open>The result of \<open>disk_init\<close> is the table of disks.\<close>

definition disk_setup :: "('h, 's) image \<Rightarrow> ('h, 's, unit) kprog" where
  "disk_setup im s =
     (case disk_init (im_io im) \<lparr>hw = hw_of s, xbuf = []\<rparr> of
        None \<Rightarrow> None
      | Some (Inl _, t) \<Rightarrow> Some (Inl (), set_hw (hw t) s)
      | Some (Inr ds, t) \<Rightarrow>
          let u = set_hw (hw t) s; f = f_mst (mc_fat u)
          in Some (Inr (), u\<lparr>mc_fat := (mc_fat u)\<lparr>f_mst := f\<lparr>m_dev := (m_dev f)\<lparr>gl_disks := ds\<rparr>\<rparr>\<rparr>\<rparr>))"

definition say_line :: "string \<Rightarrow> ('h, 's, unit) kprog" where
  "say_line msg = show_ops (Print (str msg) # yes)"

definition kmain_devices :: "('h, 's) image \<Rightarrow> boot_info \<Rightarrow> ('h, 's, unit) kprog" where
  "kmain_devices im bi =
     bnd print_statue (\<lambda>_.
     bnd (show_ops [Set_color Sapphire Crust]) (\<lambda>_.
     bnd (say_line ''Display initialized. '') (\<lambda>_.
     bnd print_statue (\<lambda>_. bnd (say_line ''GDT initialized. '') (\<lambda>_.
     bnd print_statue (\<lambda>_. bnd (say_line ''IDT initialized. '') (\<lambda>_.
     bnd print_statue (\<lambda>_. bnd (say_line ''PIC remaped. '') (\<lambda>_.
     bnd print_statue (\<lambda>_. bnd (kb_setup im) (\<lambda>_. bnd (say_line ''Keyboard intialized. '') (\<lambda>_.
     bnd print_statue (\<lambda>_. bnd (mem_setup im bi) (\<lambda>_. bnd (say_line ''Memory initialized. '') (\<lambda>_.
     bnd print_statue (\<lambda>_. bnd (disk_setup im) (\<lambda>_. bnd (say_line ''Disk initialized. '') (\<lambda>_.
     bnd print_statue (\<lambda>_. bnd (modify (\<lambda>s. s\<lparr>mc_idt := syscall_init (im_sys im) (mc_idt s)\<rparr>)) (\<lambda>_.
     say_line ''Syscall initialized. ''))))))))))))))))))))"

definition kmain_setup :: "('h, 's) image \<Rightarrow> framebuf_info \<Rightarrow> boot_info \<Rightarrow> ('h, 's, unit) kprog" where
  "kmain_setup im fbi bi =
     bnd (modify (\<lambda>s. s\<lparr>mc_gdt := gdt_init (im_gdt im) (im_tss im) (im_df_stack im)\<rparr>)) (\<lambda>_.
     bnd (on_hw (pic_remap (im_io im) 0x20)) (\<lambda>_.
     bnd (modify (\<lambda>s. s\<lparr>mc_idt := idt_init (im_stub im) (mc_idt s)\<rparr>)) (\<lambda>_.
     bnd (modify (\<lambda>s. s\<lparr>mc_row := 0, mc_panic := (mc_panic s)\<lparr>p_con := dsp_init (im_font im) fbi (p_con (mc_panic s))\<rparr>\<rparr>)) (\<lambda>_.
     kmain_devices im bi))))"

subsection \<open>The file system and the report\<close>

text \<open>The error number of \<open>fat32_init\<close>; a division by zero is an exception, which stops the machine.\<close>

definition fat_setup :: "('h, 's) image \<Rightarrow> ('h, 's, u32) kprog" where
  "fat_setup im s =
     (case fat32_init (im_io im) (im_sec im) 0 (mc_fat s) of
        None \<Rightarrow> None
      | Some (Inl Div_zero, f) \<Rightarrow> Some (Inl (), s\<lparr>mc_fat := f\<rparr>)
      | Some (Inl (Err e), f) \<Rightarrow> Some (Inr (word_of_int (the (err_code e))), s\<lparr>mc_fat := f\<rparr>)
      | Some (Inr _, f) \<Rightarrow> Some (Inr 0, s\<lparr>mc_fat := f\<rparr>))"

text \<open>A call of the FAT driver on the mounted volume.  The \<open>Dir\<close> of the call is not initialised: the path
  sets it before it is read.\<close>

definition volume_of :: "'d mst \<Rightarrow> 'd dctx" where
  "volume_of f = vol.extend (fat.extend (vols f 0) (vol.fields (m_dev f))) (dctx.fields (m_buf f) 0 0 False 0 0 0 0)"

definition in_volume :: "('h glue dctx, fat_err, 'a) prog \<Rightarrow> ('h, 's, fat_err + 'a) kprog" where
  "in_volume m s =
     (let f = f_mst (mc_fat s)
      in case m (volume_of f) of
           None \<Rightarrow> None
         | Some (r, v) \<Rightarrow> Some (Inr r, s\<lparr>mc_fat := (mc_fat s)\<lparr>f_mst :=
              f\<lparr>vols := (vols f)(0 := fat.truncate v), m_dev := dev v, m_buf := g_buf v\<rparr>\<rparr>\<rparr>))"

definition stat_kernel :: "('h, 's) image \<Rightarrow> loc \<Rightarrow> ('h, 's, unit) kprog" where
  "stat_kernel im junk =
     bnd (in_volume (fat_stat junk (str ''/dsk/space/sys/kern/kernel.bin''))) (\<lambda>r.
     case r of
       Inr info \<Rightarrow>
         bnd print_statue (\<lambda>_.
         bnd (show_ops [Set_color Lavender Crust, Print (str ''kernel.bin size: ''), Print_dec (di_size info), Print nl]) (\<lambda>_.
         print_statue))
     | Inl _ \<Rightarrow> panic_at im ''NO DISK'')"

definition statue_line :: "con_op list \<Rightarrow> ('h, 's, unit) kprog" where
  "statue_line ops = bnd print_statue (\<lambda>_. show_ops (Set_color Lavender Crust # ops))"

definition kmain_report :: "('h, 's) image \<Rightarrow> loc \<Rightarrow> ('h, 's, unit) kprog" where
  "kmain_report im junk =
     bnd print_statue (\<lambda>_. bnd (show_ops [Print nl]) (\<lambda>_.
     bnd (statue_line [Print (str ''System info:'' @ nl)]) (\<lambda>_.
     bnd (statue_line [Print (str ''----'')]) (\<lambda>_.
     bnd (fat_setup im) (\<lambda>ferr.
     bnd (show_ops [Print nl]) (\<lambda>_.
     bnd (statue_line ([Print (str ''FAT32 init: ''), Print (if ferr \<noteq> 0 then str (fat_get_error ferr) else [])] @ yes)) (\<lambda>_.
     bnd (if ferr = 0 then stat_kernel im junk else ret ()) (\<lambda>_.
     bnd (show_ops [Print nl]) (\<lambda>_.
     bnd (gets (\<lambda>s. (pmm_usable_pages (mc_pmm s), pmm_used_pages (mc_pmm s)))) (\<lambda>(usable, used).
     bnd (statue_line [Print (str ''usable pages: ''), Print_dec (ucast usable), Print nl]) (\<lambda>_.
     bnd (statue_line [Print (str ''used pages: ''), Print_dec (ucast used), Print nl]) (\<lambda>_.
     bnd (statue_line [Print nl]) (\<lambda>_.
     bnd (statue_line [Print (str ''TRS OS v0.0.8'' @ nl)]) (\<lambda>_.
     bnd (statue_line [Print (str ''=============='' @ nl @ nl)]) (\<lambda>_.
     show_ops [Set_color Yantar Crust, Print (str ''> [SYSTEM] ready.'' @ nl @ nl),
       Set_color Yantar Crust, Print (str ''START TERMINAL..'' @ nl), Print (str ''Press any key for work!'')])))))))))))))))"

subsection \<open>Starting the terminal\<close>

text \<open>\<open>ev\<close> is what the keyboard interrupt puts into the stream between two polls.\<close>

partial_function (option) wait_key :: "(nat \<Rightarrow> stream \<Rightarrow> stream) \<Rightarrow> nat \<Rightarrow> stream \<Rightarrow> (nat \<times> stream) option" where
  "wait_key ev k s =
     (case stream_try_read True 1 s of (r, _, s) \<Rightarrow> if r \<noteq> 0 then Some (k, s) else wait_key ev (Suc k) (ev k s))"

text \<open>The state the system calls work on.\<close>

definition user_state :: "('h, 's) machine \<Rightarrow> nat \<Rightarrow> stream \<Rightarrow> umem \<Rightarrow> 'h glue kst" where
  "user_state s tick kb mem =
     \<lparr>k_fs = \<lparr>k_fat = dctx.extend (volume_of (f_mst (mc_fat s))) (fctx.fields False 0 0 0 0 0 0 0 0 0 []),
              k_mounted = g_mounted (mc_fat s), g_dirs = replicate MAX_OPENDIRS zero_slot\<rparr>,
      k_con = p_con (mc_panic s), k_kb = kb, k_tick = tick, k_mem = mem\<rparr>"

text \<open>\<open>Inl\<close> is a machine that has halted; when the terminal returns the kernel idles.\<close>

definition kmain ::
  "('h, 's) image \<Rightarrow> framebuf_info \<Rightarrow> boot_info \<Rightarrow> loc \<Rightarrow> (nat \<Rightarrow> stream \<Rightarrow> stream) \<Rightarrow> timestamp \<Rightarrow>
   ('h glue kst \<Rightarrow> 'h glue kst option) \<Rightarrow> umem \<Rightarrow> ('h, 's) machine \<Rightarrow> (('h, 's) machine + int \<times> 'h glue kst) option" where
  "kmain im fbi bi junk ev now run mem s =
     (case bnd (kmain_setup im fbi bi) (\<lambda>_. kmain_report im junk) s of
        None \<Rightarrow> None
      | Some (Inl _, s) \<Rightarrow> Some (Inl s)
      | Some (Inr _, s) \<Rightarrow>
          (case wait_key ev 0 (kb_stream (mc_kbd s)) of
             None \<Rightarrow> None
           | Some (tick, kb) \<Rightarrow>
               let u = user_state s tick kb mem
               in map_option Inr (start_proc now run (str ''/dsk/space/sys/term.pro'')
                    (u\<lparr>k_con := con_run [Set_color Yantar TermBG, Clear] (k_con u)\<rparr>))))"

subsection \<open>The order of the steps\<close>

text \<open>The disk driver always returns.\<close>

definition returns :: "('s, 'e, 'a) prog \<Rightarrow> bool" where
  "returns m \<longleftrightarrow> (\<forall>s. m s \<noteq> None)"

lemma returns_rules:
  "returns (ret x)" "returns (throw e)" "returns (inb io p)" "returns (outb io p b)" "returns (inw io p)"
  "returns m \<Longrightarrow> (\<And>x. returns (f x)) \<Longrightarrow> returns (bnd m f)"
  "returns m \<Longrightarrow> (\<And>r. returns (g r)) \<Longrightarrow> returns (attempt m g)"
  "returns m \<Longrightarrow> returns n \<Longrightarrow> returns (if c then m else n)"
  by (simp_all add: returns_def ret_def throw_def inb_def outb_def inw_def modify_def bnd_def attempt_def
      split: option.splits sum.splits prod.splits)

lemma returns_waits: "returns (wait_bsy io p n)" "returns (wait_drq io p n)"
  by (induction n) (auto intro!: returns_rules)

lemma returns_inw: "returns (inw_many io p n)"
  by (induction n) (auto intro!: returns_rules)

lemma returns_identify: "returns (ata_identify io p c d)"
  unfolding ata_identify_def ata_delay400_def ata_wait_bsy_def ata_wait_drq_def Let_def
  by (intro returns_rules returns_waits returns_inw)

lemma disk_probe_returns: "\<exists>ds t. disk_probe io slots ds0 s = Some (Inr ds, t)"
proof (induction io slots ds0 arbitrary: s rule: disk_probe.induct)
  case (2 io p ctrl drive slots ds)
  obtain r t where r: "ata_identify io p ctrl drive s = Some (r, t)"
    using returns_identify[of io p ctrl drive] by (fastforce simp: returns_def)
  show ?case using r 2 by (cases r) (auto simp: attempt_def ret_def)
qed (simp add: ret_def)

text \<open>What is proved of each step: it returns, and changes only its own part of the machine.  \<open>c\<close> is the
  console before it; its memory behind the framebuffer is the same.\<close>

definition mc_at :: "console \<Rightarrow> gdt_st \<Rightarrow> 's idt_st \<Rightarrow> kbd \<Rightarrow> pmm \<Rightarrow> 'h set \<Rightarrow> ('h, 's) machine \<Rightarrow> bool" where
  "mc_at c g i k p H t \<longleftrightarrow> mc_gdt t = g \<and> mc_idt t = i \<and> mc_kbd t = k \<and> mc_pmm t = p \<and> hw_of t \<in> H
     \<and> con_frame c (p_con (mc_panic t)) \<and> con_geom (p_con (mc_panic t))"

definition boots :: "(('h, 's) machine \<Rightarrow> bool) \<Rightarrow> ('h, 's, unit) kprog \<Rightarrow> (('h, 's) machine \<Rightarrow> bool) \<Rightarrow> (('h, 's) machine \<Rightarrow> bool) \<Rightarrow> bool" where
  "boots P m Q E \<longleftrightarrow> (\<forall>s. P s \<longrightarrow> wp m (\<lambda>_. Q) (\<lambda>_. E) s)"

lemma boots_seq: "boots P m R E \<Longrightarrow> boots R n Q E \<Longrightarrow> boots P (bnd m (\<lambda>_. n)) Q E"
  unfolding boots_def wp_bnd by (blast intro: wp_conseq)

lemma boots_show: "boots (mc_at c g i k p H) (show_ops ops) (mc_at c g i k p H) E"
  unfolding boots_def
proof (intro allI impI)
  fix s assume s: "mc_at c g i k p H s"
  then have f: "con_frame (p_con (mc_panic s)) (con_run ops (p_con (mc_panic s)))" by (simp add: mc_at_def con_run_frame)
  show "wp (show_ops ops) (\<lambda>_. mc_at c g i k p H) (\<lambda>_. E) s"
    using s con_frame_trans[OF _ f, of c] con_frame_geom[OF f] by (simp add: show_ops_def wp_modify mc_at_def hw_of_def)
qed

lemma boots_statue: "boots (mc_at c g i k p H) print_statue (mc_at c g i k p H) E"
proof -
  have row: "mc_at c g i k p H (s\<lparr>mc_row := n\<rparr>) = mc_at c g i k p H s" for s n by (simp add: mc_at_def hw_of_def)
  show ?thesis
    unfolding boots_def print_statue_def wp_bnd wp_gets
  proof (intro allI impI)
    fix s assume s: "mc_at c g i k p H s"
    show "wp (show_ops [Set_color Red Crust, Print (kernel_statue ! mc_row s)]) (\<lambda>x. wp (modify (\<lambda>t. t\<lparr>mc_row := mc_row s + 1\<rparr>))
      (\<lambda>x. wp (show_ops [Set_cursor 30 0, Set_color Sapphire Crust]) (\<lambda>_. mc_at c g i k p H) (\<lambda>_. E)) (\<lambda>_. E)) (\<lambda>_. E) s"
      by (rule wp_conseq[OF boots_show[unfolded boots_def, rule_format, OF s]])
        (use boots_show[of c g i k p H] row in \<open>simp_all add: wp_modify boots_def\<close>)
  qed
qed

lemma boots_line: "boots (mc_at c g i k p H) (say_line msg) (mc_at c g i k p H) E"
  unfolding say_line_def by (rule boots_show)

lemma boots_kb:
  assumes "kb_flush (im_io im) h = Some h'"
  shows "boots (mc_at c g i k p {h}) (kb_setup im)
     (mc_at c g (irq_install 1 (im_kbd im) i) (kb_init k) p {pic_unmask (im_io im) 1 h'}) E"
  using assms by (auto simp: boots_def kb_setup_def bnd_def wp_def on_hw_def modify_def mc_at_def hw_of_def set_hw_def)

lemma boots_disk: "boots (mc_at c g i k p H) (disk_setup im) (mc_at c g i k p UNIV) E"
  unfolding boots_def
proof (intro allI impI)
  fix s assume s: "mc_at c g i k p H s"
  from disk_probe_returns obtain ds t where "disk_init (im_io im) \<lparr>hw = hw_of s, xbuf = []\<rparr> = Some (Inr ds, t)"
    unfolding disk_init_def by blast
  then show "wp (disk_setup im) (\<lambda>_. mc_at c g i k p UNIV) (\<lambda>_. E) s"
    using s by (simp add: disk_setup_def wp_def mc_at_def set_hw_def Let_def)
qed

text \<open>The machine after a panic.\<close>

definition halted_at :: "console \<Rightarrow> 's idt_st \<Rightarrow> ('h, 's) machine \<Rightarrow> bool" where
  "halted_at c i t \<longleftrightarrow> in_panic (mc_panic t) \<and> mc_idt t = i
     \<and> (\<forall>a \<ge> con_h c * con_pw c. con_mem (p_con (mc_panic t)) a = con_mem c a)"

lemma boots_mem:
  "boots (mc_at c g i k p H) (mem_setup im bi)
     (\<lambda>t. \<exists>m. pmm_init (im_start im) (im_end im) bi p = Inr m \<and> mc_at c g i k m H t)
     (\<lambda>t. \<exists>msg. pmm_init (im_start im) (im_end im) bi p = Inl msg \<and> halted_at c i t)"
  unfolding boots_def
proof (intro allI impI)
  fix s assume s: "mc_at c g i k p H s"
  show "wp (mem_setup im bi)
     (\<lambda>_ t. \<exists>m. pmm_init (im_start im) (im_end im) bi p = Inr m \<and> mc_at c g i k m H t)
     (\<lambda>_ t. \<exists>msg. pmm_init (im_start im) (im_end im) bi p = Inl msg \<and> halted_at c i t) s"
  proof (cases "pmm_init (im_start im) (im_end im) bi p")
    case (Inr m)
    then show ?thesis using s by (simp add: mem_setup_def wp_bnd wp_gets wp_modify mc_at_def hw_of_def)
  next
    case (Inl msg)
    let ?q = "kpanic (Some (str msg)) (Some (fst (im_where im msg))) (snd (im_where im msg)) (mc_panic s)"
    have f: "same_geom c (p_con (mc_panic s))" "con_geom (p_con (mc_panic s))"
      "\<And>a. con_h c * con_pw c \<le> a \<Longrightarrow> con_mem (p_con (mc_panic s)) a = con_mem c a"
      using s by (simp_all add: mc_at_def con_frame_def)
    have g: "con_h (p_con (mc_panic s)) * con_pw (p_con (mc_panic s)) = con_h c * con_pw c"
      using f(1) by (simp add: same_geom_def)
    have "con_mem (p_con ?q) a = con_mem c a" if "con_h c * con_pw c \<le> a" for a
      using panic_with_frame[OF f(2), of a] f(3)[OF that] that g by (simp add: kpanic_def)
    moreover have "in_panic ?q" by (simp add: kpanic_def panic_with_def)
    ultimately have "halted_at c i (s\<lparr>mc_panic := ?q\<rparr>)" using s by (simp add: halted_at_def mc_at_def)
    then show ?thesis using s Inl
      by (simp add: mem_setup_def panic_at_def wp_bnd wp_gets wp_modify wp_throw mc_at_def)
  qed
qed

lemma boots_ex: "(\<And>m. C m \<Longrightarrow> boots (P m) n Q E) \<Longrightarrow> boots (\<lambda>t. \<exists>m. C m \<and> P m t) n Q E"
  by (auto simp: boots_def)

lemma boots_sys:
  "boots (mc_at c g i k p H) (modify (\<lambda>s. s\<lparr>mc_idt := syscall_init sys (mc_idt s)\<rparr>)) (mc_at c g (syscall_init sys i) k p H) E"
  by (simp add: boots_def wp_modify mc_at_def hw_of_def)

lemma boots_post: "boots P m Q E \<Longrightarrow> (\<And>t. Q t \<Longrightarrow> Q' t) \<Longrightarrow> boots P m Q' E"
  unfolding boots_def by (blast intro: wp_conseq)

lemmas boots_steps = boots_statue boots_line boots_show boots_disk boots_sys

lemma boots_devices:
  assumes flush: "kb_flush (im_io im) h = Some h'"
  shows "boots (mc_at c g i k p {h}) (kmain_devices im bi)
     (\<lambda>t. \<exists>m. pmm_init (im_start im) (im_end im) bi p = Inr m
        \<and> mc_at c g (syscall_init (im_sys im) (irq_install 1 (im_kbd im) i)) (kb_init k) m UNIV t)
     (\<lambda>t. \<exists>msg. pmm_init (im_start im) (im_end im) bi p = Inl msg \<and> halted_at c (irq_install 1 (im_kbd im) i) t)"
proof -
  let ?i' = "irq_install 1 (im_kbd im) i"
  let ?E = "\<lambda>t. \<exists>msg. pmm_init (im_start im) (im_end im) bi p = Inl msg \<and> halted_at c ?i' t"
  let ?H = "{pic_unmask (im_io im) 1 h'}"
  let ?rest = "bnd (say_line ''Memory initialized. '') (\<lambda>_.
     bnd print_statue (\<lambda>_. bnd (disk_setup im) (\<lambda>_. bnd (say_line ''Disk initialized. '') (\<lambda>_.
     bnd print_statue (\<lambda>_. bnd (modify (\<lambda>s. s\<lparr>mc_idt := syscall_init (im_sys im) (mc_idt s)\<rparr>)) (\<lambda>_.
     say_line ''Syscall initialized. ''))))))"
  have rest: "boots (mc_at c g ?i' (kb_init k) m ?H) ?rest (mc_at c g (syscall_init (im_sys im) ?i') (kb_init k) m UNIV) ?E" for m
    by ((rule boots_seq, rule boots_steps)+, rule boots_line)
  have rest': "boots (\<lambda>t. \<exists>m. pmm_init (im_start im) (im_end im) bi p = Inr m \<and> mc_at c g ?i' (kb_init k) m ?H t) ?rest
     (\<lambda>t. \<exists>m. pmm_init (im_start im) (im_end im) bi p = Inr m
        \<and> mc_at c g (syscall_init (im_sys im) ?i') (kb_init k) m UNIV t) ?E"
    by (rule boots_ex, rule boots_post[OF rest]) blast
  show ?thesis
    unfolding kmain_devices_def
    by ((rule boots_seq, rule boots_statue boots_line boots_show boots_kb[OF flush] boots_mem)+, rule rest')
qed

text \<open>C39. The start of the kernel up to the system calls returns on every machine whose keyboard controller runs
  empty, and its steps do not undo each other: the descriptor table is the one of \<open>gdt_init\<close>, the gates are those of
  \<open>idt_init\<close> with the keyboard handler on line 1 and the system call on vector \<open>0x77\<close> as the only handlers, the
  keyboard stream is set up, and the page bitmap is the one that \<open>pmm_init\<close> makes of the memory map.  When the
  map is unusable the kernel stops in a panic, with interrupts only for the keyboard.  In both cases nothing behind the
  framebuffer is written.\<close>

theorem kmain_sets_up:
  assumes "kb_flush (im_io im) (pic_remap (im_io im) 0x20 (hw_of s)) = Some h"
    and "con_geom ((p_con (mc_panic s))\<lparr>con_font := im_font im, con_fb := fbi\<rparr>)"
  shows "case pmm_init (im_start im) (im_end im) bi (mc_pmm s) of
      Inr m \<Rightarrow> \<exists>t. kmain_setup im fbi bi s = Some (Inr (), t) \<and> mc_gdt t = gdt_init (im_gdt im) (im_tss im) (im_df_stack im)
        \<and> idt_table (mc_idt t) = idt_table (idt_init (im_stub im) (mc_idt s))
        \<and> isr_handlers (mc_idt t) = (replicate 256 None)[0x77 := Some (im_sys im)]
        \<and> irq_handlers (mc_idt t) = (replicate 16 None)[1 := Some (im_kbd im)]
        \<and> mc_kbd t = kb_init (mc_kbd s) \<and> mc_pmm t = m
        \<and> (\<forall>a. unat (fb_height fbi) * (unat (fb_pitch fbi) div 4) \<le> a \<longrightarrow> con_mem (p_con (mc_panic t)) a = con_mem (p_con (mc_panic s)) a)
    | Inl _ \<Rightarrow> \<exists>t. kmain_setup im fbi bi s = Some (Inl (), t) \<and> in_panic (mc_panic t)
        \<and> isr_handlers (mc_idt t) = replicate 256 None \<and> irq_handlers (mc_idt t) = (replicate 16 None)[1 := Some (im_kbd im)]
        \<and> (\<forall>a. unat (fb_height fbi) * (unat (fb_pitch fbi) div 4) \<le> a \<longrightarrow> con_mem (p_con (mc_panic t)) a = con_mem (p_con (mc_panic s)) a)"
proof -
  let ?c = "(p_con (mc_panic s))\<lparr>con_font := im_font im, con_fb := fbi\<rparr>"
  let ?g = "gdt_init (im_gdt im) (im_tss im) (im_df_stack im)" and ?i = "idt_init (im_stub im) (mc_idt s)"
  let ?u = "(set_hw (pic_remap (im_io im) 0x20 (hw_of s)) (s\<lparr>mc_gdt := ?g\<rparr>))\<lparr>mc_idt := ?i, mc_row := 0,
      mc_panic := (mc_panic s)\<lparr>p_con := dsp_init (im_font im) fbi (p_con (mc_panic s))\<rparr>\<rparr>"
  have f: "con_frame ?c (dsp_init (im_font im) fbi (p_con (mc_panic s)))"
    unfolding dsp_init_def by (rule dsp_clear_frame[OF assms(2)])
  have u: "mc_at ?c ?g ?i (mc_kbd s) (mc_pmm s) {pic_remap (im_io im) 0x20 (hw_of s)} ?u"
    using f con_frame_geom[OF f assms(2)] by (simp add: mc_at_def hw_of_def set_hw_def)
  have run: "kmain_setup im fbi bi s = kmain_devices im bi ?u"
    by (simp add: kmain_setup_def bnd_def modify_def on_hw_def hw_of_def set_hw_def)
  note w = boots_devices[OF assms(1), unfolded boots_def, rule_format, OF u]
  have c: "con_h ?c * con_pw ?c = unat (fb_height fbi) * (unat (fb_pitch fbi) div 4)" by simp
  from wp_returns[OF w] obtain r t where r: "kmain_devices im bi ?u = Some (r, t)" by blast
  show ?thesis
  proof (cases r)
    case (Inl e)
    note wp_InlD[OF w r[unfolded Inl]]
    then show ?thesis using r run Inl c
      by (auto simp: halted_at_def irq_install_def idt_init_def)
  next
    case (Inr x)
    note wp_InrD[OF w r[unfolded Inr]]
    then show ?thesis using r run Inr c
      by (auto simp: mc_at_def con_frame_def syscall_init_def isr_install_def irq_install_def idt_init_def)
  qed
qed

text \<open>A keyboard controller with bytes nobody has read yet, and nothing at the other ports.\<close>

definition kbc_io :: "u8 list port_io" where
  "kbc_io = \<lparr>p_inb = (\<lambda>p h. if p = 0x64 then (if h = [] then 0 else 1, h) else if p = 0x60 then (hd h, tl h) else (0, h)),
     p_outb = (\<lambda>_ _ h. h), p_inw = (\<lambda>_ h. (0, h)), p_outw = (\<lambda>_ _ h. h)\<rparr>"

definition demo_image :: "(u8 list, nat) image" where
  "demo_image = \<lparr>im_io = kbc_io, im_gdt = 0x1000, im_tss = 0x2000, im_df_stack = 0x3000, im_stub = replicate 256 0x4000,
     im_font = con_font demo_con, im_start = 0x100000, im_end = 0x180000, im_kbd = (\<lambda>r n. (r, n + 1)), im_sys = (\<lambda>r n. (r, n)),
     im_sec = replicate 512 0, im_where = (\<lambda>_. ([], 0))\<rparr>"

definition demo_machine :: "(u8 list, nat) machine" where
  "demo_machine = \<lparr>mc_panic = \<lparr>p_con = demo_con, in_panic = False\<rparr>, mc_gdt = gdt_init 0 0 0,
     mc_idt = \<lparr>idt_table = [], idt_limit = 0, isr_handlers = [], irq_handlers = []\<rparr>,
     mc_kbd = \<lparr>kb_stream = typed [], shift_down = False, caps_down = False\<rparr>, mc_pmm = pmm0,
     mc_fat = \<lparr>f_mst = \<lparr>vols = (\<lambda>_. \<lparr>fat_next = None, fat_ops = \<lparr>op_read = (\<lambda>b n d. (False, b, d)), op_write = (\<lambda>b n d. (False, d))\<rparr>,
        clust_msk = 0, clust_cnt = 0, info_sect = 0, fat_sect0 = 0, fat_sect1 = 0, data_sect = 0, root_clust = 0, last_used = 0,
        free_cnt = 0, buf_sect = 0, fat_buf = replicate 512 0, fat_flags = 0, clust_shift = 0, fat_name_len = 0,
        fat_name = replicate 32 0\<rparr>), g_fat_list = None,
        m_dev = \<lparr>gl_hw = [0x1c, 0x9c], gl_disks = [], g_disk_id = 0, g_base_lba = 0\<rparr>, m_buf = replicate 512 0\<rparr>,
      g_mounted = False\<rparr>, mc_row = 0\<rparr>"

theorem kmain_sets_up_witness:
  "\<exists>t. kmain_setup demo_image (con_fb demo_con) Kernel_Pmm.demo_boot demo_machine = Some (Inr (), t)
     \<and> isr_handlers (mc_idt t) ! 0x77 = Some (im_sys demo_image) \<and> irq_handlers (mc_idt t) ! 1 = Some (im_kbd demo_image)
     \<and> total_pages (mc_pmm t) = 4096 \<and> con_mem (p_con (mc_panic t)) 240 = 7"
proof -
  have io: "im_io demo_image = kbc_io" by (simp add: demo_image_def)
  have hw: "hw_of demo_machine = [0x1c, 0x9c]" by (simp add: hw_of_def demo_machine_def)
  have "pic_remap kbc_io 0x20 h = h" for h by (simp add: pic_remap_def out_wait_def kbc_io_def)
  moreover have "kb_flush kbc_io [0x1c, 0x9c] = Some []"
    by (subst kb_flush.simps, simp add: kbc_io_def, subst kb_flush.simps, simp, subst kb_flush.simps, simp)
  ultimately have f: "kb_flush (im_io demo_image) (pic_remap (im_io demo_image) 0x20 (hw_of demo_machine)) = Some []"
    unfolding io hw by simp
  have g: "con_geom ((p_con (mc_panic demo_machine))\<lparr>con_font := im_font demo_image, con_fb := con_fb demo_con\<rparr>)"
    using demo_con_ok(2) by (simp add: demo_machine_def demo_image_def)
  obtain m where m: "pmm_init (im_start demo_image) (im_end demo_image) Kernel_Pmm.demo_boot (mc_pmm demo_machine) = Inr m"
    "total_pages m = 4096" using demo_boot_init by (auto simp: demo_image_def demo_machine_def)
  from kmain_sets_up[OF f g, of Kernel_Pmm.demo_boot, unfolded m(1) sum.case] obtain t where
    t: "kmain_setup demo_image (con_fb demo_con) Kernel_Pmm.demo_boot demo_machine = Some (Inr (), t)"
      "isr_handlers (mc_idt t) = (replicate 256 None)[0x77 := Some (im_sys demo_image)]"
      "irq_handlers (mc_idt t) = (replicate 16 None)[1 := Some (im_kbd demo_image)]" "mc_pmm t = m"
      "\<forall>a. unat (fb_height (con_fb demo_con)) * (unat (fb_pitch (con_fb demo_con)) div 4) \<le> a \<longrightarrow>
         con_mem (p_con (mc_panic t)) a = con_mem (p_con (mc_panic demo_machine)) a" by blast
  have "con_mem (p_con (mc_panic t)) 240 = 7"
    using t(5)[rule_format, of 240] by (simp add: demo_machine_def demo_con_def)
  then show ?thesis using t m(2) by simp
qed

end
