(* ===== verification/Boot_Loader.thy ===== *)
theory Boot_Loader
  imports Prelude
begin

text \<open>
  The boot loader, \<open>bootloader/uefi/boot.c\<close>.  The firmware is a parameter: a record of the boot services that
  the loader calls, over a state of the firmware.  A service returns whether its status is \<open>EFI_SUCCESS\<close>, and what it
  stores through its pointers.  \<open>fatal\<close> stops the machine and is an error with its message.
  Printed texts are given without their line ends.
\<close>

subsection \<open>Firmware\<close>

datatype pixel_format = RedGreenBlue | BlueGreenRed | BitMask | BltOnly

record gop_info =
  gi_width :: u32
  gi_height :: u32
  gi_format :: pixel_format
  gi_masks :: "u32 \<times> u32 \<times> u32 \<times> u32"
  gi_line :: u32

text \<open>\<open>GetMemoryMap\<close> is given the size of the buffer; the answer is its success, or that the buffer is too
  small, or another error, with the size, the key and the size of a descriptor.\<close>

datatype map_status = Map_ok | Map_too_small | Map_error

record 'f uefi =
  ue_init :: "'f \<Rightarrow> 'f"
  ue_print :: "string \<Rightarrow> 'f \<Rightarrow> 'f"
  ue_volume :: "'f \<Rightarrow> 'f"
  ue_open :: "'f \<Rightarrow> bool \<times> 'f"
  ue_file_size :: "'f \<Rightarrow> u64 \<times> 'f"
  ue_alloc_at :: "u64 \<Rightarrow> u64 \<Rightarrow> 'f \<Rightarrow> bool \<times> 'f"
  ue_read :: "u64 \<Rightarrow> u64 \<Rightarrow> 'f \<Rightarrow> (bool \<times> u64) \<times> 'f"
  ue_close :: "'f \<Rightarrow> 'f"
  ue_gop :: "'f \<Rightarrow> (bool \<times> u64) \<times> 'f"
  ue_mode :: "'f \<Rightarrow> u32"
  ue_max_mode :: "'f \<Rightarrow> u32"
  ue_query :: "u32 \<Rightarrow> 'f \<Rightarrow> (u64 \<times> u32 \<times> u32) option \<times> 'f"
  ue_set_mode :: "u32 \<Rightarrow> 'f \<Rightarrow> 'f"
  ue_info :: "'f \<Rightarrow> gop_info"
  ue_base :: "'f \<Rightarrow> u64 \<times> u64"
  ue_alloc_pages :: "u64 \<Rightarrow> 'f \<Rightarrow> u64 \<times> 'f"
  ue_alloc_pool :: "u64 \<Rightarrow> 'f \<Rightarrow> (bool \<times> u64) \<times> 'f"
  ue_free_pool :: "u64 \<Rightarrow> 'f \<Rightarrow> 'f"
  ue_get_map :: "u64 \<Rightarrow> u64 \<Rightarrow> 'f \<Rightarrow> (map_status \<times> u64 \<times> u64 \<times> u64) \<times> 'f"
  ue_exit :: "u64 \<Rightarrow> 'f \<Rightarrow> bool \<times> 'f"

text \<open>\<open>boot_info_t\<close>, with the frame buffer in it.\<close>

record loader_info =
  li_base :: u64
  li_size :: u64
  li_width :: u32
  li_height :: u32
  li_pitch :: u32
  li_bpp :: u32
  li_masks :: "u32 \<times> u32 \<times> u32 \<times> u32"
  li_mmap_addr :: u64
  li_mmap_size :: u64
  li_mmap_dsize :: u64
  li_stack_top :: u64

record 'f loader =
  ld_fw :: 'f
  ld_info :: loader_info

type_synonym ('f, 'a) lprog = "('f loader, string, 'a) prog"

definition call :: "('f \<Rightarrow> 'a \<times> 'f) \<Rightarrow> ('f, 'a) lprog" where
  "call c = (\<lambda>s. case c (ld_fw s) of (x, f) \<Rightarrow> Some (Inr x, s\<lparr>ld_fw := f\<rparr>))"

definition call0 :: "('f \<Rightarrow> 'f) \<Rightarrow> ('f, unit) lprog" where
  "call0 c = modify (\<lambda>s. s\<lparr>ld_fw := c (ld_fw s)\<rparr>)"

definition fatal :: "'f uefi \<Rightarrow> string \<Rightarrow> ('f, 'a) lprog" where
  "fatal ue msg = bnd (call0 (ue_print ue (''<< UEFI FATAL >> '' @ msg))) (\<lambda>_. throw msg)"

definition or_fatal :: "'f uefi \<Rightarrow> string \<Rightarrow> bool \<Rightarrow> ('f, unit) lprog" where
  "or_fatal ue msg ok = (if ok then ret () else fatal ue msg)"

subsection \<open>The kernel image\<close>

abbreviation (input) KERNEL_ADDR :: u64 where "KERNEL_ADDR \<equiv> 0x100000"

definition kernel_pages :: "u64 \<Rightarrow> u64" where
  "kernel_pages n = (n + 0xfff) div 0x1000 + 64"

definition read_kernel :: "'f uefi \<Rightarrow> ('f, u64) lprog" where
  "read_kernel ue =
     bnd (call (ue_open ue)) (\<lambda>ok. bnd (or_fatal ue ''cannot open kernel.'' ok) (\<lambda>_.
     bnd (call (ue_file_size ue)) (\<lambda>n.
     bnd (call (ue_alloc_at ue (kernel_pages n) KERNEL_ADDR)) (\<lambda>ok. bnd (or_fatal ue ''Allocate fail.'' ok) (\<lambda>_.
     bnd (call (ue_read ue n KERNEL_ADDR)) (\<lambda>(ok, n). bnd (or_fatal ue ''file read error.'' ok) (\<lambda>_.
     bnd (call0 (ue_close ue)) (\<lambda>_. ret n))))))))"

subsection \<open>The frame buffer\<close>

text \<open>The loop over the modes; the product of the resolutions has 32 bits.\<close>

partial_function (option) best_mode ::
  "'f uefi \<Rightarrow> u32 \<Rightarrow> u32 \<Rightarrow> u32 \<Rightarrow> 'f loader \<Rightarrow> ((string + u32) \<times> 'f loader) option" where
  "best_mode ue i best bestpx s =
     bnd (gets (\<lambda>s. ue_max_mode ue (ld_fw s))) (\<lambda>n.
     if i < n then
       bnd (call (ue_query ue i)) (\<lambda>q.
       case q of
         None \<Rightarrow> best_mode ue (i + 1) best bestpx
       | Some (mi, w, h) \<Rightarrow>
           bnd (call0 (ue_free_pool ue mi)) (\<lambda>_.
           if w * h > bestpx then best_mode ue (i + 1) i (w * h) else best_mode ue (i + 1) best bestpx))
     else ret best) s"

definition fb_masks :: "gop_info \<Rightarrow> (u32 \<times> u32 \<times> u32) option" where
  "fb_masks mi = (case gi_format mi of
     RedGreenBlue \<Rightarrow> Some (0xff0000, 0x00ff00, 0x0000ff)
   | BlueGreenRed \<Rightarrow> Some (0x0000ff, 0x00ff00, 0xff0000)
   | BitMask \<Rightarrow> (case gi_masks mi of (r, g, b, _) \<Rightarrow> Some (r, g, b))
   | BltOnly \<Rightarrow> None)"

definition init_framebuf :: "'f uefi \<Rightarrow> ('f, unit) lprog" where
  "init_framebuf ue =
     bnd (call (ue_gop ue)) (\<lambda>(ok, gop). bnd (or_fatal ue ''framebuffer initialization.'' (ok \<and> gop \<noteq> 0)) (\<lambda>_.
     bnd (gets (\<lambda>s. ue_mode ue (ld_fw s))) (\<lambda>cur.
     bnd (best_mode ue 0 cur 0) (\<lambda>best.
     bnd (gets (\<lambda>s. ue_mode ue (ld_fw s))) (\<lambda>cur.
     bnd (if best \<noteq> cur then call0 (ue_set_mode ue best) else ret ()) (\<lambda>_.
     bnd (gets (\<lambda>s. (ue_info ue (ld_fw s), ue_base ue (ld_fw s)))) (\<lambda>(mi, base, fbsize).
     case fb_masks mi of
       None \<Rightarrow> fatal ue ''no linear framebufer''
     | Some (rm, gm, bm) \<Rightarrow>
         bnd (modify (\<lambda>s. s\<lparr>ld_info := (ld_info s)\<lparr>li_base := base, li_size := fbsize, li_width := gi_width mi,
           li_height := gi_height mi, li_pitch := gi_line mi * 4, li_bpp := 32,
           li_masks := (rm, gm, bm, snd (snd (snd (gi_masks mi))))\<rparr>\<rparr>)) (\<lambda>_.
         or_fatal ue ''bad framebuffer.'' (base \<noteq> 0 \<and> gi_width mi \<noteq> 0 \<and> gi_height mi \<noteq> 0)))))))))"

subsection \<open>The memory map\<close>

partial_function (option) get_map ::
  "'f uefi \<Rightarrow> u64 \<Rightarrow> u64 \<Rightarrow> 'f loader \<Rightarrow> ((string + unit) \<times> 'f loader) option" where
  "get_map ue msize ds s =
     bnd (if ds \<noteq> 0 then call0 (ue_free_pool ue ds) else ret ()) (\<lambda>_.
     bnd (call (ue_alloc_pool ue msize)) (\<lambda>(ok, ds).
     bnd (or_fatal ue ''cannot allocate pool for mmap.'' ok) (\<lambda>_.
     bnd (call (ue_get_map ue msize ds)) (\<lambda>(es, actual, mkey, dsize).
     if es = Map_too_small then get_map ue (actual + 0x2000) ds
     else
       bnd (or_fatal ue ''memory mapping.'' (es = Map_ok)) (\<lambda>_.
       bnd (modify (\<lambda>s. s\<lparr>ld_info := (ld_info s)\<lparr>li_mmap_dsize := dsize, li_mmap_size := actual, li_mmap_addr := ds\<rparr>\<rparr>)) (\<lambda>_.
       bnd (call (ue_exit ue mkey)) (\<lambda>ok. if ok then ret () else get_map ue (actual + 0x2000) ds))))))) s"

subsection \<open>The whole\<close>

text \<open>\<open>kjump\<close> gives the entry and the stack.  \<open>ue_init\<close> is the library's start and the clearing of the screen,
  \<open>ue_volume\<close> the way to the root directory of the volume, whose results are not tested.  The number in the message
  is left out.\<close>

definition efi_main :: "'f uefi \<Rightarrow> ('f, u64 \<times> u64) lprog" where
  "efi_main ue =
     bnd (call0 (ue_init ue)) (\<lambda>_.
     bnd (call0 (ue_print ue ''<< TRS UEFI >>'')) (\<lambda>_.
     bnd (call0 (ue_volume ue)) (\<lambda>_.
     bnd (read_kernel ue) (\<lambda>size.
     bnd (call0 (ue_print ue ''Kernel loaded to 0x100000'')) (\<lambda>_.
     bnd (init_framebuf ue) (\<lambda>_.
     bnd (call (ue_alloc_pages ue 32)) (\<lambda>stack.
     bnd (modify (\<lambda>s. s\<lparr>ld_info := (ld_info s)\<lparr>li_stack_top := stack + 32 * 0x1000\<rparr>\<rparr>)) (\<lambda>_.
     bnd (get_map ue 0x1000 0) (\<lambda>_.
     gets (\<lambda>s. (KERNEL_ADDR, li_stack_top (ld_info s))))))))))))"


subsection \<open>The mode with the most pixels\<close>

definition mode_pixels :: "(u32 \<Rightarrow> (u64 \<times> u32 \<times> u32) option) \<Rightarrow> u32 \<Rightarrow> u32" where
  "mode_pixels q i = (case q i of None \<Rightarrow> 0 | Some (_, w, h) \<Rightarrow> w * h)"

lemma wp_call [wp_rules]:
  "wp (call c) Q E s = Q (fst (c (ld_fw s))) (s\<lparr>ld_fw := snd (c (ld_fw s))\<rparr>)"
  by (simp add: wp_def call_def split: prod.split)

lemma wp_call0 [wp_rules]: "wp (call0 c) Q E s = Q () (s\<lparr>ld_fw := c (ld_fw s)\<rparr>)"
  by (simp add: call0_def wp_modify)

lemma wp_fatal [wp_rules]:
  "wp (fatal ue msg) Q E s = E msg (s\<lparr>ld_fw := ue_print ue (''<< UEFI FATAL >> '' @ msg) (ld_fw s)\<rparr>)"
  by (simp add: fatal_def wp_bnd wp_call0 wp_throw)

lemma wp_or_fatal [wp_rules]:
  "wp (or_fatal ue msg ok) Q E s = (if ok then Q () s
     else E msg (s\<lparr>ld_fw := ue_print ue (''<< UEFI FATAL >> '' @ msg) (ld_fw s)\<rparr>))"
  by (simp add: or_fatal_def wp_ret wp_fatal)

lemma best_mode_eq: "best_mode ue i best bestpx =
     bnd (gets (\<lambda>s. ue_max_mode ue (ld_fw s))) (\<lambda>n.
     if i < n then
       bnd (call (ue_query ue i)) (\<lambda>q.
       case q of
         None \<Rightarrow> best_mode ue (i + 1) best bestpx
       | Some (mi, w, h) \<Rightarrow>
           bnd (call0 (ue_free_pool ue mi)) (\<lambda>_.
           if w * h > bestpx then best_mode ue (i + 1) i (w * h) else best_mode ue (i + 1) best bestpx))
     else ret best)"
  by (rule ext) (rule best_mode.simps)

text \<open>What the loop knows when it has tried the modes below \<open>i\<close>.\<close>

definition best_below :: "(u32 \<Rightarrow> u32) \<Rightarrow> u32 \<Rightarrow> u32 \<Rightarrow> u32 \<Rightarrow> u32 \<Rightarrow> bool" where
  "best_below px cur i best bestpx \<longleftrightarrow> (\<forall>j<i. px j \<le> bestpx) \<and>
     (if bestpx = 0 then best = cur else best < i \<and> px best = bestpx \<and> (\<forall>j<best. px j < bestpx))"

lemma unat_up: "(i :: u32) < n \<Longrightarrow> unat (i + 1) = unat i + 1"
proof -
  assume "i < n"
  then have "unat i < unat n" by (simp add: word_less_nat_alt)
  moreover have "unat n < 2 ^ 32" using unsigned_less[of n, where ?'a = nat] by simp
  ultimately show ?thesis by (simp add: unat_word_ariths)
qed

lemma word_less_up: "(i :: u32) < n \<Longrightarrow> (j < i + 1) = (j < i \<or> j = i)"
  by (auto simp: word_less_nat_alt unat_up word_unat_eq_iff)

lemma best_below_greater:
  assumes "best_below px cur i best bestpx" and "i < n" and g: "px i > bestpx"
  shows "best_below px cur (i + 1) i (px i)"
proof -
  have nz: "px i \<noteq> 0" using g by auto
  have "px j \<le> bestpx" if "j < i" for j using assms(1) that by (simp add: best_below_def)
  then have "px j < px i" if "j < i" for j using that g order_le_less_trans by blast
  then show ?thesis using nz by (auto simp: best_below_def word_less_up[OF assms(2)] order.strict_implies_order)
qed

lemma best_below_not:
  assumes "best_below px cur i best bestpx" and "i < n" and "\<not> px i > bestpx"
  shows "best_below px cur (i + 1) best bestpx"
  using assms(1,3) by (auto simp: best_below_def word_less_up[OF assms(2)] not_less)

lemma best_mode_loop:
  assumes n: "\<And>f. ue_max_mode ue f = n" and q: "\<And>i f. fst (ue_query ue i f) = q i"
    and i: "i \<le> n" and b: "best_below (mode_pixels q) cur i best bestpx"
  shows "wp (best_mode ue i best bestpx) (\<lambda>best' t. (\<exists>bestpx'. best_below (mode_pixels q) cur n best' bestpx') \<and>
     ld_info t = ld_info s) (\<lambda>_ _. False) s"
  using i b
proof (induction "unat n - unat i" arbitrary: i best bestpx s rule: less_induct)
  case less
  show ?case
  proof (cases "i < n")
    case True
    have m: "unat n - unat (i + 1) < unat n - unat i" and le: "i + 1 \<le> n"
      using True by (auto simp: inc_le unat_up word_less_nat_alt)
    have go: "wp (best_mode ue (i + 1) b bp) (\<lambda>best' t.
        (\<exists>bestpx'. best_below (mode_pixels q) cur n best' bestpx') \<and> ld_info t = ld_info s) (\<lambda>_ _. False) s'"
      if "best_below (mode_pixels q) cur (i + 1) b bp" "ld_info s' = ld_info s" for b bp s'
      using less.hyps[OF m le that(1), of s'] that(2) by simp
    note st = best_below_greater[OF less.prems(2) True] best_below_not[OF less.prems(2) True]
    show ?thesis
    proof (cases "q i")
      case None
      then have "best_below (mode_pixels q) cur (i + 1) best bestpx" by (intro st) (simp add: mode_pixels_def)
      then show ?thesis using True None go by (subst best_mode_eq) (simp add: wp_rules n q)
    next
      case (Some y)
      obtain mi w h where y: "y = (mi, w, h)" by (cases y)
      then have px: "mode_pixels q i = w * h" using Some by (simp add: mode_pixels_def)
      show ?thesis using True Some y px st go
        by (subst best_mode_eq) (simp add: wp_rules n q)
    qed
  next
    case False
    then show ?thesis using less.prems
      by (subst best_mode_eq) (auto simp: wp_rules n)
  qed
qed


text \<open> The loop over the video modes ends for every firmware whose number of modes is fixed and whose answers
  about a mode do not change, and it chooses, among the modes the firmware describes, the first with the most pixels
  (a product of 32 bits); when no mode has a pixel it keeps the current one.\<close>

theorem best_mode_largest:
  assumes "\<And>f. ue_max_mode ue f = n" and "\<And>i f. fst (ue_query ue i f) = q i"
  shows "wp (best_mode ue 0 cur 0) (\<lambda>best _.
     if \<exists>i<n. mode_pixels q i \<noteq> 0 then best < n \<and> (\<forall>i<n. mode_pixels q i \<le> mode_pixels q best) \<and>
       (\<forall>i<best. mode_pixels q i < mode_pixels q best)
     else best = cur) (\<lambda>_ _. False) s"
proof (rule wp_conseq[OF best_mode_loop[OF assms, where i = 0 and cur = cur]], goal_cases)
  case (3 best t)
  then show ?case by (fastforce simp: best_below_def word_le_0_iff split: if_splits)
qed (auto simp: best_below_def)

subsection \<open>Handing over\<close>

text \<open>What the loop relies on: the map has a size below \<open>2 ^ 63\<close>, which a call of the pool
  makes grow by at most \<open>0x800\<close> bytes; the map is given when the buffer is large enough and its size always; and
  a refusal of \<open>ExitBootServices\<close> happens finitely often.\<close>

definition maps_settle :: "'f uefi \<Rightarrow> ('f \<Rightarrow> nat) \<Rightarrow> ('f \<Rightarrow> nat) \<Rightarrow> bool" where
  "maps_settle ue sz tries \<longleftrightarrow>
     (\<forall>f. sz f < 2 ^ 63) \<and>
     (\<forall>d f. sz (ue_free_pool ue d f) \<le> sz f + 0x800 \<and> tries (ue_free_pool ue d f) = tries f) \<and>
     (\<forall>n f. sz (snd (ue_alloc_pool ue n f)) \<le> sz f + 0x800 \<and> tries (snd (ue_alloc_pool ue n f)) = tries f) \<and>
     (\<forall>n d f es actual key ds f'. ue_get_map ue n d f = ((es, actual, key, ds), f') \<longrightarrow>
        sz f' = sz f \<and> tries f' = tries f \<and> unat actual = sz f \<and>
        es = (if sz f \<le> unat n then Map_ok else Map_too_small)) \<and>
     (\<forall>k f f'. ue_exit ue k f = (False, f') \<longrightarrow> tries f' < tries f)"

text \<open>The map in the boot information was stored in a buffer of the pool, and the next call, with its key, ended the
  boot services.\<close>

definition handed :: "'f uefi \<Rightarrow> loader_info \<Rightarrow> 'f \<Rightarrow> bool" where
  "handed ue info f \<longleftrightarrow> (\<exists>n f0 f1 f2 key.
     ue_alloc_pool ue n f0 = ((True, li_mmap_addr info), f1) \<and>
     ue_get_map ue n (li_mmap_addr info) f1 = ((Map_ok, li_mmap_size info, key, li_mmap_dsize info), f2) \<and>
     li_mmap_size info \<le> n \<and> ue_exit ue key f2 = (True, f))"

lemma get_map_eq: "get_map ue msize ds =
     bnd (if ds \<noteq> 0 then call0 (ue_free_pool ue ds) else ret ()) (\<lambda>_.
     bnd (call (ue_alloc_pool ue msize)) (\<lambda>(ok, ds).
     bnd (or_fatal ue ''cannot allocate pool for mmap.'' ok) (\<lambda>_.
     bnd (call (ue_get_map ue msize ds)) (\<lambda>(es, actual, mkey, dsize).
     if es = Map_too_small then get_map ue (actual + 0x2000) ds
     else
       bnd (or_fatal ue ''memory mapping.'' (es = Map_ok)) (\<lambda>_.
       bnd (modify (\<lambda>s. s\<lparr>ld_info := (ld_info s)\<lparr>li_mmap_dsize := dsize, li_mmap_size := actual, li_mmap_addr := ds\<rparr>\<rparr>)) (\<lambda>_.
       bnd (call (ue_exit ue mkey)) (\<lambda>ok. if ok then ret () else get_map ue (actual + 0x2000) ds)))))))"
  by (rule ext) (rule get_map.simps)

text \<open>The parts of the boot information that the loop over the map leaves.\<close>

definition same_fb :: "loader_info \<Rightarrow> loader_info \<Rightarrow> bool" where
  "same_fb a b \<longleftrightarrow> a\<lparr>li_mmap_addr := 0, li_mmap_size := 0, li_mmap_dsize := 0\<rparr> =
     b\<lparr>li_mmap_addr := 0, li_mmap_size := 0, li_mmap_dsize := 0\<rparr>"

lemma unat_grown: "unat (actual :: u64) < 2 ^ 63 \<Longrightarrow> unat (actual + 0x2000) = unat actual + 0x2000"
  by (simp add: unat_word_ariths)

lemma get_map_settles:
  assumes ms: "maps_settle ue sz tries"
  shows "wp (get_map ue msize ds) (\<lambda>_ t. handed ue (ld_info t) (ld_fw t) \<and> same_fb (ld_info t) (ld_info s))
     (\<lambda>msg _. msg = ''cannot allocate pool for mmap.'') s"
proof (induction "2 * tries (ld_fw s) + (if unat msize < sz (ld_fw s) + 0x1000 then 1 else 0 :: nat)"
    arbitrary: msize ds s rule: less_induct)
  case less
  define f0 where "f0 = (if ds \<noteq> 0 then ue_free_pool ue ds (ld_fw s) else ld_fw s)"
  obtain ok d f1 where a: "ue_alloc_pool ue msize f0 = ((ok, d), f1)" by (metis surj_pair)
  obtain es actual key dsz f2 where g: "ue_get_map ue msize d f1 = ((es, actual, key, dsz), f2)" by (metis surj_pair)
  obtain left f3 where x: "ue_exit ue key f2 = (left, f3)" by (metis surj_pair)
  have f0: "sz f0 \<le> sz (ld_fw s) + 0x800" "tries f0 = tries (ld_fw s)"
    using ms by (auto simp: maps_settle_def f0_def)
  have f1: "sz f1 \<le> sz f0 + 0x800" "tries f1 = tries f0"
    using ms a unfolding maps_settle_def by (metis snd_conv)+
  have f2: "sz f2 = sz f1" "tries f2 = tries f1" "unat actual = sz f1" "es = (if sz f1 \<le> unat msize then Map_ok else Map_too_small)"
    using ms g unfolding maps_settle_def by blast+
  have up: "unat (actual + 0x2000) = sz f1 + 0x2000"
    using unat_grown[of actual] ms f2(3) unfolding maps_settle_def by metis
  have f3: "\<not> left \<Longrightarrow> tries f3 < tries f2"
    using ms x by (auto simp: maps_settle_def)
  have again: "wp (get_map ue (actual + 0x2000) d) (\<lambda>_ t. handed ue (ld_info t) (ld_fw t) \<and> same_fb (ld_info t) (ld_info s))
      (\<lambda>msg _. msg = ''cannot allocate pool for mmap.'') s'"
    if "ld_fw s' = f2 \<and> es = Map_too_small \<or> ld_fw s' = f3 \<and> \<not> left" "same_fb (ld_info s') (ld_info s)" for s'
  proof (rule wp_conseq[OF less.hyps[of s']], goal_cases)
    case 1
    then show ?case using that(1) f0 f1 f2 f3 up by (auto split: if_splits)
  next
    case 2
    then show ?case using that(2) by (auto simp: same_fb_def)
  qed simp
  have h: "handed ue (i\<lparr>li_mmap_dsize := dsz, li_mmap_size := actual, li_mmap_addr := d\<rparr>) f3"
    if "ok" "es = Map_ok" "left" for i
    using that a g x f2 by (auto simp: handed_def word_le_nat_alt split: if_splits intro!: exI)
  have free: "wp (if ds \<noteq> 0 then call0 (ue_free_pool ue ds) else ret ()) Q E s = Q () (s\<lparr>ld_fw := f0\<rparr>)" for Q E
    by (simp add: f0_def wp_call0 wp_ret)
  show ?case
    by (subst get_map_eq)
      (use f2(4) in \<open>auto simp: wp_bnd free wp_call wp_or_fatal wp_modify wp_ret a g x same_fb_def h split: if_splits
        intro!: again[unfolded same_fb_def]\<close>)
qed


lemma same_fbD:
  assumes "same_fb a b"
  shows "li_base a = li_base b" "li_width a = li_width b" "li_height a = li_height b" "li_bpp a = li_bpp b"
    "li_stack_top a = li_stack_top b"
  using assms by (cases a; cases b; simp add: same_fb_def)+

lemma wp_call0_bnd: "wp (f ()) Q E (s\<lparr>ld_fw := c (ld_fw s)\<rparr>) \<Longrightarrow> wp (bnd (call0 c) f) Q E s"
  by (simp add: wp_bnd wp_call0)

text \<open>The kernel was read to \<open>KERNEL_ADDR\<close>, into pages the firmware had just given for it.\<close>

definition kernel_loaded :: "'f uefi \<Rightarrow> bool" where
  "kernel_loaded ue \<longleftrightarrow> (\<exists>n m f f1 f2. ue_alloc_at ue (kernel_pages n) KERNEL_ADDR f = (True, f1) \<and>
     ue_read ue n KERNEL_ADDR f1 = ((True, m), f2))"

lemma kernel_pages_cover: "unat n + 0xfff < 2 ^ 64 \<Longrightarrow> unat n + 64 * 0x1000 \<le> unat (kernel_pages n) * 0x1000"
proof -
  assume n: "unat n + 0xfff < 2 ^ 64"
  define x where "x = (n + 0xfff) div 0x1000"
  have "unat (n + 0xfff) = unat n + 0xfff" using n by (simp add: unat_word_ariths)
  then have x: "unat x = (unat n + 0xfff) div 0x1000" unfolding x_def by (simp only: unat_div) simp
  then have "unat x + 64 < 2 ^ 64" using n by linarith
  then have "unat (x + 64) = unat x + 64" by (simp add: unat_word_ariths)
  then have "unat (kernel_pages n) = (unat n + 0xfff) div 0x1000 + 64" by (simp only: kernel_pages_def x_def[symmetric] x)
  then show ?thesis by simp
qed

lemma read_kernel_spec:
  "wp (read_kernel ue) (\<lambda>_ t. kernel_loaded ue \<and> ld_info t = ld_info s)
     (\<lambda>msg _. msg \<in> {''cannot open kernel.'', ''Allocate fail.'', ''file read error.''}) s"
proof -
  obtain ok1 f1 where 1: "ue_open ue (ld_fw s) = (ok1, f1)" by (metis surj_pair)
  obtain n f2 where 2: "ue_file_size ue f1 = (n, f2)" by (metis surj_pair)
  obtain ok3 f3 where 3: "ue_alloc_at ue (kernel_pages n) KERNEL_ADDR f2 = (ok3, f3)" by (metis surj_pair)
  obtain ok4 m f4 where 4: "ue_read ue n KERNEL_ADDR f3 = ((ok4, m), f4)" by (metis surj_pair)
  have "ok3 \<Longrightarrow> ok4 \<Longrightarrow> kernel_loaded ue" using 3 4 unfolding kernel_loaded_def by (intro exI[of _ n] exI[of _ m] exI[of _ f2] exI[of _ f3] exI[of _ f4]) simp
  then show ?thesis unfolding read_kernel_def by (simp add: wp_rules 1 2 3 4)
qed

definition fb_ready :: "loader_info \<Rightarrow> bool" where
  "fb_ready i \<longleftrightarrow> li_base i \<noteq> 0 \<and> li_width i \<noteq> 0 \<and> li_height i \<noteq> 0 \<and> li_bpp i = 32"

lemma init_framebuf_spec:
  assumes "\<And>f. ue_max_mode ue f = n" and "\<And>i f. fst (ue_query ue i f) = q i"
  shows "wp (init_framebuf ue) (\<lambda>_ t. fb_ready (ld_info t))
     (\<lambda>msg _. msg \<in> {''framebuffer initialization.'', ''no linear framebufer'', ''bad framebuffer.''}) s"
proof -
  have b: "wp (best_mode ue 0 cur 0) Q E s'" if "\<And>x t. Q x t" for cur Q E s'
    by (rule wp_conseq[OF best_mode_loop[OF assms, where i = 0 and cur = cur]]) (auto simp: best_below_def that)
  show ?thesis unfolding init_framebuf_def
    by (auto simp: wp_rules fb_ready_def split: prod.splits option.splits if_splits intro!: b)
qed



subsection \<open>A firmware\<close>

text \<open>A firmware with three modes, a file of 5000 bytes, a frame buffer and a map that an allocation makes longer; it
  refuses to exit as often as the second component of its state says.\<close>

definition demo_fw :: "(u32 \<times> nat) uefi" where
  "demo_fw = \<lparr>ue_init = id, ue_print = (\<lambda>_. id), ue_volume = id, ue_open = Pair True, ue_file_size = Pair 5000,
     ue_alloc_at = (\<lambda>_ _. Pair True), ue_read = (\<lambda>n _. Pair (True, n)), ue_close = id, ue_gop = Pair (True, 0x5000),
     ue_mode = (\<lambda>_. 2), ue_max_mode = (\<lambda>_. 4),
     ue_query = (\<lambda>i. Pair ([Some (0x6000, 640, 480), Some (0x6000, 1024, 768), None, Some (0x6000, 800, 600)] ! unat i)),
     ue_set_mode = (\<lambda>_. id), ue_info = (\<lambda>_. \<lparr>gi_width = 1024, gi_height = 768, gi_format = BlueGreenRed,
       gi_masks = (0, 0, 0, 0), gi_line = 1024\<rparr>), ue_base = (\<lambda>_. (0x80000000, 0x300000)),
     ue_alloc_pages = (\<lambda>_. Pair 0x700000),
     ue_alloc_pool = (\<lambda>_ f. ((True, 0x9000), if fst f < 0x3000 then (fst f + 48, snd f) else f)),
     ue_free_pool = (\<lambda>_. id),
     ue_get_map = (\<lambda>n _ f. ((if unat (fst f) \<le> unat n then Map_ok else Map_too_small, ucast (fst f), 7, 48), f)),
     ue_exit = (\<lambda>_ f. (snd f = 0, (fst f, snd f - 1)))\<rparr>"

lemma demo_fw_settles: "maps_settle demo_fw (unat \<circ> fst) snd"
proof -
  have "unat (v :: u32) < 2 ^ 63" for v using unsigned_less[of v, where ?'a = nat] by simp
  moreover have "unat (v + 48) = unat v + 48" if "(v :: u32) < 0x3000" for v
    using that by (simp add: word_less_nat_alt unat_word_ariths)
  ultimately show ?thesis by (auto simp: maps_settle_def demo_fw_def unat_ucast_u64)
qed

definition demo_info :: loader_info where
  "demo_info = \<lparr>li_base = 0, li_size = 0, li_width = 0, li_height = 0, li_pitch = 0, li_bpp = 0,
     li_masks = (0, 0, 0, 0), li_mmap_addr = 0, li_mmap_size = 0, li_mmap_dsize = 0, li_stack_top = 0\<rparr>"

lemma demo_fw_modes: "ue_max_mode demo_fw f = 4" "fst (ue_query demo_fw i f) = fst (ue_query demo_fw i (0, 0))"
  by (simp_all add: demo_fw_def)

theorem best_mode_largest_witness:
  "\<exists>t. best_mode demo_fw 0 2 0 \<lparr>ld_fw = (0, 0), ld_info = demo_info\<rparr> = Some (Inr 1, t)"
proof -
  define px where "px = mode_pixels (\<lambda>i. fst (ue_query demo_fw i (0, 0)))"
  have px: "px 0 = 0x4b000" "px 1 = 0xc0000" "px 2 = 0" "px 3 = 0x75300"
    by (simp_all add: px_def mode_pixels_def demo_fw_def)
  have four: "i < 4 \<longleftrightarrow> i = 0 \<or> i = 1 \<or> i = 2 \<or> i = 3" for i :: u32
    by (auto simp: word_less_nat_alt word_unat_eq_iff)
  have "\<exists>i<4. px i \<noteq> 0" using px(1) by (intro exI[of _ 0]) simp
  moreover have "b = 1" if "b < 4" "\<forall>i<4. px i \<le> px b" for b
  proof -
    have "px 1 \<le> px b" using that(2) by (simp add: four)
    then show ?thesis using that(1) unfolding four by (auto simp: px)
  qed
  ultimately show ?thesis
    using best_mode_largest[of demo_fw 4 "\<lambda>i. fst (ue_query demo_fw i (0, 0))" 2 "\<lparr>ld_fw = (0, 0), ld_info = demo_info\<rparr>",
        OF demo_fw_modes]
    unfolding px_def[symmetric] by (auto simp: wp_def split: option.splits sum.splits)
qed

lemma demo_best_mode: "best_mode demo_fw 0 2 0 s = Some (Inr 1, s)"
  by (subst best_mode_eq, simp add: bnd_def gets_def call_def call0_def modify_def demo_fw_def)+
    (simp add: ret_def)

lemma demo_get_map: "\<exists>t. get_map demo_fw 0x1000 0 \<lparr>ld_fw = (0x2000, 2), ld_info = i\<rparr> = Some (Inr (), t) \<and>
    li_stack_top (ld_info t) = li_stack_top i"
  by (subst get_map_eq, simp add: bnd_def or_fatal_def call_def call0_def modify_def ret_def demo_fw_def)+

lemma demo_calls:
  "ue_init demo_fw = id" "ue_print demo_fw = (\<lambda>_. id)" "ue_volume demo_fw = id" "ue_open demo_fw = Pair True"
  "ue_file_size demo_fw = Pair 5000" "ue_alloc_at demo_fw = (\<lambda>_ _. Pair True)"
  "ue_read demo_fw = (\<lambda>n _. Pair (True, n))" "ue_close demo_fw = id" "ue_gop demo_fw = Pair (True, 0x5000)"
  "ue_mode demo_fw = (\<lambda>_. 2)" "ue_set_mode demo_fw = (\<lambda>_. id)"
  "ue_info demo_fw = (\<lambda>_. \<lparr>gi_width = 1024, gi_height = 768, gi_format = BlueGreenRed,
     gi_masks = (0, 0, 0, 0), gi_line = 1024\<rparr>)" "ue_base demo_fw = (\<lambda>_. (0x80000000, 0x300000))"
  "ue_alloc_pages demo_fw = (\<lambda>_. Pair 0x700000)"
  by (simp_all add: demo_fw_def)

lemma demo_read_kernel: "read_kernel demo_fw s = Some (Inr 5000, s)"
  by (simp add: read_kernel_def bnd_def or_fatal_def call_def call0_def modify_def ret_def demo_calls)

lemma demo_init_framebuf: "\<exists>i. init_framebuf demo_fw s = Some (Inr (), s\<lparr>ld_info := i\<rparr>)"
  by (intro exI) (simp add: init_framebuf_def bnd_def gets_def or_fatal_def call_def call0_def modify_def ret_def
    demo_calls demo_best_mode fb_masks_def)

lemma demo_efi_main:
  "\<exists>t. efi_main demo_fw \<lparr>ld_fw = (0x2000, 2), ld_info = demo_info\<rparr> = Some (Inr (0x100000, 0x720000), t)"
proof -
  obtain i where i: "init_framebuf demo_fw \<lparr>ld_fw = (0x2000, 2), ld_info = demo_info\<rparr>
      = Some (Inr (), \<lparr>ld_fw = (0x2000, 2), ld_info = i\<rparr>)"
    using demo_init_framebuf[of "\<lparr>ld_fw = (0x2000, 2), ld_info = demo_info\<rparr>"] by auto
  obtain t where t: "get_map demo_fw 0x1000 0 \<lparr>ld_fw = (0x2000, 2), ld_info = i\<lparr>li_stack_top := 0x720000\<rparr>\<rparr> = Some (Inr (), t)"
    "li_stack_top (ld_info t) = 0x720000"
    using demo_get_map[of "i\<lparr>li_stack_top := 0x720000\<rparr>"] by auto
  show ?thesis
    by (simp add: efi_main_def bnd_def call_def call0_def modify_def gets_def demo_calls demo_read_kernel i t)
qed


end
