(* ===== verification/Spec2Isabelle.thy ===== *)
theory Spec2Isabelle
  imports Fat_Names Fat_Chain Fat_Search Fat_Content Fat_Mount Fat_Volume Fat_List
    Kernel_Stream Kernel_Keyboard Kernel_Pmm Kernel_Disk Kernel_Gpt Kernel_Fat32 Kernel_Console Kernel_Cpu Kernel_Gdt
    Kernel_Files Kernel_Syscall Kernel_App Libc_String Libc_Calls Libc_Mutex Terminal Kernel_Main Boot_Loader
begin

text \<open>
  TRS (Tsezar Reliable System) is a small 64-bit operating system in C: a UEFI boot loader, a kernel with drivers
  for the frame buffer, the keyboard, the interrupt controllers and ATA disks, a FAT32 driver that the kernel runs on
  the EFI system partition, eight system calls, a C library over them and a terminal program.  This development
  models all of its C functions and proves what makes each part correct.

  \<^bold>\<open>How the parts interact.\<close>  The boot loader (\<open>bootloader/uefi/boot.c\<close>) reads the kernel, picks a video mode,
  takes the memory map and jumps to \<open>kmain\<close> (\<open>kernel/kernel.c\<close>) with a \<open>boot_info_t\<close>.  \<open>kmain\<close> fills the
  descriptor tables, routes the interrupts, builds the page bitmap, probes the disks, installs the system calls,
  mounts the system partition and, after a key, loads and calls the terminal.  The terminal (\<open>terminal/\<close>) calls the
  library (\<open>libc/\<close>), the library the system call of vector \<open>0x77\<close> (\<open>kernel/sys.c\<close>), and that the console, the
  keyboard stream and the table of open directories (\<open>kernel/driver/fat32.c\<close>), which stands on the FAT32 driver
  (\<open>trfs/fat32/fat.c\<close>) over the ATA driver (\<open>kernel/driver/disk.c\<close>).

  \<^bold>\<open>Style of the model\<close> (\<open>Prelude\<close>).  Integers keep their C width as words, bytes lie in lists, structs are
  records.  A function that changes state and returns an error code is a program
  \<open>'s \<Rightarrow> (('e + 'a) \<times> 's) option\<close>: \<open>None\<close> is a run that never returns, \<open>Inl\<close> an error, \<open>Inr\<close> a result,
  each with the state the code leaves.  \<open>wp m Q E s\<close> is total correctness: the run returns, with \<open>Q\<close> or with the
  error \<open>E\<close>.  \<open>keeps\<close> is an invariant of all runs.  Loops with a bound in the code are recursive functions, all
  others \<open>partial_function (option)\<close> without fuel, so that returning is part of what is proved; the only counter is
  the \<open>10000000\<close> polls after which the ATA driver itself gives up (\<open>ATA_SPINS\<close>).

  \<^bold>\<open>FAT32 driver\<close> (\<open>trfs/fat32/fat.c\<close>, \<open>fat.h\<close>).
  \<^item> \<open>Fat_Types\<close>: structs, flags, error codes.  \<open>Fat_Names\<close>: path components, 8.3 names and their checksum, long
    name fragments, time stamps.
  \<^item> \<open>Fat_Cache\<close>: \<open>sync_buf\<close>, \<open>update_buf\<close>, \<open>sync_fs\<close> over the callbacks \<open>DiskOps\<close>.  The locale \<open>block_dev\<close> is
    what the driver needs of them; the view \<open>lview\<close> is the disk as the driver sees it through its cache, and every
    operation keeps it.  Interpretations: a RAM disk with bad sectors (\<open>Ram_Disk\<close>), one without
    (\<open>Fat_Content\<close>), and the ATA disk of the kernel (\<open>Kernel_Fat32\<close>).
  \<^item> \<open>Fat_Table\<close>, \<open>Fat_Chain\<close>: table entries, \<open>remove_chain\<close>, \<open>stretch_chain\<close>, \<open>create_chain\<close>, \<open>clust_clear\<close>
    against the table as a function from clusters to entries (\<open>fat_val\<close>) and its chains (\<open>fat_chain\<close>).
  \<^item> \<open>Fat_Dir\<close>: walking, searching, paths, adding and removing entries.  \<open>Fat_Walk\<close> and \<open>Fat_Search\<close> prove that on
    a well-formed directory \<open>dir_search\<close> computes the search \<open>dir_find\<close> over the list of its entries, and that it
    finds what \<open>dir_add\<close> stores; \<open>Fat_List\<close> does the same for reading a directory.
  \<^item> \<open>Fat_File\<close>: seek, read, write, sync, close.  \<open>Fat_Bytes\<close>, \<open>Fat_Seek\<close>, \<open>Fat_Access\<close> and \<open>Fat_Content\<close>
    abstract an open file to the bytes of its chain and prove reading and writing over them.
  \<^item> \<open>Fat_Api\<close>: the functions that take a path.  \<open>Fat_Mount\<close>, \<open>Fat_Volume\<close>: probing, mounting and unmounting, with
    the list of volumes as a heap of linked structs, and the layout a successful mount establishes.

  \<^bold>\<open>Kernel.\<close>
  \<^item> \<open>Kernel_Pmm\<close> (\<open>memory_paging.c\<close>): the page bitmap.  \<open>Kernel_Stream\<close> (\<open>stream.c\<close>): ring buffer and blocking
    stream; the locale \<open>bounded_queue\<close> is its contract, and the interrupts between two polls are a sequence.
    \<open>Kernel_Keyboard\<close> (\<open>driver/keyboard.c\<close>): scan codes to characters against a typing specification.
  \<^item> \<open>Kernel_Disk\<close> (\<open>driver/disk.c\<close>) over port instructions that are a parameter, run on a model of an ATA drive;
    \<open>Kernel_Gpt\<close> (\<open>driver/gpt.c\<close>): the partition search; \<open>Kernel_Fat32\<close> and \<open>Kernel_Files\<close>
    (\<open>driver/fat32.c\<close>): callbacks, mounting, and the ten open directories.
  \<^item> \<open>Kernel_Console\<close> (\<open>driver/image.c\<close>): glyphs and scrolling against a teletype on a plane of pixels, inside the
    frame buffer for every sequence of calls.  \<open>Kernel_Cpu\<close> (\<open>panic.c\<close>, \<open>cpu/idt.c\<close>, \<open>cpu/pic.c\<close>): the
    reports, the gates and the dispatcher, run on a pair of 8259 controllers.  \<open>Kernel_Gdt\<close> (\<open>cpu/gdt.c\<close>).
  \<^item> \<open>Kernel_Syscall\<close> (\<open>sys.c\<close>): the system calls over the memory of the program, with an abstract line editor.
    \<open>Kernel_App\<close> (\<open>app.c\<close>): loading a program.  \<open>Kernel_Main\<close> (\<open>kernel.c\<close>): the whole start.

  \<^bold>\<open>Library, terminal, boot loader.\<close>  \<open>Libc_String\<close> (\<open>string.c\<close>), \<open>Libc_Calls\<close> (\<open>syscall.c\<close>, \<open>stdio.c\<close>,
  \<open>dirent.c\<close>, \<open>mem.c\<close>), \<open>Libc_Mutex\<close> (\<open>mutex.c\<close>, threads as an interleaving step relation),
  \<open>Terminal_Words\<close> and \<open>Terminal\<close> (\<open>tmain.c\<close>, \<open>comands.c\<close>: a store behind an array is the error
  \<open>Overflow\<close>), \<open>Boot_Loader\<close> (\<open>boot.c\<close> over a record of the firmware calls).

  \<^bold>\<open>Hypotheses.\<close>  \<open>block_dev\<close>: a read or write of a sector succeeds with its contents or fails, and keeps the other
  sectors.  The geometry predicates (\<open>geom_ok\<close>, \<open>data_geom\<close>, \<open>dir_geom\<close>) say that the regions of a volume do not
  overlap and that the data area starts at a multiple of the cluster size; \<open>fat_mount_establishes\<close> says when mounting
  gives them.  \<open>maps_settle\<close> is what \<open>GetMemoryMap\<close> and \<open>ExitBootServices\<close> document.  Each property with
  hypotheses has a witness on a concrete volume, drive, console or firmware.

  \<^bold>\<open>What the proofs show of the code's mistakes.\<close>  Some theorems state behaviour the authors cannot have
  wanted: the search for a free cluster that never ends (\<open>create_chain_full_hangs\<close>), the write on a full volume that
  reports success (\<open>fat_file_write_full\<close>), the partition search that sees one entry only
  (\<open>gpt_finds_only_first\<close>), the overflow by an argument of \<open>wh\<close> (\<open>wh_argument_overflows\<close>), the page bitmap test
  that reads several bits, the 32-bit limit of the 28-bit disk addresses, and others that the text of the theories
  names where the definitions follow the code in them.

  \<^bold>\<open>Not modelled.\<close>  The assembly files (\<open>kernel/entry.asm\<close>, \<open>cpu/idt_asm.asm\<close>, \<open>terminal/entry.asm\<close>), the
  inline instructions that load tables, halt or pause, and \<open>kjump\<close>: they have no effect on the state modelled, and
  what they supply (addresses, registers, entry points) is a parameter.  The linker scripts, the Makefile, the
  font and the disk images are data.  \<open>kernel/inc/process.h\<close> declares a type nothing uses.  The firmware and the
  hardware are parameters; the ATA drive and the interrupt controllers on which the drivers are run are models of
  their standards.  Timing, the memory caches and the concurrent arrival of an interrupt inside a C statement are
  outside the model: interrupts arrive between the polls of a waiting loop.
\<close>

end
